(* ===== verification/Bz_Prelude.thy ===== *)
theory Bz_Prelude
  imports Main "HOL-Library.Word"
begin

text \<open>
  What every component of the development shares: the machine integer types, the result
  type of fallible code, the checked array and shift operations of Rust, and generic
  lemmas about lists and words.

  Faults. A Rust function of this program can leave its normal path in three ways, and
  the model keeps them apart: \<open>BlockError s\<close> is the error value \<open>Err(BlockError(s))\<close>;
  \<open>Panic s\<close> is a panic (index out of bounds, a failed \<open>assert!\<close>, an arithmetic or shift
  overflow of a checked build, a \<open>debug_assert!\<close>); \<open>Undefined s\<close> is an access through a
  raw pointer outside the allocation it points into. A theorem that a function returns
  \<open>Inr\<close> therefore excludes all three, and holds for checked and release builds alike.
\<close>

unbundle bit_operations_syntax

type_synonym u8 = "8 word"
type_synonym u16 = "16 word"
type_synonym u32 = "32 word"
type_synonym u64 = "64 word"

datatype fault = BlockError string | Panic string | Undefined string

type_synonym 'a result = "fault + 'a"

named_theorems result_simps \<open>inversion of the result monad\<close>

subsection \<open>Sequencing of fallible code: the operator \<open>?\<close>\<close>

fun bindE :: "'a result \<Rightarrow> ('a \<Rightarrow> 'b result) \<Rightarrow> 'b result" where
  "bindE (Inl e) k = Inl e"
| "bindE (Inr x) k = k x"

lemma bindE_cong [fundef_cong]:
  "m = m' \<Longrightarrow> (\<And>x. m' = Inr x \<Longrightarrow> k x = k' x) \<Longrightarrow> bindE m k = bindE m' k'"
  by (cases m') auto

lemma bindE_Inr_iff [result_simps]: "bindE m k = Inr y \<longleftrightarrow> (\<exists>x. m = Inr x \<and> k x = Inr y)"
  by (cases m) auto

lemma bindE_Inl_iff [result_simps]:
  "bindE m k = Inl e \<longleftrightarrow> m = Inl e \<or> (\<exists>x. m = Inr x \<and> k x = Inl e)"
  by (cases m) auto

lemma bindE_assoc: "bindE (bindE m k) h = bindE m (\<lambda>x. bindE (k x) h)"
  by (cases m) auto

definition ok_or :: "fault \<Rightarrow> 'a option \<Rightarrow> 'a result" where
  "ok_or e v = (case v of None \<Rightarrow> Inl e | Some x \<Rightarrow> Inr x)"

lemma ok_or_simps [simp]: "ok_or e None = Inl e" "ok_or e (Some x) = Inr x"
  by (simp_all add: ok_or_def)

lemma ok_or_Inr_iff [result_simps]: "ok_or e v = Inr x \<longleftrightarrow> v = Some x"
  by (cases v) auto

lemma ok_or_Inl_iff [result_simps]: "ok_or e v = Inl f \<longleftrightarrow> v = None \<and> f = e"
  by (cases v) auto

text \<open>A fallible function over a list, from the left, up to the first fault.\<close>

fun mapE :: "('a \<Rightarrow> 'b result) \<Rightarrow> 'a list \<Rightarrow> 'b list result" where
  "mapE f [] = Inr []"
| "mapE f (x # xs) = bindE (f x) (\<lambda>y. bindE (mapE f xs) (\<lambda>ys. Inr (y # ys)))"

lemma mapE_Inr_iff [result_simps]:
  "mapE f xs = Inr ys \<longleftrightarrow> length ys = length xs \<and> (\<forall>i<length xs. f (xs ! i) = Inr (ys ! i))"
proof (induction xs arbitrary: ys)
  case Nil
  then show ?case by auto
next
  case (Cons x xs)
  show ?case
  proof (cases ys)
    case Nil
    then show ?thesis by (auto simp: bindE_Inr_iff)
  next
    case (Cons y zs)
    then show ?thesis using Cons.IH [of zs] by (auto simp: bindE_Inr_iff less_Suc_eq_0_disj)
  qed
qed

lemma mapE_Inl: "mapE f xs = Inl e \<Longrightarrow> \<exists>x\<in>set xs. f x = Inl e"
  by (induction xs) (auto simp: bindE_Inl_iff)

lemma mapE_cong: "(\<And>x. x \<in> set xs \<Longrightarrow> f x = g x) \<Longrightarrow> mapE f xs = mapE g xs"
  by (induction xs) auto

lemma mapE_pure: "(\<And>x. x \<in> set xs \<Longrightarrow> f x = Inr (g x)) \<Longrightarrow> mapE f xs = Inr (map g xs)"
  by (induction xs) auto

text \<open>
  An error value kept as a value: \<open>Err(BlockError(s))\<close> stored in a vector or matched on, while a
  panic or an undefined access is not.
\<close>

definition caught :: "'a result \<Rightarrow> (string + 'a) result" where
  "caught m = (case m of Inr x \<Rightarrow> Inr (Inr x) | Inl (BlockError msg) \<Rightarrow> Inr (Inl msg) | Inl e \<Rightarrow> Inl e)"

lemma caught_simps [simp]:
  "caught (Inr x) = Inr (Inr x)" "caught (Inl (BlockError msg)) = Inr (Inl msg)"
  "caught (Inl (Panic msg)) = Inl (Panic msg)" "caught (Inl (Undefined msg)) = Inl (Undefined msg)"
  by (simp_all add: caught_def)

lemma caught_Inl_iff [result_simps]: "caught m = Inl e \<longleftrightarrow> m = Inl e \<and> (\<forall>msg. e \<noteq> BlockError msg)"
  by (auto simp: caught_def split: sum.splits fault.splits)

lemma caught_Inr_iff [result_simps]:
  "caught m = Inr v \<longleftrightarrow> (\<exists>x. v = Inr x \<and> m = Inr x) \<or> (\<exists>msg. v = Inl msg \<and> m = Inl (BlockError msg))"
  by (auto simp: caught_def split: sum.splits fault.splits)

lemma mapE_caught: "mapE f xs = Inr vs \<Longrightarrow> mapE (\<lambda>x. caught (f x)) xs = Inr (map Inr vs)"
  by (auto simp: mapE_Inr_iff)

subsection \<open>Checked array accesses and shifts\<close>

definition index :: "'a list \<Rightarrow> nat \<Rightarrow> 'a result" where
  "index xs i = (if i < length xs then Inr (xs ! i) else Inl (Panic ''index out of bounds''))"

definition store :: "'a list \<Rightarrow> nat \<Rightarrow> 'a \<Rightarrow> 'a list result" where
  "store xs i x = (if i < length xs then Inr (xs[i := x]) else Inl (Panic ''index out of bounds''))"

definition shl64 :: "u64 \<Rightarrow> nat \<Rightarrow> u64 result" where
  "shl64 w k = (if k < 64 then Inr (push_bit k w) else Inl (Panic ''shift left overflow''))"

definition shr64 :: "u64 \<Rightarrow> nat \<Rightarrow> u64 result" where
  "shr64 w k = (if k < 64 then Inr (drop_bit k w) else Inl (Panic ''shift right overflow''))"

definition sub_checked :: "nat \<Rightarrow> nat \<Rightarrow> nat result" where
  "sub_checked a b = (if b \<le> a then Inr (a - b) else Inl (Panic ''subtract with overflow''))"

definition add32 :: "u32 \<Rightarrow> u32 \<Rightarrow> u32 result" where
  "add32 a b = (if unat a + unat b < 2 ^ 32 then Inr (a + b) else Inl (Panic ''add with overflow''))"

definition guard :: "bool \<Rightarrow> fault \<Rightarrow> unit result" where
  "guard b e = (if b then Inr () else Inl e)"

lemma index_in [simp]: "i < length xs \<Longrightarrow> index xs i = Inr (xs ! i)"
  by (simp add: index_def)

lemma store_in [simp]: "i < length xs \<Longrightarrow> store xs i x = Inr (xs[i := x])"
  by (simp add: store_def)

lemma shl64_in [simp]: "k < 64 \<Longrightarrow> shl64 w k = Inr (push_bit k w)"
  by (simp add: shl64_def)

lemma shr64_in [simp]: "k < 64 \<Longrightarrow> shr64 w k = Inr (drop_bit k w)"
  by (simp add: shr64_def)

lemma sub_checked_in [simp]: "b \<le> a \<Longrightarrow> sub_checked a b = Inr (a - b)"
  by (simp add: sub_checked_def)

lemma guard_simps [simp]: "guard True e = Inr ()" "guard False e = Inl e"
  by (simp_all add: guard_def)

lemma guard_Inr_iff [result_simps]: "guard b e = Inr u \<longleftrightarrow> b"
  by (simp add: guard_def)

lemma index_Inr_iff [result_simps]: "index xs i = Inr x \<longleftrightarrow> i < length xs \<and> x = xs ! i"
  by (auto simp: index_def)

lemma store_Inr_iff [result_simps]: "store xs i x = Inr ys \<longleftrightarrow> i < length xs \<and> ys = xs[i := x]"
  by (auto simp: store_def)

lemma sub_checked_Inr_iff [result_simps]: "sub_checked a b = Inr c \<longleftrightarrow> b \<le> a \<and> c = a - b"
  by (auto simp: sub_checked_def)

lemma shl64_Inr_iff [result_simps]: "shl64 w k = Inr v \<longleftrightarrow> k < 64 \<and> v = push_bit k w"
  by (auto simp: shl64_def)

lemma shr64_Inr_iff [result_simps]: "shr64 w k = Inr v \<longleftrightarrow> k < 64 \<and> v = drop_bit k w"
  by (auto simp: shr64_def)

subsection \<open>Bits of words, most significant first\<close>

definition word_of_bits :: "bool list \<Rightarrow> 'a::len word" where
  "word_of_bits bs = horner_sum of_bool 2 (rev bs)"

lemma bit_word_of_bits:
  "bit (word_of_bits bs :: 'a::len word) i \<longleftrightarrow> i < LENGTH('a) \<and> i < length bs \<and> bs ! (length bs - 1 - i)"
  by (auto simp: word_of_bits_def bit_horner_sum_bit_word_iff rev_nth)

definition nat_of_bits :: "bool list \<Rightarrow> nat" where
  "nat_of_bits bs = horner_sum of_bool 2 (rev bs)"

lemma nat_of_bits_Nil [simp]: "nat_of_bits [] = 0"
  by (simp add: nat_of_bits_def)

lemma nat_of_bits_snoc: "nat_of_bits (bs @ [b]) = 2 * nat_of_bits bs + of_bool b"
  by (simp add: nat_of_bits_def)

lemma nat_of_bits_append: "nat_of_bits (xs @ ys) = nat_of_bits xs * 2 ^ length ys + nat_of_bits ys"
proof (induction ys rule: rev_induct)
  case Nil
  then show ?case by simp
next
  case (snoc y ys)
  have "nat_of_bits (xs @ ys @ [y]) = 2 * nat_of_bits (xs @ ys) + of_bool y"
    using nat_of_bits_snoc [of "xs @ ys" y] by simp
  with snoc.IH show ?case by (simp add: nat_of_bits_snoc algebra_simps)
qed

lemma nat_of_bits_bound: "nat_of_bits bs < 2 ^ length bs"
proof (induction bs rule: rev_induct)
  case (snoc b bs)
  then show ?case by (cases b) (auto simp: nat_of_bits_snoc)
qed simp

lemma unat_of_nat_small:
  "n < 2 ^ LENGTH('a) \<Longrightarrow> unat (of_nat n :: 'a::len word) = n"
  by (simp add: unat_of_nat take_bit_nat_eq_self)

lemma unat_u8_less: "unat (w :: u8) < 256"
  using unsigned_less [of w, where 'a = nat] by simp

lemma unat_word_of_bits:
  assumes "length bs \<le> LENGTH('a)"
  shows "unat (word_of_bits bs :: 'a::len word) = nat_of_bits bs"
  using assms
proof (induction bs rule: rev_induct)
  case Nil
  show ?case by (simp add: word_of_bits_def)
next
  case (snoc b bs)
  then have IH: "unat (word_of_bits bs :: 'a word) = nat_of_bits bs" by simp
  have "nat_of_bits (bs @ [b]) < 2 ^ LENGTH('a)"
    using nat_of_bits_bound [of "bs @ [b]"] snoc.prems
    by (meson order_less_le_trans one_le_numeral power_increasing)
  then have small: "2 * nat_of_bits bs + of_bool b < 2 ^ LENGTH('a)"
    by (simp add: nat_of_bits_snoc)
  have "word_of_bits (bs @ [b]) = (of_bool b + 2 * word_of_bits bs :: 'a word)"
    by (simp add: word_of_bits_def)
  also have "\<dots> = of_bool b + 2 * of_nat (nat_of_bits bs)"
    by (simp add: IH [symmetric])
  also have "\<dots> = of_nat (2 * nat_of_bits bs + of_bool b)"
    by simp
  finally have "word_of_bits (bs @ [b]) = (of_nat (2 * nat_of_bits bs + of_bool b) :: 'a word)" .
  then show ?case using unat_of_nat_small [OF small] by (simp only: nat_of_bits_snoc)
qed

lemma unat_word_of_bits_append:
  assumes "length xs + length ys \<le> LENGTH('a)"
  shows "unat (word_of_bits (xs @ ys) :: 'a::len word) =
    unat (word_of_bits xs :: 'a word) * 2 ^ length ys + unat (word_of_bits ys :: 'a word)"
  using assms by (simp add: unat_word_of_bits nat_of_bits_append)

lemma unat_push_bit_small:
  "unat w * 2 ^ k < 2 ^ LENGTH('a) \<Longrightarrow> unat (push_bit k (w :: 'a::len word)) = unat w * 2 ^ k"
  unfolding unsigned_push_bit_eq by (simp add: take_bit_nat_eq_self push_bit_eq_mult [of k "unat w"])

lemma add32_of_nat: "m + n < 2 ^ 32 \<Longrightarrow> add32 (of_nat m) (of_nat n) = Inr (of_nat (m + n))"
  by (simp add: add32_def unat_of_nat_small)

lemma add32_Inr_iff [result_simps]: "add32 a b = Inr c \<longleftrightarrow> unat a + unat b < 2 ^ 32 \<and> c = a + b"
  by (auto simp: add32_def)

text \<open>\<open>u64::from_be_bytes\<close>: the first byte is the most significant.\<close>

definition be_word :: "u8 list \<Rightarrow> u64" where
  "be_word ws = foldl (\<lambda>a w. push_bit 8 a OR ucast w) 0 ws"

lemma bit_be_word:
  "i < 64 \<Longrightarrow> bit (be_word ws) i \<longleftrightarrow> i div 8 < length ws \<and> bit (ws ! (length ws - 1 - i div 8)) (i mod 8)"
proof (induction ws arbitrary: i rule: rev_induct)
  case Nil
  then show ?case by (simp add: be_word_def)
next
  case (snoc w ws)
  have step: "be_word (ws @ [w]) = push_bit 8 (be_word ws) OR ucast w"
    by (simp add: be_word_def)
  show ?case
  proof (cases "i < 8")
    case True
    then show ?thesis
      using snoc.prems by (auto simp: step bit_or_iff bit_push_bit_iff bit_ucast_iff nth_append)
  next
    case False
    then obtain j where i: "i = j + 8"
      by (metis add.commute le_Suc_ex not_less)
    have "\<not> bit (ucast w :: u64) i"
      using False by (auto simp: bit_ucast_iff dest: bit_imp_le_length)
    then have "bit (be_word (ws @ [w])) i = bit (be_word ws) j"
      using snoc.prems by (simp add: step bit_or_iff bit_push_bit_iff i)
    also have "\<dots> = (j div 8 < length ws \<and> bit (ws ! (length ws - 1 - j div 8)) (j mod 8))"
      using snoc.prems by (intro snoc.IH) (simp add: i)
    finally show ?thesis
      using div_add_self2 [of 8 j] by (auto simp: i nth_append)
  qed
qed

end
