(* ===== verification/Bit_Reader.thy ===== *)
theory Bit_Reader
  imports Bz_Prelude
begin

text \<open>
  The buffered bit reader of \<^verbatim>\<open>src/src/bitreader.rs\<close>. The record \<open>bitreader\<close> has the fields
  of the Rust struct; every operation takes the reader and returns the changed one. The
  abstraction \<open>bits_of\<close> maps a reader to the list of bits it has still to deliver; the
  invariant \<open>reader_ok\<close> says how the 64-bit shift register agrees with the byte slice,
  including the bits of a partly loaded byte below the counted ones. Under the invariant
  every operation implements the corresponding operation on bit lists and never panics.
\<close>

unbundle bit_operations_syntax

record bitreader =
  bytes :: "u8 list"
  byte_pos :: nat
  buf :: u64
  bits_in_buf :: nat

subsection \<open>Operations\<close>

text \<open>The slow path of \<open>refill\<close>: one byte at a time near the end of the slice.\<close>

function refill_tail :: "bitreader \<Rightarrow> bitreader" where
  "refill_tail r =
     (if bits_in_buf r \<le> 56 \<and> byte_pos r < length (bytes r)
      then refill_tail (r\<lparr>buf := buf r OR push_bit (56 - bits_in_buf r) (ucast (bytes r ! byte_pos r)),
                          byte_pos := byte_pos r + 1,
                          bits_in_buf := bits_in_buf r + 8\<rparr>)
      else r)"
  by pat_completeness auto
termination
  by (relation "measure (\<lambda>r. length (bytes r) - byte_pos r)") auto

declare refill_tail.simps [simp del]

definition refill :: "bitreader \<Rightarrow> bitreader result" where
  "refill r =
     (if byte_pos r + 8 \<le> length (bytes r)
      then let word = be_word (take 8 (drop (byte_pos r) (bytes r)))
           in bindE (shr64 word (bits_in_buf r)) (\<lambda>w.
              let loaded = (64 - bits_in_buf r) div 8
              in Inr (r\<lparr>buf := buf r OR w,
                        byte_pos := byte_pos r + loaded,
                        bits_in_buf := bits_in_buf r + loaded * 8\<rparr>))
      else Inr (refill_tail r))"

definition new_reader :: "u8 list \<Rightarrow> bitreader result" where
  "new_reader bs = refill \<lparr>bytes = bs, byte_pos = 0, buf = 0, bits_in_buf = 0\<rparr>"

definition from_bit_offset :: "u8 list \<Rightarrow> nat \<Rightarrow> bitreader result" where
  "from_bit_offset bs bit_offset =
     (let byte_off = bit_offset div 8; sub_bits = bit_offset mod 8
      in bindE (refill \<lparr>bytes = bs, byte_pos = byte_off, buf = 0, bits_in_buf = 0\<rparr>) (\<lambda>r.
         if sub_bits > 0
         then bindE (shl64 (buf r) sub_bits) (\<lambda>b.
              Inr (r\<lparr>buf := b, bits_in_buf := bits_in_buf r - sub_bits\<rparr>))
         else Inr r))"

definition position :: "bitreader \<Rightarrow> nat result" where
  "position r = sub_checked (byte_pos r * 8) (bits_in_buf r)"

definition remaining :: "bitreader \<Rightarrow> nat result" where
  "remaining r = bindE (sub_checked (length (bytes r)) (byte_pos r)) (\<lambda>n. Inr (n * 8 + bits_in_buf r))"

definition read_bit :: "bitreader \<Rightarrow> (bool option \<times> bitreader) result" where
  "read_bit r =
     bindE (if bits_in_buf r = 0 then refill r else Inr r) (\<lambda>r.
       if bits_in_buf r = 0 then Inr (None, r)
       else let bt = drop_bit 63 (buf r);
                r' = r\<lparr>buf := push_bit 1 (buf r), bits_in_buf := bits_in_buf r - 1\<rparr>
            in bindE (if bits_in_buf r' \<le> 32 then refill r' else Inr r') (\<lambda>r''.
               Inr (Some (bt \<noteq> 0), r'')))"

definition read_bits :: "nat \<Rightarrow> bitreader \<Rightarrow> (u64 option \<times> bitreader) result" where
  "read_bits n r =
     bindE (guard (n \<le> 57) (Panic ''assertion failed: n <= 57'')) (\<lambda>_.
     bindE (if bits_in_buf r < n then refill r else Inr r) (\<lambda>r.
       if bits_in_buf r < n then Inr (None, r)
       else bindE (shr64 (buf r) (64 - n)) (\<lambda>val.
            bindE (shl64 (buf r) n) (\<lambda>b.
            let r' = r\<lparr>buf := b, bits_in_buf := bits_in_buf r - n\<rparr>
            in bindE (if bits_in_buf r' \<le> 32 then refill r' else Inr r') (\<lambda>r''.
               Inr (Some val, r''))))))"

definition read_uint :: "nat \<Rightarrow> nat \<Rightarrow> bitreader \<Rightarrow> ('a::len word option \<times> bitreader) result" where
  "read_uint limit n r =
     bindE (guard (n \<le> limit) (Panic ''assertion failed: n <= limit'')) (\<lambda>_.
     bindE (read_bits n r) (\<lambda>(v, r'). Inr (map_option ucast v, r')))"

definition read_u8 :: "nat \<Rightarrow> bitreader \<Rightarrow> (u8 option \<times> bitreader) result" where
  "read_u8 n r = read_uint 8 n r"

definition read_u16 :: "nat \<Rightarrow> bitreader \<Rightarrow> (u16 option \<times> bitreader) result" where
  "read_u16 n r = read_uint 16 n r"

definition read_u32 :: "nat \<Rightarrow> bitreader \<Rightarrow> (u32 option \<times> bitreader) result" where
  "read_u32 n r = read_uint 32 n r"

definition read_u64 :: "nat \<Rightarrow> bitreader \<Rightarrow> (u64 option \<times> bitreader) result" where
  "read_u64 n r =
     bindE (guard (n \<le> 64) (Panic ''assertion failed: n <= 64'')) (\<lambda>_. read_bits n r)"

function skip :: "nat \<Rightarrow> bitreader \<Rightarrow> bitreader result" where
  "skip left r =
     (if left > 0
      then bindE (if bits_in_buf r = 0 then refill r else Inr r) (\<lambda>r.
             if bits_in_buf r = 0 then Inr r
             else let take = min left (bits_in_buf r)
                  in bindE (shl64 (buf r) take) (\<lambda>b.
                     skip (left - take) (r\<lparr>buf := b, bits_in_buf := bits_in_buf r - take\<rparr>)))
      else Inr r)"
  by pat_completeness auto
termination
  by (relation "measure (\<lambda>(n, r). n)") auto

declare skip.simps [simp del]

definition peek :: "nat \<Rightarrow> bitreader \<Rightarrow> (u64 option \<times> bitreader) result" where
  "peek n r =
     bindE (guard (n \<le> 56) (Panic ''assertion failed: n <= 56'')) (\<lambda>_.
     bindE (if bits_in_buf r < n then refill r else Inr r) (\<lambda>r.
       if bits_in_buf r < n then Inr (None, r)
       else bindE (shr64 (buf r) (64 - n)) (\<lambda>v. Inr (Some v, r))))"

definition consume :: "nat \<Rightarrow> bitreader \<Rightarrow> bitreader result" where
  "consume n r =
     bindE (shl64 (buf r) n) (\<lambda>b.
     bindE (sub_checked (bits_in_buf r) n) (\<lambda>m.
     Inr (r\<lparr>buf := b, bits_in_buf := m\<rparr>)))"

subsection \<open>The bits of a byte slice\<close>

definition stream_bit :: "u8 list \<Rightarrow> nat \<Rightarrow> bool" where
  "stream_bit bs p \<longleftrightarrow> p < 8 * length bs \<and> bit (bs ! (p div 8)) (7 - p mod 8)"

definition stream_bits :: "u8 list \<Rightarrow> bool list" where
  "stream_bits bs = map (stream_bit bs) [0..<8 * length bs]"

definition bit_pos :: "bitreader \<Rightarrow> nat" where
  "bit_pos r = 8 * byte_pos r - bits_in_buf r"

definition bits_of :: "bitreader \<Rightarrow> bool list" where
  "bits_of r = drop (bit_pos r) (stream_bits (bytes r))"

definition reader_ok :: "bitreader \<Rightarrow> bool" where
  "reader_ok r \<longleftrightarrow>
     bits_in_buf r \<le> 64 \<and> bits_in_buf r \<le> 8 * byte_pos r \<and>
     (bits_in_buf r = 0 \<or> byte_pos r \<le> length (bytes r)) \<and>
     (\<forall>i<64. bit (buf r) (63 - i) \<longrightarrow> stream_bit (bytes r) (bit_pos r + i)) \<and>
     (\<forall>i<bits_in_buf r. stream_bit (bytes r) (bit_pos r + i) \<longrightarrow> bit (buf r) (63 - i))"

lemma length_stream_bits [simp]: "length (stream_bits bs) = 8 * length bs"
  by (simp add: stream_bits_def)

lemma nth_stream_bits [simp]: "p < 8 * length bs \<Longrightarrow> stream_bits bs ! p = stream_bit bs p"
  by (simp add: stream_bits_def)

lemma length_bits_of: "length (bits_of r) = 8 * length (bytes r) - bit_pos r"
  by (simp add: bits_of_def)

lemma nth_bits_of: "i < length (bits_of r) \<Longrightarrow> bits_of r ! i = stream_bit (bytes r) (bit_pos r + i)"
  by (simp add: bits_of_def length_bits_of)

lemma stream_bit_beyond: "8 * length bs \<le> p \<Longrightarrow> \<not> stream_bit bs p"
  by (simp add: stream_bit_def)

lemma bits_in_buf_available: "reader_ok r \<Longrightarrow> bits_in_buf r \<le> length (bits_of r)"
  by (auto simp: reader_ok_def length_bits_of bit_pos_def)

lemma bits_of_cong: "bytes r' = bytes r \<Longrightarrow> bit_pos r' = bit_pos r \<Longrightarrow> bits_of r' = bits_of r"
  by (simp add: bits_of_def)

lemma counted_bit:
  assumes "reader_ok r" and "i < bits_in_buf r"
  shows "bit (buf r) (63 - i) \<longleftrightarrow> stream_bit (bytes r) (bit_pos r + i)"
proof -
  have "i < 64" using assms by (simp add: reader_ok_def)
  with assms show ?thesis unfolding reader_ok_def by blast
qed

text \<open>Bits dropped from the front of the shift register move the position forward.\<close>

lemma reader_ok_advance:
  assumes ok: "reader_ok r" and n: "n \<le> bits_in_buf r" "n < 64"
    and b: "b = push_bit n (buf r)"
  shows "reader_ok (r\<lparr>buf := b, bits_in_buf := bits_in_buf r - n\<rparr>)"
    and "bit_pos (r\<lparr>buf := b, bits_in_buf := bits_in_buf r - n\<rparr>) = bit_pos r + n"
    and "bits_of (r\<lparr>buf := b, bits_in_buf := bits_in_buf r - n\<rparr>) = drop n (bits_of r)"
proof -
  let ?r = "r\<lparr>buf := b, bits_in_buf := bits_in_buf r - n\<rparr>"
  show pos: "bit_pos ?r = bit_pos r + n"
    using ok n by (auto simp: bit_pos_def reader_ok_def)
  then show "bits_of ?r = drop n (bits_of r)"
    by (simp add: bits_of_def add.commute)
  have shifted: "bit b (63 - i) \<longleftrightarrow> n + i < 64 \<and> bit (buf r) (63 - (n + i))" if "i < 64" for i
    using that n by (auto simp: b bit_push_bit_iff add.commute)
  show "reader_ok ?r"
    using ok n unfolding reader_ok_def pos
    by (auto simp: shifted add.assoc)
qed

subsection \<open>Refill\<close>

text \<open>Both paths of \<open>refill\<close> keep the position and leave at least 57 bits, or all there are.\<close>

definition refilled :: "bitreader \<Rightarrow> bitreader \<Rightarrow> bool" where
  "refilled r r' \<longleftrightarrow> reader_ok r' \<and> bytes r' = bytes r \<and> bit_pos r' = bit_pos r \<and>
     bits_in_buf r \<le> bits_in_buf r' \<and>
     (57 \<le> bits_in_buf r' \<or> bits_in_buf r' = length (bits_of r'))"

lemma byte_load_bit:
  assumes "k \<le> 56" and "i < 64"
  shows "bit (push_bit (56 - k) (ucast (w :: u8)) :: u64) (63 - i) \<longleftrightarrow> k \<le> i \<and> i < k + 8 \<and> bit w (7 - (i - k))"
proof (cases "k \<le> i")
  case True
  then obtain j where i: "i = k + j" by (auto simp: le_iff_add)
  show ?thesis
  proof (cases "j < 8")
    case True
    then have "63 - i - (56 - k) = 7 - j" "56 - k \<le> 63 - i" "63 - i < 64" "7 - j < 64"
      using assms i by auto
    with True assms show ?thesis by (simp add: bit_push_bit_iff bit_ucast_iff i)
  next
    case False
    then have "\<not> 56 - k \<le> 63 - i" using assms i by simp
    with False show ?thesis by (simp add: bit_push_bit_iff i)
  qed
next
  case False
  then have "8 \<le> 63 - i - (56 - k)" using assms by simp
  then have "\<not> bit (ucast w :: u64) (63 - i - (56 - k))"
    by (auto simp: bit_ucast_iff dest: bit_imp_le_length)
  with False show ?thesis by (simp add: bit_push_bit_iff)
qed

lemma stream_bit_byte:
  "p < length bs \<Longrightarrow> j < 8 \<Longrightarrow> stream_bit bs (8 * p + j) \<longleftrightarrow> bit (bs ! p) (7 - j)"
  by (simp add: stream_bit_def)

lemma refill_tail_ok:
  "reader_ok r \<Longrightarrow> length (bytes r) < byte_pos r + 8 \<Longrightarrow> refilled r (refill_tail r)"
proof (induction r rule: refill_tail.induct)
  case (1 r)
  show ?case
  proof (cases "bits_in_buf r \<le> 56 \<and> byte_pos r < length (bytes r)")
    case False
    then have "refill_tail r = r" by (subst refill_tail.simps) auto
    with False "1.prems" show ?thesis
      by (auto simp: refilled_def length_bits_of bit_pos_def reader_ok_def)
  next
    case True
    let ?w = "push_bit (56 - bits_in_buf r) (ucast (bytes r ! byte_pos r)) :: u64"
    let ?r = "r\<lparr>buf := buf r OR ?w, byte_pos := byte_pos r + 1, bits_in_buf := bits_in_buf r + 8\<rparr>"
    have ok: "reader_ok r" by fact
    have pos: "bit_pos ?r = bit_pos r"
      by (simp add: bit_pos_def)
    have w: "bit ?w (63 - i) \<longleftrightarrow> bits_in_buf r \<le> i \<and> i < bits_in_buf r + 8 \<and> stream_bit (bytes r) (bit_pos r + i)"
      if "i < 64" for i
    proof (cases "bits_in_buf r \<le> i \<and> i < bits_in_buf r + 8")
      case in_byte: True
      then obtain j where i: "i = bits_in_buf r + j" and "j < 8"
        by (metis add_less_cancel_left le_iff_add)
      moreover have "bit_pos r + i = 8 * byte_pos r + j"
        using ok i by (auto simp: bit_pos_def reader_ok_def)
      then have "stream_bit (bytes r) (bit_pos r + i) = stream_bit (bytes r) (8 * byte_pos r + j)"
        by (rule arg_cong)
      ultimately show ?thesis
        using True that stream_bit_byte [of "byte_pos r" "bytes r" j]
        by (simp add: byte_load_bit)
    next
      case False
      with True that show ?thesis by (auto simp: byte_load_bit)
    qed
    have "reader_ok ?r"
      unfolding reader_ok_def pos
    proof (intro conjI allI impI)
      fix i :: nat
      assume i: "i < 64" and "bit (buf ?r) (63 - i)"
      then show "stream_bit (bytes ?r) (bit_pos r + i)"
        using ok w [OF i] by (auto simp: bit_or_iff reader_ok_def)
    next
      fix i
      assume i: "i < bits_in_buf ?r" and s: "stream_bit (bytes ?r) (bit_pos r + i)"
      then have i64: "i < 64" using True by simp
      show "bit (buf ?r) (63 - i)"
      proof (cases "i < bits_in_buf r")
        case True
        with ok s show ?thesis by (auto simp: bit_or_iff reader_ok_def)
      next
        case False
        with i s w [OF i64] show ?thesis by (simp add: bit_or_iff)
      qed
    qed (use ok True in \<open>auto simp: reader_ok_def\<close>)
    with "1.IH" [OF True] "1.prems"(2) have "refilled ?r (refill_tail ?r)"
      by simp
    moreover have "refill_tail r = refill_tail ?r"
      using True by (subst refill_tail.simps) simp
    ultimately show ?thesis
      using pos by (simp add: refilled_def)
  qed
qed

lemma be_window_bit:
  assumes p: "p + 8 \<le> length bs" and i: "i < 64"
  shows "bit (be_word (take 8 (drop p bs))) (63 - i) \<longleftrightarrow> stream_bit bs (8 * p + i)"
proof -
  define q j where "q = i div 8" and "j = i mod 8"
  then have ij: "i = 8 * q + j" "j < 8" "q < 8"
    using i by simp_all
  then have eq: "63 - i = 8 * (7 - q) + (7 - j)" by simp
  have "(63 - i) div 8 = 7 - q" "(63 - i) mod 8 = 7 - j"
    unfolding eq by simp_all
  moreover have "bit (be_word (take 8 (drop p bs))) (63 - i) \<longleftrightarrow>
      (63 - i) div 8 < 8 \<and> bit (take 8 (drop p bs) ! (8 - 1 - (63 - i) div 8)) ((63 - i) mod 8)"
    using p by (subst bit_be_word) simp_all
  moreover have "stream_bit bs (8 * (p + q) + j) \<longleftrightarrow> bit (bs ! (p + q)) (7 - j)"
    using p ij by (intro stream_bit_byte) simp_all
  moreover have "7 - q < 8" by simp
  ultimately show ?thesis
    using p ij by (simp add: algebra_simps)
qed

lemma refill_ok:
  assumes ok: "reader_ok r" and less: "bits_in_buf r < 64"
  obtains r' where "refill r = Inr r'" "refilled r r'"
proof (cases "byte_pos r + 8 \<le> length (bytes r)")
  case False
  with ok show thesis
    by (intro that) (auto simp: refill_def refill_tail_ok)
next
  case True
  let ?W = "be_word (take 8 (drop (byte_pos r) (bytes r)))"
  let ?w = "drop_bit (bits_in_buf r) ?W"
  let ?k = "(64 - bits_in_buf r) div 8"
  let ?r = "r\<lparr>buf := buf r OR ?w, byte_pos := byte_pos r + ?k, bits_in_buf := bits_in_buf r + ?k * 8\<rparr>"
  have eq: "refill r = Inr ?r"
    using True less by (simp add: refill_def Let_def)
  have pos: "bit_pos ?r = bit_pos r"
    by (simp add: bit_pos_def)
  have bound: "bits_in_buf r + ?k * 8 \<le> 64" "57 \<le> bits_in_buf r + ?k * 8"
    using less by presburger+
  have w: "bit ?w (63 - i) \<longleftrightarrow> bits_in_buf r \<le> i \<and> stream_bit (bytes r) (bit_pos r + i)" if i: "i < 64" for i
  proof (cases "bits_in_buf r \<le> i")
    case True
    then obtain j where ij: "i = bits_in_buf r + j" by (auto simp: le_iff_add)
    then have "bit_pos r + i = 8 * byte_pos r + j"
      using ok by (auto simp: bit_pos_def reader_ok_def)
    then have "stream_bit (bytes r) (bit_pos r + i) = stream_bit (bytes r) (8 * byte_pos r + j)"
      by (rule arg_cong)
    moreover have "bits_in_buf r + (63 - i) = 63 - j" "j < 64"
      using i ij by simp_all
    ultimately show ?thesis
      using True be_window_bit [OF \<open>byte_pos r + 8 \<le> _\<close>, of j]
      by (simp add: bit_drop_bit_eq)
  next
    case False
    then have "64 \<le> bits_in_buf r + (63 - i)" by simp
    then have "\<not> bit ?W (bits_in_buf r + (63 - i))"
      by (auto dest: bit_imp_le_length)
    with False show ?thesis by (simp add: bit_drop_bit_eq)
  qed
  have "reader_ok ?r"
    unfolding reader_ok_def pos
  proof (intro conjI allI impI)
    fix i :: nat
    assume i: "i < 64" and "bit (buf ?r) (63 - i)"
    then show "stream_bit (bytes ?r) (bit_pos r + i)"
      using ok w [OF i] by (auto simp: bit_or_iff reader_ok_def)
  next
    fix i
    assume i: "i < bits_in_buf ?r" and s: "stream_bit (bytes ?r) (bit_pos r + i)"
    then have i64: "i < 64" using bound by simp
    show "bit (buf ?r) (63 - i)"
    proof (cases "i < bits_in_buf r")
      case True
      with ok s show ?thesis by (auto simp: bit_or_iff reader_ok_def)
    next
      case False
      with s w [OF i64] show ?thesis by (simp add: bit_or_iff)
    qed
  qed (use ok True bound in \<open>auto simp: reader_ok_def\<close>)
  then have "refilled r ?r"
    using bound pos by (simp add: refilled_def)
  with eq show thesis by (rule that)
qed

subsection \<open>What each operation does to the remaining bits\<close>

definition advanced :: "nat \<Rightarrow> bitreader \<Rightarrow> bitreader \<Rightarrow> bool" where
  "advanced n r r' \<longleftrightarrow> reader_ok r' \<and> bytes r' = bytes r \<and> bit_pos r' = bit_pos r + n"

lemma advanced_bits: "advanced n r r' \<Longrightarrow> bits_of r' = drop n (bits_of r)"
  by (simp add: advanced_def bits_of_def add.commute)

lemma advanced_trans: "advanced m r r' \<Longrightarrow> advanced n r' r'' \<Longrightarrow> advanced (m + n) r r''"
  by (simp add: advanced_def)

lemma refilled_advanced: "refilled r r' \<Longrightarrow> advanced 0 r r'"
  by (simp add: advanced_def refilled_def)

lemma refilled_bits: "refilled r r' \<Longrightarrow> bits_of r' = bits_of r"
  by (simp add: refilled_def bits_of_def)

lemma consume_bits:
  assumes "reader_ok r" "n \<le> bits_in_buf r" "n < 64"
  shows "advanced n r (r\<lparr>buf := push_bit n (buf r), bits_in_buf := bits_in_buf r - n\<rparr>)"
  using reader_ok_advance [OF assms refl] by (simp add: advanced_def)

text \<open>The optional refill before and after an extraction.\<close>

lemma refill_before:
  assumes "reader_ok r" "n \<le> 57"
  obtains r' where "(if bits_in_buf r < n then refill r else Inr r) = Inr r'" "advanced 0 r r'"
    "bits_in_buf r' < n \<longleftrightarrow> length (bits_of r) < n"
proof (cases "bits_in_buf r < n")
  case True
  then obtain r' where r': "refill r = Inr r'" "refilled r r'"
    using assms by (elim refill_ok [of r]) auto
  have "bits_in_buf r' < n \<longleftrightarrow> length (bits_of r) < n"
    using r'(2) assms(2) bits_in_buf_available [of r'] refilled_bits [OF r'(2)]
    by (auto simp: refilled_def)
  with True r' show thesis by (intro that) (auto simp: refilled_advanced)
next
  case False
  then show thesis
    using assms bits_in_buf_available [of r] by (intro that [of r]) (auto simp: advanced_def)
qed

lemma refill_after:
  assumes "reader_ok r"
  obtains r' where "(if bits_in_buf r \<le> 32 then refill r else Inr r) = Inr r'" "advanced 0 r r'"
proof (cases "bits_in_buf r \<le> 32")
  case True
  then show thesis
    using assms by (elim refill_ok [of r]) (auto intro: that refilled_advanced)
next
  case False
  with assms show thesis by (intro that [of r]) (auto simp: advanced_def)
qed

lemma top_bits:
  assumes ok: "reader_ok r" and n: "0 < n" "n \<le> bits_in_buf r"
  shows "drop_bit (64 - n) (buf r) = word_of_bits (take n (bits_of r))"
proof (rule bit_word_eqI)
  fix i :: nat
  assume "i < LENGTH(64)"
  have len: "n \<le> length (bits_of r)" "n \<le> 64"
    using ok n bits_in_buf_available [OF ok] by (auto simp: reader_ok_def)
  have "bit (buf r) (64 - n + i) \<longleftrightarrow> i < n \<and> stream_bit (bytes r) (bit_pos r + (n - 1 - i))"
  proof (cases "i < n")
    case True
    define k where "k = n - 1 - i"
    with True len n have eq: "64 - n + i = 63 - k" and "k < bits_in_buf r"
      by auto
    then have "bit (buf r) (63 - k) \<longleftrightarrow> stream_bit (bytes r) (bit_pos r + k)"
      using ok by (intro counted_bit)
    then show ?thesis
      unfolding eq k_def [symmetric] using True by simp
  next
    case False
    then have "64 \<le> 64 - n + i" using len by simp
    with False show ?thesis by (auto dest: bit_imp_le_length)
  qed
  moreover have "i < n \<Longrightarrow> n - 1 - i < length (bits_of r)" using len by simp
  ultimately show "bit (drop_bit (64 - n) (buf r)) i = bit (word_of_bits (take n (bits_of r)) :: u64) i"
    using len \<open>i < LENGTH(64)\<close> by (auto simp: bit_drop_bit_eq bit_word_of_bits nth_bits_of)
qed

lemma read_bits_enough:
  assumes "reader_ok r" "0 < n" "n \<le> 57" "n \<le> length (bits_of r)"
  obtains r' where "read_bits n r = Inr (Some (word_of_bits (take n (bits_of r))), r')" "advanced n r r'"
proof -
  obtain r1 where r1: "(if bits_in_buf r < n then refill r else Inr r) = Inr r1"
    and a1: "advanced 0 r r1" and e1: "bits_in_buf r1 < n \<longleftrightarrow> length (bits_of r) < n"
    using refill_before [OF assms(1,3)] .
  from a1 have ok1: "reader_ok r1" and b1: "bits_of r1 = bits_of r"
    using advanced_bits [OF a1] by (auto simp: advanced_def)
  have n1: "n \<le> bits_in_buf r1" using e1 assms(4) by simp
  let ?r = "r1\<lparr>buf := push_bit n (buf r1), bits_in_buf := bits_in_buf r1 - n\<rparr>"
  have a2: "advanced n r1 ?r"
    using ok1 n1 assms(3) by (intro consume_bits) auto
  then obtain r2 where r2: "(if bits_in_buf ?r \<le> 32 then refill ?r else Inr ?r) = Inr r2" "advanced 0 ?r r2"
    using refill_after [of ?r] by (auto simp only: advanced_def)
  have "advanced n r r2"
    using advanced_trans [OF advanced_trans [OF a1 a2] r2(2)] by simp
  moreover have "read_bits n r = Inr (Some (word_of_bits (take n (bits_of r))), r2)"
    using r1 r2(1) n1 assms(2,3) top_bits [OF ok1 assms(2) n1]
    by (simp add: read_bits_def Let_def b1)
  ultimately show thesis by (intro that)
qed

lemma read_bits_short:
  assumes "reader_ok r" "n \<le> 57" "length (bits_of r) < n"
  obtains r' where "read_bits n r = Inr (None, r')" "advanced 0 r r'"
proof -
  obtain r1 where "(if bits_in_buf r < n then refill r else Inr r) = Inr r1"
    "advanced 0 r r1" "bits_in_buf r1 < n"
    using refill_before [OF assms(1,2)] assms(3) by metis
  with assms(2) show thesis by (intro that) (auto simp: read_bits_def)
qed

lemma read_bit_Cons:
  assumes "reader_ok r" "bits_of r = b # bs"
  obtains r' where "read_bit r = Inr (Some b, r')" "advanced 1 r r'"
proof -
  obtain r1 where r1: "(if bits_in_buf r < 1 then refill r else Inr r) = Inr r1"
    and a1: "advanced 0 r r1" and e1: "bits_in_buf r1 < 1 \<longleftrightarrow> length (bits_of r) < 1"
    using refill_before [OF assms(1), of 1] by auto
  from a1 have ok1: "reader_ok r1" and b1: "bits_of r1 = b # bs"
    using advanced_bits [OF a1] assms(2) by (auto simp: advanced_def)
  have n1: "1 \<le> bits_in_buf r1" using e1 assms(2) by simp
  let ?r = "r1\<lparr>buf := push_bit 1 (buf r1), bits_in_buf := bits_in_buf r1 - 1\<rparr>"
  have a2: "advanced 1 r1 ?r"
    using ok1 n1 by (intro consume_bits) auto
  then obtain r2 where r2: "(if bits_in_buf ?r \<le> 32 then refill ?r else Inr ?r) = Inr r2" "advanced 0 ?r r2"
    using refill_after [of ?r] by (auto simp only: advanced_def)
  have "advanced 1 r r2"
    using advanced_trans [OF advanced_trans [OF a1 a2] r2(2)] by simp
  moreover have "(drop_bit 63 (buf r1) \<noteq> 0) = b"
    using top_bits [OF ok1 zero_less_one n1] by (simp add: b1 word_of_bits_def)
  ultimately show thesis
    using r1 r2(1) n1 by (intro that [of r2]) (auto simp: read_bit_def Let_def less_Suc_eq_le)
qed

lemma read_bit_Nil:
  assumes "reader_ok r" "bits_of r = []"
  obtains r' where "read_bit r = Inr (None, r')" "advanced 0 r r'"
proof -
  obtain r1 where "(if bits_in_buf r < 1 then refill r else Inr r) = Inr r1"
    "advanced 0 r r1" "bits_in_buf r1 < 1"
    using refill_before [OF assms(1), of 1] assms(2) by auto
  then show thesis by (intro that) (auto simp: read_bit_def)
qed

lemma peek_enough:
  assumes "reader_ok r" "0 < n" "n \<le> 56" "n \<le> length (bits_of r)"
  obtains r' where "peek n r = Inr (Some (word_of_bits (take n (bits_of r))), r')" "advanced 0 r r'"
    "n \<le> bits_in_buf r'"
proof -
  obtain r1 where r1: "(if bits_in_buf r < n then refill r else Inr r) = Inr r1"
    and a1: "advanced 0 r r1" and e1: "bits_in_buf r1 < n \<longleftrightarrow> length (bits_of r) < n"
    using refill_before [OF assms(1), of n] assms(3) by auto
  then have ok1: "reader_ok r1" and n1: "n \<le> bits_in_buf r1"
    using assms(4) by (auto simp: advanced_def)
  with r1 a1 assms(2,3) top_bits [OF ok1 assms(2) n1] advanced_bits [OF a1] show thesis
    by (intro that [of r1]) (auto simp: peek_def)
qed

lemma peek_short:
  assumes "reader_ok r" "n \<le> 56" "length (bits_of r) < n"
  obtains r' where "peek n r = Inr (None, r')" "advanced 0 r r'"
proof -
  obtain r1 where "(if bits_in_buf r < n then refill r else Inr r) = Inr r1"
    "advanced 0 r r1" "bits_in_buf r1 < n"
    using refill_before [OF assms(1), of n] assms(2,3) by auto
  with assms(2) show thesis by (intro that) (auto simp: peek_def)
qed

lemma consume_ok:
  assumes "reader_ok r" "n \<le> bits_in_buf r" "n < 64"
  obtains r' where "consume n r = Inr r'" "advanced n r r'"
  using assms consume_bits [OF assms] by (intro that) (simp_all add: consume_def)

subsection \<open>Positioning\<close>

lemma position_ok: "reader_ok r \<Longrightarrow> position r = Inr (bit_pos r)"
  by (simp add: position_def bit_pos_def reader_ok_def mult.commute)

lemma reader_start:
  "reader_ok \<lparr>bytes = bs, byte_pos = k, buf = 0, bits_in_buf = 0\<rparr>"
  "bit_pos \<lparr>bytes = bs, byte_pos = k, buf = 0, bits_in_buf = 0\<rparr> = 8 * k"
  by (simp_all add: reader_ok_def bit_pos_def)

lemma exhausted_buf:
  assumes "reader_ok r" "bits_of r = []"
  shows "buf r = 0"
proof (rule bit_word_eqI)
  fix i :: nat
  assume "i < LENGTH(64)"
  then have "63 - i < 64" "63 - (63 - i) = i" by auto
  then have "bit (buf r) i \<Longrightarrow> stream_bit (bytes r) (bit_pos r + (63 - i))"
    using assms(1) unfolding reader_ok_def by metis
  moreover have "8 * length (bytes r) \<le> bit_pos r"
    using assms(2) by (simp add: bits_of_def)
  ultimately show "bit (buf r) i = bit 0 i"
    by (auto simp: stream_bit_beyond)
qed

lemma from_bit_offset_bits:
  obtains r where "from_bit_offset bs off = Inr r" "reader_ok r" "bytes r = bs"
    "bits_of r = drop off (stream_bits bs)" "off \<le> 8 * length bs \<Longrightarrow> bit_pos r = off"
proof -
  let ?r0 = "\<lparr>bytes = bs, byte_pos = off div 8, buf = 0, bits_in_buf = 0\<rparr>"
  let ?s = "off mod 8"
  obtain r1 where r1: "refill ?r0 = Inr r1" and f: "refilled ?r0 r1"
    using refill_ok [of ?r0] reader_start(1) by auto
  then have ok: "reader_ok r1" and bs: "bytes r1 = bs" and pos: "bit_pos r1 = 8 * (off div 8)"
    by (auto simp: refilled_def reader_start)
  let ?r = "r1\<lparr>buf := push_bit ?s (buf r1), bits_in_buf := bits_in_buf r1 - ?s\<rparr>"
  have "?s < 64"
    by (rule order_less_trans [of _ 8]) simp_all
  then have eq: "from_bit_offset bs off = Inr ?r"
    using r1 by (cases "?s = 0") (auto simp: from_bit_offset_def Let_def)
  show thesis
  proof (cases "?s \<le> bits_in_buf r1")
    case True
    have "advanced ?s r1 ?r"
      using ok True \<open>?s < 64\<close> by (rule consume_bits)
    then show thesis
      using eq bs pos advanced_bits [of ?s r1 ?r]
      by (intro that [of ?r]) (auto simp: advanced_def bits_of_def)
  next
    case False
    then have "bits_in_buf r1 < 8"
      by (meson mod_less_divisor not_le_imp_less order_less_trans zero_less_numeral)
    then have len: "bits_in_buf r1 = length (bits_of r1)"
      using f by (auto simp: refilled_def)
    have "length (bits_of r1) = 8 * (length bs - off div 8)"
      by (simp add: length_bits_of bs pos right_diff_distrib')
    with len \<open>bits_in_buf r1 < 8\<close> have nil: "bits_of r1 = []" "length bs \<le> off div 8"
      by auto
    with len exhausted_buf [OF ok] have "bits_in_buf r1 = 0" "buf r1 = 0" by auto
    then have "?r = r1" by simp
    moreover have "8 * length bs \<le> off" "off \<noteq> 8 * length bs"
      using nil(2) False by auto
    ultimately show thesis
      using eq ok bs nil by (intro that [of r1]) auto
  qed
qed

lemma skip_ok:
  "reader_ok r \<Longrightarrow> n < 64 \<Longrightarrow>
   \<exists>r'. skip n r = Inr r' \<and> advanced (min n (length (bits_of r))) r r'"
proof (induction n arbitrary: r rule: less_induct)
  case (less n)
  show ?case
  proof (cases "n = 0")
    case True
    with less.prems show ?thesis by (subst skip.simps) (simp add: advanced_def)
  next
    case False
    obtain r1 where r1: "(if bits_in_buf r < 1 then refill r else Inr r) = Inr r1"
      and a1: "advanced 0 r r1" and e1: "bits_in_buf r1 < 1 \<longleftrightarrow> length (bits_of r) < 1"
      using refill_before [OF less.prems(1), of 1] by auto
    then have ok1: "reader_ok r1" and b1: "bits_of r1 = bits_of r"
      using advanced_bits [OF a1] by (auto simp: advanced_def)
    show ?thesis
    proof (cases "bits_in_buf r1 = 0")
      case True
      with r1 e1 a1 False show ?thesis by (subst skip.simps) auto
    next
      case nonempty: False
      let ?t = "min n (bits_in_buf r1)"
      let ?r = "r1\<lparr>buf := push_bit ?t (buf r1), bits_in_buf := bits_in_buf r1 - ?t\<rparr>"
      have t: "?t < 64" "0 < ?t" using less.prems False nonempty by auto
      have a2: "advanced ?t r1 ?r"
        using ok1 t by (intro consume_bits) auto
      then have len: "length (bits_of ?r) = length (bits_of r) - ?t" "reader_ok ?r"
        using advanced_bits [OF a2] b1 by (auto simp: advanced_def)
      have "n - ?t < n" using t False by linarith
      with less.IH [OF this len(2)] less.prems(2) obtain r2 where
        r2: "skip (n - ?t) ?r = Inr r2" "advanced (min (n - ?t) (length (bits_of ?r))) ?r r2" by auto
      have "skip n r = Inr r2"
        using r1 r2(1) t False nonempty by (subst skip.simps) (simp add: Let_def)
      moreover have "?t + min (n - ?t) (length (bits_of ?r)) = min n (length (bits_of r))"
        using bits_in_buf_available [OF ok1] unfolding len b1 by linarith
      then have "advanced (min n (length (bits_of r))) r r2"
        using advanced_trans [OF advanced_trans [OF a1 a2] r2(2)] by simp
      ultimately show ?thesis by blast
    qed
  qed
qed

subsection \<open>The bits left: the measure of every reading loop\<close>

text \<open>
  The bits still to come, counted without the invariant: every successful read makes
  their number smaller, so that the loops that read until some condition terminate on every reader.
\<close>

definition bits_left :: "bitreader \<Rightarrow> nat" where
  "bits_left r = bits_in_buf r + 8 * (length (bytes r) - byte_pos r)"

lemma left_refill_tail: "bits_left (refill_tail r) = bits_left r"
proof (induction r rule: refill_tail.induct)
  case (1 r)
  then show ?case
    by (subst refill_tail.simps) (auto simp: bits_left_def)
qed

lemma left_refill:
  assumes "refill r = Inr r'"
  shows "bits_left r' = bits_left r"
proof (cases "byte_pos r + 8 \<le> length (bytes r)")
  case True
  with assms show ?thesis
    by (auto simp: refill_def Let_def result_simps bits_left_def)
next
  case False
  with assms show ?thesis
    by (auto simp: refill_def left_refill_tail)
qed

lemma left_maybe_refill: "(if b then refill r else Inr r) = Inr r' \<Longrightarrow> bits_left r' = bits_left r"
  by (auto dest: left_refill split: if_splits)

lemma left_take:
  "n \<le> bits_in_buf r \<Longrightarrow> bits_left (r\<lparr>buf := b, bits_in_buf := bits_in_buf r - n\<rparr>) + n = bits_left r"
  by (simp add: bits_left_def)

lemma left_read_bit: "read_bit r = Inr (v, r') \<Longrightarrow> bits_left r' + (if v = None then 0 else 1) = bits_left r"
proof -
  assume "read_bit r = Inr (v, r')"
  then obtain r1 where r1: "(if bits_in_buf r = 0 then refill r else Inr r) = Inr r1"
    and rest: "if bits_in_buf r1 = 0 then v = None \<and> r' = r1
      else v \<noteq> None \<and> (let r2 = r1\<lparr>buf := push_bit 1 (buf r1), bits_in_buf := bits_in_buf r1 - 1\<rparr>
            in (if bits_in_buf r2 \<le> 32 then refill r2 else Inr r2) = Inr r')"
    unfolding read_bit_def Let_def bindE_Inr_iff
    by (elim exE conjE) (auto simp: bindE_Inr_iff split: if_split_asm)
  show ?thesis
  proof (cases "bits_in_buf r1 = 0")
    case True
    with rest left_maybe_refill [OF r1] show ?thesis by simp
  next
    case False
    then have "1 \<le> bits_in_buf r1" by simp
    from False rest left_take [OF this] left_maybe_refill [OF r1] show ?thesis
      by (auto simp: Let_def dest!: left_maybe_refill)
  qed
qed

lemma left_read_bits: "read_bits n r = Inr (v, r') \<Longrightarrow> bits_left r' + (if v = None then 0 else n) = bits_left r"
proof -
  assume "read_bits n r = Inr (v, r')"
  then obtain r1 where r1: "(if bits_in_buf r < n then refill r else Inr r) = Inr r1"
    and rest: "if bits_in_buf r1 < n then v = None \<and> r' = r1
      else v \<noteq> None \<and> (let r2 = r1\<lparr>buf := push_bit n (buf r1), bits_in_buf := bits_in_buf r1 - n\<rparr>
            in (if bits_in_buf r2 \<le> 32 then refill r2 else Inr r2) = Inr r')"
    unfolding read_bits_def Let_def bindE_Inr_iff guard_Inr_iff
    by (elim exE conjE) (auto simp: bindE_Inr_iff shl64_Inr_iff shr64_Inr_iff split: if_split_asm)
  show ?thesis
  proof (cases "bits_in_buf r1 < n")
    case True
    with rest left_maybe_refill [OF r1] show ?thesis by simp
  next
    case False
    then have "n \<le> bits_in_buf r1" by simp
    from False rest left_take [OF this] left_maybe_refill [OF r1] show ?thesis
      by (auto simp: Let_def dest!: left_maybe_refill)
  qed
qed

lemma read_bits_positive: "read_bits n r = Inr (Some v, r') \<Longrightarrow> 0 < n"
  by (cases n) (auto simp: read_bits_def result_simps split: if_splits)

lemma left_peek: "peek n r = Inr (v, r') \<Longrightarrow> bits_left r' = bits_left r"
  unfolding peek_def bindE_Inr_iff
  by (elim exE conjE) (auto simp: result_simps dest!: left_refill split: if_split_asm)

lemma left_consume: "consume n r = Inr r' \<Longrightarrow> bits_left r' + n = bits_left r"
  by (auto simp: consume_def result_simps bits_left_def)

subsection \<open>The interface: a source of bits\<close>

text \<open>
  What the decoders rely on: an invariant \<open>ok\<close>, the bits still \<open>todo\<close>, and reads that take
  bits from its front. \<open>parses ok todo m w x\<close> says that the reading code \<open>m\<close> consumes exactly
  \<open>w\<close> whatever follows, and returns \<open>x\<close>.
\<close>

definition parses ::
  "('r \<Rightarrow> bool) \<Rightarrow> ('r \<Rightarrow> bool list) \<Rightarrow> ('r \<Rightarrow> ('a \<times> 'r) result) \<Rightarrow> bool list \<Rightarrow> 'a \<Rightarrow> bool" where
  "parses ok todo m w x \<longleftrightarrow>
     (\<forall>r rest. ok r \<longrightarrow> todo r = w @ rest \<longrightarrow> (\<exists>r'. m r = Inr (x, r') \<and> ok r' \<and> todo r' = rest))"

lemma parsesI:
  assumes "\<And>r rest. ok r \<Longrightarrow> todo r = w @ rest \<Longrightarrow> \<exists>r'. m r = Inr (x, r') \<and> ok r' \<and> todo r' = rest"
  shows "parses ok todo m w x"
  using assms by (simp add: parses_def)

lemma parsesD:
  assumes "parses ok todo m w x" "ok r" "todo r = w @ rest"
  obtains r' where "m r = Inr (x, r')" "ok r'" "todo r' = rest"
  using assms unfolding parses_def by blast

lemma parses_return: "parses ok todo (\<lambda>r. Inr (x, r)) [] x"
  by (simp add: parses_def)

lemma parses_bind:
  assumes "parses ok todo m w x" and "parses ok todo (k x) w' y"
  shows "parses ok todo (\<lambda>r. bindE (m r) (\<lambda>(v, r'). k v r')) (w @ w') y"
proof (rule parsesI)
  fix r rest
  assume "ok r" "todo r = (w @ w') @ rest"
  with assms(1) obtain r1 where "m r = Inr (x, r1)" "ok r1" "todo r1 = w' @ rest"
    by (elim parsesD [where rest = "w' @ rest"]) auto
  moreover from assms(2) this(2,3) obtain r2 where "k x r1 = Inr (y, r2)" "ok r2" "todo r2 = rest"
    by (elim parsesD) auto
  ultimately show "\<exists>r'. bindE (m r) (\<lambda>(v, r'). k v r') = Inr (y, r') \<and> ok r' \<and> todo r' = rest"
    by simp
qed

locale bit_source =
  fixes ok :: "'r \<Rightarrow> bool"
    and todo :: "'r \<Rightarrow> bool list"
    and read1 :: "'r \<Rightarrow> (bool option \<times> 'r) result"
    and readn :: "nat \<Rightarrow> 'r \<Rightarrow> (u64 option \<times> 'r) result"
  assumes read1_Cons: "ok r \<Longrightarrow> todo r = b # bs \<Longrightarrow> \<exists>r'. read1 r = Inr (Some b, r') \<and> ok r' \<and> todo r' = bs"
    and read1_Nil: "ok r \<Longrightarrow> todo r = [] \<Longrightarrow> \<exists>r'. read1 r = Inr (None, r') \<and> ok r' \<and> todo r' = []"
    and readn_enough: "ok r \<Longrightarrow> 0 < n \<Longrightarrow> n \<le> 57 \<Longrightarrow> n \<le> length (todo r) \<Longrightarrow>
      \<exists>r'. readn n r = Inr (Some (word_of_bits (take n (todo r))), r') \<and> ok r' \<and> todo r' = drop n (todo r)"
    and readn_short: "ok r \<Longrightarrow> n \<le> 57 \<Longrightarrow> length (todo r) < n \<Longrightarrow>
      \<exists>r'. readn n r = Inr (None, r') \<and> ok r' \<and> todo r' = todo r"
begin

lemma parses_read1: "parses ok todo read1 [b] (Some b)"
  by (rule parsesI) (simp add: read1_Cons)

lemma parses_readn:
  assumes "length w = n" "0 < n" "n \<le> 57"
  shows "parses ok todo (readn n) w (Some (word_of_bits w))"
proof (rule parsesI)
  fix r rest
  assume "ok r" "todo r = w @ rest"
  with assms readn_enough [of r n] show "\<exists>r'. readn n r = Inr (Some (word_of_bits w), r') \<and> ok r' \<and> todo r' = rest"
    by simp
qed

text \<open>What a successful read says about the bits.\<close>

lemma read1_Some:
  assumes "ok r" "read1 r = Inr (Some b, r')"
  shows "todo r = b # todo r'" "ok r'"
proof -
  have "todo r \<noteq> []" using read1_Nil [OF assms(1)] assms(2) by auto
  then obtain c cs where "todo r = c # cs" by (cases "todo r") auto
  with read1_Cons [OF assms(1) this] assms(2) show "todo r = b # todo r'" "ok r'" by auto
qed

lemma readn_Some:
  assumes "ok r" "0 < n" "n \<le> 57" "readn n r = Inr (Some v, r')"
  shows "n \<le> length (todo r)" "v = word_of_bits (take n (todo r))" "ok r'" "todo r' = drop n (todo r)"
proof -
  show n: "n \<le> length (todo r)" using readn_short [OF assms(1,3)] assms(4) by (cases "n \<le> length (todo r)") auto
  from readn_enough [OF assms(1-3) n] assms(4)
  show "v = word_of_bits (take n (todo r))" "ok r'" "todo r' = drop n (todo r)" by auto
qed

text \<open>A read of \<open>m + n\<close> bits is a read of \<open>m\<close> bits followed by a read of \<open>n\<close> bits.\<close>

lemma readn_split:
  assumes "ok r" "0 < m" "0 < n" "m + n \<le> 57" "m + n \<le> length (todo r)"
  shows "\<exists>v1 v2 v r1 r2 r'. readn m r = Inr (Some v1, r1) \<and> readn n r1 = Inr (Some v2, r2) \<and>
    readn (m + n) r = Inr (Some v, r') \<and> unat v = unat v1 * 2 ^ n + unat v2 \<and> todo r' = todo r2"
proof -
  obtain r1 where r1: "readn m r = Inr (Some (word_of_bits (take m (todo r))), r1)" "ok r1" "todo r1 = drop m (todo r)"
    using assms readn_enough [of r m] by auto
  have n: "n \<le> 57" "n \<le> length (todo r1)"
    using assms r1(3) by auto
  obtain r2 where r2: "readn n r1 = Inr (Some (word_of_bits (take n (todo r1))), r2)" "todo r2 = drop n (todo r1)"
    using readn_enough [OF r1(2) assms(3) n] by auto
  obtain r' where r': "readn (m + n) r = Inr (Some (word_of_bits (take (m + n) (todo r))), r')" "todo r' = drop (m + n) (todo r)"
    using assms readn_enough [of r "m + n"] by auto
  have "take (m + n) (todo r) = take m (todo r) @ take n (todo r1)"
    by (simp add: r1(3) take_add)
  moreover have "length (take m (todo r)) = m" "length (take n (todo r1)) = n"
    using assms n by simp_all
  ultimately have "unat (word_of_bits (take (m + n) (todo r)) :: u64) =
      unat (word_of_bits (take m (todo r)) :: u64) * 2 ^ n + unat (word_of_bits (take n (todo r1)) :: u64)"
    using assms unat_word_of_bits_append [of "take m (todo r)" "take n (todo r1)", where 'a = 64]
    by simp
  with r1 r2 r' show ?thesis
    by (simp add: add.commute)
qed

end

locale bit_source_peek = bit_source +
  fixes peekn :: "nat \<Rightarrow> 'a \<Rightarrow> (u64 option \<times> 'a) result"
    and consumen :: "nat \<Rightarrow> 'a \<Rightarrow> 'a result"
  assumes peekn_enough: "ok r \<Longrightarrow> 0 < n \<Longrightarrow> n \<le> 56 \<Longrightarrow> n \<le> length (todo r) \<Longrightarrow>
      \<exists>r'. peekn n r = Inr (Some (word_of_bits (take n (todo r))), r') \<and> ok r' \<and> todo r' = todo r \<and>
        (\<forall>k\<le>n. \<exists>r''. consumen k r' = Inr r'' \<and> ok r'' \<and> todo r'' = drop k (todo r))"
    and peekn_short: "ok r \<Longrightarrow> n \<le> 56 \<Longrightarrow> length (todo r) < n \<Longrightarrow>
      \<exists>r'. peekn n r = Inr (None, r') \<and> ok r' \<and> todo r' = todo r"
begin

lemma peek_consume_is_read:
  assumes "ok r" "0 < n" "n \<le> 56" "n \<le> length (todo r)"
  shows "\<exists>v r1 r2 r'. peekn n r = Inr (Some v, r1) \<and> consumen n r1 = Inr r2 \<and>
    readn n r = Inr (Some v, r') \<and> todo r2 = todo r'"
  using peekn_enough [OF assms] readn_enough [of r n] assms by auto

end

text \<open>The bit reader over one slice provides the interface.\<close>

definition reader_at :: "u8 list \<Rightarrow> bitreader \<Rightarrow> bool" where
  "reader_at bs r \<longleftrightarrow> reader_ok r \<and> bytes r = bs \<and> bit_pos r \<le> 8 * length bs"

lemma reader_at_advanced:
  "reader_at bs r \<Longrightarrow> advanced n r r' \<Longrightarrow> n \<le> length (bits_of r) \<Longrightarrow> reader_at bs r'"
  by (auto simp: reader_at_def advanced_def length_bits_of)

lemma reader_at_pos: "reader_at bs r \<Longrightarrow> bit_pos r = 8 * length bs - length (bits_of r)"
  by (auto simp: reader_at_def length_bits_of)

interpretation br: bit_source_peek "reader_at bs" bits_of read_bit read_bits peek consume for bs
proof unfold_locales
  fix r b w
  assume r: "reader_at bs r" "bits_of r = b # w"
  then obtain r' where "read_bit r = Inr (Some b, r')" "advanced 1 r r'"
    by (elim read_bit_Cons [rotated]) (auto simp: reader_at_def)
  with r show "\<exists>r'. read_bit r = Inr (Some b, r') \<and> reader_at bs r' \<and> bits_of r' = w"
    using reader_at_advanced [OF r(1), of 1 r'] advanced_bits [of 1 r r'] by auto
next
  fix r
  assume r: "reader_at bs r" "bits_of r = []"
  then obtain r' where "read_bit r = Inr (None, r')" "advanced 0 r r'"
    by (elim read_bit_Nil [rotated]) (auto simp: reader_at_def)
  with r show "\<exists>r'. read_bit r = Inr (None, r') \<and> reader_at bs r' \<and> bits_of r' = []"
    using reader_at_advanced [OF r(1), of 0 r'] advanced_bits [of 0 r r'] by auto
next
  fix r n
  assume r: "reader_at bs r" and n: "0 < n" "n \<le> 57" "n \<le> length (bits_of r)"
  then obtain r' where "read_bits n r = Inr (Some (word_of_bits (take n (bits_of r))), r')" "advanced n r r'"
    using read_bits_enough [of r n] by (auto simp: reader_at_def)
  with r n show "\<exists>r'. read_bits n r = Inr (Some (word_of_bits (take n (bits_of r))), r') \<and>
      reader_at bs r' \<and> bits_of r' = drop n (bits_of r)"
    using reader_at_advanced [OF r(1), of n r'] advanced_bits [of n r r'] by auto
next
  fix r n
  assume r: "reader_at bs r" and n: "n \<le> 57" "length (bits_of r) < n"
  then obtain r' where "read_bits n r = Inr (None, r')" "advanced 0 r r'"
    using read_bits_short [of r n] by (auto simp: reader_at_def)
  with r show "\<exists>r'. read_bits n r = Inr (None, r') \<and> reader_at bs r' \<and> bits_of r' = bits_of r"
    using reader_at_advanced [OF r(1), of 0 r'] advanced_bits [of 0 r r'] by auto
next
  fix r n
  assume r: "reader_at bs r" and n: "0 < n" "n \<le> 56" "n \<le> length (bits_of r)"
  then obtain r' where p: "peek n r = Inr (Some (word_of_bits (take n (bits_of r))), r')"
    and a: "advanced 0 r r'" and m: "n \<le> bits_in_buf r'"
    using peek_enough [of r n] by (auto simp: reader_at_def)
  have r': "reader_at bs r'" "bits_of r' = bits_of r"
    using reader_at_advanced [OF r a] advanced_bits [OF a] by auto
  have "\<exists>r''. consume k r' = Inr r'' \<and> reader_at bs r'' \<and> bits_of r'' = drop k (bits_of r)" if "k \<le> n" for k
  proof -
    have "reader_ok r'" "k \<le> bits_in_buf r'" "k < 64"
      using r' m n that by (auto simp: reader_at_def)
    then obtain r'' where "consume k r' = Inr r''" "advanced k r' r''"
      by (rule consume_ok)
    with r' n that show ?thesis
      using reader_at_advanced [OF r'(1), of k r''] advanced_bits [of k r' r''] by auto
  qed
  with p r' show "\<exists>r'. peek n r = Inr (Some (word_of_bits (take n (bits_of r))), r') \<and> reader_at bs r' \<and>
      bits_of r' = bits_of r \<and>
      (\<forall>k\<le>n. \<exists>r''. consume k r' = Inr r'' \<and> reader_at bs r'' \<and> bits_of r'' = drop k (bits_of r))"
    by blast
next
  fix r n
  assume r: "reader_at bs r" and n: "n \<le> 56" "length (bits_of r) < n"
  then obtain r' where "peek n r = Inr (None, r')" "advanced 0 r r'"
    using peek_short [of r n] by (auto simp: reader_at_def)
  with r show "\<exists>r'. peek n r = Inr (None, r') \<and> reader_at bs r' \<and> bits_of r' = bits_of r"
    using reader_at_advanced [OF r(1), of 0 r'] advanced_bits [of 0 r r'] by auto
qed

subsection \<open>The reader as an iterator\<close>

definition next_bit :: "bitreader \<Rightarrow> (bool option \<times> bitreader) result" where
  "next_bit r = read_bit r"

text \<open>The bits a loop over the iterator sees.\<close>

function iterate :: "bitreader \<Rightarrow> bool list result" where
  "iterate r = bindE (next_bit r) (\<lambda>(v, r'). case v of None \<Rightarrow> Inr [] | Some b \<Rightarrow> bindE (iterate r') (\<lambda>bs. Inr (b # bs)))"
  by pat_completeness auto
termination
  by (relation "measure bits_left") (auto simp: next_bit_def dest: left_read_bit)

declare iterate.simps [simp del]

lemma iterate_bits: "reader_at bs r \<Longrightarrow> iterate r = Inr (bits_of r)"
proof (induction "bits_of r" arbitrary: r)
  case Nil
  from br.read1_Nil [OF Nil(2) Nil(1) [symmetric]] obtain r' where "read_bit r = Inr (None, r')" by blast
  with Nil(1) show ?case by (simp add: iterate.simps [of r] next_bit_def)
next
  case (Cons b w)
  from br.read1_Cons [OF Cons(3) Cons(2) [symmetric]] obtain r' where "read_bit r = Inr (Some b, r')" "reader_at bs r'" "bits_of r' = w" by blast
  with Cons(1) [of r'] Cons(2) show ?case by (simp add: iterate.simps [of r] next_bit_def)
qed

subsection \<open>Properties\<close>

text \<open>
  C13. Reading \<open>n\<close> bits (\<open>1 \<le> n \<le> 57\<close>) through the 64-bit buffer, from a reader positioned at
  any bit offset of a slice, returns exactly the bits \<open>p, \<dots>, p + n - 1\<close> of the slice, most
  significant first, or \<open>None\<close> when fewer than \<open>n\<close> are left. Neither refill path, nor the
  discarded sub-byte offset, nor the end of the slice makes it panic or lose a bit.
\<close>

theorem read_bits_at_offset:
  assumes "0 < n" "n \<le> 57"
  shows "\<exists>r r'. from_bit_offset bs p = Inr r \<and>
    read_bits n r = Inr (if p + n \<le> 8 * length bs then Some (word_of_bits (map (stream_bit bs) [p..<p + n])) else None, r')"
proof -
  obtain r where r: "from_bit_offset bs p = Inr r" "reader_ok r" "bits_of r = drop p (stream_bits bs)"
    by (rule from_bit_offset_bits [of bs p]) auto
  show ?thesis
  proof (cases "p + n \<le> 8 * length bs")
    case True
    then have "n \<le> length (bits_of r)" by (simp add: r(3))
    then obtain r' where "read_bits n r = Inr (Some (word_of_bits (take n (bits_of r))), r')"
      using read_bits_enough [OF r(2) assms] by blast
    moreover have "take n (bits_of r) = map (stream_bit bs) [p..<p + n]"
      using True by (simp add: r(3) stream_bits_def drop_map take_map take_drop)
    ultimately show ?thesis using r(1) True by auto
  next
    case False
    then have "length (bits_of r) < n" using assms by (simp add: r(3))
    then obtain r' where "read_bits n r = Inr (None, r')"
      using read_bits_short [OF r(2) assms(2)] by blast
    with r(1) False show ?thesis by auto
  qed
qed

theorem read_bits_at_offset_witness:
  "\<exists>r r'. from_bit_offset [0xB2, 0x55] 4 = Inr r \<and> read_bits 4 r = Inr (Some 2, r')"
  using read_bits_at_offset [of 4 "[0xB2, 0x55]" 4]
  by (simp add: stream_bit_def word_of_bits_def upt_conv_Cons)

text \<open>
  Every operation keeps the buffer invariant and moves the position by exactly the bits it
  returns: a peek moves it by nothing, \<open>consume k\<close> by \<open>k\<close>, and a peek of \<open>n\<close> bits followed by
  \<open>consume n\<close> is \<open>read_bits n\<close>. No refill duplicates or drops a bit.
\<close>

theorem peek_consume_read_bits:
  assumes "reader_at bs r" "0 < n" "n \<le> 56" "n \<le> length (bits_of r)"
  shows "\<exists>v r1 r2 r'. peek n r = Inr (Some v, r1) \<and> consume n r1 = Inr r2 \<and>
    read_bits n r = Inr (Some v, r') \<and> bits_of r2 = bits_of r'"
  by (rule br.peek_consume_is_read [OF assms])

theorem peek_consume_read_bits_witness:
  "\<exists>r v r1 r2 r'. reader_at [0xCA, 0xF0] r \<and> peek 8 r = Inr (Some v, r1) \<and> consume 8 r1 = Inr r2 \<and>
    read_bits 8 r = Inr (Some v, r') \<and> bits_of r2 = bits_of r'"
proof -
  obtain r where "reader_ok r" "bytes r = [0xCA, 0xF0]" "bits_of r = stream_bits [0xCA, 0xF0]" "bit_pos r = 0"
    using from_bit_offset_bits [of "[0xCA, 0xF0]" 0] by auto
  then have "reader_at [0xCA, 0xF0] r" "length (bits_of r) = 16"
    by (simp_all add: reader_at_def)
  with peek_consume_read_bits [of "[0xCA, 0xF0]" r 8] show ?thesis by auto
qed

text \<open>
  \<open>BitReader::skip\<close> shifts the whole register out with \<open>buf <<= take\<close>: when all 64 bits
  of the buffer are valid, as after \<open>BitReader::new\<close> on eight bytes or more, a skip of 64
  bits or more shifts a \<open>u64\<close> by 64, which panics in a checked build.
\<close>

theorem skip_full_buffer_panics:
  assumes "8 \<le> length bs" "64 \<le> n"
  shows "\<exists>r. new_reader bs = Inr r \<and> skip n r = Inl (Panic ''shift left overflow'')"
proof -
  let ?r = "\<lparr>bytes = bs, byte_pos = 8, buf = be_word (take 8 bs), bits_in_buf = 64\<rparr>"
  have "new_reader bs = Inr ?r"
    using assms(1) by (simp add: new_reader_def refill_def Let_def)
  moreover have "skip n ?r = Inl (Panic ''shift left overflow'')"
    using assms(2) by (subst skip.simps) (simp add: Let_def shl64_def)
  ultimately show ?thesis by blast
qed

theorem skip_full_buffer_panics_witness:
  "\<exists>r. new_reader (replicate 8 0) = Inr r \<and> skip 64 r = Inl (Panic ''shift left overflow'')"
  using skip_full_buffer_panics [of "replicate 8 0" 64] by simp

end
