(* ===== verification/Huffman_Tree.thy ===== *)
theory Huffman_Tree
  imports Bit_Reader "HOL-Library.Product_Lexorder" "HOL-Library.Sublist"
begin

text \<open>
  The Huffman decoder of \<^verbatim>\<open>src/src/huffman.rs\<close>: canonical code assignment, the node array,
  the packed lookup table for codes of at most ten bits, and decoding with its two paths.
  Node indices and code values are natural numbers; \<open>u32\<close> arithmetic on code values wraps or
  panics where the code's does. The static strings of \<open>from_lengths\<close> are carried by
  \<open>BlockError\<close>, the only error its caller can make of them.
\<close>

unbundle bit_operations_syntax

definition FAST_BITS :: nat where "FAST_BITS = 10"
definition FAST_TABLE_SIZE :: nat where "FAST_TABLE_SIZE = 2 ^ FAST_BITS"
definition MAX_TREE_NODES :: nat where "MAX_TREE_NODES = 512"

record huffman_tree =
  fast_table :: "u16 list"
  nodes :: "(int \<times> int) list"
  n_nodes :: nat

subsection \<open>The code\<close>

definition pack_entry :: "u16 \<Rightarrow> nat \<Rightarrow> u16" where
  "pack_entry symbol len = push_bit 5 symbol OR of_nat len"

definition unpack_symbol :: "u16 \<Rightarrow> u16" where
  "unpack_symbol e = drop_bit 5 e"

definition unpack_len :: "u16 \<Rightarrow> nat" where
  "unpack_len e = unat (e AND 0x1F)"

definition empty_tree :: huffman_tree where
  "empty_tree = \<lparr>fast_table = replicate FAST_TABLE_SIZE 0, nodes = replicate MAX_TREE_NODES (0, 0), n_nodes = 0\<rparr>"

definition shl32 :: "nat \<Rightarrow> nat \<Rightarrow> nat result" where
  "shl32 c k = (if k < 32 then Inr (c * 2 ^ k mod 2 ^ 32) else Inl (Panic ''shift left overflow''))"

definition inc32 :: "nat \<Rightarrow> nat result" where
  "inc32 c = (if c + 1 < 2 ^ 32 then Inr (c + 1) else Inl (Panic ''add with overflow''))"

definition code_bit :: "nat \<Rightarrow> nat \<Rightarrow> bool result" where
  "code_bit c k = (if k < 32 then Inr (odd (c div 2 ^ k)) else Inl (Panic ''shift right overflow''))"

definition child_of :: "int \<times> int \<Rightarrow> bool \<Rightarrow> int" where
  "child_of nd b = (if b then snd nd else fst nd)"

definition set_child :: "int \<times> int \<Rightarrow> bool \<Rightarrow> int \<Rightarrow> int \<times> int" where
  "set_child nd b v = (if b then (fst nd, v) else (v, snd nd))"

text \<open>The symbols with a code, as \<open>(symbol, length)\<close>, in symbol order.\<close>

definition used_symbols :: "u8 list \<Rightarrow> (nat \<times> nat) list" where
  "used_symbols lengths = filter (\<lambda>(i, len). len > 0) (zip [0..<length lengths] (map unat lengths))"

text \<open>The walk for the remaining \<open>bpos\<close> bits of \<open>code\<close> from node \<open>node_idx\<close>.\<close>

fun insert_code :: "nat \<Rightarrow> nat \<Rightarrow> nat \<Rightarrow> nat \<Rightarrow> huffman_tree \<Rightarrow> huffman_tree result" where
  "insert_code 0 code sy node_idx t = Inr t"
| "insert_code (Suc bpos) code sy node_idx t =
     bindE (code_bit code bpos) (\<lambda>b.
     bindE (index (nodes t) node_idx) (\<lambda>nd.
     let child = child_of nd b
     in if child > 0 then insert_code bpos code sy (nat child) t
        else if bpos > 0 then
          (let new_idx = n_nodes t
           in if new_idx \<ge> MAX_TREE_NODES then Inl (BlockError ''huffman tree too large'')
              else insert_code bpos code sy new_idx
                     (t\<lparr>nodes := (nodes t)[node_idx := set_child nd b (int new_idx)], n_nodes := new_idx + 1\<rparr>))
        else insert_code bpos code sy node_idx
               (t\<lparr>nodes := (nodes t)[node_idx := set_child nd b (- (int sy + 1))]\<rparr>)))"

fun assign_codes ::
  "(nat \<times> nat) list \<Rightarrow> nat \<Rightarrow> nat \<Rightarrow> huffman_tree \<Rightarrow> (huffman_tree \<times> (nat \<times> nat \<times> nat) list) result" where
  "assign_codes [] code prev_len t = Inr (t, [])"
| "assign_codes ((sy, len) # syms) code prev_len t =
     bindE (sub_checked len prev_len) (\<lambda>k.
     bindE (shl32 code k) (\<lambda>code.
     bindE (insert_code len code sy 0 t) (\<lambda>t'.
     bindE (inc32 code) (\<lambda>code'.
     bindE (assign_codes syms code' len t') (\<lambda>(t'', es).
     Inr (t'', (code, len, sy) # es))))))"

fun fill_range :: "u16 \<Rightarrow> nat \<Rightarrow> nat list \<Rightarrow> u16 list \<Rightarrow> u16 list result" where
  "fill_range e base [] tab = Inr tab"
| "fill_range e base (sfx # ss) tab =
     bindE (store tab (base OR sfx) e) (\<lambda>tab'. fill_range e base ss tab')"

fun fill_fast :: "(nat \<times> nat \<times> nat) list \<Rightarrow> u16 list \<Rightarrow> u16 list result" where
  "fill_fast [] tab = Inr tab"
| "fill_fast ((c, len, sy) # es) tab =
     (if len \<le> FAST_BITS
      then let pad = FAST_BITS - len
           in bindE (fill_range (pack_entry (of_nat sy) len) (push_bit pad c) [0..<2 ^ pad] tab) (fill_fast es)
      else fill_fast es tab)"

definition from_lengths :: "u8 list \<Rightarrow> huffman_tree result" where
  "from_lengths lengths =
     (let symbols = used_symbols lengths
      in bindE (guard (length symbols \<le> 258) (Panic ''index out of bounds'')) (\<lambda>_.
         bindE (guard (symbols \<noteq> []) (BlockError ''no symbols'')) (\<lambda>_.
         let symbols = sort_key (\<lambda>(sy, len). (len, sy)) symbols
         in bindE (assign_codes symbols 0 (snd (hd symbols)) (empty_tree\<lparr>n_nodes := 1\<rparr>)) (\<lambda>(t, es).
            bindE (fill_fast es (fast_table t)) (\<lambda>tab.
            Inr (t\<lparr>fast_table := tab\<rparr>))))))"

function decode_slow :: "huffman_tree \<Rightarrow> nat \<Rightarrow> bitreader \<Rightarrow> (u16 option \<times> bitreader) result" where
  "decode_slow t node_idx r =
     bindE (read_bit r) (\<lambda>(v, r').
       case v of
         None \<Rightarrow> Inr (None, r')
       | Some b \<Rightarrow>
           bindE (index (nodes t) node_idx) (\<lambda>nd.
           let child = child_of nd b
           in if child < 0 then Inr (Some (word_of_int (- child - 1)), r')
              else decode_slow t (nat child) r'))"
  by pat_completeness auto
termination
  by (relation "measure (\<lambda>(t, i, r). bits_left r)") (auto dest!: left_read_bit)

declare decode_slow.simps [simp del]

definition decode :: "huffman_tree \<Rightarrow> bitreader \<Rightarrow> (u16 option \<times> bitreader) result" where
  "decode t r =
     bindE (peek FAST_BITS r) (\<lambda>(v, r').
       case v of
         None \<Rightarrow> decode_slow t 0 r'
       | Some bits \<Rightarrow>
           if unat bits < length (fast_table t)
           then let e = fast_table t ! unat bits; len = unpack_len e
                in if len > 0 then bindE (consume len r') (\<lambda>r''. Inr (Some (unpack_symbol e), r''))
                   else decode_slow t 0 r'
           else Inl (Undefined ''read outside fast_table''))"

lemma left_decode_slow: "decode_slow t i r = Inr (Some s, r') \<Longrightarrow> bits_left r' < bits_left r"
proof (induction t i r rule: decode_slow.induct)
  case (1 t i r)
  from "1.prems" obtain b r1 nd where r1: "read_bit r = Inr (Some b, r1)" and nd: "index (nodes t) i = Inr nd"
    and rest: "(if child_of nd b < 0 then Inr (Some (word_of_int (- child_of nd b - 1)), r1)
       else decode_slow t (nat (child_of nd b)) r1) = Inr (Some s, r')"
    by (subst (asm) decode_slow.simps) (auto simp: result_simps Let_def split: option.splits)
  have "bits_left r1 < bits_left r" using left_read_bit [OF r1] by simp
  with rest "1.IH" [OF r1 refl refl nd refl] show ?case
    by (auto split: if_splits)
qed

lemma left_decode: "decode t r = Inr (Some s, r') \<Longrightarrow> bits_left r' < bits_left r"
  unfolding decode_def bindE_Inr_iff
  by (elim exE conjE)
    (auto simp: Let_def result_simps dest!: left_peek left_consume left_decode_slow split: option.splits if_splits)

subsection \<open>Packed entries\<close>

lemma pack_entry_len:
  assumes "len < 32"
  shows "unpack_len (pack_entry s len) = len"
proof -
  have "(push_bit 5 s OR of_nat len) AND 0x1F = (take_bit 5 (push_bit 5 s OR of_nat len) :: u16)"
    by (simp add: take_bit_eq_mask mask_eq_exp_minus_1)
  also have "\<dots> = take_bit 5 (of_nat len)"
    by (simp add: take_bit_push_bit)
  also have "\<dots> = of_nat len"
    using assms by (simp add: take_bit_of_nat take_bit_nat_eq_self)
  finally show ?thesis
    using assms by (simp add: unpack_len_def pack_entry_def unat_of_nat_small)
qed

lemma pack_entry_symbol:
  assumes "len < 32" "s < 2048"
  shows "unpack_symbol (pack_entry (of_nat s) len) = of_nat s"
proof (rule bit_word_eqI)
  fix i :: nat
  assume "i < LENGTH(16)"
  have "take_bit 5 (of_nat len :: u16) = of_nat len" "take_bit 11 (of_nat s :: u16) = of_nat s"
    using assms by (simp_all add: take_bit_of_nat take_bit_nat_eq_self)
  then have "bit (of_nat len :: u16) (5 + i) \<Longrightarrow> False" "bit (of_nat s :: u16) i \<Longrightarrow> i < 11"
    by (metis bit_take_bit_iff not_add_less1, metis bit_take_bit_iff)
  then show "bit (unpack_symbol (pack_entry (of_nat s) len)) i = bit (of_nat s :: u16) i"
    by (auto simp: unpack_symbol_def pack_entry_def bit_drop_bit_eq bit_or_iff bit_push_bit_iff)
qed

lemma unpack_len_0 [simp]: "unpack_len 0 = 0"
  by (simp add: unpack_len_def)

end
