(* ===== verification/Canonical_Codes.thy ===== *)
theory Canonical_Codes
  imports Bz_Prelude "HOL-Library.Sublist"
begin

text \<open>
  Canonical prefix codes: the code words as bit lists, the assignment of consecutive code
  values to symbols sorted by length, and the Kraft inequality. Scaled to a common length,
  the code words of an assignment are consecutive disjoint intervals; hence no code word is
  a prefix of another, and a code value fits its length.
\<close>

primrec nat_bits :: "nat \<Rightarrow> nat \<Rightarrow> bool list" where
  "nat_bits 0 c = []"
| "nat_bits (Suc l) c = nat_bits l (c div 2) @ [odd c]"

lemma length_nat_bits [simp]: "length (nat_bits l c) = l"
  by (induction l arbitrary: c) auto

lemma take_nat_bits: "k \<le> l \<Longrightarrow> take k (nat_bits l c) = nat_bits k (c div 2 ^ (l - k))"
proof (induction l arbitrary: c)
  case 0
  then show ?case by simp
next
  case (Suc l)
  show ?case
  proof (cases "k = Suc l")
    case True
    then show ?thesis by simp
  next
    case False
    with Suc have "take k (nat_bits (Suc l) c) = nat_bits k (c div 2 div 2 ^ (l - k))" by simp
    also have "c div 2 div 2 ^ (l - k) = c div 2 ^ (Suc l - k)"
      using False Suc.prems by (simp add: div_mult2_eq [symmetric] Suc_diff_le)
    finally show ?thesis .
  qed
qed

lemma nth_nat_bits: "i < l \<Longrightarrow> nat_bits l c ! i \<longleftrightarrow> odd (c div 2 ^ (l - 1 - i))"
proof -
  assume "i < l"
  then have "nat_bits l c ! i = take (Suc i) (nat_bits l c) ! i" by simp
  also have "\<dots> = nat_bits (Suc i) (c div 2 ^ (l - Suc i)) ! i"
    using \<open>i < l\<close> by (simp only: take_nat_bits Suc_leI)
  finally show ?thesis by (simp add: nth_append)
qed

lemma nat_of_bits_nat_bits: "nat_of_bits (nat_bits l c) = c mod 2 ^ l"
proof (induction l arbitrary: c)
  case 0
  then show ?case by simp
next
  case (Suc l)
  have "c mod 2 ^ Suc l = 2 * (c div 2 mod 2 ^ l) + c mod 2"
    by (simp add: mod_mult2_eq)
  with Suc show ?case by (simp add: nat_of_bits_snoc mod_2_eq_odd)
qed

lemma nat_bits_nat_of_bits: "nat_bits (length w) (nat_of_bits w) = w"
  by (induction w rule: rev_induct) (auto simp: nat_of_bits_snoc)

lemma nat_bits_inj: "nat_bits l c = nat_bits l d \<Longrightarrow> c < 2 ^ l \<Longrightarrow> d < 2 ^ l \<Longrightarrow> c = d"
  by (metis mod_less nat_of_bits_nat_bits)

lemma prefix_nat_bits:
  assumes "prefix (nat_bits l c) (nat_bits m d)" "c < 2 ^ l" "d < 2 ^ m"
  shows "l \<le> m" and "d div 2 ^ (m - l) = c"
proof -
  show l: "l \<le> m" using prefix_length_le [OF assms(1)] by simp
  have "nat_bits l c = take l (nat_bits m d)"
    using assms(1) by (auto simp: prefix_def)
  also have "\<dots> = nat_bits l (d div 2 ^ (m - l))"
    using l by (rule take_nat_bits)
  finally have "nat_bits l c = nat_bits l (d div 2 ^ (m - l))" .
  moreover have "d div 2 ^ (m - l) < 2 ^ l"
    using assms(3) l by (simp add: div_less_iff_less_mult power_add [symmetric])
  ultimately show "d div 2 ^ (m - l) = c" using assms(2) by (metis nat_bits_inj)
qed

subsection \<open>Canonical assignment\<close>

text \<open>Entries are \<open>(code, length, symbol)\<close>; \<open>max_len\<close> is the longest length of the format.\<close>

definition max_len :: nat where "max_len = 20"

fun canon :: "nat \<Rightarrow> nat \<Rightarrow> (nat \<times> nat) list \<Rightarrow> (nat \<times> nat \<times> nat) list" where
  "canon c p [] = []"
| "canon c p ((s, l) # ss) = (c * 2 ^ (l - p), l, s) # canon (c * 2 ^ (l - p) + 1) l ss"

definition weight :: "nat \<Rightarrow> nat" where
  "weight l = 2 ^ (max_len - l)"

definition kraft :: "(nat \<times> nat) list \<Rightarrow> nat" where
  "kraft ss = sum_list (map (\<lambda>(s, l). weight l) ss)"

definition low :: "nat \<times> nat \<times> nat \<Rightarrow> nat" where
  "low = (\<lambda>(c, l, s). c * weight l)"

definition high :: "nat \<times> nat \<times> nat \<Rightarrow> nat" where
  "high = (\<lambda>(c, l, s). (c + 1) * weight l)"

definition code_word :: "nat \<times> nat \<times> nat \<Rightarrow> bool list" where
  "code_word = (\<lambda>(c, l, s). nat_bits l c)"

definition lengths_ok :: "nat \<Rightarrow> (nat \<times> nat) list \<Rightarrow> bool" where
  "lengths_ok p ss \<longleftrightarrow> sorted (p # map snd ss) \<and> (\<forall>(s, l) \<in> set ss. 1 \<le> l \<and> l \<le> max_len)"

lemma weight_pos [simp]: "0 < weight l"
  by (simp add: weight_def)

lemma kraft_simps [simp]: "kraft [] = 0" "kraft ((s, l) # ss) = weight l + kraft ss"
  by (simp_all add: kraft_def)

lemma shift_weight: "p \<le> l \<Longrightarrow> l \<le> max_len \<Longrightarrow> c * 2 ^ (l - p) * weight l = c * weight p"
  by (simp add: weight_def power_add [symmetric])

lemma canon_intervals:
  "lengths_ok p ss \<Longrightarrow>
   sorted_wrt (\<lambda>e e'. high e \<le> low e') (canon c p ss) \<and>
   (\<forall>e \<in> set (canon c p ss). c * weight p \<le> low e \<and> high e \<le> c * weight p + kraft ss)"
proof (induction c p ss rule: canon.induct)
  case (1 c p)
  then show ?case by simp
next
  case (2 c p s l ss)
  let ?c = "c * 2 ^ (l - p)"
  have l: "p \<le> l" "l \<le> max_len" "lengths_ok l ss"
    using "2.prems" by (auto simp: lengths_ok_def)
  have eq: "?c * weight l = c * weight p"
    using l by (simp add: shift_weight)
  have eq1: "(?c + 1) * weight l = c * weight p + weight l"
    unfolding add_mult_distrib eq by simp
  let ?e = "(?c, l, s)" and ?es = "canon (?c + 1) l ss"
  have e: "low ?e = c * weight p" "high ?e = c * weight p + weight l"
    unfolding low_def high_def using eq eq1 by simp_all
  have IH: "sorted_wrt (\<lambda>e e'. high e \<le> low e') ?es"
    "\<And>e. e \<in> set ?es \<Longrightarrow> c * weight p + weight l \<le> low e \<and> high e \<le> c * weight p + weight l + kraft ss"
    using "2.IH" [OF l(3)] unfolding eq1 by blast+
  show ?case
    unfolding canon.simps sorted_wrt.simps list.set kraft_simps
  proof (intro conjI ballI)
    fix e'
    assume "e' \<in> set ?es"
    then show "high ?e \<le> low e'" using IH(2) e(2) by simp
  next
    fix e'
    assume "e' \<in> insert ?e (set ?es)"
    then consider "e' = ?e" | "e' \<in> set ?es" by blast
    then show "c * weight p \<le> low e'" "high e' \<le> c * weight p + (weight l + kraft ss)"
      using e by (cases; fastforce dest: IH(2))+
  qed (rule IH(1))
qed

lemma map_canon: "map (\<lambda>(c, l, s). (s, l)) (canon c p ss) = ss"
  by (induction c p ss rule: canon.induct) auto

lemma canon_symbol: "(c', l, s) \<in> set (canon c p ss) \<Longrightarrow> (s, l) \<in> set ss"
  by (subst map_canon [of c p ss, symmetric]) force

lemma symbol_canon: "(s, l) \<in> set ss \<Longrightarrow> \<exists>c'. (c', l, s) \<in> set (canon c p ss)"
  by (subst (asm) map_canon [of c p ss, symmetric]) force

text \<open>A complete or incomplete code: the Kraft sum is at most one.\<close>

definition code_ok :: "(nat \<times> nat \<times> nat) list \<Rightarrow> bool" where
  "code_ok es \<longleftrightarrow> sorted_wrt (\<lambda>e e'. high e \<le> low e') es \<and>
     (\<forall>(c, l, s) \<in> set es. 1 \<le> l \<and> l \<le> max_len \<and> c < 2 ^ l)"

lemma code_ok_Cons: "code_ok (e # es) \<Longrightarrow> code_ok es"
  by (simp add: code_ok_def)

lemma code_ok_entry:
  "code_ok es \<Longrightarrow> (c, l, s) \<in> set es \<Longrightarrow> 1 \<le> l \<and> l \<le> max_len \<and> c < 2 ^ l"
  unfolding code_ok_def by blast

lemma code_ok_canon:
  assumes "lengths_ok p ss" "kraft ss \<le> 2 ^ max_len"
  shows "code_ok (canon 0 p ss)"
  unfolding code_ok_def
proof (intro conjI ballI)
  show "sorted_wrt (\<lambda>e e'. high e \<le> low e') (canon 0 p ss)"
    using canon_intervals [OF assms(1)] by blast
  fix e
  assume e: "e \<in> set (canon 0 p ss)"
  obtain c l s where eq: "e = (c, l, s)" by (cases e)
  with e have l: "1 \<le> l" "l \<le> max_len"
    using canon_symbol [of c l s 0 p ss] assms(1) by (auto simp: lengths_ok_def)
  have "high e \<le> 2 ^ max_len"
    using canon_intervals [OF assms(1), of 0] e assms(2) by auto
  moreover have "2 ^ max_len = (2 ^ l * weight l :: nat)"
    using l by (simp add: weight_def power_add [symmetric])
  ultimately have "(c + 1) * weight l \<le> 2 ^ l * weight l"
    by (simp add: eq high_def)
  then have "c + 1 \<le> 2 ^ l"
    unfolding mult_le_cancel2 using weight_pos [of l] by blast
  with l show "case e of (c, l, s) \<Rightarrow> 1 \<le> l \<and> l \<le> max_len \<and> c < 2 ^ l"
    by (simp add: eq)
qed

lemma prefix_interval:
  assumes "prefix (code_word (c, l, s)) (code_word (d, m, t))" "c < 2 ^ l" "d < 2 ^ m" "m \<le> max_len"
  shows "low (c, l, s) \<le> low (d, m, t)" and "low (d, m, t) < high (c, l, s)"
proof -
  from assms have p: "l \<le> m" "d div 2 ^ (m - l) = c"
    using prefix_nat_bits [of l c m d] by (auto simp: code_word_def)
  have w: "weight l = 2 ^ (m - l) * weight m"
    using p(1) assms(4) by (simp add: weight_def power_add [symmetric])
  have "c * 2 ^ (m - l) \<le> d" using p(2) by (metis div_times_less_eq_dividend)
  then show "low (c, l, s) \<le> low (d, m, t)" by (simp add: low_def w)
  have "d < (c + 1) * 2 ^ (m - l)"
    using p(2) by (metis Suc_eq_plus1 dividend_less_times_div mult.commute mult_Suc zero_less_numeral zero_less_power)
  then have "d * weight m < (c + 1) * 2 ^ (m - l) * weight m"
    by (rule mult_less_mono1) simp
  then show "low (d, m, t) < high (c, l, s)"
    by (simp only: low_def high_def w prod.case mult.assoc)
qed

lemma low_less_high: "low e < high e"
  by (cases e) (simp add: low_def high_def)

lemma code_ok_disjoint:
  assumes "code_ok es" "e \<in> set es" "e' \<in> set es" "e \<noteq> e'"
  shows "high e \<le> low e' \<or> high e' \<le> low e"
proof -
  obtain i j where ij: "i < length es" "j < length es" "es ! i = e" "es ! j = e'"
    using assms(2,3) by (auto simp: in_set_conv_nth)
  with assms(4) have "i \<noteq> j" by auto
  then show ?thesis
    using assms(1) ij unfolding code_ok_def
    by (cases i j rule: linorder_cases) (auto dest: sorted_wrt_nth_less)
qed

lemma code_words_prefix_free:
  assumes "code_ok es" "e \<in> set es" "e' \<in> set es" "prefix (code_word e) (code_word e')"
  shows "e = e'"
proof (rule ccontr)
  assume "e \<noteq> e'"
  obtain c l s d m t where eq: "e = (c, l, s)" "e' = (d, m, t)" by (cases e, cases e')
  have "low e \<le> low e'" "low e' < high e"
    using assms prefix_interval [of c l s d m t] code_ok_entry [OF assms(1)] by (auto simp: eq)
  moreover have "low e' < high e'" by (rule low_less_high)
  ultimately show False
    using code_ok_disjoint [OF assms(1-3) \<open>e \<noteq> e'\<close>] by linarith
qed

subsection \<open>Counting the inner nodes\<close>

definition strict_prefixes :: "bool list set \<Rightarrow> bool list set" where
  "strict_prefixes V = {u. \<exists>v\<in>V. strict_prefix u v}"

lemma canon_covers:
  "lengths_ok p ss \<Longrightarrow> c * weight p \<le> x \<Longrightarrow> x < c * weight p + kraft ss \<Longrightarrow>
   \<exists>e\<in>set (canon c p ss). low e \<le> x \<and> x < high e"
proof (induction c p ss rule: canon.induct)
  case (1 c p)
  then show ?case by simp
next
  case (2 c p s l ss)
  let ?c = "c * 2 ^ (l - p)"
  have l: "p \<le> l" "l \<le> max_len" "lengths_ok l ss"
    using "2.prems"(1) by (auto simp: lengths_ok_def)
  have eq: "?c * weight l = c * weight p" using l by (simp add: shift_weight)
  have eq1: "(?c + 1) * weight l = c * weight p + weight l"
    unfolding add_mult_distrib eq by simp
  show ?case
  proof (cases "x < (?c + 1) * weight l")
    case True
    then have "low (?c, l, s) \<le> x" "x < high (?c, l, s)"
      using "2.prems"(2) eq by (simp_all only: low_def high_def prod.case)
    then show ?thesis by auto
  next
    case False
    have "(?c + 1) * weight l \<le> x" using False by linarith
    moreover have "x < (?c + 1) * weight l + kraft ss" using "2.prems"(3) unfolding eq1 kraft_simps by linarith
    ultimately have "\<exists>e\<in>set (canon (?c + 1) l ss). low e \<le> x \<and> x < high e"
      by (rule "2.IH" [OF l(3)])
    then show ?thesis by auto
  qed
qed

definition val :: "bool list \<Rightarrow> nat" where
  "val u = nat_of_bits u * weight (length u)"

lemma interval_prefix:
  assumes x: "length x \<le> max_len" and e: "l \<le> max_len"
    and i: "low (c, l, s) \<le> val x" "val x < high (c, l, s)"
  shows "length x \<le> l \<Longrightarrow> prefix x (code_word (c, l, s))"
    and "l \<le> length x \<Longrightarrow> prefix (code_word (c, l, s)) x"
proof -
  let ?m = "length x" and ?X = "nat_of_bits x"
  { assume ml: "?m \<le> l"
    have w: "weight ?m = 2 ^ (l - ?m) * weight l"
      using ml e by (simp add: weight_def power_add [symmetric])
    have "c * weight l \<le> ?X * 2 ^ (l - ?m) * weight l" "?X * 2 ^ (l - ?m) * weight l < (c + 1) * weight l"
      using i by (simp_all only: low_def high_def val_def w prod.case mult.assoc)
    then have "c = ?X * 2 ^ (l - ?m)" by (simp only: mult_le_cancel2 mult_less_cancel2) simp
    then have "take ?m (nat_bits l c) = nat_bits ?m ?X"
      using ml by (simp add: take_nat_bits)
    then show "prefix x (code_word (c, l, s))"
      by (metis nat_bits_nat_of_bits code_word_def prod.case take_is_prefix) }
  { assume lm: "l \<le> ?m"
    have w: "weight l = 2 ^ (?m - l) * weight ?m"
      using lm x by (simp add: weight_def power_add [symmetric])
    have "c * 2 ^ (?m - l) * weight ?m \<le> ?X * weight ?m" "?X * weight ?m < (c + 1) * 2 ^ (?m - l) * weight ?m"
      using i by (simp_all only: low_def high_def val_def w prod.case mult.assoc)
    then have "c * 2 ^ (?m - l) \<le> ?X" "?X < (c + 1) * 2 ^ (?m - l)"
      by (simp_all only: mult_le_cancel2 mult_less_cancel2)
    then have "?X div 2 ^ (?m - l) = c"
      by (simp add: div_nat_eqI mult.commute)
    then have "nat_bits l c = take l (nat_bits ?m ?X)" using lm by (simp add: take_nat_bits)
    then show "prefix (code_word (c, l, s)) x"
      by (metis nat_bits_nat_of_bits code_word_def prod.case take_is_prefix) }
qed

text \<open>The code words as a set, and the values they cover.\<close>

definition words_of :: "(nat \<times> nat \<times> nat) list \<Rightarrow> bool list set" where
  "words_of es = code_word ` set es"

lemma finite_strict_prefixes: "finite V \<Longrightarrow> finite (strict_prefixes V)"
proof -
  assume "finite V"
  have "strict_prefixes V \<subseteq> (\<Union>v\<in>V. set (prefixes v))"
    by (auto simp: strict_prefixes_def strict_prefix_def)
  then show ?thesis using \<open>finite V\<close> by (elim finite_subset) simp
qed

lemma val_snoc: "length u < max_len \<Longrightarrow> val (u @ [b]) = val u + (if b then weight (Suc (length u)) else 0)"
proof -
  assume "length u < max_len"
  then have "weight (length u) = 2 * weight (Suc (length u))"
    by (simp add: weight_def power_Suc [symmetric] Suc_diff_Suc del: power_Suc)
  then show ?thesis by (simp add: val_def nat_of_bits_snoc algebra_simps)
qed

lemma val_prefix:
  assumes "prefix u v" "length v \<le> max_len"
  shows "val u \<le> val v"
  using assms
proof (induction v rule: rev_induct)
  case Nil
  then show ?case by simp
next
  case (snoc b v)
  then show ?case by (auto simp: prefix_snoc val_snoc intro: order_trans [OF snoc.IH])
qed

lemma val_code_word: "code_ok es \<Longrightarrow> e \<in> set es \<Longrightarrow> val (code_word e) = low e"
  using code_ok_entry [of es "fst e" "fst (snd e)" "snd (snd e)"]
  by (cases e) (auto simp: val_def code_word_def low_def nat_of_bits_nat_bits)

text \<open>A proper prefix's child that leads to no code word starts at or after the end of the code.\<close>

lemma missing_child:
  assumes ok: "lengths_ok p ss" "kraft ss \<le> 2 ^ max_len"
    and V: "V = words_of (canon 0 p ss)"
    and u: "u \<in> strict_prefixes V" and x: "u @ [b] \<notin> strict_prefixes V \<union> V"
  shows "length u < max_len" "val u < kraft ss" "kraft ss \<le> val (u @ [b])"
proof -
  let ?es = "canon 0 p ss"
  note ok' = code_ok_canon [OF ok]
  obtain e where e: "e \<in> set ?es" "strict_prefix u (code_word e)"
    using u by (auto simp: V words_of_def strict_prefixes_def)
  obtain c l s where e3: "e = (c, l, s)" by (cases e)
  have l: "l \<le> max_len" using code_ok_entry [OF ok'] e(1) e3 by blast
  have "length u < l" using prefix_length_less [OF e(2)] by (simp add: e3 code_word_def)
  with l show lu: "length u < max_len" by simp
  have "val u \<le> low e"
    using val_prefix [of u "code_word e"] e l by (simp add: e3 code_word_def strict_prefix_def val_code_word [OF ok', symmetric])
  also have "\<dots> < high e" by (rule low_less_high)
  also have "\<dots> \<le> kraft ss" using canon_intervals [OF ok(1), of 0] e(1) by auto
  finally show "val u < kraft ss" .
  show "kraft ss \<le> val (u @ [b])"
  proof (rule ccontr)
    assume "\<not> kraft ss \<le> val (u @ [b])"
    then obtain e' where e': "e' \<in> set ?es" "low e' \<le> val (u @ [b])" "val (u @ [b]) < high e'"
      using canon_covers [OF ok(1), of 0 "val (u @ [b])"] by auto
    obtain d m t where e3': "e' = (d, m, t)" by (cases e')
    have m: "m \<le> max_len" using code_ok_entry [OF ok'] e'(1) e3' by blast
    show False
    proof (cases "length (u @ [b]) \<le> m")
      case True
      then have "prefix (u @ [b]) (code_word e')"
        using interval_prefix(1) [of "u @ [b]" m d t] lu m e' e3' by simp
      then show False using x e'(1) by (auto simp: V words_of_def strict_prefixes_def strict_prefix_def)
    next
      case False
      then have "prefix (code_word e') (u @ [b])" "length (code_word e') \<noteq> length (u @ [b])"
        using interval_prefix(2) [of "u @ [b]" m d t] lu m e' e3' by (simp_all add: code_word_def)
      then have p: "prefix (code_word e') u" by (auto simp: prefix_snoc)
      with e(2) have "prefix (code_word e') (code_word e)"
        by (auto simp: strict_prefix_def dest: prefix_order.order_trans)
      then have "e' = e" using code_words_prefix_free [OF ok' e'(1) e(1)] by simp
      with p e(2) show False by (auto simp: strict_prefix_def)
    qed
  qed
qed

lemma missing_unique:
  assumes "length u < max_len" "length u' = length u"
    and "val u < B" "B \<le> val (u @ [b])" "val u' < B" "B \<le> val (u' @ [b'])"
  shows "u @ [b] = u' @ [b']"
proof -
  let ?w = "weight (length u)"
  have bt: "b" "b'" using assms by (simp_all add: val_snoc split: if_splits)
  have w: "?w = 2 * weight (Suc (length u))"
    using assms(1) by (simp add: weight_def power_Suc [symmetric] Suc_diff_Suc del: power_Suc)
  have "B \<le> val u + ?w" "B \<le> val u' + ?w"
    using assms w bt by (simp_all add: val_snoc)
  with assms have "nat_of_bits u * ?w < (nat_of_bits u' + 1) * ?w" "nat_of_bits u' * ?w < (nat_of_bits u + 1) * ?w"
    by (simp_all add: val_def)
  then have "nat_of_bits u = nat_of_bits u'" by (simp only: mult_less_cancel2) simp
  then have "u = u'" using assms(2) by (metis nat_bits_nat_of_bits)
  with bt show ?thesis by simp
qed


text \<open>One child of a proper prefix may be missing at each length, so the inner nodes are few.\<close>

lemma card_strict_prefixes:
  assumes ok: "lengths_ok p ss" "kraft ss \<le> 2 ^ max_len" and ne: "ss \<noteq> []"
    and V: "V = words_of (canon 0 p ss)"
  shows "card (strict_prefixes V) \<le> length ss + max_len"
proof -
  let ?S = "strict_prefixes V"
  let ?K = "(\<lambda>(u, b). u @ [b]) ` (?S \<times> UNIV)"
  let ?X = "?K - (?S \<union> V)"
  have finV: "finite V" by (simp add: V words_of_def)
  have finS: "finite ?S" using finV by (rule finite_strict_prefixes)
  have "inj_on (\<lambda>(u, b). u @ [b]) (?S \<times> (UNIV :: bool set))" by (auto simp: inj_on_def)
  then have K: "card ?K = 2 * card ?S" by (simp add: card_image card_cartesian_product)
  have "inj_on length ?X"
  proof (rule inj_onI)
    fix x x' assume "x \<in> ?X" "x' \<in> ?X" and len: "length x = length x'"
    then obtain u b u' b' where x: "x = u @ [b]" "u \<in> ?S" "x \<notin> ?S \<union> V"
      and x': "x' = u' @ [b']" "u' \<in> ?S" "x' \<notin> ?S \<union> V" by auto
    note m = missing_child [OF ok V x(2) x(3) [unfolded x(1)]] and m' = missing_child [OF ok V x'(2) x'(3) [unfolded x'(1)]]
    show "x = x'"
      unfolding x(1) x'(1) using missing_unique [OF m(1) _ m(2,3) m'(2,3)] len x(1) x'(1) by simp
  qed
  moreover have "length ` ?X \<subseteq> {1..max_len}"
    using missing_child(1) [OF ok V] by (fastforce simp: Suc_le_eq)
  ultimately have X: "card ?X \<le> max_len"
    using card_inj_on_le [of length ?X "{1..max_len}"] by simp
  have cV: "card V \<le> length ss"
    using card_image_le [of "set (canon 0 p ss)" code_word] card_length [of "canon 0 p ss"]
      arg_cong [OF map_canon [of 0 p ss], of length] by (simp add: V words_of_def)
  have "canon 0 p ss \<noteq> []" using ne by (cases ss) auto
  then obtain c l s where e: "(c, l, s) \<in> set (canon 0 p ss)" by (cases "canon 0 p ss") auto
  then have "code_word (c, l, s) \<noteq> []"
    using code_ok_entry [OF code_ok_canon [OF ok] e] by (cases l) (auto simp: code_word_def)
  then have "strict_prefix [] (code_word (c, l, s))" by (auto simp: strict_prefix_def)
  with e have nil: "[] \<in> ?S" unfolding V words_of_def strict_prefixes_def by blast
  have "?K \<subseteq> (?S - {[]}) \<union> V \<union> ?X" by auto
  then have "card ?K \<le> card ((?S - {[]}) \<union> V \<union> ?X)"
    using finS finV by (intro card_mono) auto
  also have "\<dots> \<le> card (?S - {[]}) + card V + card ?X"
    using card_Un_le [of "(?S - {[]}) \<union> V" ?X] card_Un_le [of "?S - {[]}" V] by linarith
  also have "card (?S - {[]}) = card ?S - 1" using nil finS by simp
  finally have "2 * card ?S \<le> (card ?S - 1) + card V + card ?X" using K by simp
  with X cV show ?thesis by linarith
qed

end
