(* ===== verification/Huffman_Trie.thy ===== *)
theory Huffman_Trie
  imports Huffman_Tree Canonical_Codes
begin

text \<open>
  The node array as a trie. A ghost function gives every node in use the bit path that leads to it;
  positive children extend the path, negative ones are the leaves of inserted code words,
  zero ones lead to no code word. \<open>insert_code\<close> adds one code word and needs a new node
  only for a proper prefix of a code word, so the bound on the node array is a bound on
  the number of these prefixes.
\<close>

definition trie_inv ::
  "(int \<times> int) list \<Rightarrow> nat \<Rightarrow> (nat \<Rightarrow> bool list) \<Rightarrow> (bool list \<times> nat) set \<Rightarrow> bool list set \<Rightarrow> bool" where
  "trie_inv nd n path C V \<longleftrightarrow>
     length nd = MAX_TREE_NODES \<and> 0 < n \<and> n \<le> MAX_TREE_NODES \<and> path 0 = [] \<and> inj_on path {..<n} \<and>
     (\<forall>i<n. \<forall>b.
        (child_of (nd ! i) b > 0 \<longrightarrow> nat (child_of (nd ! i) b) < n \<and> path (nat (child_of (nd ! i) b)) = path i @ [b]) \<and>
        (child_of (nd ! i) b < 0 \<longrightarrow> (path i @ [b], nat (- child_of (nd ! i) b - 1)) \<in> C) \<and>
        (child_of (nd ! i) b = 0 \<longrightarrow> (\<forall>(w, s) \<in> C. \<not> prefix (path i @ [b]) w))) \<and>
     (\<forall>i. n \<le> i \<longrightarrow> i < MAX_TREE_NODES \<longrightarrow> nd ! i = (0, 0)) \<and>
     (\<forall>j<n. j > 0 \<longrightarrow> path j \<in> strict_prefixes V \<and> (\<exists>i<n. \<exists>b. child_of (nd ! i) b = int j))"

lemma trie_child:
  assumes "trie_inv nd n path C V" "i < n"
  shows "child_of (nd ! i) b > 0 \<Longrightarrow> nat (child_of (nd ! i) b) < n \<and> path (nat (child_of (nd ! i) b)) = path i @ [b]"
    and "child_of (nd ! i) b < 0 \<Longrightarrow> (path i @ [b], nat (- child_of (nd ! i) b - 1)) \<in> C"
    and "child_of (nd ! i) b = 0 \<Longrightarrow> (w, s) \<in> C \<Longrightarrow> \<not> prefix (path i @ [b]) w"
  using assms unfolding trie_inv_def by blast+

lemma trie_basic:
  assumes "trie_inv nd n path C V"
  shows "length nd = MAX_TREE_NODES" "0 < n" "n \<le> MAX_TREE_NODES" "path 0 = []" "inj_on path {..<n}"
  using assms unfolding trie_inv_def by blast+

lemma trie_node:
  assumes "trie_inv nd n path C V" "j < n" "0 < j"
  shows "path j \<in> strict_prefixes V" "\<exists>i<n. \<exists>b. child_of (nd ! i) b = int j"
  using assms unfolding trie_inv_def by blast+

lemma child_of_set_child: "child_of (set_child nd b v) b' = (if b' = b then v else child_of nd b')"
  by (auto simp: child_of_def set_child_def)

lemma child_of_update:
  "i < length nd \<Longrightarrow> child_of (nd[i := set_child (nd ! i) b v] ! i') b' =
     (if i' = i \<and> b' = b then v else child_of (nd ! i') b')"
  by (cases "i' = i") (auto simp: child_of_set_child)

lemma trie_inv_mono: "trie_inv nd n path C V \<Longrightarrow> V \<subseteq> V' \<Longrightarrow> trie_inv nd n path C V'"
  unfolding trie_inv_def strict_prefixes_def by blast

text \<open>No node has the path of a missing child.\<close>

lemma trie_fresh:
  assumes inv: "trie_inv nd n path C V" and i: "i < n" and zero: "child_of (nd ! i) b = 0" and j: "j < n"
  shows "path j \<noteq> path i @ [b]"
proof
  assume eq: "path j = path i @ [b]"
  then have "0 < j" using trie_basic(4) [OF inv] by (cases j) auto
  then obtain i' b' where i': "i' < n" "child_of (nd ! i') b' = int j" using trie_node(2) [OF inv j] by blast
  with trie_child(1) [OF inv i'(1), of b'] \<open>0 < j\<close> have "path j = path i' @ [b']" by simp
  with eq have "path i' = path i" "b' = b" by simp_all
  then have "i' = i" using trie_basic(5) [OF inv] i i'(1) by (simp add: inj_on_eq_iff)
  with \<open>b' = b\<close> i'(2) zero \<open>0 < j\<close> show False by simp
qed

text \<open>A new node below node \<open>i\<close>, on the way to a code word of \<open>V\<close>.\<close>

lemma trie_inv_new_node:
  assumes inv: "trie_inv nd n path C V" and i: "i < n" and zero: "child_of (nd ! i) b = 0"
    and n: "n < MAX_TREE_NODES" and p: "path i @ [b] \<in> strict_prefixes V"
  shows "trie_inv (nd[i := set_child (nd ! i) b (int n)]) (Suc n) (path(n := path i @ [b])) C V"
proof -
  let ?nd = "nd[i := set_child (nd ! i) b (int n)]" and ?path = "path(n := path i @ [b])"
  note basic = trie_basic [OF inv]
  have il: "i < length nd" using i n basic(1) by simp
  have unused: "nd ! n = (0, 0)" using inv n by (simp add: trie_inv_def)
  then have n0: "child_of (?nd ! n) b' = 0" for b' using i by (simp add: child_of_def)
  have C0: "\<not> prefix (path i @ [b]) w" if "(w, s) \<in> C" for w s
    using trie_child(3) [OF inv i zero that] .
  note fresh = trie_fresh [OF inv i zero]
  have inj: "inj_on ?path {..<Suc n}"
    unfolding lessThan_Suc inj_on_insert
    using basic(5) fresh by (auto simp: inj_on_def) metis
  have children: "(child_of (?nd ! i') b' > 0 \<longrightarrow> nat (child_of (?nd ! i') b') < Suc n \<and> ?path (nat (child_of (?nd ! i') b')) = ?path i' @ [b']) \<and>
        (child_of (?nd ! i') b' < 0 \<longrightarrow> (?path i' @ [b'], nat (- child_of (?nd ! i') b' - 1)) \<in> C) \<and>
        (child_of (?nd ! i') b' = 0 \<longrightarrow> (\<forall>(w, s) \<in> C. \<not> prefix (?path i' @ [b']) w))" if "i' < Suc n" for i' b'
  proof (cases "i' = n")
    case True
    have "\<not> prefix (path i @ [b, b']) w" if "(w, s) \<in> C" for w s
      using C0 [OF that] by (metis append_prefixD append.assoc append_Cons append_Nil)
    with True show ?thesis using n0 by auto
  next
    case False
    with that have i': "i' < n" by simp
    show ?thesis
    proof (cases "i' = i \<and> b' = b")
      case True
      with i basic(2) show ?thesis by (simp add: child_of_update [OF il])
    next
      case False
      then have "child_of (?nd ! i') b' = child_of (nd ! i') b'" by (simp only: child_of_update [OF il] if_False)
      moreover have "?path i' = path i'" using i' by simp
      moreover have "?path m = path m" if "m < n" for m using that by simp
      ultimately show ?thesis
        using trie_child [OF inv i', of b'] by (auto simp: less_Suc_eq)
    qed
  qed
  have unused': "?nd ! k = (0, 0)" if "Suc n \<le> k" "k < MAX_TREE_NODES" for k
    using inv that i by (simp add: trie_inv_def)
  have nodes: "?path j \<in> strict_prefixes V \<and> (\<exists>i'<Suc n. \<exists>b'. child_of (?nd ! i') b' = int j)" if "j < Suc n" "0 < j" for j
  proof (cases "j = n")
    case True
    have "child_of (?nd ! i) b = int n" by (simp add: child_of_update [OF il])
    with True p i show ?thesis by (auto intro!: exI [of _ i])
  next
    case False
    with that have j: "j < n" by simp
    from trie_node [OF inv j that(2)] obtain i' b' where
      "path j \<in> strict_prefixes V" "i' < n" "child_of (nd ! i') b' = int j" by blast
    moreover have "child_of (nd ! i') b' \<noteq> child_of (nd ! i) b" using zero that(2) calculation(3) by simp
    then have "\<not> (i' = i \<and> b' = b)" by blast
    ultimately have "path j \<in> strict_prefixes V" "i' < n" "child_of (?nd ! i') b' = int j"
      by (simp_all only: child_of_update [OF il] if_False)
    then show ?thesis using j by (auto intro!: exI [of _ i'])
  qed
  show ?thesis
    unfolding trie_inv_def
    using basic n inj children unused' nodes by (simp add: Suc_le_eq)
qed

text \<open>A leaf below node \<open>i\<close>, when all other nodes on the way have their child.\<close>

lemma trie_inv_leaf:
  assumes inv: "trie_inv nd n path C V" and i: "i < n" and zero: "child_of (nd ! i) b = 0"
    and walked: "\<And>k. k < length (path i) \<Longrightarrow> \<exists>j<n. path j = take k (path i) \<and> child_of (nd ! j) (path i ! k) > 0"
  shows "trie_inv (nd[i := set_child (nd ! i) b (- (int s + 1))]) n path (insert (path i @ [b], s) C) V"
proof -
  let ?nd = "nd[i := set_child (nd ! i) b (- (int s + 1))]" and ?C = "insert (path i @ [b], s) C"
  note basic = trie_basic [OF inv]
  have il: "i < length nd" using i basic by simp
  have children: "(child_of (?nd ! i') b' > 0 \<longrightarrow> nat (child_of (?nd ! i') b') < n \<and> path (nat (child_of (?nd ! i') b')) = path i' @ [b']) \<and>
        (child_of (?nd ! i') b' < 0 \<longrightarrow> (path i' @ [b'], nat (- child_of (?nd ! i') b' - 1)) \<in> ?C) \<and>
        (child_of (?nd ! i') b' = 0 \<longrightarrow> (\<forall>(w, s) \<in> ?C. \<not> prefix (path i' @ [b']) w))" if i': "i' < n" for i' b'
  proof (cases "i' = i \<and> b' = b")
    case True
    then show ?thesis by (simp add: child_of_update [OF il])
  next
    case False
    then have eq: "child_of (?nd ! i') b' = child_of (nd ! i') b'" by (simp only: child_of_update [OF il] if_False)
    have "\<not> prefix (path i' @ [b']) (path i @ [b])" if c0: "child_of (nd ! i') b' = 0"
    proof
      assume p: "prefix (path i' @ [b']) (path i @ [b])"
      then consider "path i' = path i" "b' = b" | "prefix (path i' @ [b']) (path i)"
        by (metis append1_eq_conv prefix_snoc)
      then show False
      proof cases
        case 1
        then have "i' = i" using basic(5) i i' by (simp add: inj_on_eq_iff)
        with 1 False show False by simp
      next
        case 2
        then obtain rest where r: "path i = path i' @ b' # rest" by (auto simp: prefix_def)
        then obtain j where "j < n" "path j = path i'" "child_of (nd ! j) b' > 0"
          using walked [of "length (path i')"] by auto
        then have "j = i'" using basic(5) i' by (simp add: inj_on_eq_iff)
        with c0 \<open>child_of (nd ! j) b' > 0\<close> show False by simp
      qed
    qed
    then show ?thesis unfolding eq using trie_child [OF inv i', of b'] by auto
  qed
  have nodes: "path j \<in> strict_prefixes V \<and> (\<exists>i'<n. \<exists>b'. child_of (?nd ! i') b' = int j)" if "j < n" "0 < j" for j
  proof -
    from trie_node [OF inv that] obtain i' b' where
      "path j \<in> strict_prefixes V" "i' < n" "child_of (nd ! i') b' = int j" by blast
    moreover have "child_of (nd ! i') b' \<noteq> child_of (nd ! i) b" using zero that(2) calculation(3) by simp
    then have "\<not> (i' = i \<and> b' = b)" by blast
    ultimately show ?thesis by (metis child_of_update [OF il])
  qed
  have unused: "?nd ! k = (0, 0)" if "n \<le> k" "k < MAX_TREE_NODES" for k
    using inv that i by (simp add: trie_inv_def)
  show ?thesis
    unfolding trie_inv_def using basic children nodes unused by simp
qed


text \<open>The bound on the node array is a bound on the number of proper prefixes of code words.\<close>

lemma trie_room:
  assumes inv: "trie_inv nd n path C V" and i: "i < n" and zero: "child_of (nd ! i) b = 0"
    and p: "path i @ [b] \<in> strict_prefixes V"
    and V: "finite (strict_prefixes V)" "card (strict_prefixes V) \<le> MAX_TREE_NODES"
  shows "n < MAX_TREE_NODES"
proof -
  have "path ` {..<n} \<subseteq> strict_prefixes V"
  proof
    fix u assume "u \<in> path ` {..<n}"
    then obtain j where j: "j < n" "u = path j" by blast
    show "u \<in> strict_prefixes V"
    proof (cases "j = 0")
      case True
      with j trie_basic(4) [OF inv] have "u = []" by simp
      moreover from p obtain v where "v \<in> V" "strict_prefix (path i @ [b]) v" by (auto simp: strict_prefixes_def)
      then have "v \<in> V" "strict_prefix [] v" by (auto simp: strict_prefix_def)
      ultimately show ?thesis by (auto simp: strict_prefixes_def)
    next
      case False
      with j trie_node(1) [OF inv] show ?thesis by simp
    qed
  qed
  moreover have "path i @ [b] \<notin> path ` {..<n}" using trie_fresh [OF inv i zero] by fastforce
  ultimately have "card (insert (path i @ [b]) (path ` {..<n})) \<le> card (strict_prefixes V)"
    using p V(1) by (intro card_mono) auto
  then have "Suc n \<le> card (strict_prefixes V)"
    using \<open>path i @ [b] \<notin> path ` {..<n}\<close> trie_basic(5) [OF inv] by (simp add: card_image)
  with V(2) show ?thesis by simp
qed

definition walked :: "(int \<times> int) list \<Rightarrow> nat \<Rightarrow> (nat \<Rightarrow> bool list) \<Rightarrow> bool list \<Rightarrow> bool" where
  "walked nd n path u \<longleftrightarrow> (\<forall>k<length u. \<exists>j<n. path j = take k u \<and> child_of (nd ! j) (u ! k) > 0)"

lemma walked_snoc:
  "walked nd n path u \<Longrightarrow> i < n \<Longrightarrow> path i = u \<Longrightarrow> child_of (nd ! i) b > 0 \<Longrightarrow> walked nd n path (u @ [b])"
  unfolding walked_def by (auto simp: less_Suc_eq nth_append)

lemma insert_code_trie:
  assumes "trie_inv (nodes t) (n_nodes t) path C V" "i < n_nodes t"
    and "l < 32" "k \<le> l" "w = nat_bits l c" "path i = take (l - k) w" "0 < k"
    and "w \<in> V" "finite (strict_prefixes V)" "card (strict_prefixes V) \<le> MAX_TREE_NODES"
    and "\<And>v s'. (v, s') \<in> C \<Longrightarrow> \<not> prefix v w" "\<And>v. v \<in> V \<Longrightarrow> prefix w v \<Longrightarrow> v = w"
    and "walked (nodes t) (n_nodes t) path (path i)"
  shows "\<exists>t' path'. insert_code k c s i t = Inr t' \<and> fast_table t' = fast_table t \<and>
    trie_inv (nodes t') (n_nodes t') path' (insert (w, s) C) V"
  using assms
proof (induction k arbitrary: i t path)
  case 0
  then show ?case by simp
next
  case (Suc k)
  note inv = Suc.prems(1) and i = Suc.prems(2) and w = Suc.prems(5) and path = Suc.prems(6)
  let ?b = "odd (c div 2 ^ k)" and ?nd = "nodes t ! i"
  have kl: "l - k = Suc (l - Suc k)" and lw: "length w = l" using Suc.prems(4) w by auto
  then have b: "w ! (l - Suc k) = ?b" using w Suc.prems(4) by (simp add: nth_nat_bits)
  have path': "take (l - k) w = path i @ [?b]"
    unfolding kl path using lw kl b by (simp add: take_Suc_conv_app_nth)
  have nd: "index (nodes t) i = Inr ?nd" "code_bit c k = Inr ?b"
    using i trie_basic [OF inv] Suc.prems(3,4) by (simp_all add: index_def code_bit_def)
  have neg: "\<not> child_of ?nd ?b < 0"
  proof
    assume "child_of ?nd ?b < 0"
    then have "(path i @ [?b], nat (- child_of ?nd ?b - 1)) \<in> C" using trie_child(2) [OF inv i] by blast
    from Suc.prems(11) [OF this] path' show False by (metis take_is_prefix)
  qed
  show ?case
  proof (cases "child_of ?nd ?b > 0")
    case True
    let ?i = "nat (child_of ?nd ?b)"
    have i': "?i < n_nodes t" "path ?i = path i @ [?b]" using trie_child(1) [OF inv i True] by simp_all
    have "0 < k"
    proof (rule ccontr)
      assume "\<not> 0 < k"
      with path' lw i'(2) have eq: "path ?i = w" by simp
      have "0 < ?i" using True by simp
      with trie_node(1) [OF inv i'(1)] eq obtain v where "v \<in> V" "strict_prefix w v" by (auto simp: strict_prefixes_def)
      with Suc.prems(12) show False by (auto simp: strict_prefix_def)
    qed
    have "walked (nodes t) (n_nodes t) path (path ?i)"
      unfolding i'(2) using walked_snoc [OF Suc.prems(13) i refl True] .
    from Suc.IH [OF inv i'(1) Suc.prems(3) _ w _ \<open>0 < k\<close> Suc.prems(8-12) this] Suc.prems(4) True path' i'(2)
    show ?thesis by (simp add: nd Let_def)
  next
    case False
    with neg have zero: "child_of ?nd ?b = 0" by simp
    have pw: "prefix (path i @ [?b]) w" using path' by (metis take_is_prefix)
    show ?thesis
    proof (cases "k = 0")
      case True
      let ?t = "t\<lparr>nodes := (nodes t)[i := set_child ?nd ?b (- (int s + 1))]\<rparr>"
      have "trie_inv (nodes ?t) (n_nodes ?t) path (insert (path i @ [?b], s) C) V"
        using trie_inv_leaf [OF inv i zero] Suc.prems(13) unfolding walked_def by simp
      moreover have "path i @ [?b] = w" using path' True lw by simp
      ultimately show ?thesis using True zero by (auto simp: nd(1) nd(2) [unfolded True] Let_def)
    next
      case False
      let ?n = "n_nodes t"
      let ?t = "t\<lparr>nodes := (nodes t)[i := set_child ?nd ?b (int ?n)], n_nodes := ?n + 1\<rparr>"
      let ?path = "path(?n := path i @ [?b])"
      have "length (path i @ [?b]) < l" unfolding path' [symmetric] using False lw Suc.prems(4) by simp
      then have "path i @ [?b] \<in> strict_prefixes V"
        using pw lw Suc.prems(8) by (auto simp: strict_prefixes_def strict_prefix_def)
      note p = this
      have n: "?n < MAX_TREE_NODES"
        by (rule trie_room [OF inv i zero p Suc.prems(9,10)])
      have inv': "trie_inv (nodes ?t) (n_nodes ?t) ?path C V"
        using trie_inv_new_node [OF inv i zero n p] by simp
      have il: "i < length (nodes t)" using i trie_basic [OF inv] by simp
      have pos: "child_of (nodes ?t ! j) b > 0" if "child_of (nodes t ! j) b > 0" for j b
        using that zero trie_basic(2) [OF inv] by (auto simp: child_of_update [OF il])
      have "walked (nodes ?t) (n_nodes ?t) ?path (path i)"
        unfolding walked_def
      proof (intro allI impI)
        fix m assume "m < length (path i)"
        then obtain j where "j < ?n" "path j = take m (path i)" "child_of (nodes t ! j) (path i ! m) > 0"
          using Suc.prems(13) by (auto simp: walked_def)
        then show "\<exists>j<n_nodes ?t. ?path j = take m (path i) \<and> child_of (nodes ?t ! j) (path i ! m) > 0"
          using pos by (intro exI [of _ j]) simp
      qed
      moreover have "child_of (nodes ?t ! i) ?b > 0" 
        using trie_basic(2) [OF inv] by (simp add: child_of_update [OF il])
      ultimately have "walked (nodes ?t) (n_nodes ?t) ?path (?path ?n)"
        using walked_snoc [of "nodes ?t" "n_nodes ?t" ?path "path i" i ?b] i by simp
      from Suc.IH [OF inv' _ Suc.prems(3) _ w _ _ Suc.prems(8-12) this] Suc.prems(4) False path'
      show ?thesis using zero n by (auto simp: nd Let_def)
    qed
  qed
qed

end
