(* ===== verification/Huffman_Decode.thy ===== *)
theory Huffman_Decode
  imports Huffman_Trie "HOL-Library.Multiset"
begin

text \<open>
  Correctness of the Huffman decoder: for code lengths that satisfy the Kraft inequality,
  \<open>from_lengths\<close> succeeds, and both paths of \<open>decode\<close> read exactly one canonical code word.
\<close>

subsection \<open>The tree holds the canonical code\<close>

definition entries :: "(nat \<times> nat \<times> nat) list \<Rightarrow> (bool list \<times> nat) set" where
  "entries es = (\<lambda>(c, l, s). (nat_bits l c, s)) ` set es"

lemma entries_word: "(v, s) \<in> entries es \<longleftrightarrow> (\<exists>c l. (c, l, s) \<in> set es \<and> v = code_word (c, l, s))"
  unfolding entries_def code_word_def by (auto simp: image_iff) force+

lemma entries_snoc: "entries (es @ [(c, l, s)]) = insert (nat_bits l c, s) (entries es)"
  by (auto simp: entries_def)

lemma words_of_iff: "v \<in> words_of es \<longleftrightarrow> (\<exists>e\<in>set es. v = code_word e)"
  by (auto simp: words_of_def)

lemma shift_ok:
  assumes "code_ok (es @ (c * 2 ^ (l - p), l, s) # fs)" "p \<le> l"
  shows "sub_checked l p = Inr (l - p)" "shl32 c (l - p) = Inr (c * 2 ^ (l - p))"
    "inc32 (c * 2 ^ (l - p)) = Inr (c * 2 ^ (l - p) + 1)" "1 \<le> l" "l < 32"
proof -
  have l: "1 \<le> l" "l \<le> max_len" "c * 2 ^ (l - p) < 2 ^ l"
    using code_ok_entry [OF assms(1), of "c * 2 ^ (l - p)" l s] by auto
  have "(2::nat) ^ l \<le> 2 ^ max_len" using l(2) by (rule power_increasing) simp
  then have "c * 2 ^ (l - p) < 2 ^ 20" using l(3) by (simp add: max_len_def)
  then show "shl32 c (l - p) = Inr (c * 2 ^ (l - p))" "inc32 (c * 2 ^ (l - p)) = Inr (c * 2 ^ (l - p) + 1)"
    using l(2) by (simp_all add: shl32_def inc32_def max_len_def)
  show "sub_checked l p = Inr (l - p)" using assms(2) by (simp add: sub_checked_def)
  show "1 \<le> l" "l < 32" using l by (simp_all add: max_len_def)
qed

lemma code_ok_before:
  assumes "code_ok (es @ e # fs)" "e' \<in> set es"
  shows "\<not> prefix (code_word e') (code_word e)"
proof
  assume p: "prefix (code_word e') (code_word e)"
  have "e' = e" by (rule code_words_prefix_free [OF assms(1) _ _ p]) (use assms(2) in auto)
  moreover have "high e' \<le> low e" using assms by (auto simp: code_ok_def sorted_wrt_append)
  ultimately show False using low_less_high [of e] by simp
qed

lemma assign_codes_trie:
  assumes "trie_inv (nodes t) (n_nodes t) path (entries es) V"
    and "code_ok (es @ canon c p ss)" "sorted (p # map snd ss)"
    and "V = words_of (es @ canon c p ss)" "card (strict_prefixes V) \<le> MAX_TREE_NODES"
  shows "\<exists>t' path'. assign_codes ss c p t = Inr (t', canon c p ss) \<and> fast_table t' = fast_table t \<and>
    trie_inv (nodes t') (n_nodes t') path' (entries (es @ canon c p ss)) V"
  using assms
proof (induction ss arbitrary: c p t es path)
  case Nil
  then show ?case by auto
next
  case (Cons a ss)
  obtain s l where a: "a = (s, l)" by (cases a)
  let ?c = "c * 2 ^ (l - p)"
  let ?e = "(?c, l, s)" and ?es = "canon (?c + 1) l ss"
  have pl: "p \<le> l" "sorted (l # map snd ss)" using Cons.prems(3) a by auto
  have ok: "code_ok (es @ ?e # ?es)" using Cons.prems(2) a by simp
  note shift = shift_ok [OF ok pl(1)]
  note inv = Cons.prems(1)
  have V: "V = words_of (es @ ?e # ?es)" using Cons.prems(4) a by simp
  have fin: "finite (strict_prefixes V)" unfolding V words_of_def by (intro finite_strict_prefixes) simp
  have w: "nat_bits l ?c = code_word ?e" by (simp add: code_word_def)
  have "\<exists>t' path'. insert_code l ?c s 0 t = Inr t' \<and> fast_table t' = fast_table t \<and>
    trie_inv (nodes t') (n_nodes t') path' (insert (nat_bits l ?c, s) (entries es)) V"
  proof (rule insert_code_trie [OF inv _ shift(5) order_refl refl _ _ _ fin Cons.prems(5)])
    show "0 < n_nodes t" "path 0 = take (l - l) (nat_bits l ?c)" "walked (nodes t) (n_nodes t) path (path 0)"
      using trie_basic [OF inv] by (simp_all add: walked_def)
    show "0 < l" using shift(4) by simp
    show "nat_bits l ?c \<in> V" unfolding V w by (simp add: words_of_def)
    show "\<not> prefix v (nat_bits l ?c)" if vs: "(v, s') \<in> entries es" for v s'
      using code_ok_before [OF ok] vs unfolding w by (auto simp: entries_word)
    show "v = nat_bits l ?c" if v: "v \<in> V" and pre: "prefix (nat_bits l ?c) v" for v
    proof -
      obtain e' where e': "e' \<in> set (es @ ?e # ?es)" "v = code_word e'" using v unfolding V words_of_iff by blast
      have "?e = e'" by (rule code_words_prefix_free [OF ok _ e'(1)]) (use pre e'(2) w in simp_all)
      with e'(2) w show ?thesis by simp
    qed
  qed
  then obtain t1 path1 where t1: "insert_code l ?c s 0 t = Inr t1" "fast_table t1 = fast_table t"
    "trie_inv (nodes t1) (n_nodes t1) path1 (entries (es @ [?e])) V" by (auto simp: entries_snoc)
  have "\<exists>t' path'. assign_codes ss (?c + 1) l t1 = Inr (t', ?es) \<and> fast_table t' = fast_table t1 \<and>
    trie_inv (nodes t') (n_nodes t') path' (entries ((es @ [?e]) @ ?es)) V"
    by (rule Cons.IH [OF t1(3) _ pl(2) _ Cons.prems(5)]) (use ok V in simp_all)
  then obtain t2 path2 where t2: "assign_codes ss (?c + 1) l t1 = Inr (t2, ?es)" "fast_table t2 = fast_table t1"
    "trie_inv (nodes t2) (n_nodes t2) path2 (entries (es @ ?e # ?es)) V" by auto
  have "assign_codes (a # ss) c p t = Inr (t2, canon c p (a # ss))"
    using t1(1) t2(1) shift by (simp add: a)
  moreover have "canon c p (a # ss) = ?e # ?es" by (simp add: a)
  ultimately show ?case using t1(2) t2 by metis
qed

subsection \<open>The slow path\<close>

lemma decode_slow_walk:
  assumes inv: "trie_inv (nodes t) (n_nodes t) path (entries es) (words_of es)" and ok: "code_ok es"
    and e: "e \<in> set es" and s: "s = snd (snd e)"
    and i: "i < n_nodes t" "strict_prefix (path i) (code_word e)"
  shows "parses (reader_at bs) bits_of (decode_slow t i) (drop (length (path i)) (code_word e)) (Some (of_nat s))"
  using i
proof (induction "length (code_word e) - length (path i)" arbitrary: i rule: less_induct)
  case less
  let ?w = "code_word e"
  obtain b u where w: "?w = path i @ b # u" using less.prems(2) by (auto elim: strict_prefixE')
  have pre: "prefix (path i @ [b]) ?w" using w by simp
  let ?ch = "child_of (nodes t ! i) b"
  have nd: "index (nodes t) i = Inr (nodes t ! i)"
    using less.prems(1) trie_basic [OF inv] by (simp add: index_def)
  have "(?w, s) \<in> entries es" using e s by (metis entries_word prod.collapse)
  then have "?ch \<noteq> 0" using trie_child(3) [OF inv less.prems(1), of b] pre by blast
  then consider "?ch < 0" | "?ch > 0" by linarith
  then show ?case
  proof cases
    case 1
    then have "(path i @ [b], nat (- ?ch - 1)) \<in> entries es" using trie_child(2) [OF inv less.prems(1)] by blast
    then obtain c l where e': "(c, l, nat (- ?ch - 1)) \<in> set es" "path i @ [b] = code_word (c, l, nat (- ?ch - 1))"
      by (auto simp: entries_word)
    then have "(c, l, nat (- ?ch - 1)) = e" using code_words_prefix_free [OF ok e'(1) e] pre by simp
    then have sy: "s = nat (- ?ch - 1)" and "?w = path i @ [b]" using s e'(2) by auto
    then have d: "drop (length (path i)) ?w = [b]" by simp
    have sw: "word_of_int (- ?ch - 1) = (of_nat s :: u16)" using sy 1 by simp
    show ?thesis
    proof (rule parsesI)
      fix r rest assume r: "reader_at bs r" "bits_of r = drop (length (path i)) ?w @ rest"
      then obtain r1 where r1: "read_bit r = Inr (Some b, r1)" "reader_at bs r1" "bits_of r1 = rest"
        using br.read1_Cons [of bs r b rest] d by auto
      with 1 sw
      show "\<exists>r'. decode_slow t i r = Inr (Some (of_nat s), r') \<and> reader_at bs r' \<and> bits_of r' = rest"
        by (subst decode_slow.simps) (simp add: nd Let_def)
    qed
  next
    case 2
    let ?i = "nat ?ch"
    have i': "?i < n_nodes t" "path ?i = path i @ [b]" using trie_child(1) [OF inv less.prems(1) 2] by simp_all
    have "path ?i \<noteq> ?w"
    proof
      assume eq: "path ?i = ?w"
      have "0 < ?i" using 2 by simp
      with trie_node(1) [OF inv i'(1)] eq obtain e' where e': "e' \<in> set es" "strict_prefix ?w (code_word e')"
        by (auto simp: strict_prefixes_def words_of_def)
      then have "e = e'" using code_words_prefix_free [OF ok e e'(1)] by (simp add: strict_prefix_def)
      with e'(2) show False by simp
    qed
    with pre i'(2) have sp: "strict_prefix (path ?i) ?w" by (simp add: strict_prefix_def)
    have "length (path i) < length (path ?i)" "length (path ?i) < length ?w" using i'(2) prefix_length_less [OF sp] by auto
    then have IH: "parses (reader_at bs) bits_of (decode_slow t ?i) (drop (length (path ?i)) ?w) (Some (of_nat s))"
      using less.hyps [OF _ i'(1) sp] by simp
    have d: "drop (length (path i)) ?w = b # drop (length (path ?i)) ?w" unfolding i'(2) w by simp
    show ?thesis
    proof (rule parsesI)
      fix r rest assume r: "reader_at bs r" "bits_of r = drop (length (path i)) ?w @ rest"
      then obtain r1 where r1: "read_bit r = Inr (Some b, r1)" "reader_at bs r1" "bits_of r1 = drop (length (path ?i)) ?w @ rest"
        using br.read1_Cons [of bs r b "drop (length (path ?i)) ?w @ rest"] d by auto
      from IH r1(2,3) obtain r2 where "decode_slow t ?i r1 = Inr (Some (of_nat s), r2)" "reader_at bs r2" "bits_of r2 = rest"
        by (rule parsesD)
      with r1(1) 2 show "\<exists>r'. decode_slow t i r = Inr (Some (of_nat s), r') \<and> reader_at bs r' \<and> bits_of r' = rest"
        by (subst decode_slow.simps) (simp add: nd Let_def)
    qed
  qed
qed

subsection \<open>The lookup table\<close>

definition covers :: "nat \<Rightarrow> nat \<times> nat \<times> nat \<Rightarrow> bool" where
  "covers v = (\<lambda>(c, l, s). l \<le> FAST_BITS \<and> v div 2 ^ (FAST_BITS - l) = c)"

definition packed :: "nat \<times> nat \<times> nat \<Rightarrow> u16" where
  "packed = (\<lambda>(c, l, s). pack_entry (of_nat s) l)"

lemma push_bit_or: "sfx < 2 ^ pad \<Longrightarrow> push_bit pad c OR sfx = c * 2 ^ pad + (sfx :: nat)"
proof -
  assume "sfx < 2 ^ pad"
  then have "take_bit pad sfx = sfx" by (simp add: take_bit_nat_eq_self)
  then have "bit sfx n \<Longrightarrow> n < pad" for n by (metis bit_take_bit_iff)
  then have "push_bit pad c AND sfx = 0"
    by (intro bit_eqI) (auto simp: bit_and_iff bit_push_bit_iff, fastforce)
  then have "push_bit pad c + sfx = push_bit pad c OR sfx" by (rule disjunctive_add_eq_or)
  then show ?thesis by (simp add: push_bit_eq_mult)
qed

lemma fill_range_table:
  assumes "\<And>x. x \<in> set xs \<Longrightarrow> base OR x < length tab"
  shows "\<exists>tab'. fill_range e base xs tab = Inr tab' \<and> length tab' = length tab \<and>
    (\<forall>v. tab' ! v = (if \<exists>x\<in>set xs. v = base OR x then e else tab ! v))"
  using assms
proof (induction xs arbitrary: tab)
  case Nil
  then show ?case by simp
next
  case (Cons x xs)
  then have st: "store tab (base OR x) e = Inr (tab[base OR x := e])" by (simp add: store_def)
  obtain tab' where t: "fill_range e base xs (tab[base OR x := e]) = Inr tab'" "length tab' = length tab"
    "\<And>v. tab' ! v = (if \<exists>x\<in>set xs. v = base OR x then e else tab[base OR x := e] ! v)"
    using Cons.IH [of "tab[base OR x := e]"] Cons.prems by auto
  have "tab[base OR x := e] ! v = (if v = base OR x then e else tab ! v)" for v
    using Cons.prems [of x] by (cases "v = base OR x") auto
  then have "tab' ! v = (if \<exists>x\<in>set (x # xs). v = base OR x then e else tab ! v)" for v
    unfolding t(3) by simp
  with t(1,2) st show ?case by auto
qed

lemma covers_range:
  assumes "c < 2 ^ l" "l \<le> FAST_BITS"
  shows "(\<exists>x<2 ^ (FAST_BITS - l). v = push_bit (FAST_BITS - l) c OR x) \<longleftrightarrow> covers v (c, l, s)"
    and "x < 2 ^ (FAST_BITS - l) \<Longrightarrow> push_bit (FAST_BITS - l) c OR x < FAST_TABLE_SIZE"
proof -
  let ?p = "FAST_BITS - l"
  show "(\<exists>x<2 ^ ?p. v = push_bit ?p c OR x) \<longleftrightarrow> covers v (c, l, s)"
  proof
    assume "\<exists>x<2 ^ ?p. v = push_bit ?p c OR x"
    then obtain x where x: "x < 2 ^ ?p" "v = push_bit ?p c OR x" by blast
    then have "v = c * 2 ^ ?p + x" by (simp add: push_bit_or)
    then show "covers v (c, l, s)" using assms(2) x(1) by (simp add: covers_def)
  next
    assume "covers v (c, l, s)"
    then have "v div 2 ^ ?p = c" by (simp add: covers_def)
    then have v: "v = c * 2 ^ ?p + v mod 2 ^ ?p" by (metis div_mult_mod_eq)
    show "\<exists>x<2 ^ ?p. v = push_bit ?p c OR x"
    proof (intro exI conjI)
      show "v mod 2 ^ ?p < 2 ^ ?p" by simp
      from v show "v = push_bit ?p c OR v mod 2 ^ ?p" by (metis push_bit_or \<open>v mod 2 ^ ?p < 2 ^ ?p\<close>)
    qed
  qed
  assume x: "x < 2 ^ ?p"
  have "c * 2 ^ ?p + x < (c + 1) * 2 ^ ?p" using x by simp
  also have "\<dots> \<le> 2 ^ l * 2 ^ ?p" using assms(1) by (intro mult_le_mono1) simp
  also have "\<dots> = FAST_TABLE_SIZE" using assms(2) by (simp add: FAST_TABLE_SIZE_def power_add [symmetric])
  finally show "push_bit ?p c OR x < FAST_TABLE_SIZE" using x by (simp add: push_bit_or)
qed

lemma covers_interval:
  assumes "covers v e" "FAST_BITS \<le> max_len"
  shows "low e \<le> v * 2 ^ (max_len - FAST_BITS)" "v * 2 ^ (max_len - FAST_BITS) < high e"
proof -
  obtain c l s where e: "e = (c, l, s)" by (cases e)
  let ?p = "FAST_BITS - l"
  have l: "l \<le> FAST_BITS" "v div 2 ^ ?p = c" using assms e by (simp_all add: covers_def)
  have w: "weight l = 2 ^ ?p * 2 ^ (max_len - FAST_BITS)"
    using l(1) assms(2) by (simp add: weight_def power_add [symmetric])
  have "c * 2 ^ ?p \<le> v" using l(2) by (metis div_times_less_eq_dividend)
  then show "low e \<le> v * 2 ^ (max_len - FAST_BITS)" by (simp add: e low_def w)
  have "v < (c + 1) * 2 ^ ?p"
    using l(2) by (metis Suc_eq_plus1 dividend_less_times_div mult.commute mult_Suc zero_less_numeral zero_less_power)
  then have "v * 2 ^ (max_len - FAST_BITS) < (c + 1) * 2 ^ ?p * 2 ^ (max_len - FAST_BITS)" by simp
  then show "v * 2 ^ (max_len - FAST_BITS) < high e" by (simp only: e high_def w prod.case mult.assoc)
qed

lemma fill_fast_table:
  assumes "code_ok es" "length tab = FAST_TABLE_SIZE"
  shows "\<exists>tab'. fill_fast es tab = Inr tab' \<and> length tab' = FAST_TABLE_SIZE \<and>
    (\<forall>v e. e \<in> set es \<longrightarrow> covers v e \<longrightarrow> tab' ! v = packed e) \<and>
    (\<forall>v. (\<forall>e\<in>set es. \<not> covers v e) \<longrightarrow> tab' ! v = tab ! v)"
  using assms
proof (induction es arbitrary: tab)
  case Nil
  then show ?case by simp
next
  case (Cons e es)
  obtain c l s where e: "e = (c, l, s)" by (cases e)
  have ok: "code_ok es" using code_ok_Cons [OF Cons.prems(1)] .
  have c: "c < 2 ^ l" using code_ok_entry [OF Cons.prems(1), of c l s] e by simp
  show ?case
  proof (cases "l \<le> FAST_BITS")
    case False
    then have "\<not> covers v e" for v by (simp add: e covers_def)
    with Cons.IH [OF ok Cons.prems(2)] False show ?thesis by (auto simp: e)
  next
    case True
    let ?p = "FAST_BITS - l"
    obtain tab1 where t1: "fill_range (packed e) (push_bit ?p c) [0..<2 ^ ?p] tab = Inr tab1" "length tab1 = length tab"
      "\<And>v. tab1 ! v = (if \<exists>x\<in>set [0..<2 ^ ?p]. v = push_bit ?p c OR x then packed e else tab ! v)"
      using fill_range_table [of "[0..<2 ^ ?p]" "push_bit ?p c" tab "packed e"] covers_range(2) [OF c True] Cons.prems(2)
      by auto
    have tab1: "tab1 ! v = (if covers v e then packed e else tab ! v)" for v
      using t1(3) [of v] covers_range(1) [OF c True, of v s] by (simp add: e Bex_def conj_commute)
    obtain tab' where t: "fill_fast es tab1 = Inr tab'" "length tab' = FAST_TABLE_SIZE"
      "\<And>v e. e \<in> set es \<Longrightarrow> covers v e \<Longrightarrow> tab' ! v = packed e"
      "\<And>v. (\<forall>e\<in>set es. \<not> covers v e) \<Longrightarrow> tab' ! v = tab1 ! v"
      using Cons.IH [OF ok, of tab1] t1(2) Cons.prems(2) by auto
    have "\<not> covers v e'" if "covers v e" "e' \<in> set es" for v e'
    proof
      assume "covers v e'"
      have "high e \<le> low e'" using Cons.prems(1) that(2) by (simp add: code_ok_def)
      with covers_interval [OF that(1)] covers_interval [OF \<open>covers v e'\<close>] show False
        by (simp add: FAST_BITS_def max_len_def)
    qed
    then have "tab' ! v = packed e" if "covers v e" for v using t(4) [of v] tab1 [of v] that by simp
    moreover have "fill_fast (e # es) tab = Inr tab'"
      using t1(1) t(1) True by (simp add: e packed_def)
    ultimately show ?thesis using t tab1 by auto
  qed
qed

subsection \<open>Decoding one symbol\<close>

definition tree_holds :: "huffman_tree \<Rightarrow> (nat \<times> nat \<times> nat) list \<Rightarrow> bool" where
  "tree_holds t es \<longleftrightarrow> code_ok es \<and> (\<forall>(c, l, s)\<in>set es. s < 258) \<and>
     (\<exists>path. trie_inv (nodes t) (n_nodes t) path (entries es) (words_of es)) \<and>
     length (fast_table t) = FAST_TABLE_SIZE \<and>
     (\<forall>v e. e \<in> set es \<longrightarrow> covers v e \<longrightarrow> fast_table t ! v = packed e) \<and>
     (\<forall>v<FAST_TABLE_SIZE. (\<forall>e\<in>set es. \<not> covers v e) \<longrightarrow> fast_table t ! v = 0)"

lemma tree_holds_code_ok: "tree_holds t es \<Longrightarrow> code_ok es"
  by (simp add: tree_holds_def)

lemma tree_holds_symbol: "tree_holds t es \<Longrightarrow> (c, l, s) \<in> set es \<Longrightarrow> s < 258"
  by (auto simp: tree_holds_def)

lemma decode_slow_root:
  assumes t: "tree_holds t es" and e: "(c, l, s) \<in> set es"
  shows "parses (reader_at bs) bits_of (decode_slow t 0) (nat_bits l c) (Some (of_nat s))"
proof -
  obtain path where inv: "trie_inv (nodes t) (n_nodes t) path (entries es) (words_of es)"
    using t by (auto simp: tree_holds_def)
  have l: "1 \<le> l" using code_ok_entry [OF tree_holds_code_ok [OF t] e] by simp
  then have "strict_prefix (path 0) (code_word (c, l, s))"
    using trie_basic(4) [OF inv] by (cases l) (simp_all add: code_word_def strict_prefix_def)
  from decode_slow_walk [OF inv tree_holds_code_ok [OF t] e refl _ this]
  show ?thesis using trie_basic [OF inv] by (simp add: code_word_def)
qed

lemma covers_take:
  assumes "length w = FAST_BITS" "covers (nat_of_bits w) (c, l, s)"
  shows "l \<le> FAST_BITS" "nat_bits l c = take l w"
proof -
  show l: "l \<le> FAST_BITS" using assms(2) by (simp add: covers_def)
  have "take l (nat_bits FAST_BITS (nat_of_bits w)) = nat_bits l (nat_of_bits w div 2 ^ (FAST_BITS - l))"
    using l by (rule take_nat_bits)
  moreover have "nat_bits FAST_BITS (nat_of_bits w) = w" using assms(1) by (metis nat_bits_nat_of_bits)
  ultimately show "nat_bits l c = take l w" using assms(2) by (simp add: covers_def)
qed

lemma covers_code_word:
  assumes "code_ok es" "(c, l, s) \<in> set es" "l \<le> FAST_BITS" "length w = FAST_BITS" "take l w = nat_bits l c"
  shows "covers (nat_of_bits w) (c, l, s)"
proof -
  have "nat_bits l (nat_of_bits w div 2 ^ (FAST_BITS - l)) = nat_bits l c"
    using assms(3-5) take_nat_bits [of l FAST_BITS "nat_of_bits w"] by (metis nat_bits_nat_of_bits)
  moreover have "nat_of_bits w < 2 ^ l * 2 ^ (FAST_BITS - l)"
    using nat_of_bits_bound [of w] assms(3,4) by (simp add: power_add [symmetric])
  then have "nat_of_bits w div 2 ^ (FAST_BITS - l) < 2 ^ l" by (simp add: div_less_iff_less_mult)
  ultimately have "nat_of_bits w div 2 ^ (FAST_BITS - l) = c"
    using code_ok_entry [OF assms(1,2)] by (metis nat_bits_inj)
  with assms(3) show ?thesis by (simp add: covers_def)
qed

text \<open>Where no code word of at most ten bits starts the stream, \<open>decode\<close> is the slow walk.\<close>

lemma decode_uncovered:
  assumes t: "tree_holds t es" and slow: "parses (reader_at bs) bits_of (decode_slow t 0) w x"
    and no: "\<And>c l s rest. (c, l, s) \<in> set es \<Longrightarrow> l \<le> FAST_BITS \<Longrightarrow> \<not> prefix (nat_bits l c) (w @ rest)"
  shows "parses (reader_at bs) bits_of (decode t) w x"
proof (rule parsesI)
  fix r rest assume r: "reader_at bs r" "bits_of r = w @ rest"
  let ?v = "word_of_bits (take FAST_BITS (bits_of r)) :: u64"
  show "\<exists>r'. decode t r = Inr (x, r') \<and> reader_at bs r' \<and> bits_of r' = rest"
  proof (cases "FAST_BITS \<le> length (bits_of r)")
    case True
    have pos: "0 < FAST_BITS" "FAST_BITS \<le> 56" by (simp_all add: FAST_BITS_def)
    obtain r1 where r1: "peek FAST_BITS r = Inr (Some ?v, r1)" "reader_at bs r1" "bits_of r1 = w @ rest"
      using br.peekn_enough [OF r(1) pos True] r(2) by auto
    let ?w = "take FAST_BITS (bits_of r)"
    have lw: "length ?w = FAST_BITS" using True by simp
    have v: "unat ?v = nat_of_bits ?w" using lw by (simp add: unat_word_of_bits FAST_BITS_def)
    have "nat_of_bits ?w < FAST_TABLE_SIZE" using nat_of_bits_bound [of ?w] lw by (simp add: FAST_TABLE_SIZE_def)
    moreover have "\<not> covers (nat_of_bits ?w) e" if e: "e \<in> set es" for e
    proof
      assume cov: "covers (nat_of_bits ?w) e"
      obtain c l s where e3: "e = (c, l, s)" by (cases e)
      have "l \<le> FAST_BITS" "nat_bits l c = take l ?w" using covers_take [OF lw cov [unfolded e3]] by simp_all
      then have "prefix (nat_bits l c) (w @ rest)" by (metis r(2) take_is_prefix take_take min.absorb1)
      with no [of c l s rest] e e3 \<open>l \<le> FAST_BITS\<close> show False by simp
    qed
    ultimately have "fast_table t ! unat ?v = 0" "unat ?v < length (fast_table t)"
      using t unfolding tree_holds_def v by auto
    then have "decode t r = decode_slow t 0 r1" using r1(1) by (simp add: decode_def Let_def)
    then show ?thesis using parsesD [OF slow r1(2,3)] by metis
  next
    case False
    then obtain r1 where r1: "peek FAST_BITS r = Inr (None, r1)" "reader_at bs r1" "bits_of r1 = w @ rest"
      using br.peekn_short [OF r(1), of FAST_BITS] r(2) by (auto simp: FAST_BITS_def)
    then have "decode t r = decode_slow t 0 r1" by (simp add: decode_def)
    then show ?thesis using parsesD [OF slow r1(2,3)] by metis
  qed
qed

lemma decode_parses:
  assumes t: "tree_holds t es" and e: "(c, l, s) \<in> set es"
  shows "parses (reader_at bs) bits_of (decode t) (nat_bits l c) (Some (of_nat s))"
proof -
  note ok = tree_holds_code_ok [OF t]
  note slow = decode_slow_root [OF t e, of bs]
  have l: "1 \<le> l" "l \<le> max_len" using code_ok_entry [OF ok e] by simp_all
  show ?thesis
  proof (cases "l \<le> FAST_BITS")
    case False
    show ?thesis
    proof (rule decode_uncovered [OF t slow])
      fix c' l' s' rest assume e': "(c', l', s') \<in> set es" "l' \<le> FAST_BITS"
      show "\<not> prefix (nat_bits l' c') (nat_bits l c @ rest)"
      proof
        assume "prefix (nat_bits l' c') (nat_bits l c @ rest)"
        then have "prefix (nat_bits l' c') (nat_bits l c)"
          by (rule prefix_length_prefix) (use e'(2) False in auto)
        then have "(c', l', s') = (c, l, s)"
          using code_words_prefix_free [OF ok e'(1) e] by (simp add: code_word_def)
        with e'(2) False show False by simp
      qed
    qed
  next
    case True
    show ?thesis
    proof (rule parsesI)
      fix r rest assume r: "reader_at bs r" "bits_of r = nat_bits l c @ rest"
      let ?w = "take FAST_BITS (bits_of r)"
      let ?v = "word_of_bits ?w :: u64"
      show "\<exists>r'. decode t r = Inr (Some (of_nat s), r') \<and> reader_at bs r' \<and> bits_of r' = rest"
      proof (cases "FAST_BITS \<le> length (bits_of r)")
        case len: True
        have pos: "0 < FAST_BITS" "FAST_BITS \<le> 56" by (simp_all add: FAST_BITS_def)
        obtain r1 where r1: "peek FAST_BITS r = Inr (Some ?v, r1)"
          "\<forall>k\<le>FAST_BITS. \<exists>r''. consume k r1 = Inr r'' \<and> reader_at bs r'' \<and> bits_of r'' = drop k (bits_of r)"
          using br.peekn_enough [OF r(1) pos len] by auto
        then obtain r2 where r2: "consume l r1 = Inr r2" "reader_at bs r2" "bits_of r2 = rest"
          using True r(2) by fastforce
        have lw: "length ?w = FAST_BITS" using len by simp
        have v: "unat ?v = nat_of_bits ?w" using lw by (simp add: unat_word_of_bits FAST_BITS_def)
        have "take l ?w = nat_bits l c" using True r(2) by (simp add: min_def)
        then have "covers (nat_of_bits ?w) (c, l, s)" by (rule covers_code_word [OF ok e True lw])
        then have "fast_table t ! unat ?v = pack_entry (of_nat s) l"
          using t e unfolding tree_holds_def v packed_def by fastforce
        moreover have "unat ?v < length (fast_table t)"
          using t nat_of_bits_bound [of ?w] lw unfolding tree_holds_def v by (simp add: FAST_TABLE_SIZE_def)
        moreover have "l < 32" "s < 2048" using l True tree_holds_symbol [OF t e] by (simp_all add: max_len_def)
        ultimately have "decode t r = Inr (Some (of_nat s), r2)"
          using r1(1) r2(1) l by (simp add: decode_def Let_def pack_entry_len pack_entry_symbol)
        with r2 show ?thesis by simp
      next
        case False
        then obtain r1 where r1: "peek FAST_BITS r = Inr (None, r1)" "reader_at bs r1" "bits_of r1 = nat_bits l c @ rest"
          using br.peekn_short [OF r(1), of FAST_BITS] r(2) by (auto simp: FAST_BITS_def)
        then have "decode t r = decode_slow t 0 r1" by (simp add: decode_def)
        then show ?thesis using parsesD [OF slow r1(2,3)] by metis
      qed
    qed
  qed
qed

subsection \<open>Building the tree\<close>

definition sorted_symbols :: "u8 list \<Rightarrow> (nat \<times> nat) list" where
  "sorted_symbols lengths = sort_key (\<lambda>(sy, len). (len, sy)) (used_symbols lengths)"

definition codes_of :: "u8 list \<Rightarrow> (nat \<times> nat \<times> nat) list" where
  "codes_of lengths = canon 0 (snd (hd (sorted_symbols lengths))) (sorted_symbols lengths)"

text \<open>Code lengths the format allows: 1 to 20, and not over-subscribed.\<close>

definition lengths_valid :: "u8 list \<Rightarrow> bool" where
  "lengths_valid lengths \<longleftrightarrow> length lengths \<le> 258 \<and> (\<forall>l\<in>set lengths. unat l \<le> max_len) \<and>
     used_symbols lengths \<noteq> [] \<and> kraft (used_symbols lengths) \<le> 2 ^ max_len"

lemma used_symbols_iff: "(s, l) \<in> set (used_symbols lengths) \<longleftrightarrow> s < length lengths \<and> l = unat (lengths ! s) \<and> 0 < l"
  by (auto simp: used_symbols_def set_zip intro!: exI [of _ s])

lemma length_used_symbols: "length (used_symbols lengths) \<le> length lengths"
  using length_filter_le [of _ "zip [0..<length lengths] (map unat lengths)"] by (simp add: used_symbols_def)

lemma sorted_symbols_simps [simp]:
  "set (sorted_symbols lengths) = set (used_symbols lengths)"
  "length (sorted_symbols lengths) = length (used_symbols lengths)"
  "sorted_symbols lengths = [] \<longleftrightarrow> used_symbols lengths = []"
  by (simp_all add: sorted_symbols_def) (metis set_empty set_sort)

lemma kraft_sorted_symbols: "kraft (sorted_symbols lengths) = kraft (used_symbols lengths)"
  unfolding kraft_def sum_mset_sum_list [symmetric] by (simp add: sorted_symbols_def)

lemma lengths_ok_sorted_symbols:
  assumes "lengths_valid lengths"
  shows "lengths_ok (snd (hd (sorted_symbols lengths))) (sorted_symbols lengths)"
proof -
  let ?ss = "sorted_symbols lengths"
  have "sorted (map (\<lambda>(sy, len). (len, sy)) ?ss)" by (simp add: sorted_symbols_def)
  then have "sorted (map fst (map (\<lambda>(sy, len). (len, sy)) ?ss))"
    by (simp add: sorted_map case_prod_beta less_eq_prod_def) (erule sorted_wrt_mono_rel [rotated], auto)
  then have "sorted (map snd ?ss)" by (simp add: case_prod_beta comp_def)
  moreover have "1 \<le> l \<and> l \<le> max_len" if "(s, l) \<in> set ?ss" for s l
    using that assms by (auto simp: used_symbols_iff lengths_valid_def)
  moreover obtain a xs where "?ss = a # xs"
    using assms by (cases ?ss) (auto simp: lengths_valid_def dest: sorted_symbols_simps(3) [THEN iffD1])
  ultimately show ?thesis by (auto simp: lengths_ok_def)
qed

lemma code_ok_codes_of: "lengths_valid lengths \<Longrightarrow> code_ok (codes_of lengths)"
  unfolding codes_of_def by (rule code_ok_canon [OF lengths_ok_sorted_symbols])
    (simp_all add: kraft_sorted_symbols lengths_valid_def)

lemma codes_of_symbol: "(c, l, s) \<in> set (codes_of lengths) \<Longrightarrow> s < length lengths \<and> l = unat (lengths ! s) \<and> 0 < l"
  unfolding codes_of_def by (drule canon_symbol) (simp add: used_symbols_iff)

lemma symbol_codes_of: "s < length lengths \<Longrightarrow> 0 < unat (lengths ! s) \<Longrightarrow> \<exists>c. (c, unat (lengths ! s), s) \<in> set (codes_of lengths)"
  unfolding codes_of_def by (rule symbol_canon) (simp add: used_symbols_iff)

lemma from_lengths_holds:
  assumes "lengths_valid lengths"
  shows "\<exists>t. from_lengths lengths = Inr t \<and> tree_holds t (codes_of lengths)"
proof -
  let ?ss = "sorted_symbols lengths" and ?es = "codes_of lengths" and ?t = "empty_tree\<lparr>n_nodes := 1\<rparr>"
  let ?p = "snd (hd ?ss)"
  have n: "length (used_symbols lengths) \<le> 258" and ne: "used_symbols lengths \<noteq> []"
    using assms length_used_symbols [of lengths] by (simp_all add: lengths_valid_def)
  note lok = lengths_ok_sorted_symbols [OF assms]
  have k: "kraft ?ss \<le> 2 ^ max_len" using assms by (simp add: lengths_valid_def kraft_sorted_symbols)
  note ok = code_ok_codes_of [OF assms]
  have "card (strict_prefixes (words_of ?es)) \<le> length ?ss + max_len"
    unfolding codes_of_def by (rule card_strict_prefixes [OF lok k _ refl]) (simp add: ne)
  then have card: "card (strict_prefixes (words_of ?es)) \<le> MAX_TREE_NODES"
    using n by (simp add: max_len_def MAX_TREE_NODES_def)
  have inv: "trie_inv (nodes ?t) (n_nodes ?t) (\<lambda>_. []) (entries []) (words_of ?es)"
    by (auto simp: trie_inv_def empty_tree_def entries_def child_of_def MAX_TREE_NODES_def inj_on_def)
  have "\<exists>t' path'. assign_codes ?ss 0 ?p ?t = Inr (t', canon 0 ?p ?ss) \<and> fast_table t' = fast_table ?t \<and>
    trie_inv (nodes t') (n_nodes t') path' (entries ([] @ canon 0 ?p ?ss)) (words_of ?es)"
    by (rule assign_codes_trie [OF inv _ _ _ card]) (use ok lok in \<open>simp_all add: codes_of_def lengths_ok_def\<close>)
  then obtain t1 path1 where t1: "assign_codes ?ss 0 ?p ?t = Inr (t1, ?es)" "fast_table t1 = fast_table ?t"
    "trie_inv (nodes t1) (n_nodes t1) path1 (entries ?es) (words_of ?es)"
    by (auto simp: codes_of_def)
  obtain tab where tab: "fill_fast ?es (fast_table t1) = Inr tab" "length tab = FAST_TABLE_SIZE"
    "\<forall>v e. e \<in> set ?es \<longrightarrow> covers v e \<longrightarrow> tab ! v = packed e"
    "\<forall>v. (\<forall>e\<in>set ?es. \<not> covers v e) \<longrightarrow> tab ! v = fast_table t1 ! v"
    using fill_fast_table [OF ok, of "fast_table t1"] t1(2) by (auto simp: empty_tree_def)
  have "from_lengths lengths = Inr (t1\<lparr>fast_table := tab\<rparr>)"
    using n ne t1(1) tab(1) unfolding from_lengths_def Let_def sorted_symbols_def [symmetric] by simp
  moreover have "tree_holds (t1\<lparr>fast_table := tab\<rparr>) ?es"
    unfolding tree_holds_def
  proof (intro conjI)
    show "\<forall>(c, l, s)\<in>set ?es. s < 258"
      using codes_of_symbol assms by (fastforce simp: lengths_valid_def)
    show "\<forall>v<FAST_TABLE_SIZE. (\<forall>e\<in>set ?es. \<not> covers v e) \<longrightarrow> fast_table (t1\<lparr>fast_table := tab\<rparr>) ! v = 0"
      using tab(4) t1(2) by (simp add: empty_tree_def)
  qed (use ok t1(3) tab in auto)
  ultimately show ?thesis by blast
qed

text \<open>The code word of a symbol, and a sequence of calls of \<open>decode\<close>.\<close>

definition code_for :: "u8 list \<Rightarrow> nat \<Rightarrow> bool list" where
  "code_for lengths s = (case find (\<lambda>(c, l, s'). s' = s) (codes_of lengths) of None \<Rightarrow> [] | Some (c, l, _) \<Rightarrow> nat_bits l c)"

fun decode_many :: "huffman_tree \<Rightarrow> nat \<Rightarrow> bitreader \<Rightarrow> (u16 option list \<times> bitreader) result" where
  "decode_many t 0 r = Inr ([], r)"
| "decode_many t (Suc n) r = bindE (decode t r) (\<lambda>(x, r'). bindE (decode_many t n r') (\<lambda>(xs, r''). Inr (x # xs, r'')))"

lemma code_for_codes_of:
  assumes "s < length lengths" "0 < unat (lengths ! s)"
  shows "\<exists>c. (c, unat (lengths ! s), s) \<in> set (codes_of lengths) \<and> code_for lengths s = nat_bits (unat (lengths ! s)) c"
proof -
  obtain c where "(c, unat (lengths ! s), s) \<in> set (codes_of lengths)" using symbol_codes_of [OF assms] by blast
  then have "find (\<lambda>(c, l, s'). s' = s) (codes_of lengths) \<noteq> None" unfolding find_None_iff by auto
  then obtain c' l' s' where f: "find (\<lambda>(c, l, s'). s' = s) (codes_of lengths) = Some (c', l', s')" by auto
  then have s': "s' = s" and "(c', l', s') \<in> set (codes_of lengths)"
    by (auto simp: find_Some_iff) (metis nth_mem)
  then have "(c', l', s) \<in> set (codes_of lengths)" by simp
  moreover from codes_of_symbol [OF this] have "l' = unat (lengths ! s)" by simp
  ultimately show ?thesis using f by (auto simp: code_for_def)
qed

lemma decode_many_parses:
  assumes t: "tree_holds t (codes_of lengths)" and "\<forall>s\<in>set syms. s < length lengths \<and> 0 < unat (lengths ! s)"
  shows "parses (reader_at bs) bits_of (decode_many t (length syms)) (concat (map (code_for lengths) syms)) (map (Some \<circ> of_nat) syms)"
  using assms(2)
proof (induction syms)
  case Nil
  then show ?case by (simp add: parses_def)
next
  case (Cons s syms)
  then obtain c where c: "(c, unat (lengths ! s), s) \<in> set (codes_of lengths)" "code_for lengths s = nat_bits (unat (lengths ! s)) c"
    using code_for_codes_of [of s lengths] by auto
  have one: "parses (reader_at bs) bits_of (decode t) (code_for lengths s) (Some (of_nat s))"
    unfolding c(2) by (rule decode_parses [OF t c(1)])
  have rest: "parses (reader_at bs) bits_of (decode_many t (length syms)) (concat (map (code_for lengths) syms)) (map (Some \<circ> of_nat) syms)"
    by (rule Cons.IH) (use Cons.prems in simp)
  have "parses (reader_at bs) bits_of
      (\<lambda>r. bindE (decode_many t (length syms) r) (\<lambda>(xs, r'). Inr (Some (of_nat s) # xs, r')))
      (concat (map (code_for lengths) syms) @ []) (map (Some \<circ> of_nat) (s # syms))"
    using parses_bind [OF rest, of "\<lambda>xs r. Inr (Some (of_nat s) # xs, r)" "[]"] by (simp add: parses_return)
  from parses_bind [OF one, of "\<lambda>x r. bindE (decode_many t (length syms) r) (\<lambda>(xs, r'). Inr (x # xs, r'))", OF this]
  show ?case by (simp del: map_map comp_apply add: comp_def)
qed

subsection \<open>Properties\<close>

text \<open>
  C14. For every table of at most 258 code lengths between 0 and 20, not all zero, that satisfies
  the Kraft inequality, complete or not: \<open>from_lengths\<close> builds a tree (512 nodes suffice and no
  code value overflows); the code words it assigns have the given lengths and none is a prefix
  of another; and \<open>decode\<close>, at any position of any slice that continues with the code word of a
  symbol, by lookup table or node walk, also near the end of the slice, returns the symbol and
  consumes exactly its code word.
\<close>

theorem huffman_decode_correct:
  assumes "lengths_valid lengths"
  shows "\<exists>t. from_lengths lengths = Inr t \<and>
    (\<forall>s<length lengths. 0 < unat (lengths ! s) \<longrightarrow>
       length (code_for lengths s) = unat (lengths ! s) \<and>
       (\<forall>s'<length lengths. 0 < unat (lengths ! s') \<longrightarrow> prefix (code_for lengths s) (code_for lengths s') \<longrightarrow> s = s') \<and>
       (\<forall>bs. parses (reader_at bs) bits_of (decode t) (code_for lengths s) (Some (of_nat s))))"
proof -
  obtain t where t: "from_lengths lengths = Inr t" "tree_holds t (codes_of lengths)"
    using from_lengths_holds [OF assms] by blast
  have "length (code_for lengths s) = unat (lengths ! s) \<and>
      (\<forall>s'<length lengths. 0 < unat (lengths ! s') \<longrightarrow> prefix (code_for lengths s) (code_for lengths s') \<longrightarrow> s = s') \<and>
      (\<forall>bs. parses (reader_at bs) bits_of (decode t) (code_for lengths s) (Some (of_nat s)))"
    if s: "s < length lengths" "0 < unat (lengths ! s)" for s
  proof -
    obtain c where c: "(c, unat (lengths ! s), s) \<in> set (codes_of lengths)" "code_for lengths s = nat_bits (unat (lengths ! s)) c"
      using code_for_codes_of [OF s] by blast
    have "s = s'" if s': "s' < length lengths" "0 < unat (lengths ! s')" "prefix (code_for lengths s) (code_for lengths s')" for s'
    proof -
      obtain c' where c': "(c', unat (lengths ! s'), s') \<in> set (codes_of lengths)" "code_for lengths s' = nat_bits (unat (lengths ! s')) c'"
        using code_for_codes_of [OF s'(1,2)] by blast
      then show ?thesis
        using code_words_prefix_free [OF code_ok_codes_of [OF assms] c(1) c'(1)] s'(3) c(2) by (simp add: code_word_def)
    qed
    with c decode_parses [OF t(2) c(1)] show ?thesis by simp
  qed
  with t(1) show ?thesis by blast
qed

theorem huffman_decode_correct_witness:
  "\<exists>t. from_lengths [1, 2, 2] = Inr t \<and> code_for [1, 2, 2] 2 = [True, True] \<and>
    (\<forall>bs. parses (reader_at bs) bits_of (decode t) [True, True] (Some 2))"
proof -
  have "lengths_valid [1, 2, 2]"
    by (simp add: lengths_valid_def used_symbols_def kraft_def weight_def max_len_def)
  from huffman_decode_correct [OF this] obtain t where t: "from_lengths [1, 2, 2] = Inr t"
    "\<forall>bs. parses (reader_at bs) bits_of (decode t) (code_for [1, 2, 2] 2) (Some (of_nat 2))"
    by (auto dest: spec [of _ "2 :: nat"])
  moreover have "code_for [1, 2, 2] 2 = [True, True]" by code_simp
  ultimately show ?thesis by simp
qed

text \<open>
  Huffman coding round trip on bytes: if from bit \<open>p\<close> on a slice holds the code words of a
  sequence of symbols, as many calls of \<open>decode\<close> from \<open>from_bit_offset\<close> at \<open>p\<close> give the sequence back
  and leave the reader at the bit after the last code word, whatever follows and even if
  the slice ends there.
\<close>

theorem huffman_roundtrip:
  assumes "lengths_valid lengths" "\<forall>s\<in>set syms. s < length lengths \<and> 0 < unat (lengths ! s)"
    and "drop p (stream_bits bs) = concat (map (code_for lengths) syms) @ rest" "p \<le> 8 * length bs"
  shows "\<exists>t r r'. from_lengths lengths = Inr t \<and> from_bit_offset bs p = Inr r \<and>
    decode_many t (length syms) r = Inr (map (Some \<circ> of_nat) syms, r') \<and> bits_of r' = rest \<and>
    bit_pos r' = p + length (concat (map (code_for lengths) syms))"
proof -
  obtain t where t: "from_lengths lengths = Inr t" "tree_holds t (codes_of lengths)"
    using from_lengths_holds [OF assms(1)] by blast
  obtain r where r: "from_bit_offset bs p = Inr r" "reader_at bs r" "bits_of r = drop p (stream_bits bs)"
    by (rule from_bit_offset_bits [of bs p]) (simp add: reader_at_def assms(4))
  have "bits_of r = concat (map (code_for lengths) syms) @ rest" unfolding r(3) by (rule assms(3))
  from parsesD [OF decode_many_parses [OF t(2) assms(2)] r(2) this]
  obtain r' where r': "decode_many t (length syms) r = Inr (map (Some \<circ> of_nat) syms, r')" "reader_at bs r'" "bits_of r' = rest" .
  have "8 * length bs - p = length (concat (map (code_for lengths) syms)) + length rest"
    using arg_cong [OF assms(3), of length] by (simp add: stream_bits_def)
  then have "bit_pos r' = p + length (concat (map (code_for lengths) syms))"
    using reader_at_pos [OF r'(2)] r'(3) assms(4) by simp
  with t(1) r(1) r'(1,3) show ?thesis by blast
qed

theorem huffman_roundtrip_witness:
  "\<exists>t r r'. from_lengths [1, 2, 2] = Inr t \<and> from_bit_offset [0x58] 0 = Inr r \<and>
    decode_many t (length [0, 1, 2, 0 :: nat]) r = Inr (map (Some \<circ> of_nat) [0, 1, 2, 0], r') \<and> bits_of r' = [False, False]"
proof -
  have 1: "lengths_valid [1, 2, 2]"
    by (simp add: lengths_valid_def used_symbols_def kraft_def weight_def max_len_def)
  have 2: "\<forall>s\<in>set [0, 1, 2, 0]. s < length [1, 2, 2 :: u8] \<and> 0 < unat ([1, 2, 2 :: u8] ! s)"
    by simp
  have 3: "drop 0 (stream_bits [0x58]) = concat (map (code_for [1, 2, 2]) [0, 1, 2, 0]) @ [False, False]"
    by code_simp
  have 4: "0 \<le> 8 * length [0x58 :: u8]" by simp
  from huffman_roundtrip [OF 1 2 3 4] show ?thesis by blast
qed

subsection \<open>Codes that do not satisfy the hypothesis\<close>

text \<open>A bit string that leaves an incomplete code leads the slow walk back to the root.\<close>

lemma decode_slow_missing:
  assumes inv: "trie_inv (nodes t) (n_nodes t) path (entries es) (words_of es)" and ok: "code_ok es"
    and u: "u \<in> strict_prefixes (words_of es)"
    and x: "u @ [b] \<notin> strict_prefixes (words_of es)" "u @ [b] \<notin> words_of es"
    and root: "parses (reader_at bs) bits_of (decode_slow t 0) w y"
    and i: "i < n_nodes t" "prefix (path i) u"
  shows "parses (reader_at bs) bits_of (decode_slow t i) (drop (length (path i)) (u @ [b]) @ w) y"
  using i
proof (induction "length u - length (path i)" arbitrary: i rule: less_induct)
  case less
  obtain d v where uv: "u @ [b] = path i @ d # v" using less.prems(2) by (auto simp: prefix_def) (metis append_Cons append_Nil neq_Nil_conv)
  let ?ch = "child_of (nodes t ! i) d"
  have nd: "index (nodes t) i = Inr (nodes t ! i)"
    using less.prems(1) trie_basic [OF inv] by (simp add: index_def)
  have words: "v \<in> words_of es" if "(v, s) \<in> entries es" for v s
    using that by (auto simp: entries_word words_of_def)
  have step: "\<exists>r1. read_bit r = Inr (Some d, r1) \<and> reader_at bs r1 \<and> bits_of r1 = v @ w @ rest"
    if "reader_at bs r" "bits_of r = (drop (length (path i)) (u @ [b]) @ w) @ rest" for r rest
    using that br.read1_Cons [of bs r d "v @ w @ rest"] uv by simp
  have neg: "\<not> ?ch < 0"
  proof
    assume "?ch < 0"
    then have V: "path i @ [d] \<in> words_of es" using trie_child(2) [OF inv less.prems(1), of d] words by blast
    then obtain e where e: "e \<in> set es" "path i @ [d] = code_word e" by (auto simp: words_of_def)
    have "path i @ [d] \<noteq> u @ [b]" using V x(2) by metis
    then have "prefix (code_word e) u"
      unfolding e(2) [symmetric] using uv by (metis append_Cons append_Nil append_assoc prefixI prefix_snoc)
    moreover obtain e' where e': "e' \<in> set es" "strict_prefix u (code_word e')" using u by (auto simp: strict_prefixes_def words_of_def)
    ultimately have "e = e'" using code_words_prefix_free [OF ok e(1) e'(1)]
      by (auto simp: strict_prefix_def dest: prefix_order.order_trans)
    with \<open>prefix (code_word e) u\<close> e'(2) show False by (auto simp: strict_prefix_def)
  qed
  show ?case
  proof (cases "v = []")
    case True
    with uv have eq: "path i = u" "d = b" by auto
    have "?ch \<noteq> 0 \<Longrightarrow> u @ [b] \<in> strict_prefixes (words_of es)"
      using neg trie_child(1) [OF inv less.prems(1), of d] trie_node(1) [OF inv, of "nat ?ch"] eq by fastforce
    with x(1) have zero: "?ch = 0" by blast
    show ?thesis
    proof (rule parsesI)
      fix r rest assume "reader_at bs r" "bits_of r = (drop (length (path i)) (u @ [b]) @ w) @ rest"
      then obtain r1 where r1: "read_bit r = Inr (Some d, r1)" "reader_at bs r1" "bits_of r1 = w @ rest"
        using step True by auto
      from root r1(2,3) obtain r2 where "decode_slow t 0 r1 = Inr (y, r2)" "reader_at bs r2" "bits_of r2 = rest" by (rule parsesD)
      with r1(1) zero show "\<exists>r'. decode_slow t i r = Inr (y, r') \<and> reader_at bs r' \<and> bits_of r' = rest"
        by (subst decode_slow.simps) (simp add: nd Let_def)
    qed
  next
    case False
    then obtain v' where "v = v' @ [b]" "u = path i @ d # v'" using uv by (cases v rule: rev_cases) auto
    then have u': "prefix (path i @ [d]) u" by simp
    obtain e' where e': "e' \<in> set es" "strict_prefix u (code_word e')" using u by (auto simp: strict_prefixes_def words_of_def)
    then have "prefix (path i @ [d]) (code_word e')" using u' by (auto simp: strict_prefix_def dest: prefix_order.order_trans)
    moreover have "(code_word e', snd (snd e')) \<in> entries es" using e'(1) by (metis entries_word prod.collapse)
    ultimately have "?ch \<noteq> 0" using trie_child(3) [OF inv less.prems(1), of d] by blast
    with neg have pos: "?ch > 0" by simp
    let ?i = "nat ?ch"
    have i': "?i < n_nodes t" "path ?i = path i @ [d]" using trie_child(1) [OF inv less.prems(1) pos] by simp_all
    have "length u - length (path ?i) < length u - length (path i)" using prefix_length_le [OF u'] i'(2) by simp
    from less.hyps [OF this i'(1)] have IH: "parses (reader_at bs) bits_of (decode_slow t ?i) (v @ w) y"
      using u' i'(2) uv by simp
    show ?thesis
    proof (rule parsesI)
      fix r rest assume "reader_at bs r" "bits_of r = (drop (length (path i)) (u @ [b]) @ w) @ rest"
      then obtain r1 where r1: "read_bit r = Inr (Some d, r1)" "reader_at bs r1" "bits_of r1 = (v @ w) @ rest"
        using step by auto
      from IH r1(2,3) obtain r2 where "decode_slow t ?i r1 = Inr (y, r2)" "reader_at bs r2" "bits_of r2 = rest" by (rule parsesD)
      with r1(1) pos show "\<exists>r'. decode_slow t i r = Inr (y, r') \<and> reader_at bs r' \<and> bits_of r' = rest"
        by (subst decode_slow.simps) (simp add: nd Let_def)
    qed
  qed
qed

lemma distinct_sorted_symbols: "distinct (sorted_symbols lengths)"
proof -
  have "distinct (zip [0..<length lengths] (map unat lengths))" by (simp add: distinct_zipI1)
  then show ?thesis by (simp add: sorted_symbols_def used_symbols_def)
qed

lemma codes_of_unique: "(c, l, s) \<in> set (codes_of lengths) \<Longrightarrow> (c', l, s) \<in> set (codes_of lengths) \<Longrightarrow> c = c'"
proof -
  have "distinct (map (\<lambda>(c, l, s). (s, l)) (codes_of lengths))"
    unfolding codes_of_def map_canon by (rule distinct_sorted_symbols)
  then have "inj_on (\<lambda>(c, l, s). (s, l)) (set (codes_of lengths))" by (simp add: distinct_map)
  then show "(c, l, s) \<in> set (codes_of lengths) \<Longrightarrow> (c', l, s) \<in> set (codes_of lengths) \<Longrightarrow> c = c'"
    unfolding inj_on_def by fastforce
qed

definition has_code :: "u8 list \<Rightarrow> nat \<Rightarrow> bool" where
  "has_code lengths s \<longleftrightarrow> s < length lengths \<and> 0 < unat (lengths ! s)"

text \<open>
  An incomplete code is decoded without an error: a bit string \<open>u @ [b]\<close> that leaves the code
  (its part \<open>u\<close> starts some code word, but the whole neither starts nor extends one) is dropped,
  and decoding starts again at the root. The symbol after it is returned as if the string were
  not there, where the format calls for a data error.
\<close>

theorem huffman_missing_code_skipped:
  assumes "lengths_valid lengths" "has_code lengths s" "has_code lengths s1" "strict_prefix u (code_for lengths s1)"
    and "\<forall>s'. has_code lengths s' \<longrightarrow> \<not> prefix (u @ [b]) (code_for lengths s') \<and> \<not> prefix (code_for lengths s') (u @ [b])"
  shows "\<exists>t. from_lengths lengths = Inr t \<and>
    parses (reader_at bs) bits_of (decode t) (u @ [b] @ code_for lengths s) (Some (of_nat s))"
proof -
  obtain t where t: "from_lengths lengths = Inr t" "tree_holds t (codes_of lengths)"
    using from_lengths_holds [OF assms(1)] by blast
  let ?es = "codes_of lengths"
  obtain path where inv: "trie_inv (nodes t) (n_nodes t) path (entries ?es) (words_of ?es)"
    using t(2) by (auto simp: tree_holds_def)
  obtain c where c: "(c, unat (lengths ! s), s) \<in> set ?es" "code_for lengths s = nat_bits (unat (lengths ! s)) c"
    using code_for_codes_of assms(2) by (auto simp: has_code_def)
  have no: "\<not> prefix (u @ [b]) (nat_bits l' c') \<and> \<not> prefix (nat_bits l' c') (u @ [b])" if e: "(c', l', s') \<in> set ?es" for c' l' s'
  proof -
    have u': "has_code lengths s'" "l' = unat (lengths ! s')" using codes_of_symbol [OF e] by (simp_all add: has_code_def)
    then obtain c'' where "(c'', l', s') \<in> set ?es" "code_for lengths s' = nat_bits l' c''"
      using code_for_codes_of by (auto simp: has_code_def)
    moreover from this(1) e have "c'' = c'" by (rule codes_of_unique)
    ultimately show ?thesis using assms(5) u'(1) by auto
  qed
  have x: "u @ [b] \<notin> strict_prefixes (words_of ?es)" "u @ [b] \<notin> words_of ?es"
    using no by (fastforce simp: strict_prefixes_def words_of_def code_word_def strict_prefix_def)+
  obtain c1 where "(c1, unat (lengths ! s1), s1) \<in> set ?es" "code_for lengths s1 = nat_bits (unat (lengths ! s1)) c1"
    using code_for_codes_of assms(3) by (auto simp: has_code_def)
  then have u: "u \<in> strict_prefixes (words_of ?es)"
    using assms(4) by (force simp: strict_prefixes_def words_of_def code_word_def)
  have slow: "parses (reader_at bs) bits_of (decode_slow t 0) ((u @ [b]) @ code_for lengths s) (Some (of_nat s))"
    using decode_slow_missing [OF inv code_ok_codes_of [OF assms(1)] u x decode_slow_root [OF t(2) c(1)], of 0 bs] trie_basic [OF inv]
    by (simp add: c(2))
  have "parses (reader_at bs) bits_of (decode t) ((u @ [b]) @ code_for lengths s) (Some (of_nat s))"
  proof (rule decode_uncovered [OF t(2) slow])
    fix c' l' s' rest assume "(c', l', s') \<in> set ?es"
    from no [OF this] show "\<not> prefix (nat_bits l' c') (((u @ [b]) @ code_for lengths s) @ rest)"
      by (metis append_assoc prefixI prefix_same_cases)
  qed
  with t(1) show ?thesis by auto
qed

theorem huffman_missing_code_skipped_witness:
  "\<exists>t. from_lengths [1] = Inr t \<and> parses (reader_at [0x80]) bits_of (decode t) [True, False] (Some 0)"
proof -
  have used: "has_code [1] s \<longleftrightarrow> s = 0" for s by (auto simp: has_code_def)
  have code: "code_for [1] 0 = [False]" by code_simp
  have "lengths_valid [1]" by (simp add: lengths_valid_def used_symbols_def kraft_def weight_def max_len_def)
  from huffman_missing_code_skipped [OF this, of 0 0 "[]" True "[0x80]"] show ?thesis
    by (simp add: used code)
qed

text \<open>Over-subscribed codes.\<close>

lemma fill_fast_append: "fill_fast (es @ fs) tab = bindE (fill_fast es tab) (fill_fast fs)"
proof (induction es arbitrary: tab)
  case Nil
  then show ?case by simp
next
  case (Cons e es)
  then show ?case by (cases e) (auto simp: Let_def bindE_assoc intro!: bindE_cong)
qed

lemma fill_fast_overflow:
  assumes "l \<le> FAST_BITS" "2 ^ l \<le> c" "length tab = FAST_TABLE_SIZE"
  shows "fill_fast ((c, l, s) # es) tab = Inl (Panic ''index out of bounds'')"
proof -
  let ?p = "FAST_BITS - l"
  have "(FAST_TABLE_SIZE :: nat) = 2 ^ l * 2 ^ ?p" using assms(1) by (simp add: FAST_TABLE_SIZE_def power_add [symmetric])
  also have "\<dots> \<le> push_bit ?p c" using assms(2) by (simp add: push_bit_eq_mult)
  finally have "store tab (push_bit ?p c OR 0) e = Inl (Panic ''index out of bounds'')" for e
    using assms(3) by (simp add: store_def)
  moreover obtain k where "[0..<2 ^ ?p] = 0 # k" by (simp add: upt_conv_Cons)
  ultimately show ?thesis using assms(1) by (simp add: Let_def)
qed

lemma assign_codes_ones:
  assumes "length (nodes t) = MAX_TREE_NODES" "\<forall>b. child_of (nodes t ! 0) b \<le> 0" "c + n < 2 ^ 32"
  shows "\<exists>t'. assign_codes (map (\<lambda>i. (i, 1)) [k..<k + n]) c 1 t = Inr (t', map (\<lambda>i. (c + i, 1, k + i)) [0..<n]) \<and>
    fast_table t' = fast_table t"
  using assms
proof (induction n arbitrary: c k t)
  case 0
  then show ?case by simp
next
  case (Suc n)
  have c: "sub_checked (Suc 0) (Suc 0) = Inr 0" "shl32 c 0 = Inr c" "inc32 c = Inr (c + 1)"
    using Suc.prems(3) by (simp_all add: sub_checked_def shl32_def inc32_def)
  let ?t = "t\<lparr>nodes := (nodes t)[0 := set_child (nodes t ! 0) (odd c) (- (int k + 1))]\<rparr>"
  have "\<not> 0 < child_of (nodes t ! 0) (odd c)" using Suc.prems(2) by (simp add: not_less)
  then have ins: "insert_code (Suc 0) c k 0 t = Inr ?t"
    using Suc.prems(1) by (simp add: code_bit_def index_def MAX_TREE_NODES_def Let_def)
  have "length (nodes ?t) = MAX_TREE_NODES" "\<forall>b. child_of (nodes ?t ! 0) b \<le> 0"
    using Suc.prems(1,2) by (simp_all add: child_of_set_child MAX_TREE_NODES_def)
  from Suc.IH [OF this, of "c + 1" "Suc k"] Suc.prems(3)
  obtain t' where t': "assign_codes (map (\<lambda>i. (i, 1)) [Suc k..<Suc k + n]) (c + 1) 1 ?t = Inr (t', map (\<lambda>i. (c + 1 + i, 1, Suc k + i)) [0..<n])"
    "fast_table t' = fast_table ?t" by auto
  have u: "[k..<k + Suc n] = k # [Suc k..<Suc k + n]" by (simp add: upt_conv_Cons)
  have v: "map (\<lambda>i. (c + i, 1, k + i)) [0..<Suc n] = (c, 1 :: nat, k) # map (\<lambda>i. (c + 1 + i, 1, Suc k + i)) [0..<n]"
    by (simp add: upt_conv_Cons map_Suc_upt [symmetric] comp_def del: upt_Suc)
  show ?case unfolding u v using t' ins c by simp
qed

lemma ones_overflow:
  assumes "3 \<le> n" "n \<le> 258"
  shows "from_lengths (replicate n 1) = Inl (Panic ''index out of bounds'')"
proof -
  let ?ss = "map (\<lambda>i. (i, 1)) [0..<n]" and ?t = "empty_tree\<lparr>n_nodes := 1\<rparr>"
  have "zip [0..<n] (map unat (replicate n (1 :: u8))) = map (\<lambda>i. (i, 1)) [0..<n]"
    by (simp add: zip_replicate2 map_replicate_const)
  then have used: "used_symbols (replicate n 1) = ?ss" by (simp add: used_symbols_def filter_map comp_def)
  have sorted: "sort_key (\<lambda>(sy, len). (len, sy)) ?ss = ?ss"
    by (rule sort_key_id_if_sorted) (simp add: comp_def less_eq_prod_def sorted_map)
  have hd: "snd (hd ?ss) = 1" using assms(1) by (simp add: hd_map)
  have "length (nodes ?t) = MAX_TREE_NODES" "\<forall>b. child_of (nodes ?t ! 0) b \<le> 0"
    by (simp_all add: empty_tree_def child_of_def MAX_TREE_NODES_def)
  from assign_codes_ones [OF this, of 0 n 0] assms(2)
  obtain t' where t': "assign_codes ?ss 0 1 ?t = Inr (t', map (\<lambda>i. (i, 1, i)) [0..<n])" "fast_table t' = fast_table ?t"
    by auto
  obtain m where "n = 3 + m" using assms(1) le_Suc_ex by blast
  then have "map (\<lambda>i. (i, 1, i)) [0..<n] = [(0, 1, 0), (1, 1, 1)] @ (2, 1, 2) # map (\<lambda>i. (i, 1 :: nat, i)) [3..<n]"
    by (simp add: upt_conv_Cons numeral_eq_Suc)
  moreover obtain tab where "fill_fast [(0, 1, 0), (1, 1, 1)] (fast_table t') = Inr tab" "length tab = FAST_TABLE_SIZE"
    using fill_fast_table [of "[(0, 1, 0), (1, 1, 1)]" "fast_table t'"] t'(2)
    by (auto simp: code_ok_def low_def high_def weight_def max_len_def empty_tree_def)
  moreover have "fill_fast ((2, 1, 2) # es) tab = Inl (Panic ''index out of bounds'')" if "length tab = FAST_TABLE_SIZE" for es tab
    by (rule fill_fast_overflow) (simp_all add: FAST_BITS_def that)
  ultimately have "fill_fast (map (\<lambda>i. (i, 1, i)) [0..<n]) (fast_table t') = Inl (Panic ''index out of bounds'')"
    by (simp only: fill_fast_append bindE.simps)
  with t' show ?thesis
    using assms hd unfolding from_lengths_def Let_def used sorted hd by (simp add: guard_def)
qed

text \<open>
  C21. An over-subscribed table is not reported as an error: for three or more symbols of length
  1, which a block may declare, \<open>from_lengths\<close> assigns the code value 2 to a length of one bit and
  panics on an index outside the lookup table.
\<close>

theorem huffman_oversubscribed_panics:
  assumes "3 \<le> n" "n \<le> 258"
  shows "from_lengths (replicate n 1) = Inl (Panic ''index out of bounds'')"
  by (rule ones_overflow [OF assms])

theorem huffman_oversubscribed_panics_witness:
  "from_lengths [1, 1, 1] = Inl (Panic ''index out of bounds'')"
  using huffman_oversubscribed_panics [of 3] by (simp add: numeral_eq_Suc)

end
