(* ===== verification/Reader_Programs.thy ===== *)
theory Reader_Programs
  imports Bit_Reader
begin

text \<open>
  Programs over a bit reader: sequencing, failing reads, counted loops, and the rules the block
  decoder is verified with. \<open>parses\<close> (from the bit reader) states what a program does on a given
  encoding; \<open>runs\<close> bounds what it can do on any input: which faults it can raise, what its result
  satisfies, how many bits it consumes at least, and that all of it depends on the bits still to
  come only, not on the slice they come from or on how much of it is buffered.
\<close>

type_synonym 'a reading = "bitreader \<Rightarrow> ('a \<times> bitreader) result"

definition returnR :: "'a \<Rightarrow> 'a reading" where
  "returnR x r = Inr (x, r)"

definition failR :: "fault \<Rightarrow> 'a reading" where
  "failR e r = Inl e"

definition liftR :: "'a result \<Rightarrow> 'a reading" where
  "liftR m r = bindE m (\<lambda>x. Inr (x, r))"

definition bindR :: "'a reading \<Rightarrow> ('a \<Rightarrow> 'b reading) \<Rightarrow> 'b reading" where
  "bindR m k r = bindE (m r) (\<lambda>(x, r'). k x r')"

lemma bindR_cong [fundef_cong]:
  "r = r0 \<Longrightarrow> m r0 = m' r0 \<Longrightarrow> (\<And>x r'. m' r0 = Inr (x, r') \<Longrightarrow> k x r' = k' x r') \<Longrightarrow> bindR m k r = bindR m' k' r0"
  by (cases "m' r0") (auto simp: bindR_def)

lemma bindR_Inr_iff [result_simps]:
  "bindR m k r = Inr y \<longleftrightarrow> (\<exists>x r'. m r = Inr (x, r') \<and> k x r' = Inr y)"
  by (auto simp: bindR_def bindE_Inr_iff)

lemma reading_simps:
  "returnR x r = Inr (x, r)" "failR e r = Inl e"
  "liftR (Inr x) r = Inr (x, r)" "liftR (Inl e) r = Inl e"
  by (simp_all add: returnR_def failR_def liftR_def)

lemma liftR_Inr_iff [result_simps]: "liftR m r = Inr (x, r') \<longleftrightarrow> m = Inr x \<and> r' = r"
  by (auto simp: liftR_def bindE_Inr_iff)

text \<open>A read whose \<open>None\<close> is an error of the block: \<open>.ok_or(BlockError(msg))?\<close>.\<close>

definition require :: "string \<Rightarrow> 'a option reading \<Rightarrow> 'a reading" where
  "require msg m = bindR m (\<lambda>v. case v of None \<Rightarrow> failR (BlockError msg) | Some x \<Rightarrow> returnR x)"

lemma require_Inr_iff [result_simps]: "require msg m r = Inr (x, r') \<longleftrightarrow> m r = Inr (Some x, r')"
  unfolding require_def bindR_Inr_iff by (auto simp: reading_simps split: option.splits)

fun repeatR :: "nat \<Rightarrow> 'a reading \<Rightarrow> 'a list reading" where
  "repeatR 0 m = returnR []"
| "repeatR (Suc n) m = bindR m (\<lambda>x. bindR (repeatR n m) (\<lambda>xs. returnR (x # xs)))"

lemma repeatR_eqs:
  "repeatR 0 m = returnR []"
  "repeatR (Suc n) m = bindR m (\<lambda>x. bindR (repeatR n m) (\<lambda>xs. returnR (x # xs)))"
  by (rule ext, simp only: repeatR.simps)+

declare repeatR.simps [simp del]

subsection \<open>Parsing\<close>

abbreviation reads :: "u8 list \<Rightarrow> 'a reading \<Rightarrow> bool list \<Rightarrow> 'a \<Rightarrow> bool" where
  "reads bs \<equiv> parses (reader_at bs) bits_of"

lemma reads_returnR: "reads bs (returnR x) [] x"
  by (simp add: parses_def reading_simps)

lemma reads_liftR: "m = Inr x \<Longrightarrow> reads bs (liftR m) [] x"
  by (simp add: parses_def reading_simps)

lemma reads_bindR: "reads bs m w x \<Longrightarrow> reads bs (k x) w' y \<Longrightarrow> reads bs (bindR m k) (w @ w') y"
  unfolding bindR_def [abs_def] by (rule parses_bind)

lemma reads_map: "reads bs m w x \<Longrightarrow> k x = returnR y \<Longrightarrow> reads bs (bindR m k) w y"
  using reads_bindR [of bs m w x k "[]" y] by (simp add: reads_returnR)

lemma reads_require: "reads bs m w (Some x) \<Longrightarrow> reads bs (require msg m) w x"
  unfolding require_def by (erule reads_map) (simp add: fun_eq_iff)

lemma reads_bit: "reads bs (require msg read_bit) [b] b"
  by (rule reads_require) (rule br.parses_read1)

lemma reads_bind_bit: "reads bs (k b) w y \<Longrightarrow> reads bs (bindR (require msg read_bit) k) (b # w) y"
  using reads_bindR [OF reads_bit] by fastforce

lemma reads_repeatR:
  assumes "\<And>x. x \<in> set xs \<Longrightarrow> reads bs m (w x) (f x)"
  shows "reads bs (repeatR (length xs) m) (concat (map w xs)) (map f xs)"
  using assms
proof (induction xs)
  case Nil
  show ?case by (simp add: repeatR_eqs reads_returnR)
next
  case (Cons x xs)
  then have "reads bs m (w x) (f x)" "reads bs (repeatR (length xs) m) (concat (map w xs)) (map f xs)" by simp_all
  then show ?case
    by (auto simp: repeatR_eqs intro!: reads_bindR reads_map [where x = "map f xs"])
qed

text \<open>A fixed-width big-endian field.\<close>

lemma reads_field:
  assumes "length w = n" "0 < n" "n \<le> LENGTH('a::len)" "LENGTH('a) \<le> 57"
  shows "reads bs (read_uint LENGTH('a) n :: 'a word option reading) w (Some (word_of_bits w))"
proof (rule parsesI)
  fix r rest assume r: "reader_at bs r" "bits_of r = w @ rest"
  have "reads bs (read_bits n) w (Some (word_of_bits w))"
    using assms by (intro br.parses_readn) simp_all
  then obtain r' where r': "read_bits n r = Inr (Some (word_of_bits w), r')" "reader_at bs r'" "bits_of r' = rest"
    using r by (rule parsesD)
  have "ucast (word_of_bits w :: u64) = (word_of_bits w :: 'a word)"
    using assms by (intro word_unat_eq_iff [THEN iffD2]) (simp add: unat_word_of_bits unsigned_ucast_eq take_bit_nat_eq_self
        order_less_le_trans [OF nat_of_bits_bound])
  with r' show "\<exists>r'. (read_uint LENGTH('a) n :: 'a word option reading) r = Inr (Some (word_of_bits w), r') \<and> reader_at bs r' \<and> bits_of r' = rest"
    using assms by (simp add: read_uint_def)
qed

text \<open>Successful reads of a bit, of several bits and of a field, seen from the bits.\<close>

lemma require_bit_Some:
  assumes "reader_at bs r" "require msg read_bit r = Inr (b, r')"
  shows "bits_of r = b # bits_of r'" "reader_at bs r'"
  using br.read1_Some [OF assms(1)] assms(2) by (auto simp: require_Inr_iff)

lemma repeat_bits_Some:
  assumes "reader_at bs r" "repeatR n (require msg read_bit) r = Inr (xs, r')"
  shows "bits_of r = xs @ bits_of r' \<and> length xs = n \<and> reader_at bs r'"
  using assms
proof (induction n arbitrary: r xs)
  case 0
  then show ?case by (simp add: repeatR_eqs reading_simps)
next
  case (Suc n)
  from Suc.prems(2) obtain b r1 ys where b: "require msg read_bit r = Inr (b, r1)"
    and ys: "repeatR n (require msg read_bit) r1 = Inr (ys, r')" and xs: "xs = b # ys"
    by (auto simp: repeatR_eqs bindR_Inr_iff reading_simps)
  note r1 = require_bit_Some [OF Suc.prems(1) b]
  from Suc.IH [OF r1(2) ys] r1(1) xs show ?case by simp
qed

lemma read_uint_Some:
  assumes "reader_at bs r" "(read_uint LENGTH('a) n :: 'a::len word option reading) r = Inr (Some v, r')"
    and "0 < n" "n \<le> LENGTH('a)" "LENGTH('a) \<le> 57"
  shows "n \<le> length (bits_of r)" "v = word_of_bits (take n (bits_of r))" "reader_at bs r'" "bits_of r' = drop n (bits_of r)"
proof -
  from assms(2) obtain w where w: "read_bits n r = Inr (Some w, r')" "v = ucast w"
    by (auto simp: read_uint_def result_simps)
  have n: "n \<le> 57" using assms(4,5) by simp
  note r = br.readn_Some [OF assms(1,3) n w(1)]
  then show len: "n \<le> length (bits_of r)" and "reader_at bs r'" "bits_of r' = drop n (bits_of r)" by simp_all
  have "reads bs (read_uint LENGTH('a) n :: 'a word option reading) (take n (bits_of r)) (Some (word_of_bits (take n (bits_of r))))"
    by (rule reads_field) (use len assms in simp_all)
  from parsesD [OF this assms(1), of "drop n (bits_of r)"] assms(2)
  show "v = word_of_bits (take n (bits_of r))" by auto
qed

text \<open>A field read on any reader: the value, or \<open>None\<close> when too few bits are left.\<close>

lemma read_uint_cases:
  assumes "reader_at bs r" "0 < n" "n \<le> LENGTH('a::len)" "LENGTH('a) \<le> 57"
  obtains r' where "(read_uint LENGTH('a) n :: 'a word option reading) r =
      Inr (if n \<le> length (bits_of r) then Some (word_of_bits (take n (bits_of r))) else None, r')"
    "reader_at bs r'" "n \<le> length (bits_of r) \<Longrightarrow> bits_of r' = drop n (bits_of r)"
proof (cases "n \<le> length (bits_of r)")
  case True
  have "reads bs (read_uint LENGTH('a) n :: 'a word option reading) (take n (bits_of r)) (Some (word_of_bits (take n (bits_of r))))"
    by (rule reads_field) (use True assms in simp_all)
  from parsesD [OF this assms(1), of "drop n (bits_of r)"] obtain r' where
    "(read_uint LENGTH('a) n :: 'a word option reading) r = Inr (Some (word_of_bits (take n (bits_of r))), r')"
    "reader_at bs r'" "bits_of r' = drop n (bits_of r)" by auto
  with True that show thesis by auto
next
  case False
  then obtain r' where "read_bits n r = Inr (None, r')" "reader_at bs r'"
    using br.readn_short [OF assms(1), of n] assms by auto
  with False assms that show thesis by (auto simp: read_uint_def)
qed

lemma read_bit_cases:
  assumes "reader_at bs r"
  obtains r' where "read_bit r = Inr (if bits_of r = [] then None else Some (hd (bits_of r)), r')" "reader_at bs r'"
    "bits_of r' = tl (bits_of r)"
  using br.read1_Nil [OF assms] br.read1_Cons [OF assms] that by (cases "bits_of r") force+

subsection \<open>Running on any input\<close>

text \<open>
  \<open>runs n d E Q m\<close>: on readers with the same at most \<open>n\<close> bits to come, over any slices, \<open>m\<close> raises
  the same fault, one that satisfies \<open>E\<close>, or returns the same result, one that satisfies \<open>Q\<close>,
  having consumed at least \<open>d\<close> bits of each.
\<close>

definition runs :: "nat \<Rightarrow> nat \<Rightarrow> (fault \<Rightarrow> bool) \<Rightarrow> ('a \<Rightarrow> bool) \<Rightarrow> 'a reading \<Rightarrow> bool" where
  "runs n d E Q m \<longleftrightarrow>
     (\<forall>bs bs' r r'. reader_at bs r \<longrightarrow> reader_at bs' r' \<longrightarrow> bits_of r = bits_of r' \<longrightarrow> length (bits_of r) \<le> n \<longrightarrow>
        (\<exists>e. E e \<and> m r = Inl e \<and> m r' = Inl e) \<or>
        (\<exists>x q q' k. Q x \<and> d \<le> k \<and> k \<le> length (bits_of r) \<and> m r = Inr (x, q) \<and> m r' = Inr (x, q') \<and>
           reader_at bs q \<and> reader_at bs' q' \<and> bits_of q = drop k (bits_of r) \<and> bits_of q' = drop k (bits_of r)))"

lemma runsI:
  assumes "\<And>bs bs' r r'. reader_at bs r \<Longrightarrow> reader_at bs' r' \<Longrightarrow> bits_of r = bits_of r' \<Longrightarrow> length (bits_of r) \<le> n \<Longrightarrow>
        (\<exists>e. E e \<and> m r = Inl e \<and> m r' = Inl e) \<or>
        (\<exists>x q q' k. Q x \<and> d \<le> k \<and> k \<le> length (bits_of r) \<and> m r = Inr (x, q) \<and> m r' = Inr (x, q') \<and>
           reader_at bs q \<and> reader_at bs' q' \<and> bits_of q = drop k (bits_of r) \<and> bits_of q' = drop k (bits_of r))"
  shows "runs n d E Q m"
  using assms unfolding runs_def by blast

lemma runs_cases:
  assumes "runs n d E Q m" "reader_at bs r" "reader_at bs' r'" "bits_of r = bits_of r'" "length (bits_of r) \<le> n"
  obtains e where "E e" "m r = Inl e" "m r' = Inl e"
  | x q q' k where "Q x" "d \<le> k" "k \<le> length (bits_of r)" "m r = Inr (x, q)" "m r' = Inr (x, q')"
      "reader_at bs q" "reader_at bs' q'" "bits_of q = drop k (bits_of r)" "bits_of q' = drop k (bits_of r)"
  using assms unfolding runs_def by blast

text \<open>On one reader.\<close>

lemma runs_one:
  assumes "runs n d E Q m" "reader_at bs r" "length (bits_of r) \<le> n"
  obtains e where "E e" "m r = Inl e"
  | x q k where "Q x" "d \<le> k" "k \<le> length (bits_of r)" "m r = Inr (x, q)" "reader_at bs q" "bits_of q = drop k (bits_of r)"
  using runs_cases [OF assms(1,2,2) refl assms(3)] by metis

lemma runs_weaken:
  assumes "runs n d E Q m" "n' \<le> n" "d' \<le> d" "\<And>e. E e \<Longrightarrow> E' e" "\<And>x. Q x \<Longrightarrow> Q' x"
  shows "runs n' d' E' Q' m"
proof (rule runsI)
  fix bs bs' r r' assume r: "reader_at bs r" "reader_at bs' r'" "bits_of r = bits_of r'" "length (bits_of r) \<le> n'"
  then have "length (bits_of r) \<le> n" using assms(2) by simp
  from runs_cases [OF assms(1) r(1-3) this]
  show "(\<exists>e. E' e \<and> m r = Inl e \<and> m r' = Inl e) \<or>
        (\<exists>x q q' k. Q' x \<and> d' \<le> k \<and> k \<le> length (bits_of r) \<and> m r = Inr (x, q) \<and> m r' = Inr (x, q') \<and>
           reader_at bs q \<and> reader_at bs' q' \<and> bits_of q = drop k (bits_of r) \<and> bits_of q' = drop k (bits_of r))"
    by cases (use assms(3-5) in \<open>meson order_trans\<close>)+
qed

lemma runs_returnR: "Q x \<Longrightarrow> runs n 0 E Q (returnR x)"
  by (auto simp: runs_def reading_simps intro!: exI [of _ 0])

lemma runs_failR: "E e \<Longrightarrow> runs n d E Q (failR e)"
  by (auto simp: runs_def reading_simps)

lemma runs_liftR: "(\<And>e. m = Inl e \<Longrightarrow> E e) \<Longrightarrow> (\<And>x. m = Inr x \<Longrightarrow> Q x) \<Longrightarrow> runs n 0 E Q (liftR m)"
  by (cases m) (auto simp: runs_def reading_simps intro!: exI [of _ 0])

lemma runs_bindR:
  assumes m: "runs n d1 E Q m" and k: "\<And>x. Q x \<Longrightarrow> d1 \<le> n \<Longrightarrow> runs (n - d1) d2 E Q' (k x)" and d: "d \<le> d1 + d2"
  shows "runs n d E Q' (bindR m k)"
proof (rule runsI)
  fix bs bs' r r' assume r: "reader_at bs r" "reader_at bs' r'" "bits_of r = bits_of r'" "length (bits_of r) \<le> n"
  from runs_cases [OF m r]
  show "(\<exists>e. E e \<and> bindR m k r = Inl e \<and> bindR m k r' = Inl e) \<or>
        (\<exists>x q q' j. Q' x \<and> d \<le> j \<and> j \<le> length (bits_of r) \<and> bindR m k r = Inr (x, q) \<and> bindR m k r' = Inr (x, q') \<and>
           reader_at bs q \<and> reader_at bs' q' \<and> bits_of q = drop j (bits_of r) \<and> bits_of q' = drop j (bits_of r))"
  proof cases
    case (1 e)
    then show ?thesis by (simp add: bindR_def)
  next
    case (2 x q q' i)
    then have kx: "runs (n - d1) d2 E Q' (k x)" "length (bits_of q) \<le> n - d1" using r(4) by (auto intro!: k)
    have same: "bits_of q = bits_of q'" using 2 by simp
    from runs_cases [OF kx(1) 2(6,7) same kx(2)] show ?thesis
    proof cases
      case (1 e)
      with 2 show ?thesis by (simp add: bindR_def)
    next
      case (2 y p p' j)
      then have "bits_of p = drop (i + j) (bits_of r)" "bits_of p' = drop (i + j) (bits_of r)" "i + j \<le> length (bits_of r)" "d \<le> i + j"
        using \<open>bits_of q = drop i (bits_of r)\<close> \<open>d1 \<le> i\<close> \<open>i \<le> length (bits_of r)\<close> d by (auto simp: add.commute)
      moreover have "bindR m k r = Inr (y, p)" "bindR m k r' = Inr (y, p')"
        using 2 \<open>m r = Inr (x, q)\<close> \<open>m r' = Inr (x, q')\<close> by (simp_all add: bindR_def)
      ultimately show ?thesis using 2(1,6,7) by blast
    qed
  qed
qed

lemma runs_bit: "E (BlockError msg) \<Longrightarrow> runs n 1 E (\<lambda>_. True) (require msg read_bit)"
proof (rule runsI)
  fix bs bs' r r' assume E: "E (BlockError msg)" and r: "reader_at bs r" "reader_at bs' r'" "bits_of r = bits_of r'"
  show "(\<exists>e. E e \<and> require msg read_bit r = Inl e \<and> require msg read_bit r' = Inl e) \<or>
        (\<exists>x q q' k. True \<and> 1 \<le> k \<and> k \<le> length (bits_of r) \<and> require msg read_bit r = Inr (x, q) \<and> require msg read_bit r' = Inr (x, q') \<and>
           reader_at bs q \<and> reader_at bs' q' \<and> bits_of q = drop k (bits_of r) \<and> bits_of q' = drop k (bits_of r))"
  proof (cases "bits_of r")
    case Nil
    then obtain q q' where "read_bit r = Inr (None, q)" "read_bit r' = Inr (None, q')"
      using br.read1_Nil [OF r(1)] br.read1_Nil [OF r(2)] r(3) by auto
    with E show ?thesis by (simp add: require_def bindR_def reading_simps)
  next
    case (Cons b w)
    then obtain q q' where "read_bit r = Inr (Some b, q)" "reader_at bs q" "bits_of q = w"
        "read_bit r' = Inr (Some b, q')" "reader_at bs' q'" "bits_of q' = w"
      using br.read1_Cons [OF r(1)] br.read1_Cons [OF r(2)] r(3) by metis
    then have "require msg read_bit r = Inr (b, q)" "require msg read_bit r' = Inr (b, q')" "bits_of q = drop 1 (bits_of r)"
        "bits_of q' = drop 1 (bits_of r)" "1 \<le> length (bits_of r)"
      using Cons by (simp_all add: require_def bindR_def reading_simps)
    with \<open>reader_at bs q\<close> \<open>reader_at bs' q'\<close> show ?thesis by blast
  qed
qed

lemma runs_field:
  assumes E: "E (BlockError msg)" and n: "0 < k" "k \<le> LENGTH('a::len)" "LENGTH('a) \<le> 57"
  shows "runs n k E (\<lambda>v. unat v < 2 ^ k) (require msg (read_uint LENGTH('a) k :: 'a word option reading))"
proof (rule runsI)
  let ?m = "read_uint LENGTH('a) k :: 'a word option reading"
  fix bs bs' r r' assume r: "reader_at bs r" "reader_at bs' r'" "bits_of r = bits_of r'"
  have k57: "k \<le> 57" using n by simp
  show "(\<exists>e. E e \<and> require msg ?m r = Inl e \<and> require msg ?m r' = Inl e) \<or>
        (\<exists>x q q' j. unat x < 2 ^ k \<and> k \<le> j \<and> j \<le> length (bits_of r) \<and> require msg ?m r = Inr (x, q) \<and> require msg ?m r' = Inr (x, q') \<and>
           reader_at bs q \<and> reader_at bs' q' \<and> bits_of q = drop j (bits_of r) \<and> bits_of q' = drop j (bits_of r))"
  proof (cases "k \<le> length (bits_of r)")
    case True
    let ?w = "take k (bits_of r)"
    have w: "bits_of r = ?w @ drop k (bits_of r)" "bits_of r' = ?w @ drop k (bits_of r)" "length ?w = k" using True r(3) by simp_all
    obtain q where q: "?m r = Inr (Some (word_of_bits ?w), q)" "reader_at bs q" "bits_of q = drop k (bits_of r)"
      using parsesD [OF reads_field [OF w(3) n] r(1) w(1)] by blast
    obtain q' where q': "?m r' = Inr (Some (word_of_bits ?w), q')" "reader_at bs' q'" "bits_of q' = drop k (bits_of r)"
      using parsesD [OF reads_field [OF w(3) n] r(2) w(2)] by blast
    have "unat (word_of_bits ?w :: 'a word) < 2 ^ k"
      using w(3) n nat_of_bits_bound [of ?w] by (simp add: unat_word_of_bits)
    moreover have "require msg ?m r = Inr (word_of_bits ?w, q)" "require msg ?m r' = Inr (word_of_bits ?w, q')"
      using q(1) q'(1) by (simp_all add: require_def bindR_def reading_simps)
    ultimately show ?thesis using q q' True by blast
  next
    case False
    then have "length (bits_of r) < k" "length (bits_of r') < k" using r(3) by simp_all
    then obtain q q' where "read_bits k r = Inr (None, q)" "read_bits k r' = Inr (None, q')"
      using br.readn_short [OF r(1) k57] br.readn_short [OF r(2) k57] by blast
    with E n show ?thesis by (simp add: require_def bindR_def reading_simps read_uint_def)
  qed
qed

lemma runs_repeatR:
  assumes "\<And>n. runs n 0 E Q m"
  shows "runs n 0 E (\<lambda>xs. length xs = k \<and> (\<forall>x\<in>set xs. Q x)) (repeatR k m)"
proof (induction k arbitrary: n)
  case 0
  then show ?case by (simp add: repeatR_eqs runs_returnR)
next
  case (Suc k)
  show ?case
    unfolding repeatR_eqs
    by (rule runs_bindR [where ?d1.0 = 0 and ?d2.0 = 0, OF assms], rule runs_bindR [where ?d1.0 = 0 and ?d2.0 = 0, OF Suc.IH])
      (auto intro!: runs_returnR)
qed

subsection \<open>Packing\<close>

text \<open>The bytes of a bit list, the last one filled with zeros.\<close>

function pack_bits :: "bool list \<Rightarrow> u8 list" where
  "pack_bits w = (if w = [] then [] else word_of_bits (take 8 (w @ replicate 7 False)) # pack_bits (drop 8 w))"
  by pat_completeness auto
termination by (relation "measure length") auto

declare pack_bits.simps [simp del]

lemma stream_bits_Cons: "stream_bits (b # bs) = map (\<lambda>i. bit b (7 - i)) [0..<8] @ stream_bits bs"
proof -
  have "[0..<8 * length (b # bs)] = [0..<8] @ map (\<lambda>i. i + 8) [0..<8 * length bs]"
    by (simp add: map_add_upt upt_add_eq_append [of 0 8 "8 * length bs", simplified] add.commute)
  moreover have "map (stream_bit (b # bs)) [0..<8] = map (\<lambda>i. bit b (7 - i)) [0..<8]"
    by (simp add: stream_bit_def upt_conv_Cons)
  moreover have "stream_bit (b # bs) (i + 8) = stream_bit bs i" for i
  proof -
    have "(i + 8) div 8 = Suc (i div 8)" "(i + 8) mod 8 = i mod 8" by simp_all
    then show ?thesis by (simp only: stream_bit_def nth_Cons_Suc list.size) simp
  qed
  ultimately show ?thesis by (simp add: stream_bits_def comp_def)
qed

lemma stream_bits_Nil [simp]: "stream_bits [] = []"
  by (simp add: stream_bits_def)

lemma stream_bits_append: "stream_bits (xs @ ys) = stream_bits xs @ stream_bits ys"
  by (induction xs) (simp_all add: stream_bits_Cons)

lemma bits_of_byte: "length w = 8 \<Longrightarrow> map (\<lambda>i. bit (word_of_bits w :: u8) (7 - i)) [0..<8] = w"
  by (rule nth_equalityI) (auto simp: word_of_bits_def bit_horner_sum_bit_word_iff rev_nth)

lemma stream_bits_pack: "\<exists>k<8. stream_bits (pack_bits w) = w @ replicate k False"
proof (induction w rule: pack_bits.induct)
  case (1 w)
  show ?case
  proof (cases "w = []")
    case True
    then show ?thesis by (subst pack_bits.simps) (simp add: stream_bits_def)
  next
    case ne: False
    let ?c = "take 8 (w @ replicate 7 False)"
    have len: "length ?c = 8" using ne by (cases w) simp_all
    have eq: "stream_bits (pack_bits w) = ?c @ stream_bits (pack_bits (drop 8 w))"
      using ne by (subst pack_bits.simps) (simp only: if_False stream_bits_Cons bits_of_byte [OF len])
    show ?thesis
    proof (cases "8 \<le> length w")
      case True
      with 1 [OF ne] show ?thesis unfolding eq by (metis append_assoc append_take_drop_id diff_is_0_eq take_append take_0 append_Nil2)
    next
      case False
      moreover have short: "8 - length w < 8" using ne by (cases w) simp_all
      ultimately have "drop 8 w = []" "?c = w @ replicate (8 - length w) False" by (simp_all add: min_def)
      moreover note short
      ultimately show ?thesis unfolding eq by (auto simp: pack_bits.simps [of "[]"] stream_bits_def)
    qed
  qed
qed

end
