(* ===== verification/Huffman_Total.thy ===== *)
theory Huffman_Total
  imports Huffman_Decode Reader_Programs
begin

text \<open>
  What holds of every tree \<open>from_lengths\<close> returns, whatever the lengths, also when they are
  over-subscribed: all indices stay inside the arrays, every decoded symbol has a length, and a decode
  consumes at least one bit or fails. And \<open>from_lengths\<close> fails only on lengths that are not valid.
\<close>

definition tree_sane :: "huffman_tree \<Rightarrow> nat \<Rightarrow> bool" where
  "tree_sane t n \<longleftrightarrow>
     length (fast_table t) = FAST_TABLE_SIZE \<and> length (nodes t) = MAX_TREE_NODES \<and>
     (\<forall>e\<in>set (fast_table t). unpack_len e \<le> FAST_BITS \<and> (0 < unpack_len e \<longrightarrow> unat (unpack_symbol e) < n)) \<and>
     (\<forall>nd\<in>set (nodes t). \<forall>b. child_of nd b < int MAX_TREE_NODES \<and> - int n \<le> child_of nd b)"

definition nodes_sane :: "huffman_tree \<Rightarrow> nat \<Rightarrow> bool" where
  "nodes_sane t n \<longleftrightarrow> length (nodes t) = MAX_TREE_NODES \<and>
     (\<forall>nd\<in>set (nodes t). \<forall>b. child_of nd b < int MAX_TREE_NODES \<and> - int n \<le> child_of nd b)"

lemma nodes_sane_update:
  assumes "nodes_sane t n" "i < length (nodes t)" "v < int MAX_TREE_NODES" "- int n \<le> v"
  shows "nodes_sane (t\<lparr>nodes := (nodes t)[i := set_child (nodes t ! i) b v]\<rparr>) n"
    and "nodes_sane (t\<lparr>nodes := (nodes t)[i := set_child (nodes t ! i) b v], n_nodes := k\<rparr>) n"
proof -
  have "child_of nd b' < int MAX_TREE_NODES \<and> - int n \<le> child_of nd b'"
    if nd: "nd \<in> set ((nodes t)[i := set_child (nodes t ! i) b v])" for nd b'
  proof -
    consider "nd = set_child (nodes t ! i) b v" | "nd \<in> set (nodes t)"
      using nd set_update_subset_insert [of "nodes t" i] by blast
    then show ?thesis
      using assms nth_mem [OF assms(2)] by cases (auto simp: nodes_sane_def child_of_set_child)
  qed
  with assms(1) show "nodes_sane (t\<lparr>nodes := (nodes t)[i := set_child (nodes t ! i) b v]\<rparr>) n"
    "nodes_sane (t\<lparr>nodes := (nodes t)[i := set_child (nodes t ! i) b v], n_nodes := k\<rparr>) n"
    by (simp_all add: nodes_sane_def)
qed

lemma insert_code_sane:
  assumes "insert_code k c s i t = Inr t'" "nodes_sane t n" "s < n" "n \<le> 258"
  shows "nodes_sane t' n \<and> fast_table t' = fast_table t"
  using assms
proof (induction k c s i t rule: insert_code.induct)
  case (1 code sy i t)
  then show ?case by simp
next
  case (2 k code sy i t)
  then obtain b where b: "code_bit code k = Inr b" and i: "i < length (nodes t)"
    and rest: "(let child = child_of (nodes t ! i) b
     in if child > 0 then insert_code k code sy (nat child) t
        else if k > 0 then
          (let new_idx = n_nodes t
           in if new_idx \<ge> MAX_TREE_NODES then Inl (BlockError ''huffman tree too large'')
              else insert_code k code sy new_idx
                     (t\<lparr>nodes := (nodes t)[i := set_child (nodes t ! i) b (int new_idx)], n_nodes := new_idx + 1\<rparr>))
        else insert_code k code sy i
               (t\<lparr>nodes := (nodes t)[i := set_child (nodes t ! i) b (- (int sy + 1))]\<rparr>)) = Inr t'"
    by (auto simp: result_simps)
  have nd: "index (nodes t) i = Inr (nodes t ! i)" using i by simp
  consider (child) "child_of (nodes t ! i) b > 0" | (new) "\<not> child_of (nodes t ! i) b > 0" "k > 0" "n_nodes t < MAX_TREE_NODES"
    | (leaf) "\<not> child_of (nodes t ! i) b > 0" "\<not> k > 0"
    using rest by (auto simp: Let_def split: if_splits)
  then show ?case
  proof cases
    case child
    with rest have "insert_code k code sy (nat (child_of (nodes t ! i) b)) t = Inr t'" by simp
    from "2.IH"(1) [OF b nd refl child this "2.prems"(2-4)] show ?thesis .
  next
    case new
    have "nodes_sane (t\<lparr>nodes := (nodes t)[i := set_child (nodes t ! i) b (int (n_nodes t))], n_nodes := n_nodes t + 1\<rparr>) n"
      using new by (intro nodes_sane_update [OF "2.prems"(2) i]) simp_all
    with rest new "2.IH"(2) [OF b nd refl new(1,2) refl _ _ this "2.prems"(3,4)] show ?thesis
      by (auto simp: Let_def not_le)
  next
    case leaf
    have "nodes_sane (t\<lparr>nodes := (nodes t)[i := set_child (nodes t ! i) b (- (int sy + 1))]\<rparr>) n"
      using "2.prems"(3) by (intro nodes_sane_update [OF "2.prems"(2) i]) (simp_all add: MAX_TREE_NODES_def)
    with rest leaf "2.IH"(3) [OF b nd refl leaf _ this "2.prems"(3,4)] show ?thesis
      by (auto simp: Let_def)
  qed
qed

lemma assign_codes_sane:
  assumes "assign_codes ss c p t = Inr (t', es)" "nodes_sane t n" "n \<le> 258" "\<forall>(s, l)\<in>set ss. s < n \<and> 0 < l"
  shows "nodes_sane t' n \<and> fast_table t' = fast_table t \<and> (\<forall>(c, l, s)\<in>set es. s < n \<and> 0 < l)"
  using assms
proof (induction ss c p t arbitrary: t' es rule: assign_codes.induct)
  case (1 c p t)
  then show ?case by simp
next
  case (2 sy len ss c p t)
  from "2.prems"(1) obtain k c1 t1 c2 t2 es' where s: "sub_checked len p = Inr k" "shl32 c k = Inr c1" "insert_code len c1 sy 0 t = Inr t1"
    "inc32 c1 = Inr c2" "assign_codes ss c2 len t1 = Inr (t2, es')" "t' = t2" "es = (c1, len, sy) # es'"
    unfolding assign_codes.simps bindE_Inr_iff by (elim exE conjE) (auto split: prod.splits)
  have t1: "nodes_sane t1 n" "fast_table t1 = fast_table t"
    using insert_code_sane [OF s(3) "2.prems"(2) _ "2.prems"(3)] "2.prems"(4) by simp_all
  have "\<forall>(s, l)\<in>set ss. s < n \<and> 0 < l" using "2.prems"(4) by simp
  from "2.IH" [OF s(1-4) s(5) t1(1) "2.prems"(3) this] t1(2) "2.prems"(4) show ?case by (simp add: s(6,7))
qed

lemma fill_range_sane:
  "fill_range e base xs tab = Inr tab' \<Longrightarrow> length tab' = length tab \<and> set tab' \<subseteq> insert e (set tab)"
proof (induction xs arbitrary: tab)
  case Nil
  then show ?case by auto
next
  case (Cons x xs)
  then obtain "fill_range e base xs (tab[base OR x := e]) = Inr tab'" by (auto simp: result_simps)
  from Cons.IH [OF this] set_update_subset_insert [of tab "base OR x" e] show ?case by auto
qed

definition entry_sane :: "nat \<Rightarrow> u16 \<Rightarrow> bool" where
  "entry_sane n e \<longleftrightarrow> unpack_len e \<le> FAST_BITS \<and> (0 < unpack_len e \<longrightarrow> unat (unpack_symbol e) < n)"

lemma entry_sane_pack: "s < n \<Longrightarrow> n \<le> 258 \<Longrightarrow> l \<le> FAST_BITS \<Longrightarrow> entry_sane n (pack_entry (of_nat s) l)"
  by (simp add: entry_sane_def pack_entry_len pack_entry_symbol FAST_BITS_def unat_of_nat_small)

lemma fill_fast_sane:
  assumes "fill_fast es tab = Inr tab'" "\<forall>(c, l, s)\<in>set es. s < n \<and> 0 < l" "n \<le> 258" "\<forall>e\<in>set tab. entry_sane n e"
  shows "length tab' = length tab \<and> (\<forall>e\<in>set tab'. entry_sane n e)"
  using assms
proof (induction es arbitrary: tab)
  case Nil
  then show ?case by simp
next
  case (Cons a es)
  obtain c l s where a: "a = (c, l, s)" by (cases a)
  show ?case
  proof (cases "l \<le> FAST_BITS")
    case True
    then obtain tab1 where t: "fill_range (pack_entry (of_nat s) l) (push_bit (FAST_BITS - l) c) [0..<2 ^ (FAST_BITS - l)] tab = Inr tab1"
      "fill_fast es tab1 = Inr tab'" using Cons.prems(1) by (auto simp: a result_simps Let_def)
    have "entry_sane n (pack_entry (of_nat s) l)" using Cons.prems(2,3) True a by (intro entry_sane_pack) auto
    with fill_range_sane [OF t(1)] Cons.prems(4) have "\<forall>e\<in>set tab1. entry_sane n e" "length tab1 = length tab" by auto
    with Cons.IH [OF t(2) _ Cons.prems(3)] Cons.prems(2) show ?thesis by simp
  next
    case False
    with Cons show ?thesis by (simp add: a)
  qed
qed

lemma from_lengths_sane:
  assumes "from_lengths lengths = Inr t" "length lengths \<le> 258"
  shows "tree_sane t (length lengths)"
proof -
  let ?n = "length lengths" and ?ss = "sorted_symbols lengths" and ?t = "empty_tree\<lparr>n_nodes := 1\<rparr>"
  obtain t1 es tab where t: "assign_codes ?ss 0 (snd (hd ?ss)) ?t = Inr (t1, es)" "fill_fast es (fast_table t1) = Inr tab"
    "t = t1\<lparr>fast_table := tab\<rparr>"
    using assms(1) unfolding from_lengths_def Let_def sorted_symbols_def [symmetric] by (auto simp: result_simps)
  have "nodes_sane ?t ?n"
    by (simp add: nodes_sane_def empty_tree_def child_of_def MAX_TREE_NODES_def)
  moreover have "\<forall>(s, l)\<in>set ?ss. s < ?n \<and> 0 < l" by (auto simp: used_symbols_iff)
  ultimately have 1: "nodes_sane t1 ?n" "fast_table t1 = fast_table ?t" "\<forall>(c, l, s)\<in>set es. s < ?n \<and> 0 < l"
    using assign_codes_sane [OF t(1) _ assms(2)] by blast+
  have "\<forall>e\<in>set (fast_table t1). entry_sane ?n e"
    using 1(2) by (simp add: empty_tree_def entry_sane_def)
  from fill_fast_sane [OF t(2) 1(3) assms(2) this] 1(2) have "length tab = FAST_TABLE_SIZE" "\<forall>e\<in>set tab. entry_sane ?n e"
    by (auto simp: empty_tree_def)
  with 1(1) show ?thesis by (simp add: tree_sane_def nodes_sane_def t(3) entry_sane_def)
qed

lemma tree_sane_empty: "tree_sane empty_tree n"
  by (simp add: tree_sane_def empty_tree_def child_of_def MAX_TREE_NODES_def)

text \<open>The faults of \<open>from_lengths\<close>.\<close>

definition over_subscribed :: "u8 list \<Rightarrow> bool" where
  "over_subscribed lengths \<longleftrightarrow> 2 ^ max_len < kraft (used_symbols lengths)"

lemma insert_code_fault: "insert_code k c s i t = Inl e \<Longrightarrow> \<forall>m. e \<noteq> Undefined m"
proof (induction k c s i t rule: insert_code.induct)
  case (1 code sy i t)
  then show ?case by simp
next
  case (2 k code sy i t)
  show ?case
  proof (cases "\<exists>b. code_bit code k = Inr b \<and> i < length (nodes t)")
    case False
    with "2.prems" show ?thesis by (auto simp: bindE_Inl_iff code_bit_def index_def split: if_splits)
  next
    case True
    then obtain b where b: "code_bit code k = Inr b" and nd: "index (nodes t) i = Inr (nodes t ! i)" by auto
    note IH = "2.IH" [OF b nd refl]
    show ?thesis
    proof (cases "child_of (nodes t ! i) b > 0")
      case True
      with IH(1) "2.prems" b nd show ?thesis by simp
    next
      case False
      with IH(2,3) "2.prems" b nd show ?thesis by (cases "k > 0") (auto simp: Let_def split: if_splits)
    qed
  qed
qed

lemma assign_codes_fault: "assign_codes ss c p t = Inl e \<Longrightarrow> \<forall>m. e \<noteq> Undefined m"
proof (induction ss c p t rule: assign_codes.induct)
  case (1 c p t)
  then show ?case by simp
next
  case (2 sy len ss c p t)
  have ops: "sub_checked a b = Inl e \<Longrightarrow> \<forall>m. e \<noteq> Undefined m" "shl32 a b = Inl e \<Longrightarrow> \<forall>m. e \<noteq> Undefined m"
    "inc32 a = Inl e \<Longrightarrow> \<forall>m. e \<noteq> Undefined m" for a b
    by (auto simp: sub_checked_def shl32_def inc32_def split: if_splits)
  show ?case
  proof (cases "\<exists>k c1 t1 c2. sub_checked len p = Inr k \<and> shl32 c k = Inr c1 \<and> insert_code len c1 sy 0 t = Inr t1 \<and> inc32 c1 = Inr c2")
    case True
    then obtain k c1 t1 c2 where k: "sub_checked len p = Inr k" "shl32 c k = Inr c1" "insert_code len c1 sy 0 t = Inr t1" "inc32 c1 = Inr c2"
      by blast
    have "assign_codes ss c2 len t1 = Inl e"
      using "2.prems" unfolding assign_codes.simps k bindE.simps by (cases "assign_codes ss c2 len t1") auto
    from "2.IH" [OF k this] show ?thesis .
  next
    case False
    with "2.prems" show ?thesis
      unfolding assign_codes.simps bindE_Inl_iff by (metis ops insert_code_fault)
  qed
qed

lemma fill_range_fault: "fill_range x base xs tab = Inl e \<Longrightarrow> \<forall>m. e \<noteq> Undefined m"
  by (induction xs arbitrary: tab) (auto simp: result_simps store_def split: if_splits)

lemma fill_fast_fault: "fill_fast es tab = Inl e \<Longrightarrow> \<forall>m. e \<noteq> Undefined m"
proof (induction es arbitrary: tab)
  case (Cons a es)
  then show ?case by (cases a) (auto simp: result_simps Let_def dest: fill_range_fault split: if_splits)
qed simp

lemma from_lengths_fault:
  assumes "from_lengths lengths = Inl e" "length lengths \<le> 258" "\<forall>l\<in>set lengths. 1 \<le> unat l \<and> unat l \<le> max_len" "lengths \<noteq> []"
  shows "over_subscribed lengths" "\<And>m. e \<noteq> Undefined m"
proof -
  have "\<not> lengths_valid lengths" using from_lengths_holds [of lengths] assms(1) by auto
  moreover have "(0, unat (lengths ! 0)) \<in> set (used_symbols lengths)"
    using assms(3,4) by (auto simp: used_symbols_iff intro: nth_mem Suc_le_lessD)
  then have "used_symbols lengths \<noteq> []" by auto
  ultimately show "over_subscribed lengths" using assms(2,3) by (auto simp: lengths_valid_def over_subscribed_def)
  show "e \<noteq> Undefined m" for m
    using assms(1) unfolding from_lengths_def Let_def
    by (auto simp: result_simps guard_def dest: assign_codes_fault fill_fast_fault split: if_splits)
qed

subsection \<open>Decoding on any input\<close>

lemma sane_child: "tree_sane t n \<Longrightarrow> i < MAX_TREE_NODES \<Longrightarrow>
    i < length (nodes t) \<and> child_of (nodes t ! i) b < int MAX_TREE_NODES \<and> - int n \<le> child_of (nodes t ! i) b"
  by (auto simp: tree_sane_def)

lemma require_decode_slow:
  "require msg (decode_slow t i) = bindR (require msg read_bit) (\<lambda>b. bindR (liftR (index (nodes t) i)) (\<lambda>nd.
     if child_of nd b < 0 then returnR (word_of_int (- child_of nd b - 1))
     else require msg (decode_slow t (nat (child_of nd b)))))" (is "?l = ?r")
proof (rule ext)
  fix r
  show "?l r = ?r r"
  proof (cases "read_bit r")
    case (Inl e)
    then show ?thesis by (simp add: require_def bindR_def decode_slow.simps [of t i r])
  next
    case (Inr p)
    obtain v r' where p: "p = (v, r')" by (cases p)
    show ?thesis
    proof (cases v)
      case None
      with Inr p show ?thesis by (simp add: require_def bindR_def decode_slow.simps [of t i r] reading_simps)
    next
      case (Some b)
      with Inr p show ?thesis
        by (cases "index (nodes t) i")
          (simp_all add: require_def bindR_def decode_slow.simps [of t i r] reading_simps Let_def)
    qed
  qed
qed

lemma runs_decode_slow:
  assumes t: "tree_sane t m" "m \<le> 258" and E: "E (BlockError msg)" and i: "i < MAX_TREE_NODES"
  shows "runs n 1 E (\<lambda>s. unat s < m) (require msg (decode_slow t i))"
  using i
proof (induction n arbitrary: i rule: less_induct)
  case (less n)
  show ?case
  proof (subst require_decode_slow, rule runs_bindR [where ?d1.0 = 1 and ?d2.0 = 0, OF runs_bit])
    fix b :: bool assume n: "1 \<le> n"
    note ch = sane_child [OF t(1) less.prems, of b]
    show "runs (n - 1) 0 E (\<lambda>s. unat s < m) (bindR (liftR (index (nodes t) i)) (\<lambda>nd.
       if child_of nd b < 0 then returnR (word_of_int (- child_of nd b - 1))
       else require msg (decode_slow t (nat (child_of nd b)))))"
    proof (rule runs_bindR [where ?d1.0 = 0 and ?d2.0 = 0 and Q = "\<lambda>nd. nd = nodes t ! i", OF runs_liftR])
      fix nd assume nd: "nd = nodes t ! i"
      show "runs (n - 1 - 0) 0 E (\<lambda>s. unat s < m)
        (if child_of nd b < 0 then returnR (word_of_int (- child_of nd b - 1)) else require msg (decode_slow t (nat (child_of nd b))))"
      proof (cases "child_of nd b < 0")
        case True
        define k where "k = nat (- child_of nd b - 1)"
        have "k < m" using True ch nd by (simp add: k_def nat_less_iff)
        moreover have "word_of_int (- child_of nd b - 1) = (of_nat k :: u16)" using True by (simp add: k_def)
        ultimately have "unat (word_of_int (- child_of nd b - 1) :: u16) < m" using t(2) by (simp add: unat_of_nat_small)
        with True show ?thesis by (simp add: runs_returnR)
      next
        case False
        have "nat (child_of nd b) < MAX_TREE_NODES" using False ch nd by (simp add: nat_less_iff)
        from less.IH [OF _ this, of "n - 1"] n False show ?thesis by (auto intro: runs_weaken)
      qed
    next
      show "nd = nodes t ! i" if "index (nodes t) i = Inr nd" for nd using that by (simp add: index_Inr_iff)
      show "E e" if "index (nodes t) i = Inl e" for e using that ch by (simp add: index_def)
    qed simp
  qed (use E in simp_all)
qed

lemma runs_decode:
  assumes t: "tree_sane t m" "m \<le> 258" and E: "E (BlockError msg)"
  shows "runs n 1 E (\<lambda>s. unat s < m) (require msg (decode t))"
proof (rule runsI)
  fix bs bs' r r' assume r: "reader_at bs r" "reader_at bs' r'" "bits_of r = bits_of r'" "length (bits_of r) \<le> n"
  have slow: "runs n 1 E (\<lambda>s. unat s < m) (require msg (decode_slow t 0))"
    by (rule runs_decode_slow [where E = E and msg = msg, OF t E]) (simp add: MAX_TREE_NODES_def)
  let ?goal = "\<lambda>f f'. (\<exists>e. E e \<and> f = Inl e \<and> f' = Inl e) \<or>
        (\<exists>x q q' k. unat x < m \<and> 1 \<le> k \<and> k \<le> length (bits_of r) \<and> f = Inr (x, q) \<and> f' = Inr (x, q') \<and>
           reader_at bs q \<and> reader_at bs' q' \<and> bits_of q = drop k (bits_of r) \<and> bits_of q' = drop k (bits_of r))"
  have via_slow: "?goal (require msg (decode t) r) (require msg (decode t) r')"
    if q: "reader_at bs q" "reader_at bs' q'" "bits_of q = bits_of r" "bits_of q' = bits_of r"
      and d: "decode t r = decode_slow t 0 q" "decode t r' = decode_slow t 0 q'" for q q'
  proof -
    have eq: "require msg (decode t) r = require msg (decode_slow t 0) q" "require msg (decode t) r' = require msg (decode_slow t 0) q'"
      using d by (simp_all add: require_def bindR_def)
    have "bits_of q = bits_of q'" "length (bits_of q) \<le> n" using q r(4) by simp_all
    from runs_cases [OF slow q(1,2) this] show ?thesis
      unfolding eq q(3) by cases blast+
  qed
  show "?goal (require msg (decode t) r) (require msg (decode t) r')"
  proof (cases "FAST_BITS \<le> length (bits_of r)")
    case False
    then have "length (bits_of r) < FAST_BITS" "length (bits_of r') < FAST_BITS" using r(3) by simp_all
    then obtain q q' where "peek FAST_BITS r = Inr (None, q)" "reader_at bs q" "bits_of q = bits_of r"
      "peek FAST_BITS r' = Inr (None, q')" "reader_at bs' q'" "bits_of q' = bits_of r"
      using br.peekn_short [OF r(1), of FAST_BITS] br.peekn_short [OF r(2), of FAST_BITS] r(3) by (auto simp: FAST_BITS_def)
    then show ?thesis by (intro via_slow) (simp_all add: decode_def)
  next
    case True
    let ?w = "take FAST_BITS (bits_of r)"
    let ?v = "word_of_bits ?w :: u64"
    have pos: "0 < FAST_BITS" "FAST_BITS \<le> 56" by (simp_all add: FAST_BITS_def)
    obtain q where q: "peek FAST_BITS r = Inr (Some ?v, q)" "reader_at bs q" "bits_of q = bits_of r"
      "\<And>k. k \<le> FAST_BITS \<Longrightarrow> \<exists>p. consume k q = Inr p \<and> reader_at bs p \<and> bits_of p = drop k (bits_of r)"
      using br.peekn_enough [OF r(1) pos True] by blast
    obtain q' where q': "peek FAST_BITS r' = Inr (Some ?v, q')" "reader_at bs' q'" "bits_of q' = bits_of r"
      "\<And>k. k \<le> FAST_BITS \<Longrightarrow> \<exists>p. consume k q' = Inr p \<and> reader_at bs' p \<and> bits_of p = drop k (bits_of r)"
      using br.peekn_enough [OF r(2) pos] True r(3) by metis
    have lw: "length ?w = FAST_BITS" using True by simp
    have v: "unat ?v = nat_of_bits ?w" using lw by (simp add: unat_word_of_bits FAST_BITS_def)
    then have len: "unat ?v < length (fast_table t)"
      using nat_of_bits_bound [of ?w] lw t(1) by (simp add: tree_sane_def FAST_TABLE_SIZE_def)
    let ?e = "fast_table t ! unat ?v"
    have e: "unpack_len ?e \<le> FAST_BITS" "0 < unpack_len ?e \<Longrightarrow> unat (unpack_symbol ?e) < m"
      using t(1) nth_mem [OF len] by (auto simp: tree_sane_def)
    show ?thesis
    proof (cases "unpack_len ?e = 0")
      case True
      then show ?thesis using q q' len by (intro via_slow) (simp_all add: decode_def Let_def)
    next
      case False
      obtain p p' where "consume (unpack_len ?e) q = Inr p" "reader_at bs p" "bits_of p = drop (unpack_len ?e) (bits_of r)"
        "consume (unpack_len ?e) q' = Inr p'" "reader_at bs' p'" "bits_of p' = drop (unpack_len ?e) (bits_of r)"
        using q(4) [OF e(1)] q'(4) [OF e(1)] by blast
      moreover from this have "require msg (decode t) r = Inr (unpack_symbol ?e, p)" "require msg (decode t) r' = Inr (unpack_symbol ?e, p')"
        using q(1) q'(1) len False by (simp_all add: require_def bindR_def decode_def Let_def reading_simps)
      moreover have "unpack_len ?e \<le> length (bits_of r)" using e(1) True by simp
      moreover have "1 \<le> unpack_len ?e" using False by simp
      moreover have "unat (unpack_symbol ?e) < m" using e(2) False by simp
      ultimately show ?thesis by blast
    qed
  qed
qed

end
