(* ===== verification/Mtf_Decoder.thy ===== *)
theory Mtf_Decoder
  imports Bz_Prelude "HOL-Library.Multiset"
begin

text \<open>
  The move-to-front decoder of \<^verbatim>\<open>src/src/mtf.rs\<close>. The table is the fixed-size array of the
  struct, a list of length 256 (\<open>mtf_ok\<close>), so an index that is a \<open>u8\<close> is always in bounds.
  The two fast paths and the general shift are one reference step, \<open>mtf_step\<close>; the decoder
  inverts the reference encoder on every table that starts with distinct symbols.
\<close>

record mtf_decoder =
  symbols :: "u8 list"

definition mtf_ok :: "mtf_decoder \<Rightarrow> bool" where
  "mtf_ok d \<longleftrightarrow> length (symbols d) = 256"

definition mtf_new :: mtf_decoder where
  "mtf_new = \<lparr>symbols = map of_nat [0..<256]\<rparr>"

definition with_symbols :: "u8 list \<Rightarrow> mtf_decoder" where
  "with_symbols s = \<lparr>symbols = s\<rparr>"

text \<open>\<open>copy_within(..n, dest)\<close>: the first \<open>n\<close> elements, copied to position \<open>dest\<close>.\<close>

definition copy_within :: "'a list \<Rightarrow> nat \<Rightarrow> nat \<Rightarrow> 'a list" where
  "copy_within xs n dest = take dest xs @ take n xs @ drop (dest + n) xs"

definition mtf_decode :: "u8 \<Rightarrow> mtf_decoder \<Rightarrow> u8 \<times> mtf_decoder" where
  "mtf_decode n d =
     (let idx = unat n; b = symbols d ! idx
      in if idx = 0 then (b, d)
         else if idx = 1 then (b, d\<lparr>symbols := ((symbols d)[1 := symbols d ! 0])[0 := b]\<rparr>)
         else (b, d\<lparr>symbols := (copy_within (symbols d) idx 1)[0 := b]\<rparr>))"

definition mtf_first :: "mtf_decoder \<Rightarrow> u8" where
  "mtf_first d = symbols d ! 0"

subsection \<open>The reference step and the encoder\<close>

definition mtf_step :: "nat \<Rightarrow> 'a list \<Rightarrow> 'a list" where
  "mtf_step i xs = xs ! i # take i xs @ drop (Suc i) xs"

fun position_of :: "'a \<Rightarrow> 'a list \<Rightarrow> nat" where
  "position_of x [] = 0"
| "position_of x (y # ys) = (if x = y then 0 else Suc (position_of x ys))"

lemma position_of_nth: "x \<in> set xs \<Longrightarrow> position_of x xs < length xs \<and> xs ! position_of x xs = x"
  by (induction xs) auto

lemma position_of_append: "x \<in> set xs \<Longrightarrow> position_of x (xs @ ys) = position_of x xs"
  by (induction xs) auto

definition mtf_encode :: "u8 list \<Rightarrow> u8 \<Rightarrow> nat \<times> u8 list" where
  "mtf_encode xs x = (position_of x xs, mtf_step (position_of x xs) xs)"

lemma length_mtf_step [simp]: "i < length xs \<Longrightarrow> length (mtf_step i xs) = length xs"
  by (simp add: mtf_step_def min_def)

lemma mset_mtf_step: "i < length xs \<Longrightarrow> mset (mtf_step i xs) = mset xs"
proof -
  assume i: "i < length xs"
  have "mset xs = mset (take i xs @ xs ! i # drop (Suc i) xs)"
    by (simp only: id_take_nth_drop [OF i, symmetric])
  then show ?thesis by (simp add: mtf_step_def)
qed

lemma set_mtf_step [simp]: "i < length xs \<Longrightarrow> set (mtf_step i xs) = set xs"
  by (metis mset_mtf_step set_mset_mset)

lemma distinct_mtf_step [simp]: "i < length xs \<Longrightarrow> distinct (mtf_step i xs) \<longleftrightarrow> distinct xs"
  by (rule mset_eq_imp_distinct_iff) (rule mset_mtf_step)

lemma mtf_step_append: "i < length xs \<Longrightarrow> mtf_step i (xs @ ys) = mtf_step i xs @ ys"
  by (simp add: mtf_step_def nth_append)

text \<open>The three paths of \<open>MtfDecoder::decode\<close> are the reference step.\<close>

lemma mtf_decode_step:
  assumes "mtf_ok d"
  shows "mtf_decode n d = (symbols d ! unat n, d\<lparr>symbols := mtf_step (unat n) (symbols d)\<rparr>)"
proof -
  have len: "unat n < length (symbols d)" "length (symbols d) = 256"
    using assms unat_u8_less [of n] by (simp_all add: mtf_ok_def)
  then obtain a b xs where s: "symbols d = a # b # xs"
    by (metis length_0_conv length_Cons neq_Nil_conv numeral_eq_one_iff semiring_norm(85) zero_neq_numeral One_nat_def)
  consider "unat n = 0" | "unat n = 1" | k where "unat n = Suc (Suc k)"
    by (metis One_nat_def not0_implies_Suc)
  then show ?thesis
  proof cases
    case 1
    then show ?thesis by (simp add: mtf_decode_def mtf_step_def s)
  next
    case 2
    then show ?thesis by (simp add: mtf_decode_def mtf_step_def s)
  next
    case 3
    then show ?thesis by (simp add: mtf_decode_def mtf_step_def s copy_within_def Let_def)
  qed
qed

lemma mtf_ok_decode: "mtf_ok d \<Longrightarrow> mtf_ok (snd (mtf_decode n d))"
  using unat_u8_less [of n] by (simp add: mtf_decode_step mtf_ok_def)

lemma mtf_ok_new [simp]: "mtf_ok mtf_new"
  by (simp add: mtf_ok_def mtf_new_def)

text \<open>
  Decoding an index below \<open>g\<close> permutes the first \<open>g\<close> symbols and returns one of them: what
  keeps the decoded selectors below the number of tables.
\<close>

lemma mtf_decode_prefix:
  assumes "mtf_ok d" "unat n < g" "g \<le> 256" "mtf_decode n d = (b, d')"
  shows "b \<in> set (take g (symbols d))" and "set (take g (symbols d')) = set (take g (symbols d))"
    and "mtf_ok d'" and "drop g (symbols d') = drop g (symbols d)"
proof -
  have len: "length (symbols d) = 256" using assms(1) by (simp add: mtf_ok_def)
  have split: "symbols d = take g (symbols d) @ drop g (symbols d)" by simp
  have i: "unat n < length (take g (symbols d))" using assms len by simp
  have b: "b = symbols d ! unat n" "symbols d' = mtf_step (unat n) (symbols d)"
    using assms(1,4) by (auto simp: mtf_decode_step)
  have d': "symbols d' = mtf_step (unat n) (take g (symbols d)) @ drop g (symbols d)"
    using mtf_step_append [OF i, of "drop g (symbols d)"] b(2) by simp
  show "b \<in> set (take g (symbols d))"
    using i b(1) by (metis nth_mem nth_take assms(2))
  have l: "length (mtf_step (unat n) (take g (symbols d))) = g"
    using i assms(3) len by simp
  show "set (take g (symbols d')) = set (take g (symbols d))"
    unfolding d' using i l by simp
  show "drop g (symbols d') = drop g (symbols d)"
    unfolding d' using l by simp
  show "mtf_ok d'" using mtf_ok_decode [OF assms(1), of n] assms(4) by simp
qed

subsection \<open>The contract of a stateful coder\<close>

fun encode_all :: "('e \<Rightarrow> 's \<Rightarrow> 'c \<times> 'e) \<Rightarrow> 'e \<Rightarrow> 's list \<Rightarrow> 'c list" where
  "encode_all enc e [] = []"
| "encode_all enc e (s # ss) = (let (c, e') = enc e s in c # encode_all enc e' ss)"

fun decode_all :: "('c \<Rightarrow> 'd \<Rightarrow> 's \<times> 'd) \<Rightarrow> 'd \<Rightarrow> 'c list \<Rightarrow> 's list" where
  "decode_all dec d [] = []"
| "decode_all dec d (c # cs) = (let (s, d') = dec c d in s # decode_all dec d' cs)"

locale stateful_codec =
  fixes rel :: "'e \<Rightarrow> 'd \<Rightarrow> bool"
    and codable :: "'e \<Rightarrow> 's \<Rightarrow> bool"
    and enc :: "'e \<Rightarrow> 's \<Rightarrow> 'c \<times> 'e"
    and dec :: "'c \<Rightarrow> 'd \<Rightarrow> 's \<times> 'd"
  assumes dec_enc: "rel e d \<Longrightarrow> codable e s \<Longrightarrow> enc e s = (c, e') \<Longrightarrow> \<exists>d'. dec c d = (s, d') \<and> rel e' d'"
    and codable_step: "codable e s \<Longrightarrow> codable e t \<Longrightarrow> enc e t = (c, e') \<Longrightarrow> codable e' s"
begin

lemma decode_encode_all:
  "rel e d \<Longrightarrow> (\<And>s. s \<in> set ss \<Longrightarrow> codable e s) \<Longrightarrow> decode_all dec d (encode_all enc e ss) = ss"
proof (induction ss arbitrary: e d)
  case Nil
  then show ?case by simp
next
  case (Cons s ss)
  obtain c e' where enc: "enc e s = (c, e')" by force
  with Cons.prems obtain d' where "dec c d = (s, d')" "rel e' d'"
    using dec_enc [of e d s c e'] by auto
  moreover have "decode_all dec d' (encode_all enc e' ss) = ss"
    using Cons.prems enc \<open>rel e' d'\<close> by (intro Cons.IH) (auto intro: codable_step)
  ultimately show ?case using enc by simp
qed

end

text \<open>
  The encoder's table is a list of distinct symbols; the decoder's array starts with the same
  list and is padded, as \<open>decode_block_common\<close> pads it with zeros.
\<close>

definition mtf_rel :: "u8 list \<Rightarrow> mtf_decoder \<Rightarrow> bool" where
  "mtf_rel xs d \<longleftrightarrow> mtf_ok d \<and> distinct xs \<and> length xs \<le> 256 \<and> take (length xs) (symbols d) = xs"

definition mtf_code :: "u8 list \<Rightarrow> u8 \<Rightarrow> u8 \<times> u8 list" where
  "mtf_code xs x = (of_nat (position_of x xs), snd (mtf_encode xs x))"

interpretation mtf: stateful_codec mtf_rel "\<lambda>xs x. x \<in> set xs" mtf_code mtf_decode
proof unfold_locales
  fix e d s c e'
  assume rel: "mtf_rel e d" and s: "s \<in> set e" and code: "mtf_code e s = (c, e')"
  let ?i = "position_of s e"
  have i: "?i < length e" "e ! ?i = s" using position_of_nth [OF s] by auto
  have c: "c = of_nat ?i" and e': "e' = mtf_step ?i e"
    using code by (auto simp: mtf_code_def mtf_encode_def)
  have "unat c = ?i"
    using i rel by (auto simp: c mtf_rel_def intro!: unat_of_nat_small)
  have ok: "mtf_ok d" using rel by (simp add: mtf_rel_def)
  have d: "symbols d = e @ drop (length e) (symbols d)"
    using rel unfolding mtf_rel_def by (metis append_take_drop_id)
  have "symbols d ! ?i = s" using d i by (metis nth_append)
  moreover have "mtf_step ?i (symbols d) = e' @ drop (length e) (symbols d)"
    using mtf_step_append [OF i(1), of "drop (length e) (symbols d)"] d e' by metis
  ultimately have "mtf_decode c d = (s, d\<lparr>symbols := e' @ drop (length e) (symbols d)\<rparr>)"
    using mtf_decode_step [OF ok, of c] \<open>unat c = ?i\<close> by simp
  moreover have "mtf_rel e' (d\<lparr>symbols := e' @ drop (length e) (symbols d)\<rparr>)"
    using rel i by (auto simp: mtf_rel_def mtf_ok_def e')
  ultimately show "\<exists>d'. mtf_decode c d = (s, d') \<and> mtf_rel e' d'" by blast
next
  fix e s t c e'
  assume "s \<in> set e" "t \<in> set e" "mtf_code e t = (c, e')"
  then show "s \<in> set e'"
    using position_of_nth [of t e] by (auto simp: mtf_code_def mtf_encode_def)
qed

subsection \<open>Properties\<close>

text \<open>
  C15. Move-to-front decoding inverts move-to-front encoding: for every table of distinct
  symbols, padded in the array in any way, decoding the encoded indices of a byte sequence
  over the table returns the sequence.
\<close>

theorem mtf_roundtrip:
  assumes "distinct used" "length used + length pad = 256" "set xs \<subseteq> set used"
  shows "decode_all mtf_decode (with_symbols (used @ pad)) (encode_all mtf_code used xs) = xs"
  by (rule mtf.decode_encode_all) (use assms in \<open>auto simp: mtf_rel_def mtf_ok_def with_symbols_def\<close>)

theorem mtf_roundtrip_witness:
  "decode_all mtf_decode (with_symbols ([97, 98, 110] @ replicate 253 0))
     (encode_all mtf_code [97, 98, 110] [98, 97, 110, 97, 110, 97]) = [98, 97, 110, 97, 110, 97]"
  using mtf_roundtrip [of "[97, 98, 110]" "replicate 253 0" "[98, 97, 110, 97, 110, 97]"] by simp

text \<open>
  Each decode step, on any of its three paths, returns the symbol at the index, puts it at
  the front, keeps the order of the others, and permutes the table: nothing is lost or
  duplicated, so the table of 256 symbols stays a table of 256 symbols.
\<close>

theorem mtf_decode_moves_to_front:
  assumes "mtf_ok d"
  shows "mtf_decode n d = (symbols d ! unat n,
           d\<lparr>symbols := symbols d ! unat n # take (unat n) (symbols d) @ drop (unat n + 1) (symbols d)\<rparr>) \<and>
         mset (symbols (snd (mtf_decode n d))) = mset (symbols d) \<and>
         mtf_ok (snd (mtf_decode n d)) \<and> mtf_first (snd (mtf_decode n d)) = fst (mtf_decode n d)"
proof -
  have "unat n < length (symbols d)"
    using assms unat_u8_less [of n] by (simp add: mtf_ok_def)
  then have "mset (symbols (snd (mtf_decode n d))) = mset (symbols d)"
    by (simp add: mtf_decode_step [OF assms] mset_mtf_step)
  with mtf_ok_decode [OF assms, of n] show ?thesis
    by (simp add: mtf_decode_step [OF assms] mtf_step_def mtf_first_def)
qed

theorem mtf_decode_moves_to_front_witness:
  "fst (mtf_decode 5 mtf_new) = 5 \<and> mtf_first (snd (mtf_decode 5 mtf_new)) = 5"
  using mtf_decode_moves_to_front [OF mtf_ok_new, of 5] by (simp add: mtf_new_def mtf_first_def)

end
