(* ===== verification/Inverse_Bwt.thy ===== *)
theory Inverse_Bwt
  imports Bz_Prelude "HOL-Library.Multiset" "HOL-Library.List_Lexorder"
begin

text \<open>
  The inverse Burrows-Wheeler transform of \<^verbatim>\<open>src/src/bwt.rs\<close>: the counting sort that threads
  the next-row index through the upper 24 bits of \<open>tt\<close>, and the extraction of one byte.
  The vector the loop builds is the stable sort of the row numbers by their byte, and
  following it from the row of the original string gives the string back, for the forward
  transform defined by sorting the rotations (equal rotations included).
\<close>

unbundle bit_operations_syntax

subsection \<open>The code\<close>

fun cumulate :: "u32 \<Rightarrow> u32 list \<Rightarrow> u32 list result" where
  "cumulate acc [] = Inr []"
| "cumulate acc (ci # c) =
     bindE (add32 acc ci) (\<lambda>acc'. bindE (cumulate acc' c) (\<lambda>rest. Inr (acc # rest)))"

fun link_rows :: "nat list \<Rightarrow> u32 list \<Rightarrow> u32 list \<Rightarrow> u32 list result" where
  "link_rows [] tt c = Inr tt"
| "link_rows (i # is) tt c =
     bindE (index tt i) (\<lambda>e.
     let b = unat (e AND 0xFF)
     in bindE (index c b) (\<lambda>cb.
        bindE (index tt (unat cb)) (\<lambda>tj.
        bindE (store tt (unat cb) (tj OR push_bit 8 (of_nat i))) (\<lambda>tt'.
        bindE (add32 cb 1) (\<lambda>cb'.
        bindE (store c b cb') (\<lambda>c'.
        link_rows is tt' c'))))))"

definition inverse_bwt :: "u32 list \<Rightarrow> nat \<Rightarrow> u32 list \<Rightarrow> (u32 list \<times> u32) result" where
  "inverse_bwt tt orig_ptr c =
     bindE (cumulate 0 c) (\<lambda>c'.
     bindE (link_rows [0..<length tt] tt c') (\<lambda>tt'.
     bindE (index tt' orig_ptr) (\<lambda>e. Inr (tt', drop_bit 8 e))))"

definition next_byte :: "u32 list \<Rightarrow> u32 \<Rightarrow> (u8 \<times> u32) result" where
  "next_byte tt t_pos = bindE (index tt (unat t_pos)) (\<lambda>e. Inr (ucast e, drop_bit 8 e))"

text \<open>The output loop of the callers: \<open>n\<close> calls of \<open>next_byte\<close>.\<close>

fun next_bytes :: "nat \<Rightarrow> u32 list \<Rightarrow> u32 \<Rightarrow> u8 list result" where
  "next_bytes 0 tt t_pos = Inr []"
| "next_bytes (Suc n) tt t_pos =
     bindE (next_byte tt t_pos) (\<lambda>(b, t). bindE (next_bytes n tt t) (\<lambda>bs. Inr (b # bs)))"

subsection \<open>Packed entries\<close>

definition entry :: "u8 \<Rightarrow> nat \<Rightarrow> u32" where
  "entry b t = ucast b OR push_bit 8 (of_nat t)"

lemma entry_byte [simp]: "ucast (entry b t) = b"
  by (rule bit_word_eqI) (auto simp: entry_def bit_ucast_iff bit_or_iff bit_push_bit_iff)

lemma ucast_byte_back [simp]: "(ucast (ucast (b :: u8) :: u32) :: u8) = b"
  by (rule bit_word_eqI) (auto simp: bit_ucast_iff)

lemma entry_next:
  assumes "t < 2 ^ 24"
  shows "drop_bit 8 (entry b t) = of_nat t"
proof (rule bit_word_eqI)
  fix i :: nat
  assume i: "i < LENGTH(32)"
  have "take_bit 24 (of_nat t :: u32) = of_nat (take_bit 24 t)"
    by (simp add: take_bit_of_nat)
  then have "take_bit 24 (of_nat t :: u32) = of_nat t"
    using assms by (simp add: take_bit_nat_eq_self)
  then have "bit (of_nat t :: u32) i \<Longrightarrow> i < 24"
    by (metis bit_take_bit_iff)
  moreover have "\<not> bit (ucast b :: u32) (8 + i)"
    by (auto simp: bit_ucast_iff dest: bit_imp_le_length)
  ultimately show "bit (drop_bit 8 (entry b t)) i = bit (of_nat t :: u32) i"
    by (auto simp: entry_def bit_drop_bit_eq bit_or_iff bit_push_bit_iff)
qed

lemma unat_entry_next: "t < 2 ^ 24 \<Longrightarrow> unat (drop_bit 8 (entry b t)) = t"
  by (simp add: entry_next unat_of_nat_small)

lemma low_byte_eq: "(e :: u32) AND 0xFF = ucast (ucast e :: u8)"
proof -
  have "e AND 0xFF = take_bit 8 e"
    by (simp add: take_bit_eq_mask mask_eq_exp_minus_1)
  then show ?thesis
    by (auto intro!: bit_word_eqI simp: bit_take_bit_iff bit_ucast_iff)
qed

lemma unat_ucast_byte: "unat (ucast (b :: u8) :: u32) = unat b"
  using unat_u8_less [of b] by (simp add: unsigned_ucast_eq take_bit_nat_eq_self)

lemma unat_low_byte: "unat ((e :: u32) AND 0xFF) = unat (ucast e :: u8)"
  by (simp only: low_byte_eq unat_ucast_byte)

subsection \<open>The stable sort of the row numbers\<close>

definition t_vector :: "u8 list \<Rightarrow> nat list" where
  "t_vector L = sort_key (\<lambda>i. L ! i) [0..<length L]"

text \<open>The place of row \<open>i\<close>: the smaller bytes, then the equal bytes above it.\<close>

definition before :: "u8 list \<Rightarrow> nat \<Rightarrow> nat \<Rightarrow> bool" where
  "before L k i \<longleftrightarrow> L ! k < L ! i \<or> L ! k = L ! i \<and> k < i"

definition bwt_rank :: "u8 list \<Rightarrow> nat \<Rightarrow> nat" where
  "bwt_rank L i = card {k. k < length L \<and> before L k i}"

lemma set_t_vector [simp]: "set (t_vector L) = {0..<length L}"
  by (simp add: t_vector_def)

lemma length_t_vector [simp]: "length (t_vector L) = length L"
  by (simp add: t_vector_def)

lemma distinct_t_vector [simp]: "distinct (t_vector L)"
  by (simp add: t_vector_def)

lemma mset_t_vector: "mset (t_vector L) = mset [0..<length L]"
  by (simp add: t_vector_def)

lemma t_vector_less: "j < length L \<Longrightarrow> t_vector L ! j < length L"
  using nth_mem [of j "t_vector L"] by simp

lemma t_vector_ex: "i < length L \<Longrightarrow> \<exists>j < length L. t_vector L ! j = i"
  by (metis atLeastLessThan_iff in_set_conv_nth le0 length_t_vector set_t_vector)

lemma sorted_wrt_filter_nth:
  assumes "sorted_wrt (<) (filter P xs)" "i < j" "j < length xs" "P (xs ! i)" "P (xs ! j)"
  shows "xs ! i < (xs ! j :: nat)"
proof -
  have "xs = take j xs @ xs ! j # drop (Suc j) xs"
    using assms(3) by (simp add: id_take_nth_drop)
  then have "filter P xs = filter P (take j xs) @ xs ! j # filter P (drop (Suc j) xs)"
    using assms(5) by (metis filter.simps(2) filter_append)
  moreover have "xs ! i \<in> set (filter P (take j xs))"
    using assms by (auto simp: in_set_conv_nth intro!: exI [of _ i])
  ultimately show ?thesis using assms(1) by (auto simp: sorted_wrt_append)
qed

lemma t_vector_before:
  assumes "i < j" "j < length L"
  shows "before L (t_vector L ! i) (t_vector L ! j)"
proof -
  let ?T = "t_vector L"
  have "sorted (map ((!) L) ?T)"
    unfolding t_vector_def by (rule sorted_sort_key)
  then have "L ! (?T ! i) \<le> L ! (?T ! j)"
    using assms sorted_nth_mono [of "map ((!) L) ?T" i j] by simp
  moreover have "?T ! i < ?T ! j" if eq: "L ! (?T ! i) = L ! (?T ! j)"
  proof -
    let ?P = "\<lambda>k. L ! k = L ! (?T ! j)"
    have "filter ?P ?T = filter ?P [0..<length L]"
      using sort_key_stable [of "(!) L" "L ! (?T ! j)" "[0..<length L]"]
      unfolding t_vector_def .
    then have "sorted_wrt (<) (filter ?P ?T)"
      by (simp add: sorted_wrt_filter)
    then show ?thesis using assms eq by (intro sorted_wrt_filter_nth [where P = ?P]) auto
  qed
  ultimately show ?thesis by (auto simp: before_def)
qed

lemma before_asym: "before L k i \<Longrightarrow> \<not> before L i k"
  by (auto simp: before_def)

lemma before_irrefl: "\<not> before L i i"
  by (simp add: before_def)

lemma bwt_rank_t_vector: "j < length L \<Longrightarrow> bwt_rank L (t_vector L ! j) = j"
proof -
  assume j: "j < length L"
  let ?T = "t_vector L"
  have "{k. k < length L \<and> before L k (?T ! j)} = set (take j ?T)"
  proof (intro equalityI subsetI)
    fix k
    assume "k \<in> {k. k < length L \<and> before L k (?T ! j)}"
    then have k: "k < length L" "before L k (?T ! j)" by simp_all
    then obtain i where i: "i < length L" "?T ! i = k" using t_vector_ex by blast
    have "i < j"
      using k i j before_irrefl before_asym t_vector_before [of j i L]
      by (cases i j rule: linorder_cases) auto
    with i j show "k \<in> set (take j ?T)" by (auto simp: in_set_conv_nth intro!: exI [of _ i])
  next
    fix k
    assume "k \<in> set (take j ?T)"
    then obtain i where "i < j" "?T ! i = k" using j by (auto simp: in_set_conv_nth)
    with j t_vector_before [of i j L] t_vector_less [of i L]
    show "k \<in> {k. k < length L \<and> before L k (?T ! j)}" by auto
  qed
  moreover have "card (set (take j ?T)) = j"
    using j by (simp add: distinct_card)
  ultimately show ?thesis by (simp add: bwt_rank_def)
qed

lemma t_vector_bwt_rank:
  assumes "i < length L"
  shows "bwt_rank L i < length L" and "t_vector L ! bwt_rank L i = i"
proof -
  obtain j where "j < length L" "t_vector L ! j = i" using t_vector_ex [OF assms] by blast
  with bwt_rank_t_vector [of j L] show "bwt_rank L i < length L" "t_vector L ! bwt_rank L i = i" by auto
qed

subsection \<open>The counting sort computes it\<close>

definition byte_count :: "u8 list \<Rightarrow> nat \<Rightarrow> nat \<Rightarrow> nat" where
  "byte_count L i b = card {k. k < i \<and> unat (L ! k) = b}"

definition bucket_start :: "u8 list \<Rightarrow> nat \<Rightarrow> nat" where
  "bucket_start L b = card {k. k < length L \<and> unat (L ! k) < b}"

text \<open>The state of the loop before row \<open>i\<close>: the linked entries and the bucket cursors.\<close>

definition tt_at :: "u8 list \<Rightarrow> nat \<Rightarrow> u32 list" where
  "tt_at L i = map (\<lambda>j. if t_vector L ! j < i then entry (L ! j) (t_vector L ! j) else ucast (L ! j)) [0..<length L]"

definition c_at :: "u8 list \<Rightarrow> nat \<Rightarrow> u32 list" where
  "c_at L i = map (\<lambda>b. of_nat (bucket_start L b + byte_count L i b)) [0..<256]"

definition byte_counts :: "u8 list \<Rightarrow> u32 list" where
  "byte_counts L = map (\<lambda>b. of_nat (byte_count L (length L) b)) [0..<256]"

lemma bucket_start_0 [simp]: "bucket_start L 0 = 0"
  by (simp add: bucket_start_def)

lemma bucket_start_Suc: "bucket_start L (Suc b) = bucket_start L b + byte_count L (length L) b"
proof -
  have "{k. k < length L \<and> unat (L ! k) < Suc b} =
      {k. k < length L \<and> unat (L ! k) < b} \<union> {k. k < length L \<and> unat (L ! k) = b}"
    by auto
  then show ?thesis
    by (simp add: bucket_start_def byte_count_def card_Un_disjoint disjoint_iff)
qed

lemma bucket_start_le: "bucket_start L b \<le> length L"
proof -
  have "card {k. k < length L \<and> unat (L ! k) < b} \<le> card {..<length L}"
    by (intro card_mono) auto
  then show ?thesis by (simp add: bucket_start_def)
qed

lemma byte_count_Suc: "byte_count L (Suc i) b = byte_count L i b + (if unat (L ! i) = b then 1 else 0)"
proof -
  have "{k. k < Suc i \<and> unat (L ! k) = b} =
      (if unat (L ! i) = b then insert i {k. k < i \<and> unat (L ! k) = b} else {k. k < i \<and> unat (L ! k) = b})"
    by (auto simp: less_Suc_eq)
  then show ?thesis by (simp add: byte_count_def)
qed

lemma bwt_rank_eq:
  assumes "i < length L"
  shows "bwt_rank L i = bucket_start L (unat (L ! i)) + byte_count L i (unat (L ! i))"
proof -
  have "{k. k < length L \<and> before L k i} =
      {k. k < length L \<and> unat (L ! k) < unat (L ! i)} \<union> {k. k < i \<and> unat (L ! k) = unat (L ! i)}"
    using assms by (auto simp: before_def word_less_nat_alt word_unat_eq_iff)
  then show ?thesis
    by (simp add: bwt_rank_def bucket_start_def byte_count_def card_Un_disjoint disjoint_iff)
qed

lemma cumulate_buckets:
  assumes "length L < 2 ^ 32"
  shows "a \<le> b \<Longrightarrow> cumulate (of_nat (bucket_start L a)) (map (\<lambda>b. of_nat (byte_count L (length L) b)) [a..<b]) =
    Inr (map (\<lambda>b. of_nat (bucket_start L b)) [a..<b])"
proof (induction "b - a" arbitrary: a)
  case 0
  then show ?case by simp
next
  case (Suc n)
  then have less: "a < b" by simp
  have "add32 (of_nat (bucket_start L a)) (of_nat (byte_count L (length L) a)) = Inr (of_nat (bucket_start L (Suc a)))"
    using assms bucket_start_le [of L "Suc a"] by (simp add: add32_of_nat bucket_start_Suc)
  with Suc.hyps(1) [of "Suc a"] Suc.hyps(2) less show ?case
    by (simp add: upt_conv_Cons [OF less])
qed

lemma cumulate_byte_counts: "length L < 2 ^ 32 \<Longrightarrow> cumulate 0 (byte_counts L) = Inr (c_at L 0)"
  using cumulate_buckets [of L 0 256] by (simp add: byte_counts_def c_at_def byte_count_def)

lemma tt_at_0: "tt_at L 0 = map ucast L"
  by (rule nth_equalityI) (simp_all add: tt_at_def)

lemma link_rows_step:
  assumes i: "i < length L" and len: "length L \<le> 2 ^ 24"
  shows "link_rows (i # is) (tt_at L i) (c_at L i) = link_rows is (tt_at L (Suc i)) (c_at L (Suc i))"
proof -
  let ?b = "unat (L ! i)" and ?j = "bwt_rank L i"
  have e: "unat ((tt_at L i ! i) AND 0xFF) = ?b"
    using i by (simp add: unat_low_byte tt_at_def)
  have b: "?b < 256" by (rule unat_u8_less)
  have j: "?j < length L" "t_vector L ! ?j = i" using t_vector_bwt_rank [OF i] .
  have cb: "c_at L i ! ?b = of_nat ?j" using b i by (simp add: c_at_def bwt_rank_eq)
  have uj: "unat (of_nat ?j :: u32) = ?j" using j(1) len by (intro unat_of_nat_small) simp
  have Lj: "L ! ?j = L ! ?j" ..
  have ttj: "tt_at L i ! ?j = ucast (L ! ?j)" using j by (simp add: tt_at_def)
  have tt': "(tt_at L i)[?j := ucast (L ! ?j) OR push_bit 8 (of_nat i)] = tt_at L (Suc i)"
  proof (rule nth_equalityI)
    fix m
    assume "m < length ((tt_at L i)[?j := ucast (L ! ?j) OR push_bit 8 (of_nat i)])"
    then have m: "m < length L" by (simp add: tt_at_def)
    have "t_vector L ! m = i \<longleftrightarrow> m = ?j"
      using m j bwt_rank_t_vector [OF m] by auto
    then show "(tt_at L i)[?j := ucast (L ! ?j) OR push_bit 8 (of_nat i)] ! m = tt_at L (Suc i) ! m"
      using m j by (auto simp: tt_at_def nth_list_update less_Suc_eq entry_def)
  qed (simp add: tt_at_def)
  have add: "add32 (of_nat ?j) 1 = Inr (of_nat (Suc ?j))"
    using add32_of_nat [of ?j 1] j(1) len by simp
  have c': "(c_at L i)[?b := of_nat (Suc ?j)] = c_at L (Suc i)"
  proof (rule nth_equalityI)
    fix m
    assume "m < length ((c_at L i)[?b := of_nat (Suc ?j)])"
    then show "(c_at L i)[?b := of_nat (Suc ?j)] ! m = c_at L (Suc i) ! m"
      using i by (auto simp: c_at_def nth_list_update byte_count_Suc bwt_rank_eq)
  qed (simp add: c_at_def)
  have "length (tt_at L i) = length L" "length (c_at L i) = 256"
    by (simp_all add: tt_at_def c_at_def)
  then show ?thesis
    using i b j(1) by (simp add: Let_def e cb uj ttj tt' add c' del: of_nat_Suc)
qed

lemma link_rows_from:
  assumes "length L \<le> 2 ^ 24" "i \<le> length L"
  shows "link_rows [i..<length L] (tt_at L i) (c_at L i) = Inr (tt_at L (length L))"
  using assms(2)
proof (induction "length L - i" arbitrary: i)
  case 0
  then show ?case by simp
next
  case (Suc n)
  then have "i < length L" by simp
  then show ?case
    using Suc link_rows_step [of i L] assms(1) by (simp add: upt_conv_Cons)
qed

definition linked :: "u8 list \<Rightarrow> u32 list" where
  "linked L = map (\<lambda>j. entry (L ! j) (t_vector L ! j)) [0..<length L]"

lemma length_linked [simp]: "length (linked L) = length L"
  by (simp add: linked_def)

lemma linked_nth: "j < length L \<Longrightarrow> linked L ! j = entry (L ! j) (t_vector L ! j)"
  by (simp add: linked_def)

lemma tt_at_length: "tt_at L (length L) = linked L"
  by (simp add: tt_at_def linked_def t_vector_less)

lemma inverse_bwt_eq:
  assumes "length L \<le> 2 ^ 24" "orig < length L"
  shows "inverse_bwt (map ucast L) orig (byte_counts L) = Inr (linked L, of_nat (t_vector L ! orig))"
proof -
  have "link_rows [0..<length L] (map ucast L) (c_at L 0) = Inr (linked L)"
    using link_rows_from [OF assms(1), of 0] by (simp add: tt_at_0 tt_at_length)
  moreover have "t_vector L ! orig < 2 ^ 24"
    using t_vector_less [OF assms(2)] assms(1) by simp
  ultimately show ?thesis
    using assms by (simp add: inverse_bwt_def cumulate_byte_counts linked_nth entry_next)
qed

subsection \<open>Walking the vector\<close>

fun walk_bytes :: "u8 list \<Rightarrow> nat \<Rightarrow> nat \<Rightarrow> u8 list" where
  "walk_bytes L 0 t = []"
| "walk_bytes L (Suc n) t = L ! t # walk_bytes L n (t_vector L ! t)"

lemma length_walk_bytes [simp]: "length (walk_bytes L n t) = n"
  by (induction n arbitrary: t) auto

lemma next_byte_linked:
  assumes "t < length L" "length L \<le> 2 ^ 24"
  shows "next_byte (linked L) (of_nat t) = Inr (L ! t, of_nat (t_vector L ! t))"
proof -
  have "unat (of_nat t :: u32) = t" using assms by (intro unat_of_nat_small) simp
  moreover have "t_vector L ! t < 2 ^ 24" using t_vector_less [OF assms(1)] assms(2) by simp
  ultimately show ?thesis
    using assms by (simp add: next_byte_def linked_nth entry_next)
qed

lemma next_bytes_linked:
  "t < length L \<Longrightarrow> length L \<le> 2 ^ 24 \<Longrightarrow> next_bytes n (linked L) (of_nat t) = Inr (walk_bytes L n t)"
  by (induction n arbitrary: t) (simp_all add: next_byte_linked t_vector_less)

subsection \<open>The forward transform\<close>

definition rotations :: "'a list \<Rightarrow> 'a list list" where
  "rotations s = map (\<lambda>k. rotate k s) [0..<length s]"

definition bwt_rows :: "u8 list \<Rightarrow> u8 list list" where
  "bwt_rows s = sort (rotations s)"

definition bwt_last :: "u8 list \<Rightarrow> u8 list" where
  "bwt_last s = map last (bwt_rows s)"

definition bwt_index :: "u8 list \<Rightarrow> nat" where
  "bwt_index s = length (takeWhile (\<lambda>r. r \<noteq> s) (bwt_rows s))"

definition ror :: "'a list \<Rightarrow> 'a list" where
  "ror xs = last xs # butlast xs"

lemma length_bwt_rows [simp]: "length (bwt_rows s) = length s"
  by (simp add: bwt_rows_def rotations_def)

lemma length_bwt_last [simp]: "length (bwt_last s) = length s"
  by (simp add: bwt_last_def)

lemma bwt_index:
  assumes "s \<noteq> []"
  shows "bwt_index s < length s" and "bwt_rows s ! bwt_index s = s"
proof -
  have "0 < length s" using assms by simp
  then have "rotate 0 s \<in> set (rotations s)"
    unfolding rotations_def set_map by (intro imageI) auto
  then have "s \<in> set (bwt_rows s)"
    by (simp add: bwt_rows_def)
  then have "takeWhile (\<lambda>r. r \<noteq> s) (bwt_rows s) \<noteq> bwt_rows s"
    by (auto simp: takeWhile_eq_all_conv)
  then have less: "length (takeWhile (\<lambda>r. r \<noteq> s) (bwt_rows s)) < length (bwt_rows s)"
    by (metis length_takeWhile_le le_neq_implies_less take_all_iff order_refl takeWhile_eq_take)
  then show "bwt_index s < length s" by (simp add: bwt_index_def)
  show "bwt_rows s ! bwt_index s = s"
    using nth_length_takeWhile [OF less] by (simp add: bwt_index_def)
qed

lemma row_length: "j < length s \<Longrightarrow> length (bwt_rows s ! j) = length s"
proof -
  assume "j < length s"
  then have "bwt_rows s ! j \<in> set (rotations s)"
    by (metis bwt_rows_def length_bwt_rows nth_mem set_sort)
  then show ?thesis by (auto simp: rotations_def)
qed

lemma ror_rotate1: "xs \<noteq> [] \<Longrightarrow> ror (rotate1 xs) = xs"
  by (cases xs) (auto simp: ror_def)

lemma rotate1_ror: "xs \<noteq> [] \<Longrightarrow> rotate1 (ror xs) = xs"
  by (simp add: ror_def)

lemma mset_ror_rotations:
  assumes "s \<noteq> []"
  shows "image_mset ror (mset (rotations s)) = mset (rotations s)"
proof -
  let ?n = "length s"
  have "map ror (rotations s) = rotate (?n - 1) s # map (\<lambda>k. rotate k s) [0..<?n - 1]"
  proof (rule nth_equalityI)
    fix k
    assume "k < length (map ror (rotations s))"
    then have k: "k < ?n" by (simp add: rotations_def)
    show "map ror (rotations s) ! k = (rotate (?n - 1) s # map (\<lambda>k. rotate k s) [0..<?n - 1]) ! k"
    proof (cases k)
      case 0
      have "rotate1 (rotate (?n - 1) s) = rotate (Suc (?n - 1)) s" by (simp only: rotate_Suc)
      also have "\<dots> = s" using assms by simp
      finally have "rotate1 (rotate (?n - 1) s) = s" .
      then have "ror s = rotate (?n - 1) s"
        using ror_rotate1 [of "rotate (?n - 1) s"] assms by simp
      with 0 k show ?thesis by (simp add: rotations_def)
    next
      case (Suc m)
      then have "[0..<length s - 1] ! m = m" using k by simp
      with Suc show ?thesis using k assms ror_rotate1 [of "rotate m s"]
        by (simp add: rotations_def rotate_Suc)
    qed
  qed (use assms in \<open>simp add: rotations_def\<close>)
  then have "mset (map ror (rotations s)) = mset (map (\<lambda>k. rotate k s) ([0..<?n - 1] @ [?n - 1]))"
    by simp
  also have "[0..<?n - 1] @ [?n - 1] = [0..<?n]"
    using assms by (metis Suc_diff_1 length_greater_0_conv upt_Suc_append zero_le)
  finally show ?thesis by (simp only: mset_map [symmetric] rotations_def)
qed

lemma snoc_le_lex:
  "length xs = length ys \<Longrightarrow> xs @ [a] \<le> ys @ [a] \<Longrightarrow> xs \<le> (ys :: 'a::linorder list)"
proof (induction xs ys rule: list_induct2)
  case (Cons x xs y ys)
  then show ?case by (simp only: append_Cons Cons_le_Cons) blast
qed simp

lemma butlast_le_lex:
  assumes "xs \<le> (ys :: 'a::linorder list)" "length xs = length ys" "last xs = last ys"
  shows "butlast xs \<le> butlast ys"
proof (cases xs rule: rev_cases)
  case Nil
  then show ?thesis by simp
next
  case (snoc us a)
  moreover from snoc assms(2) obtain vs b where "ys = vs @ [b]"
    by (cases ys rule: rev_cases) auto
  ultimately show ?thesis using assms snoc_le_lex [of us vs a] by simp
qed

text \<open>
  Sorting the rows by their last byte, stably, sorts their right rotations; those are the
  rows again, so row \<open>T ! j\<close> is row \<open>j\<close> rotated to the left by one.
\<close>

lemma row_t_vector:
  assumes s: "s \<noteq> []" and j: "j < length s"
  shows "bwt_rows s ! (t_vector (bwt_last s) ! j) = rotate1 (bwt_rows s ! j)"
proof -
  let ?M = "bwt_rows s" and ?L = "bwt_last s" and ?n = "length s"
  let ?T = "t_vector ?L"
  let ?R = "map (\<lambda>i. ror (?M ! i)) ?T"
  have Tn: "?T ! i < ?n" if "i < ?n" for i
    using t_vector_less [of i ?L] that by simp
  have L: "?L ! i = last (?M ! i)" if "i < ?n" for i
    using that by (simp add: bwt_last_def)
  have ne: "?M ! i \<noteq> []" if "i < ?n" for i
    using row_length [OF that] s by auto
  have le: "?M ! i \<le> ?M ! k" if "i \<le> k" "k < ?n" for i k
    using sorted_nth_mono [of ?M i k] that by (simp add: bwt_rows_def rotations_def)
  have "sorted ?R"
    unfolding sorted_iff_nth_mono_less
  proof (intro allI impI)
    fix i k
    assume ik: "i < k" "k < length ?R"
    then have k: "k < ?n" "i < ?n" by simp_all
    have b: "before ?L (?T ! i) (?T ! k)"
      using ik by (intro t_vector_before) simp_all
    show "?R ! i \<le> ?R ! k"
    proof (cases "?L ! (?T ! i) < ?L ! (?T ! k)")
      case True
      then show ?thesis using k Tn by (simp add: ror_def L)
    next
      case False
      with b have "last (?M ! (?T ! i)) = last (?M ! (?T ! k))" "?T ! i < ?T ! k"
        using k Tn by (auto simp: before_def L)
      then show ?thesis
        using k Tn le [of "?T ! i" "?T ! k"] row_length
        by (simp add: ror_def butlast_le_lex)
    qed
  qed
  moreover have "mset ?R = mset (rotations s)"
  proof -
    have "mset ?R = image_mset (\<lambda>i. ror (?M ! i)) (mset ?T)" by simp
    also have "\<dots> = image_mset (\<lambda>i. ror (?M ! i)) (mset [0..<?n])"
      by (simp only: mset_t_vector length_bwt_last)
    also have "\<dots> = image_mset ror (mset (map ((!) ?M) [0..<?n]))"
      by (simp add: multiset.map_comp comp_def)
    also have "map ((!) ?M) [0..<?n] = ?M"
      by (metis length_bwt_rows map_nth)
    finally show ?thesis using mset_ror_rotations [OF s] by (simp add: bwt_rows_def)
  qed
  ultimately have "?M = ?R"
    unfolding bwt_rows_def by (intro properties_for_sort) (simp_all add: bwt_rows_def)
  then have "?M ! j = ror (?M ! (?T ! j))"
    using j by (metis length_bwt_last length_t_vector nth_map)
  then show ?thesis using rotate1_ror [OF ne [OF Tn [OF j]]] by simp
qed

lemma walk_rotations:
  assumes s: "s \<noteq> []"
  shows "t < length s \<Longrightarrow> bwt_rows s ! t = rotate (Suc k) s \<Longrightarrow> k + n \<le> length s \<Longrightarrow>
    walk_bytes (bwt_last s) n t = take n (drop k s)"
proof (induction n arbitrary: t k)
  case 0
  then show ?case by simp
next
  case (Suc n)
  let ?T = "t_vector (bwt_last s)"
  have k: "k < length s" using Suc.prems by simp
  have "last (rotate (Suc k) s) = s ! k"
  proof -
    have "last (rotate1 (rotate k s)) = hd (rotate k s)"
      using s by (metis hd_Cons_tl last_snoc rotate1.simps(2) rotate_is_Nil_conv)
    then show ?thesis using s k by (simp add: hd_rotate_conv_nth)
  qed
  moreover have "bwt_last s ! t = last (bwt_rows s ! t)"
    using Suc.prems by (simp add: bwt_last_def)
  moreover have "bwt_rows s ! (?T ! t) = rotate (Suc (Suc k)) s"
    using row_t_vector [OF s Suc.prems(1)] Suc.prems(2) by simp
  moreover have "?T ! t < length s"
    using t_vector_less [of t "bwt_last s"] Suc.prems by simp
  ultimately show ?case
    using Suc k by (simp add: Cons_nth_drop_Suc [symmetric])
qed

lemma walk_inverts_bwt:
  assumes "s \<noteq> []" "orig < length s" "bwt_rows s ! orig = s"
  shows "walk_bytes (bwt_last s) (length s) (t_vector (bwt_last s) ! orig) = s"
proof -
  have "bwt_rows s ! (t_vector (bwt_last s) ! orig) = rotate (Suc 0) s"
    using row_t_vector [OF assms(1,2)] assms(3) by simp
  moreover have "t_vector (bwt_last s) ! orig < length s"
    using t_vector_less [of orig "bwt_last s"] assms(2) by simp
  ultimately show ?thesis
    using walk_rotations [OF assms(1), of "t_vector (bwt_last s) ! orig" 0 "length s"] by simp
qed

subsection \<open>Properties\<close>

text \<open>
  C16. \<open>inverse_bwt\<close> inverts the Burrows-Wheeler transform. For every non-empty byte string of
  at most \<open>2 ^ 24\<close> bytes (a block has at most 900000), given the last column of its sorted
  rotations, their byte counts and the row of the string itself, the function returns without
  a panic, and reading as many bytes as the string has, from the returned position, gives the
  string. Strings with equal rotations are included.
\<close>

theorem inverse_bwt_roundtrip:
  assumes "s \<noteq> []" "length s \<le> 2 ^ 24" "orig < length s" "bwt_rows s ! orig = s"
  shows "\<exists>tt t. inverse_bwt (map ucast (bwt_last s)) orig (byte_counts (bwt_last s)) = Inr (tt, t) \<and>
    next_bytes (length s) tt t = Inr s"
proof -
  let ?t = "t_vector (bwt_last s) ! orig"
  have "inverse_bwt (map ucast (bwt_last s)) orig (byte_counts (bwt_last s)) = Inr (linked (bwt_last s), of_nat ?t)"
    using assms by (intro inverse_bwt_eq) simp_all
  moreover have "next_bytes (length s) (linked (bwt_last s)) (of_nat ?t) = Inr s"
    using assms next_bytes_linked [of ?t "bwt_last s" "length s"] walk_inverts_bwt [OF assms(1,3,4)]
      t_vector_less [of orig "bwt_last s"] by simp
  ultimately show ?thesis by blast
qed

theorem inverse_bwt_roundtrip_witness:
  "\<exists>tt t. inverse_bwt (map ucast (bwt_last [97, 98, 97, 98])) (bwt_index [97, 98, 97, 98]) (byte_counts (bwt_last [97, 98, 97, 98]))
     = Inr (tt, t) \<and> next_bytes (length [97, 98, 97, 98 :: u8]) tt t = Inr [97, 98, 97, 98]"
  by (rule inverse_bwt_roundtrip) (use bwt_index [of "[97, 98, 97, 98]"] in simp_all)

text \<open>
  The in-place loop is a stable counting sort, for every column of at most \<open>2 ^ 24\<close> bytes,
  not only transforms: entry \<open>j\<close> keeps its own byte in the low 8 bits and gets in the upper 24
  the \<open>j\<close>-th row number of the stable sort of the rows by their byte. No index leaves the
  array, no counter overflows, and the returned position is a row.
\<close>

theorem inverse_bwt_counting_sort:
  assumes "length L \<le> 2 ^ 24" "orig < length L"
  shows "inverse_bwt (map ucast L) orig (byte_counts L) =
           Inr (map (\<lambda>j. entry (L ! j) (sort_key ((!) L) [0..<length L] ! j)) [0..<length L],
                of_nat (sort_key ((!) L) [0..<length L] ! orig)) \<and>
         sort_key ((!) L) [0..<length L] ! orig < length L"
  using inverse_bwt_eq [OF assms] t_vector_less [OF assms(2)]
  by (simp add: linked_def t_vector_def)

theorem inverse_bwt_counting_sort_witness:
  "inverse_bwt (map ucast ([1, 0, 2, 1, 0, 0] :: u8 list)) 3 (byte_counts [1, 0, 2, 1, 0, 0]) =
     Inr (map (\<lambda>j. entry ([1, 0, 2, 1, 0, 0] ! j) ([1, 4, 5, 0, 3, 2] ! j)) [0..<6], 0)"
proof -
  have sort: "sort_key ((!) ([1, 0, 2, 1, 0, 0] :: u8 list)) [0..<6] = [1, 4, 5, 0, 3, 2]"
    by code_simp
  have len: "length ([1, 0, 2, 1, 0, 0] :: u8 list) = 6" by simp
  have "([1, 4, 5, 0, 3, 2] :: nat list) ! 3 = 0" by simp
  with inverse_bwt_counting_sort [of "[1, 0, 2, 1, 0, 0]" 3, unfolded len sort]
  show ?thesis by (simp only: of_nat_0) simp
qed

end
