(* ===== verification/Rle2_Decoder.thy ===== *)
theory Rle2_Decoder
  imports Inverse_Bwt
begin

text \<open>
  The last stage of block decoding, \<open>rle2_decode_alloc\<close> and \<open>rle2_decode_into\<close> of
  \<^verbatim>\<open>src/src/block.rs\<close>: the pointer chase through \<open>tt\<close> and the expansion of the runs (four
  equal bytes are followed by a repeat count). Reads and writes through raw pointers are
  \<open>Undefined\<close> outside the allocation. The expansion is compared with a reference decoder on
  the byte sequence, and the reference decoder with the run-length encoder of the format.

  The output vector of \<open>rle2_decode_alloc\<close> is the list of the bytes written together with its
  capacity; \<open>Vec::with_capacity(c)\<close> allocates \<open>c\<close> bytes, \<open>Vec::reserve\<close> at least doubles.
\<close>

record rle_state =
  written :: "u8 list"
  capacity :: nat
  last_byte :: u8
  has_last :: bool
  byte_repeats :: nat

definition rle_init :: "nat \<Rightarrow> rle_state" where
  "rle_init cap = \<lparr>written = [], capacity = cap, last_byte = 0, has_last = False, byte_repeats = 0\<rparr>"

subsection \<open>The code\<close>

definition raw_read :: "u32 list \<Rightarrow> u32 \<Rightarrow> u32 result" where
  "raw_read tt p = (if unat p < length tt then Inr (tt ! unat p) else Inl (Undefined ''read outside tt''))"

definition vec_reserve :: "nat \<Rightarrow> nat \<Rightarrow> nat \<Rightarrow> nat \<Rightarrow> nat" where
  "vec_reserve min_cap cap len additional = (if additional > cap - len then max min_cap (max (2 * cap) (len + additional)) else cap)"

text \<open>The loop both functions share; the prefetch reads one entry ahead.\<close>

fun chase :: "(u8 \<Rightarrow> 's \<Rightarrow> 's result) \<Rightarrow> nat \<Rightarrow> u32 list \<Rightarrow> u32 \<Rightarrow> 's \<Rightarrow> 's result" where
  "chase step 0 tt t_pos s = Inr s"
| "chase step (Suc n) tt t_pos s =
     bindE (raw_read tt t_pos) (\<lambda>e.
     let b = ucast e; t_pos' = drop_bit 8 e
     in bindE (raw_read tt t_pos') (\<lambda>next_entry.
        bindE (step b s) (\<lambda>s'. chase step n tt t_pos' s')))"

definition next_repeats :: "u8 \<Rightarrow> rle_state \<Rightarrow> nat" where
  "next_repeats b s = (if has_last s \<and> last_byte s = b then byte_repeats s + 1 else 0)"

definition alloc_step :: "u8 \<Rightarrow> rle_state \<Rightarrow> rle_state result" where
  "alloc_step b s =
     (if byte_repeats s = 3
      then let count = unat b;
               cap = (if length (written s) + count > capacity s
                      then vec_reserve 8 (capacity s) (length (written s)) count else capacity s)
           in if length (written s) + count \<le> cap
              then Inr (s\<lparr>written := written s @ replicate count (last_byte s), capacity := cap,
                         byte_repeats := 0, has_last := False\<rparr>)
              else Inl (Undefined ''write outside output'')
      else if length (written s) < capacity s
      then Inr (s\<lparr>written := written s @ [b], byte_repeats := next_repeats b s, last_byte := b, has_last := True\<rparr>)
      else Inl (Undefined ''write outside output''))"

definition into_step :: "u8 \<Rightarrow> rle_state \<Rightarrow> rle_state result" where
  "into_step b s =
     (if byte_repeats s = 3
      then let count = unat b
           in if length (written s) + count \<le> capacity s
              then Inr (s\<lparr>written := written s @ replicate count (last_byte s), byte_repeats := 0, has_last := False\<rparr>)
              else Inl (Panic ''output buffer overflow in RLE2 repeat'')
      else if length (written s) < capacity s
      then Inr (s\<lparr>written := written s @ [b], byte_repeats := next_repeats b s, last_byte := b, has_last := True\<rparr>)
      else Inl (Panic ''output buffer overflow in RLE2''))"

definition rle2_decode_alloc :: "u32 list \<Rightarrow> u32 \<Rightarrow> u8 list result" where
  "rle2_decode_alloc tt t_pos =
     (let n = length tt; out_cap = n + n div 4
      in bindE (chase alloc_step n tt t_pos (rle_init out_cap)) (\<lambda>s. Inr (written s)))"

text \<open>The bytes written to the front of the caller's buffer of \<open>out_cap\<close> bytes.\<close>

definition rle2_decode_into :: "u32 list \<Rightarrow> u32 \<Rightarrow> nat \<Rightarrow> u8 list result" where
  "rle2_decode_into tt t_pos out_cap =
     bindE (chase into_step (length tt) tt t_pos (rle_init out_cap)) (\<lambda>s. Inr (written s))"

subsection \<open>The reference decoder and the encoder of the format\<close>

fun expand_runs :: "nat \<Rightarrow> u8 option \<Rightarrow> u8 list \<Rightarrow> u8 list" where
  "expand_runs r l [] = []"
| "expand_runs r l (b # bs) =
     (if r = 3 then replicate (unat b) (the l) @ expand_runs 0 None bs
      else b # expand_runs (if l = Some b then r + 1 else 0) (Some b) bs)"

abbreviation rle2_spec :: "u8 list \<Rightarrow> u8 list" where
  "rle2_spec \<equiv> expand_runs 0 None"

definition run_length :: "u8 \<Rightarrow> u8 list \<Rightarrow> nat" where
  "run_length x xs = min 258 (length (takeWhile (\<lambda>y. y = x) xs))"

function rle1_encode :: "u8 list \<Rightarrow> u8 list" where
  "rle1_encode [] = []"
| "rle1_encode (x # xs) =
     (let k = run_length x xs
      in (if 3 \<le> k then [x, x, x, x, of_nat (k - 3)] else replicate (Suc k) x) @ rle1_encode (drop k xs))"
  by pat_completeness auto
termination
  by (relation "measure length") (auto simp: less_Suc_eq_le)

lemma run_split:
  "xs = replicate (run_length x xs) x @ drop (run_length x xs) xs"
proof -
  have "k \<le> length a \<Longrightarrow> take k (a @ b) = take k a" for k and a b :: "u8 list"
    by simp
  from this [of "run_length x xs" "takeWhile (\<lambda>y. y = x) xs" "dropWhile (\<lambda>y. y = x) xs"]
  have "take (run_length x xs) xs = take (run_length x xs) (takeWhile (\<lambda>y. y = x) xs)"
    unfolding takeWhile_dropWhile_id by (simp add: run_length_def)
  also have "\<dots> = replicate (run_length x xs) x"
    by (intro replicate_eqI) (auto simp: run_length_def dest: in_set_takeD set_takeWhileD)
  finally show ?thesis by (metis append_take_drop_id)
qed

lemma after_run:
  "run_length x xs < 258 \<Longrightarrow> drop (run_length x xs) xs = [] \<or> hd (drop (run_length x xs) xs) \<noteq> x"
proof -
  assume "run_length x xs < 258"
  then have "drop (run_length x xs) xs = dropWhile (\<lambda>y. y = x) xs"
    by (simp add: run_length_def dropWhile_eq_drop)
  then show ?thesis
    using hd_dropWhile [of "\<lambda>y. y = x" xs] by auto
qed

lemma expand_short_run:
  "k < 3 \<Longrightarrow> r \<noteq> 3 \<Longrightarrow> l \<noteq> Some x \<Longrightarrow> expand_runs r l (replicate (Suc k) x @ ys) = replicate (Suc k) x @ expand_runs k (Some x) ys"
  by (simp add: numeral_3_eq_3 less_Suc_eq) (elim disjE; simp)

lemma expand_long_run:
  "r \<noteq> 3 \<Longrightarrow> l \<noteq> Some x \<Longrightarrow>
   expand_runs r l (x # x # x # x # c # ys) = replicate (4 + unat c) x @ expand_runs 0 None ys"
  by (simp add: numeral_3_eq_3 replicate_add numeral_eq_Suc)

lemma expand_encode:
  "r \<noteq> 3 \<Longrightarrow> xs = [] \<or> l \<noteq> Some (hd xs) \<Longrightarrow> expand_runs r l (rle1_encode xs) = xs"
proof (induction xs arbitrary: r l rule: rle1_encode.induct)
  case 1
  then show ?case by simp
next
  case (2 x xs)
  let ?k = "run_length x xs"
  have k: "?k \<le> 258" by (simp add: run_length_def)
  have xs: "x # xs = replicate (Suc ?k) x @ drop ?k xs"
    using run_split [of xs x] by simp
  show ?case
  proof (cases "3 \<le> ?k")
    case True
    then have "unat (of_nat (?k - 3) :: u8) = ?k - 3"
      using k by (intro unat_of_nat_small) simp
    moreover have "expand_runs 0 None (rle1_encode (drop ?k xs)) = drop ?k xs"
      by (rule "2.IH") simp_all
    moreover from True obtain m where "?k = 3 + m" by (auto simp: le_iff_add)
    then have "replicate (Suc ?k) x = x # x # x # x # replicate (?k - 3) x"
      by (simp add: numeral_3_eq_3)
    ultimately have "expand_runs r l (rle1_encode (x # xs)) = replicate (Suc ?k) x @ drop ?k xs"
      using True "2.prems" by (simp add: expand_long_run Let_def del: replicate_Suc of_nat_diff)
    then show ?thesis by (simp only: xs [symmetric])
  next
    case False
    then have "expand_runs ?k (Some x) (rle1_encode (drop ?k xs)) = drop ?k xs"
      using after_run [of x xs] by (intro "2.IH") auto
    then have "expand_runs r l (rle1_encode (x # xs)) = replicate (Suc ?k) x @ drop ?k xs"
      using False "2.prems" by (simp add: expand_short_run Let_def del: replicate_Suc)
    then show ?thesis by (simp only: xs [symmetric])
  qed
qed

lemma expand_runs_bound:
  "r \<le> 3 \<Longrightarrow> (l = None \<Longrightarrow> r = 0) \<Longrightarrow>
   5 * length (expand_runs r l bs) \<le> 259 * length bs + (case l of None \<Rightarrow> 0 | Some _ \<Rightarrow> 254 * (r + 1))"
proof (induction r l bs rule: expand_runs.induct)
  case (1 r l)
  then show ?case by simp
next
  case (2 r l b bs)
  show ?case
  proof (cases "r = 3")
    case True
    then have "l \<noteq> None" using "2.prems" by auto
    with True "2.IH"(1) unat_u8_less [of b] show ?thesis by (auto split: option.splits)
  next
    case False
    with "2.IH"(2) "2.prems" show ?thesis by (auto split: option.splits)
  qed
qed

lemma expand_runs_nonempty: "bs \<noteq> [] \<Longrightarrow> rle2_spec bs \<noteq> []"
  by (cases bs) auto

subsection \<open>The pointer chase visits the bytes of the string\<close>

fun fold_bytes :: "(u8 \<Rightarrow> 's \<Rightarrow> 's result) \<Rightarrow> 's \<Rightarrow> u8 list \<Rightarrow> 's result" where
  "fold_bytes step s [] = Inr s"
| "fold_bytes step s (b # bs) = bindE (step b s) (\<lambda>s'. fold_bytes step s' bs)"

lemma chase_linked:
  "t < length L \<Longrightarrow> length L \<le> 2 ^ 24 \<Longrightarrow>
   chase step n (linked L) (of_nat t) s = fold_bytes step s (walk_bytes L n t)"
proof (induction n arbitrary: t s)
  case 0
  then show ?case by simp
next
  case (Suc n)
  let ?t = "t_vector L ! t"
  have t: "?t < length L" using Suc.prems by (simp add: t_vector_less)
  have "unat (of_nat t :: u32) = t" "unat (of_nat ?t :: u32) = ?t" "?t < 2 ^ 24"
    using Suc.prems t by (auto intro!: unat_of_nat_small)
  moreover have "chase step n (linked L) (of_nat ?t) = (\<lambda>s'. fold_bytes step s' (walk_bytes L n ?t))"
    by (rule ext) (rule Suc.IH [OF t Suc.prems(2)])
  ultimately show ?case
    using Suc.prems t by (simp add: raw_read_def linked_nth entry_next)
qed

lemma fold_bytes_append:
  "fold_bytes step s (xs @ ys) = bindE (fold_bytes step s xs) (\<lambda>s'. fold_bytes step s' ys)"
  by (induction xs arbitrary: s) (simp_all add: bindE_assoc)

subsection \<open>The run-length state against the reference decoder\<close>

definition rle_rel :: "rle_state \<Rightarrow> nat \<Rightarrow> u8 option \<Rightarrow> bool" where
  "rle_rel s r l \<longleftrightarrow> byte_repeats s = r \<and> l = (if has_last s then Some (last_byte s) else None) \<and>
     (r \<noteq> 0 \<longrightarrow> has_last s)"

lemma rle_rel_init: "rle_rel (rle_init cap) 0 None"
  by (simp add: rle_rel_def rle_init_def)

lemma into_fold:
  "rle_rel s r l \<Longrightarrow> length (written s) \<le> capacity s \<Longrightarrow>
   (if length (written s) + length (expand_runs r l bs) \<le> capacity s
    then \<exists>s'. fold_bytes into_step s bs = Inr s' \<and> written s' = written s @ expand_runs r l bs
    else \<exists>m. fold_bytes into_step s bs = Inl (Panic m))"
proof (induction bs arbitrary: s r l)
  case Nil
  then show ?case by simp
next
  case (Cons b bs)
  show ?case
  proof (cases "r = 3")
    case True
    with Cons.prems have r: "byte_repeats s = 3" "the l = last_byte s" by (auto simp: rle_rel_def)
    let ?s = "s\<lparr>written := written s @ replicate (unat b) (last_byte s), byte_repeats := 0, has_last := False\<rparr>"
    show ?thesis
    proof (cases "length (written s) + unat b \<le> capacity s")
      case fits: True
      then have "into_step b s = Inr ?s" using r by (simp add: into_step_def)
      then show ?thesis
        using True r fits Cons.IH [of ?s 0 None] by (auto simp: rle_rel_def add.assoc split: if_splits)
    next
      case False
      then show ?thesis using True r by (auto simp: into_step_def)
    qed
  next
    case False
    with Cons.prems have r: "byte_repeats s \<noteq> 3" by (simp add: rle_rel_def)
    let ?s = "s\<lparr>written := written s @ [b], byte_repeats := next_repeats b s, last_byte := b, has_last := True\<rparr>"
    let ?r = "if l = Some b then r + 1 else 0"
    have rel: "rle_rel ?s ?r (Some b)"
      using Cons.prems by (auto simp: rle_rel_def next_repeats_def)
    show ?thesis
    proof (cases "length (written s) < capacity s")
      case fits: True
      then have "into_step b s = Inr ?s" using r by (simp add: into_step_def)
      then show ?thesis
        using False fits Cons.IH [OF rel] by (auto split: if_splits)
    next
      case full: False
      then have "into_step b s = Inl (Panic ''output buffer overflow in RLE2'')"
        using r by (simp add: into_step_def)
      then show ?thesis using False full by auto
    qed
  qed
qed

lemma alloc_fold:
  "rle_rel s r l \<Longrightarrow> length (written s) + length (expand_runs r l bs) \<le> capacity s \<Longrightarrow>
   \<exists>s'. fold_bytes alloc_step s bs = Inr s' \<and> written s' = written s @ expand_runs r l bs"
proof (induction bs arbitrary: s r l)
  case Nil
  then show ?case by simp
next
  case (Cons b bs)
  show ?case
  proof (cases "r = 3")
    case True
    with Cons.prems have r: "byte_repeats s = 3" "the l = last_byte s" by (auto simp: rle_rel_def)
    let ?s = "s\<lparr>written := written s @ replicate (unat b) (last_byte s), capacity := capacity s,
      byte_repeats := 0, has_last := False\<rparr>"
    have "alloc_step b s = Inr ?s" using r Cons.prems True by (simp add: alloc_step_def Let_def)
    then show ?thesis
      using True r Cons.prems Cons.IH [of ?s 0 None] by (auto simp: rle_rel_def)
  next
    case False
    with Cons.prems have r: "byte_repeats s \<noteq> 3" by (simp add: rle_rel_def)
    let ?s = "s\<lparr>written := written s @ [b], byte_repeats := next_repeats b s, last_byte := b, has_last := True\<rparr>"
    let ?r = "if l = Some b then r + 1 else 0"
    have rel: "rle_rel ?s ?r (Some b)"
      using Cons.prems by (auto simp: rle_rel_def next_repeats_def)
    have "alloc_step b s = Inr ?s" using r Cons.prems False by (simp add: alloc_step_def)
    then show ?thesis
      using False Cons.prems Cons.IH [OF rel] by auto
  qed
qed

text \<open>Whatever the capacity, a run that ends is right, and one that does not is an overflow.\<close>

lemma alloc_fold_cases:
  "rle_rel s r l \<Longrightarrow>
   (\<exists>s'. fold_bytes alloc_step s bs = Inr s' \<and> written s' = written s @ expand_runs r l bs) \<or>
   fold_bytes alloc_step s bs = Inl (Undefined ''write outside output'')"
proof (induction bs arbitrary: s r l)
  case Nil
  then show ?case by simp
next
  case (Cons b bs)
  show ?case
  proof (cases "alloc_step b s")
    case (Inl e)
    then show ?thesis by (auto simp: alloc_step_def Let_def split: if_splits)
  next
    case (Inr s')
    have "rle_rel s' (if r = 3 then 0 else if l = Some b then r + 1 else 0) (if r = 3 then None else Some b)"
      "written s' = written s @ (if r = 3 then replicate (unat b) (the l) else [b])"
      using Inr Cons.prems by (auto simp: alloc_step_def rle_rel_def next_repeats_def Let_def split: if_splits)
    with Cons.IH [OF this(1)] Inr show ?thesis by (cases "r = 3") auto
  qed
qed

fun no_runs :: "nat \<Rightarrow> u8 option \<Rightarrow> u8 list \<Rightarrow> bool" where
  "no_runs r l [] = True"
| "no_runs r l (b # bs) = (r \<noteq> 3 \<and> no_runs (if l = Some b then r + 1 else 0) (Some b) bs)"

lemma alloc_fold_overflow:
  "rle_rel s r l \<Longrightarrow> no_runs r l bs \<Longrightarrow> capacity s < length (written s) + length bs \<Longrightarrow> bs \<noteq> [] \<Longrightarrow>
   fold_bytes alloc_step s bs = Inl (Undefined ''write outside output'')"
proof (induction bs arbitrary: s r l)
  case Nil
  then show ?case by simp
next
  case (Cons b bs)
  then have r: "byte_repeats s \<noteq> 3" by (simp add: rle_rel_def)
  let ?s = "s\<lparr>written := written s @ [b], byte_repeats := next_repeats b s, last_byte := b, has_last := True\<rparr>"
  have rel: "rle_rel ?s (if l = Some b then r + 1 else 0) (Some b)"
    using Cons.prems by (auto simp: rle_rel_def next_repeats_def)
  show ?case
  proof (cases "length (written s) < capacity s")
    case True
    then have "alloc_step b s = Inr ?s" using r by (simp add: alloc_step_def)
    moreover have "bs \<noteq> []" using True Cons.prems(3) by auto
    ultimately show ?thesis
      using Cons.IH [OF rel] Cons.prems by simp
  next
    case False
    then show ?thesis using r by (simp add: alloc_step_def)
  qed
qed

subsection \<open>The two decoders over a linked vector\<close>

lemma decode_into_walk:
  assumes "t < length L" "length L \<le> 2 ^ 24"
  defines "w \<equiv> walk_bytes L (length L) t"
  shows "if length (rle2_spec w) \<le> cap then rle2_decode_into (linked L) (of_nat t) cap = Inr (rle2_spec w)
    else \<exists>m. rle2_decode_into (linked L) (of_nat t) cap = Inl (Panic m)"
  using into_fold [OF rle_rel_init [of cap], of w] chase_linked [OF assms(1,2), of into_step "length L"]
  by (auto simp: rle2_decode_into_def w_def rle_init_def split: if_splits)

lemma decode_alloc_walk:
  assumes "t < length L" "length L \<le> 2 ^ 24"
  defines "w \<equiv> walk_bytes L (length L) t"
  shows "rle2_decode_alloc (linked L) (of_nat t) =
    bindE (fold_bytes alloc_step (rle_init (length L + length L div 4)) w) (\<lambda>s. Inr (written s))"
  using chase_linked [OF assms(1,2), of alloc_step "length L"]
  by (simp add: rle2_decode_alloc_def w_def Let_def)

lemma decode_alloc_fits:
  assumes "t < length L" "length L \<le> 2 ^ 24"
    and "length (rle2_spec (walk_bytes L (length L) t)) \<le> length L + length L div 4"
  shows "rle2_decode_alloc (linked L) (of_nat t) = Inr (rle2_spec (walk_bytes L (length L) t))"
  using assms alloc_fold [OF rle_rel_init [of "length L + length L div 4"], of "walk_bytes L (length L) t"]
  by (auto simp: decode_alloc_walk rle_init_def)

lemma decode_alloc_cases:
  assumes "t < length L" "length L \<le> 2 ^ 24"
  shows "rle2_decode_alloc (linked L) (of_nat t) = Inr (rle2_spec (walk_bytes L (length L) t)) \<or>
    rle2_decode_alloc (linked L) (of_nat t) = Inl (Undefined ''write outside output'')"
  using assms alloc_fold_cases [OF rle_rel_init [of "length L + length L div 4"], of "walk_bytes L (length L) t"]
  by (auto simp: decode_alloc_walk rle_init_def)

lemma bwt_walk:
  assumes "s \<noteq> []" "length s \<le> 2 ^ 24"
  obtains t where "t < length s"
    "inverse_bwt (map ucast (bwt_last s)) (bwt_index s) (byte_counts (bwt_last s)) = Inr (linked (bwt_last s), of_nat t)"
    "walk_bytes (bwt_last s) (length s) t = s"
proof -
  let ?t = "t_vector (bwt_last s) ! bwt_index s"
  note i = bwt_index [OF assms(1)]
  show thesis
  proof (rule that [of ?t])
    show "?t < length s" using t_vector_less [of "bwt_index s" "bwt_last s"] i by simp
    show "inverse_bwt (map ucast (bwt_last s)) (bwt_index s) (byte_counts (bwt_last s)) = Inr (linked (bwt_last s), of_nat ?t)"
      using assms i by (intro inverse_bwt_eq) simp_all
    show "walk_bytes (bwt_last s) (length s) ?t = s"
      by (rule walk_inverts_bwt [OF assms(1) i])
  qed
qed

subsection \<open>Properties\<close>

text \<open>
  C17. \<open>rle2_decode_into\<close> on the vector \<open>inverse_bwt\<close> builds for any block \<open>s\<close>: every raw read is
  inside \<open>tt\<close>, and the buffer holds the run expansion of \<open>s\<close> exactly when it has room for it;
  otherwise an \<open>assert!\<close> fails, and nothing is written outside the buffer.
\<close>

theorem rle2_decode_into_correct:
  assumes "s \<noteq> []" "length s \<le> 2 ^ 24"
  shows "\<exists>tt t. inverse_bwt (map ucast (bwt_last s)) (bwt_index s) (byte_counts (bwt_last s)) = Inr (tt, t) \<and>
    (if length (rle2_spec s) \<le> out_cap then rle2_decode_into tt t out_cap = Inr (rle2_spec s)
     else \<exists>m. rle2_decode_into tt t out_cap = Inl (Panic m))"
proof -
  obtain t where t: "t < length s"
    "inverse_bwt (map ucast (bwt_last s)) (bwt_index s) (byte_counts (bwt_last s)) = Inr (linked (bwt_last s), of_nat t)"
    "walk_bytes (bwt_last s) (length s) t = s"
    by (rule bwt_walk [OF assms])
  then show ?thesis
    using decode_into_walk [of t "bwt_last s" out_cap] assms(2) by auto
qed

theorem rle2_decode_into_correct_witness:
  "\<exists>tt t. inverse_bwt (map ucast (bwt_last [7, 7, 7, 7, 2])) (bwt_index [7, 7, 7, 7, 2]) (byte_counts (bwt_last [7, 7, 7, 7, 2]))
     = Inr (tt, t) \<and> rle2_decode_into tt t 6 = Inr [7, 7, 7, 7, 7, 7]"
proof -
  have "replicate 2 (7 :: u8) = [7, 7]" by (simp add: numeral_2_eq_2)
  with rle2_decode_into_correct [of "[7, 7, 7, 7, 2]" 6] show ?thesis by simp
qed

text \<open>
  The two last stages invert the two first stages of compression: for any data \<open>d\<close> whose
  run-length encoding fits a block, transforming the encoding and decoding it with
  \<open>inverse_bwt\<close> and \<open>rle2_decode_into\<close> into a buffer with room for \<open>d\<close> gives \<open>d\<close> back.
\<close>

theorem bwt_rle_roundtrip:
  assumes "d \<noteq> []" "length (rle1_encode d) \<le> 2 ^ 24" "length d \<le> out_cap"
  shows "\<exists>tt t. inverse_bwt (map ucast (bwt_last (rle1_encode d))) (bwt_index (rle1_encode d)) (byte_counts (bwt_last (rle1_encode d)))
       = Inr (tt, t) \<and> rle2_decode_into tt t out_cap = Inr d"
proof -
  have spec: "rle2_spec (rle1_encode d) = d"
    by (rule expand_encode) simp_all
  then have "rle1_encode d \<noteq> []" using assms(1) by (metis expand_runs.simps(1))
  then obtain t where t: "t < length (rle1_encode d)"
    "inverse_bwt (map ucast (bwt_last (rle1_encode d))) (bwt_index (rle1_encode d)) (byte_counts (bwt_last (rle1_encode d)))
       = Inr (linked (bwt_last (rle1_encode d)), of_nat t)"
    "walk_bytes (bwt_last (rle1_encode d)) (length (rle1_encode d)) t = rle1_encode d"
    using assms(2) by (elim bwt_walk)
  then show ?thesis
    using decode_into_walk [of t "bwt_last (rle1_encode d)" out_cap] assms spec by auto
qed

theorem bwt_rle_roundtrip_witness:
  "\<exists>tt t. inverse_bwt (map ucast (bwt_last (rle1_encode [1, 2]))) (bwt_index (rle1_encode [1, 2])) (byte_counts (bwt_last (rle1_encode [1, 2])))
       = Inr (tt, t) \<and> rle2_decode_into tt t 2 = Inr [1, 2]"
  by (rule bwt_rle_roundtrip) (simp_all add: run_length_def)

lemma rle2_spec_full_runs: "rle2_spec (concat (replicate k [x, x, x, x, 255])) = replicate (259 * k) x"
proof (induction k)
  case 0
  then show ?case by simp
next
  case (Suc k)
  have "rle2_spec (x # x # x # x # 255 # concat (replicate k [x, x, x, x, 255])) =
      replicate (4 + unat (255 :: u8)) x @ replicate (259 * k) x"
    by (subst expand_long_run) (simp_all add: Suc.IH)
  also have "\<dots> = replicate (259 * Suc k) x"
    by (simp add: replicate_add [symmetric])
  finally show ?case by simp
qed

text \<open>
  Expansion is bounded by 259/5, the ratio of a full run, and by nothing less: \<open>k\<close> encoded
  full runs of five bytes expand to \<open>259 * k\<close> bytes.
\<close>

theorem rle2_expansion_bound:
  "5 * length (rle2_spec bs) \<le> 259 * length bs \<and>
   5 * length (rle2_spec (concat (replicate k [x, x, x, x, 255]))) = 259 * length (concat (replicate k [x, x, x, x, 255]))"
  using expand_runs_bound [of 0 None bs] by (simp add: rle2_spec_full_runs length_concat sum_list_replicate)

text \<open>
  C20. The output buffer \<open>decode_segment\<close> provides, the block size and a quarter, is too small
  for blocks the format allows: \<open>k\<close> full runs in a block of at most \<open>m\<close> bytes fail the
  \<open>assert!\<close> of \<open>rle2_decode_into\<close> as soon as \<open>259 * k\<close> exceeds \<open>m + m div 4\<close>. At level 9 that is
  a block of 21720 bytes.
\<close>

theorem rle2_quarter_headroom_panics:
  fixes x :: u8
  assumes "0 < k" "5 * k \<le> m" "m \<le> 2 ^ 24" "m + m div 4 < 259 * k"
  defines "s \<equiv> concat (replicate k [x, x, x, x, 255])"
  shows "\<exists>tt t msg. inverse_bwt (map ucast (bwt_last s)) (bwt_index s) (byte_counts (bwt_last s)) = Inr (tt, t) \<and>
    rle2_decode_into tt t (m + m div 4) = Inl (Panic msg)"
proof -
  have s: "length s = 5 * k" by (simp add: s_def length_concat sum_list_replicate)
  then have ne: "s \<noteq> []" using assms(1) by auto
  obtain t where t: "t < length s"
    "inverse_bwt (map ucast (bwt_last s)) (bwt_index s) (byte_counts (bwt_last s)) = Inr (linked (bwt_last s), of_nat t)"
    "walk_bytes (bwt_last s) (length s) t = s"
    using ne assms(2,3) s by (elim bwt_walk) simp
  have "length (rle2_spec s) = 259 * k"
    by (simp add: s_def rle2_spec_full_runs)
  with t show ?thesis
    using decode_into_walk [of t "bwt_last s" "m + m div 4"] assms(2-4) s by auto
qed

theorem rle2_quarter_headroom_panics_witness:
  "\<exists>tt t msg. inverse_bwt (map ucast (bwt_last (concat (replicate 4344 [0, 0, 0, 0, 255]))))
       (bwt_index (concat (replicate 4344 [0, 0, 0, 0, 255])))
       (byte_counts (bwt_last (concat (replicate 4344 [0, 0, 0, 0, 255])))) = Inr (tt, t) \<and>
     rle2_decode_into tt t (900000 + 900000 div 4) = Inl (Panic msg)"
  by (rule rle2_quarter_headroom_panics) simp_all

text \<open>
  C19. \<open>rle2_decode_alloc\<close> checks its capacity before a run only, not before a single byte: on a
  block that is one full run of 259 bytes followed by 203 to 1010 bytes without runs, the run
  fits the capacity of \<open>n + n / 4\<close> and the bytes after it are written beyond the allocation.
\<close>

theorem rle2_decode_alloc_overflows:
  fixes x :: u8
  assumes "no_runs 0 None lits" "203 \<le> length lits" "length lits \<le> 1010"
  defines "s \<equiv> [x, x, x, x, 255] @ lits"
  shows "\<exists>tt t. inverse_bwt (map ucast (bwt_last s)) (bwt_index s) (byte_counts (bwt_last s)) = Inr (tt, t) \<and>
    rle2_decode_alloc tt t = Inl (Undefined ''write outside output'')"
proof -
  have n: "length s = 5 + length lits" by (simp add: s_def)
  define cap where "cap = length s + length s div 4"
  have cap: "259 \<le> cap" "cap < 259 + length lits"
    unfolding cap_def n using assms(2,3) by linarith+
  have "s \<noteq> []" "length s \<le> 2 ^ 24" using assms(3) n by auto
  then obtain t where t: "t < length s"
    "inverse_bwt (map ucast (bwt_last s)) (bwt_index s) (byte_counts (bwt_last s)) = Inr (linked (bwt_last s), of_nat t)"
    "walk_bytes (bwt_last s) (length s) t = s"
    by (rule bwt_walk)
  obtain s1 where s1: "fold_bytes alloc_step (rle_init cap) [x, x, x, x, 255] = Inr s1"
    "length (written s1) = 259" "capacity s1 = cap" "rle_rel s1 0 None"
    using cap by (simp add: alloc_step_def rle_init_def next_repeats_def rle_rel_def)
  have "fold_bytes alloc_step s1 lits = Inl (Undefined ''write outside output'')"
    using s1 assms(1,2) cap by (intro alloc_fold_overflow [of s1 0 None]) auto
  with s1(1) have "fold_bytes alloc_step (rle_init cap) s = Inl (Undefined ''write outside output'')"
    unfolding s_def fold_bytes_append by simp
  then have "rle2_decode_alloc (linked (bwt_last s)) (of_nat t) = Inl (Undefined ''write outside output'')"
    using t \<open>length s \<le> 2 ^ 24\<close> by (simp add: decode_alloc_walk cap_def)
  with t(2) show ?thesis by blast
qed

lemma no_runs_alternate: "l \<noteq> Some 1 \<Longrightarrow> r \<noteq> 3 \<Longrightarrow> no_runs r l (concat (replicate k [1, 2]))"
  by (induction k arbitrary: r l) auto

theorem rle2_decode_alloc_overflows_witness:
  "\<exists>tt t. inverse_bwt (map ucast (bwt_last ([0, 0, 0, 0, 255] @ concat (replicate 150 [1, 2]))))
       (bwt_index ([0, 0, 0, 0, 255] @ concat (replicate 150 [1, 2])))
       (byte_counts (bwt_last ([0, 0, 0, 0, 255] @ concat (replicate 150 [1, 2])))) = Inr (tt, t) \<and>
    rle2_decode_alloc tt t = Inl (Undefined ''write outside output'')"
  by (rule rle2_decode_alloc_overflows) (simp_all add: no_runs_alternate length_concat sum_list_replicate)

text \<open>
  Every other outcome of \<open>rle2_decode_alloc\<close> is right: if the block's expansion needs no
  more than a quarter more than the block, the function returns the expansion; in general it
  returns the expansion or has written outside its allocation, and reads nothing outside \<open>tt\<close>.
\<close>

theorem rle2_decode_alloc_correct:
  assumes "s \<noteq> []" "length s \<le> 2 ^ 24"
  shows "\<exists>tt t. inverse_bwt (map ucast (bwt_last s)) (bwt_index s) (byte_counts (bwt_last s)) = Inr (tt, t) \<and>
    (if length (rle2_spec s) \<le> length s + length s div 4 then rle2_decode_alloc tt t = Inr (rle2_spec s)
     else rle2_decode_alloc tt t \<in> {Inr (rle2_spec s), Inl (Undefined ''write outside output'')})"
proof -
  obtain t where t: "t < length s"
    "inverse_bwt (map ucast (bwt_last s)) (bwt_index s) (byte_counts (bwt_last s)) = Inr (linked (bwt_last s), of_nat t)"
    "walk_bytes (bwt_last s) (length s) t = s"
    by (rule bwt_walk [OF assms])
  then show ?thesis
    using decode_alloc_fits [of t "bwt_last s"] decode_alloc_cases [of t "bwt_last s"] assms(2) by auto
qed

theorem rle2_decode_alloc_correct_witness:
  "\<exists>tt t. inverse_bwt (map ucast (bwt_last [98, 97])) (bwt_index [98, 97]) (byte_counts (bwt_last [98, 97])) = Inr (tt, t) \<and>
    rle2_decode_alloc tt t = Inr [98, 97]"
  using rle2_decode_alloc_correct [of "[98, 97]"] by simp

end
