(* ===== verification/Block_Decoder.thy ===== *)
theory Block_Decoder
  imports Huffman_Total Mtf_Decoder Rle2_Decoder
begin

text \<open>
  The block decoder of \<^verbatim>\<open>src/src/block.rs\<close>: the header, the symbol bitmap, the selectors, the
  code lengths, the symbol loop with its run counter, and the final decoding through the
  thread-local buffer. Locals of the function are records, its fixed-size arrays lists; the buffer
  slot is a pair of the vector's items and its capacity.
\<close>

definition MAX_BLOCKSIZE :: nat where "MAX_BLOCKSIZE = 900000"
definition MAX_SELECTORS :: nat where "MAX_SELECTORS = 18002"

type_synonym tt_vec = "u32 list \<times> nat"

record block_tables =
  used_bytes :: "u8 list"
  selectors :: "u8 list"
  n_selectors :: nat
  trees :: "huffman_tree list"
  n_trees :: nat

record block_state =
  tt :: "u32 list"
  counts :: "u32 list"
  mtf_state :: mtf_decoder
  repeat :: u32
  repeat_power :: u32

subsection \<open>The thread-local buffer\<close>

definition take_tt_buffer :: "nat \<Rightarrow> tt_vec \<Rightarrow> tt_vec \<times> tt_vec" where
  "take_tt_buffer cap slot = (([], if snd slot < cap then vec_reserve 4 (snd slot) 0 cap else snd slot), ([], 0))"

definition return_tt_buffer :: "tt_vec \<Rightarrow> tt_vec \<Rightarrow> tt_vec" where
  "return_tt_buffer buffer slot = buffer"

subsection \<open>Header and symbol bitmap\<close>

definition read_header :: "nat reading" where
  "read_header =
     bindR (require ''block CRC truncated'' (read_u32 32)) (\<lambda>crc.
     bindR (require ''randomised flag truncated'' read_bit) (\<lambda>randomised.
     if randomised then failR (BlockError ''randomised blocks not supported'')
     else bindR (require ''orig_ptr truncated'' (read_u32 24)) (\<lambda>p. returnR (unat p))))"

fun read_subs :: "nat \<Rightarrow> nat list \<Rightarrow> u8 list reading" where
  "read_subs range_idx [] = returnR []"
| "read_subs range_idx (sub # subs) =
     bindR (require ''symbol bitmap truncated'' read_bit) (\<lambda>present.
     bindR (read_subs range_idx subs) (\<lambda>bs.
     returnR (if present then (of_nat range_idx * 16 + of_nat sub) # bs else bs)))"

fun read_ranges :: "(nat \<times> bool) list \<Rightarrow> u8 list reading" where
  "read_ranges [] = returnR []"
| "read_ranges ((range_idx, present) # rs) =
     (if \<not> present then read_ranges rs
      else bindR (read_subs range_idx [0..<16]) (\<lambda>bs. bindR (read_ranges rs) (\<lambda>bs'. returnR (bs @ bs'))))"

definition read_used_bytes :: "u8 list reading" where
  "read_used_bytes =
     bindR (repeatR 16 (require ''symbol range truncated'' read_bit)) (\<lambda>ranges_present.
     bindR (read_ranges (zip [0..<16] ranges_present)) (\<lambda>used.
     if used = [] then failR (BlockError ''no symbols in block'') else returnR used))"

subsection \<open>Selectors and code lengths\<close>

definition read_n_groups :: "nat reading" where
  "read_n_groups =
     bindR (require ''huffman groups truncated'' (read_u8 3)) (\<lambda>n.
     if n < 2 \<or> n > 6 then failR (BlockError ''invalid number of huffman groups'') else returnR (unat n))"

definition read_n_selectors :: "nat reading" where
  "read_n_selectors =
     bindR (require ''selectors_used truncated'' (read_u16 15)) (\<lambda>n.
     if unat n > MAX_SELECTORS then failR (BlockError ''too many selectors'') else returnR (unat n))"

function read_selector :: "nat \<Rightarrow> nat \<Rightarrow> bitreader \<Rightarrow> (nat \<times> bitreader) result" where
  "read_selector n_groups t r =
     bindR (require ''selector bit truncated'' read_bit) (\<lambda>b r'.
       if b
       then if t + 1 \<ge> n_groups then Inl (BlockError ''selector tree index too large'')
            else read_selector n_groups (t + 1) r'
       else Inr (t, r')) r"
  by pat_completeness auto
termination
  by (relation "measure (\<lambda>(g, t, r). bits_left r)") (auto simp: result_simps dest!: left_read_bit)

declare read_selector.simps [simp del]

fun read_selectors :: "nat \<Rightarrow> nat \<Rightarrow> mtf_decoder \<Rightarrow> u8 list reading" where
  "read_selectors 0 n_groups sel_mtf = returnR []"
| "read_selectors (Suc n) n_groups sel_mtf =
     bindR (read_selector n_groups 0) (\<lambda>t.
     case mtf_decode (of_nat t) sel_mtf of (sel, sel_mtf') \<Rightarrow>
     bindR (read_selectors n n_groups sel_mtf') (\<lambda>sels. returnR (sel # sels)))"

function read_length :: "int \<Rightarrow> bitreader \<Rightarrow> (int \<times> bitreader) result" where
  "read_length len r =
     (if len < 1 \<or> len > 20 then Inl (BlockError ''huffman code length out of range'')
      else bindR (require ''length adjust bit1 truncated'' read_bit) (\<lambda>b1 r1.
        if \<not> b1 then Inr (len, r1)
        else bindR (require ''length adjust bit2 truncated'' read_bit) (\<lambda>b2 r2.
          read_length (if b2 then len - 1 else len + 1) r2) r1) r)"
  by pat_completeness auto
termination
  by (relation "measure (\<lambda>(l, r). bits_left r)") (auto simp: result_simps dest!: left_read_bit)

declare read_length.simps [simp del]

fun read_lengths :: "nat \<Rightarrow> int \<Rightarrow> u8 list reading" where
  "read_lengths 0 len = returnR []"
| "read_lengths (Suc n) len =
     bindR (read_length len) (\<lambda>l. bindR (read_lengths n l) (\<lambda>ls. returnR (word_of_int l # ls)))"

definition map_block_error :: "string \<Rightarrow> 'a result \<Rightarrow> 'a result" where
  "map_block_error msg m = (case m of Inl (BlockError _) \<Rightarrow> Inl (BlockError msg) | _ \<Rightarrow> m)"

definition read_tree :: "nat \<Rightarrow> huffman_tree reading" where
  "read_tree n_symbols =
     bindR (require ''huffman start length truncated'' (read_u8 5)) (\<lambda>start.
     bindR (read_lengths n_symbols (uint start)) (\<lambda>lengths.
     liftR (map_block_error ''invalid huffman tree'' (from_lengths lengths))))"

definition read_tables :: "block_tables reading" where
  "read_tables =
     bindR read_used_bytes (\<lambda>used.
     bindR read_n_groups (\<lambda>n_groups.
     bindR read_n_selectors (\<lambda>n_sel.
     bindR (read_selectors n_sel n_groups mtf_new) (\<lambda>sels.
     bindR (repeatR n_groups (read_tree (length used + 2))) (\<lambda>ts.
     returnR \<lparr>used_bytes = used, selectors = sels @ replicate (MAX_SELECTORS - n_sel) 0, n_selectors = n_sel,
              trees = ts @ replicate (6 - n_groups) empty_tree, n_trees = n_groups\<rparr>)))))"

subsection \<open>The symbol loop\<close>

definition run_symbol :: "u16 \<Rightarrow> block_state \<Rightarrow> block_state result" where
  "run_symbol sy s =
     (let power = if repeat s = 0 then 1 else repeat_power s
      in bindE (add32 (repeat s) (push_bit (unat sy) power)) (\<lambda>rep.
         if unat rep > MAX_BLOCKSIZE then Inl (BlockError ''repeat count too large'')
         else Inr (s\<lparr>repeat := rep, repeat_power := push_bit 1 power\<rparr>)))"

definition count_byte :: "u8 \<Rightarrow> u32 \<Rightarrow> u32 list \<Rightarrow> u32 list result" where
  "count_byte b n c = bindE (index c (unat b)) (\<lambda>cb. bindE (add32 cb n) (\<lambda>cb'. store c (unat b) cb'))"

definition flush_run :: "nat \<Rightarrow> block_state \<Rightarrow> block_state result" where
  "flush_run max_blocksize s =
     (if repeat s > 0
      then let b = mtf_first (mtf_state s)
           in if length (tt s) + unat (repeat s) > max_blocksize then Inl (BlockError ''data exceeds block size'')
              else bindE (count_byte b (repeat s) (counts s)) (\<lambda>c.
                   Inr (s\<lparr>tt := tt s @ replicate (unat (repeat s)) (ucast b), counts := c, repeat := 0\<rparr>))
      else Inr s)"

definition byte_symbol :: "nat \<Rightarrow> u16 \<Rightarrow> block_state \<Rightarrow> block_state result" where
  "byte_symbol max_blocksize sy s =
     (case mtf_decode (ucast (sy - 1)) (mtf_state s) of (b, mtf') \<Rightarrow>
      if length (tt s) \<ge> max_blocksize then Inl (BlockError ''data exceeds block size'')
      else bindE (count_byte b 1 (counts s)) (\<lambda>c.
           Inr (s\<lparr>tt := tt s @ [ucast b], counts := c, mtf_state := mtf'\<rparr>)))"

text \<open>One symbol; the flag tells whether it was the end of the block.\<close>

definition symbol_step :: "nat \<Rightarrow> u16 \<Rightarrow> u16 \<Rightarrow> block_state \<Rightarrow> (bool \<times> block_state) result" where
  "symbol_step max_blocksize eob sy s =
     (if sy < 2 then bindE (run_symbol sy s) (\<lambda>s'. Inr (False, s'))
      else bindE (flush_run max_blocksize s) (\<lambda>s'.
           if sy = eob then Inr (True, s')
           else bindE (byte_symbol max_blocksize sy s') (\<lambda>s''. Inr (False, s''))))"

definition eob_symbol :: "block_tables \<Rightarrow> u16" where
  "eob_symbol bt = of_nat (length (used_bytes bt) + 1)"

definition next_tree :: "block_tables \<Rightarrow> nat \<Rightarrow> huffman_tree result" where
  "next_tree bt sel_idx =
     (if sel_idx \<ge> n_selectors bt then Inl (BlockError ''ran out of selectors'')
      else bindE (index (selectors bt) sel_idx) (\<lambda>sel.
           if unat sel \<ge> n_trees bt then Inl (BlockError ''selector out of range'')
           else index (trees bt) (unat sel)))"

text \<open>\<open>left\<close> symbols remain of the current group of 50.\<close>

function symbol_loop ::
  "block_tables \<Rightarrow> nat \<Rightarrow> nat \<Rightarrow> nat \<Rightarrow> huffman_tree \<Rightarrow> block_state \<Rightarrow> bitreader \<Rightarrow> (block_state \<times> bitreader) result" where
  "symbol_loop bt max_blocksize left sel_idx tree s r =
     (if left = 0
      then bindE (next_tree bt (sel_idx + 1)) (\<lambda>tree'. symbol_loop bt max_blocksize 50 (sel_idx + 1) tree' s r)
      else bindR (require ''huffman bitstream truncated'' (decode tree)) (\<lambda>sy r'.
             bindE (symbol_step max_blocksize (eob_symbol bt) sy s) (\<lambda>(finished, s').
             if finished then Inr (s', r')
             else symbol_loop bt max_blocksize (left - 1) sel_idx tree s' r')) r)"
  by pat_completeness auto
termination
  by (relation "measures [\<lambda>(bt, m, left, i, t, s, r). bits_left r, \<lambda>(bt, m, left, i, t, s, r). if left = 0 then 1 else 0]")
    (auto simp: result_simps dest!: left_decode)

declare symbol_loop.simps [simp del]

subsection \<open>Decoding a block\<close>

definition start_state :: "block_tables \<Rightarrow> u32 list \<Rightarrow> block_state" where
  "start_state bt tt0 =
     \<lparr>tt = tt0, counts = replicate 256 0,
      mtf_state = with_symbols (used_bytes bt @ replicate (256 - length (used_bytes bt)) 0),
      repeat = 0, repeat_power = 0\<rparr>"

definition decode_block_common :: "tt_vec \<Rightarrow> nat \<Rightarrow> (u32 list \<times> u32) reading" where
  "decode_block_common slot max_blocksize =
     bindR read_header (\<lambda>orig_ptr.
     bindR read_tables (\<lambda>bt.
     bindR (liftR (bindE (index (selectors bt) 0) (\<lambda>sel. index (trees bt) (unat sel)))) (\<lambda>tree.
     bindR (symbol_loop bt max_blocksize 50 0 tree (start_state bt (fst (fst (take_tt_buffer max_blocksize slot))))) (\<lambda>s.
     if orig_ptr \<ge> length (tt s) then failR (BlockError ''orig_ptr out of bounds'')
     else liftR (inverse_bwt (tt s) orig_ptr (counts s))))))"

text \<open>The decoders with the slot they find and the slot they leave.\<close>

definition decode_block_slot :: "tt_vec \<Rightarrow> nat \<Rightarrow> (u8 list \<times> tt_vec) reading" where
  "decode_block_slot slot max_blocksize =
     bindR (decode_block_common slot max_blocksize) (\<lambda>(tt, t_pos).
     bindR (liftR (rle2_decode_alloc tt t_pos)) (\<lambda>out.
     returnR (out, return_tt_buffer (tt, snd (fst (take_tt_buffer max_blocksize slot))) (snd (take_tt_buffer max_blocksize slot)))))"

definition decode_block_into_slot :: "tt_vec \<Rightarrow> nat \<Rightarrow> nat \<Rightarrow> (u8 list \<times> tt_vec) reading" where
  "decode_block_into_slot slot max_blocksize out_cap =
     bindR (decode_block_common slot max_blocksize) (\<lambda>(tt, t_pos).
     bindR (liftR (rle2_decode_into tt t_pos out_cap)) (\<lambda>out.
     returnR (out, return_tt_buffer (tt, snd (fst (take_tt_buffer max_blocksize slot))) (snd (take_tt_buffer max_blocksize slot)))))"

text \<open>What the callers see of them, on a fresh thread.\<close>

definition decode_block :: "nat \<Rightarrow> u8 list reading" where
  "decode_block max_blocksize = bindR (decode_block_slot ([], 0) max_blocksize) (\<lambda>(out, slot). returnR out)"

definition decode_block_into :: "nat \<Rightarrow> nat \<Rightarrow> u8 list reading" where
  "decode_block_into max_blocksize out_cap =
     bindR (decode_block_into_slot ([], 0) max_blocksize out_cap) (\<lambda>(out, slot). returnR out)"

end
