(* ===== verification/Block_Safety.thy ===== *)
theory Block_Safety
  imports Block_Decoder
begin

text \<open>
  What the block decoder does on any input: which faults it can raise, and what a
  decoded block satisfies.
\<close>

definition block_fault :: "fault \<Rightarrow> bool" where
  "block_fault e \<longleftrightarrow> (\<exists>m. e = BlockError m)"

lemma block_fault_error [simp]: "block_fault (BlockError m)"
  by (simp add: block_fault_def)

lemmas runs_return0 = runs_returnR [of _ _ _ block_fault]
lemmas runs_bind0 = runs_bindR [where ?d1.0 = 0 and ?d2.0 = 0 and d = 0 and E = block_fault]
lemmas runs_bind1 = runs_bindR [where ?d1.0 = 1 and ?d2.0 = 0 and d = 1 and E = block_fault]

lemma runs_bit0: "runs n 0 block_fault (\<lambda>_. True) (require msg read_bit)"
  by (rule runs_weaken [OF runs_bit]) auto

lemma runs_field0:
  assumes "0 < k" "k \<le> LENGTH('a::len)" "LENGTH('a) \<le> 57"
  shows "runs n 0 block_fault (\<lambda>v. unat v < 2 ^ k) (require msg (read_uint LENGTH('a) k :: 'a word option reading))"
  by (rule runs_weaken [OF runs_field [of block_fault]]) (use assms in auto)

lemma runs_u8: "0 < k \<Longrightarrow> k \<le> 8 \<Longrightarrow> runs n 0 block_fault (\<lambda>v. unat v < 2 ^ k) (require msg (read_u8 k))"
  using runs_field0 [where 'a = 8, of k n msg] by (simp add: read_u8_def [abs_def])

lemma runs_u16: "0 < k \<Longrightarrow> k \<le> 16 \<Longrightarrow> runs n 0 block_fault (\<lambda>v. unat v < 2 ^ k) (require msg (read_u16 k))"
  using runs_field0 [where 'a = 16, of k n msg] by (simp add: read_u16_def [abs_def])

lemma runs_u32: "0 < k \<Longrightarrow> k \<le> 32 \<Longrightarrow> runs n 0 block_fault (\<lambda>v. unat v < 2 ^ k) (require msg (read_u32 k))"
  using runs_field0 [where 'a = 32, of k n msg] by (simp add: read_u32_def [abs_def])

subsection \<open>The tables\<close>

lemma runs_header: "runs n 0 block_fault (\<lambda>p. p < 2 ^ 24) read_header"
  unfolding read_header_def
  by (rule runs_bind0 [OF runs_u32], simp, simp, rule runs_bind0 [OF runs_bit0])
    (auto intro!: runs_failR runs_bind0 [OF runs_u32] runs_returnR)

lemma runs_subs: "runs n 0 block_fault (\<lambda>bs. length bs \<le> length subs) (read_subs i subs)"
proof (induction subs arbitrary: n)
  case Nil
  have "read_subs i [] = returnR []" by (rule ext) simp
  then show ?case by (simp add: runs_returnR)
next
  case (Cons sub subs)
  have eq: "read_subs i (sub # subs) = bindR (require ''symbol bitmap truncated'' read_bit) (\<lambda>present.
     bindR (read_subs i subs) (\<lambda>bs. returnR (if present then (of_nat i * 16 + of_nat sub) # bs else bs)))"
    by (rule ext) simp
  show ?case unfolding eq
    by (rule runs_bind0 [OF runs_bit0], rule runs_bind0 [OF Cons.IH]) (auto intro!: runs_returnR)
qed

lemma runs_ranges: "runs n 0 block_fault (\<lambda>bs. length bs \<le> 16 * length rs) (read_ranges rs)"
proof (induction rs arbitrary: n)
  case Nil
  have "read_ranges [] = returnR []" by (rule ext) simp
  then show ?case by (simp add: runs_returnR)
next
  case (Cons a rs)
  obtain i present where a: "a = (i, present)" by (cases a)
  have eq: "read_ranges (a # rs) = (if \<not> present then read_ranges rs
      else bindR (read_subs i [0..<16]) (\<lambda>bs. bindR (read_ranges rs) (\<lambda>bs'. returnR (bs @ bs'))))"
    by (rule ext) (simp add: a)
  show ?case
  proof (cases present)
    case True
    then show ?thesis unfolding eq
      by simp (rule runs_bind0 [OF runs_subs], rule runs_bind0 [OF Cons.IH], auto intro!: runs_returnR)
  next
    case False
    then show ?thesis unfolding eq by simp (rule runs_weaken [OF Cons.IH], auto)
  qed
qed

lemma runs_used_bytes: "runs n 0 block_fault (\<lambda>bs. bs \<noteq> [] \<and> length bs \<le> 256) read_used_bytes"
  unfolding read_used_bytes_def
  by (rule runs_bind0 [OF runs_repeatR [OF runs_bit0]], rule runs_bind0 [OF runs_ranges])
    (auto intro!: runs_failR runs_returnR)

lemma runs_n_groups: "runs n 0 block_fault (\<lambda>g. 2 \<le> g \<and> g \<le> 6) read_n_groups"
  unfolding read_n_groups_def
  by (rule runs_bind0 [OF runs_u8]) (auto intro!: runs_failR runs_returnR simp: word_less_nat_alt not_less)

lemma runs_n_selectors: "runs n 0 block_fault (\<lambda>k. k \<le> MAX_SELECTORS) read_n_selectors"
  unfolding read_n_selectors_def
  by (rule runs_bind0 [OF runs_u16]) (auto intro!: runs_failR runs_returnR simp: not_less)

lemma read_selector_eq:
  "read_selector g t = bindR (require ''selector bit truncated'' read_bit) (\<lambda>b.
     if b then if t + 1 \<ge> g then failR (BlockError ''selector tree index too large'') else read_selector g (t + 1)
     else returnR t)"
  by (rule ext, subst read_selector.simps, rule bindR_cong) (auto simp: reading_simps)

lemma runs_selector: "t < g \<Longrightarrow> runs n 1 block_fault (\<lambda>t. t < g) (read_selector g t)"
proof (induction n arbitrary: t rule: less_induct)
  case (less n)
  show ?case
  proof (subst read_selector_eq, rule runs_bind1 [OF runs_bit])
    fix b assume n: "1 \<le> n"
    show "runs (n - 1) 0 block_fault (\<lambda>t. t < g)
       (if b then if t + 1 \<ge> g then failR (BlockError ''selector tree index too large'') else read_selector g (t + 1) else returnR t)"
    proof (cases "b \<and> t + 1 < g")
      case True
      then have "runs (n - 1) 1 block_fault (\<lambda>t. t < g) (read_selector g (t + 1))" using less.IH n by simp
      then show ?thesis using True by (simp add: runs_weaken)
    next
      case False
      then show ?thesis using less.prems by (auto intro!: runs_failR runs_returnR)
    qed
  qed simp_all
qed

lemma runs_selectors:
  assumes "mtf_ok d" "\<forall>s\<in>set (take g (symbols d)). unat s < g" "g \<le> 6" "0 < g"
  shows "runs n 0 block_fault (\<lambda>ss. length ss = k \<and> (\<forall>s\<in>set ss. unat s < g)) (read_selectors k g d)"
  using assms(1,2)
proof (induction k arbitrary: n d)
  case 0
  have "read_selectors 0 g d = returnR []" by (rule ext) simp
  then show ?case by (simp add: runs_returnR)
next
  case (Suc k)
  have eq: "read_selectors (Suc k) g d = bindR (read_selector g 0) (\<lambda>t.
     case mtf_decode (of_nat t) d of (sel, d') \<Rightarrow> bindR (read_selectors k g d') (\<lambda>sels. returnR (sel # sels)))"
    by (rule ext) simp
  have sel: "runs n 0 block_fault (\<lambda>t. t < g) (read_selector g 0)"
    using runs_selector [OF assms(4)] by (rule runs_weaken) auto
  show ?case unfolding eq
  proof (rule runs_bind0 [OF sel])
    fix t assume t: "t < g"
    obtain b d' where d': "mtf_decode (of_nat t) d = (b, d')" by (cases "mtf_decode (of_nat t) d")
    have "unat (of_nat t :: u8) < g" "g \<le> 256" using t assms(3) by (simp_all add: unat_of_nat_small)
    note pre = mtf_decode_prefix [OF Suc.prems(1) this d']
    have "unat b < g" "\<forall>s\<in>set (take g (symbols d')). unat s < g" using pre(1,2) Suc.prems(2) by auto
    with Suc.IH [OF pre(3)] show "runs (n - 0) 0 block_fault (\<lambda>ss. length ss = Suc k \<and> (\<forall>s\<in>set ss. unat s < g))
       (case mtf_decode (of_nat t) d of (sel, d') \<Rightarrow> bindR (read_selectors k g d') (\<lambda>sels. returnR (sel # sels)))"
      unfolding d' by (auto intro!: runs_bind0 runs_returnR)
  qed simp
qed

lemma read_length_eq:
  "read_length len = (if len < 1 \<or> len > 20 then failR (BlockError ''huffman code length out of range'')
     else bindR (require ''length adjust bit1 truncated'' read_bit) (\<lambda>b1.
       if \<not> b1 then returnR len
       else bindR (require ''length adjust bit2 truncated'' read_bit) (\<lambda>b2. read_length (if b2 then len - 1 else len + 1))))"
  by (rule ext, subst read_length.simps) (auto intro!: bindR_cong simp: reading_simps)

lemma runs_length: "runs n 1 block_fault (\<lambda>l. 1 \<le> l \<and> l \<le> 20) (read_length len)"
proof (induction n arbitrary: len rule: less_induct)
  case (less n)
  show ?case
  proof (cases "len < 1 \<or> len > 20")
    case True
    then show ?thesis by (subst read_length_eq) (simp add: runs_failR)
  next
    case False
    have "runs n 1 block_fault (\<lambda>l. 1 \<le> l \<and> l \<le> 20) (bindR (require ''length adjust bit1 truncated'' read_bit) (\<lambda>b1.
       if \<not> b1 then returnR len
       else bindR (require ''length adjust bit2 truncated'' read_bit) (\<lambda>b2. read_length (if b2 then len - 1 else len + 1))))"
    proof (rule runs_bind1 [OF runs_bit])
      fix b1 assume n: "1 \<le> n"
      have "runs (n - 1) 0 block_fault (\<lambda>l. 1 \<le> l \<and> l \<le> 20)
          (bindR (require ''length adjust bit2 truncated'' read_bit) (\<lambda>b2. read_length (if b2 then len - 1 else len + 1)))"
        by (rule runs_bind0 [OF runs_bit0], rule runs_weaken [OF less.IH]) (use n in auto)
      then show "runs (n - 1) 0 block_fault (\<lambda>l. 1 \<le> l \<and> l \<le> 20) (if \<not> b1 then returnR len
         else bindR (require ''length adjust bit2 truncated'' read_bit) (\<lambda>b2. read_length (if b2 then len - 1 else len + 1)))"
        using False by (cases b1) (simp_all add: runs_returnR)
    qed simp_all
    with False show ?thesis by (subst read_length_eq) simp
  qed
qed

lemma runs_lengths:
  "runs n 0 block_fault (\<lambda>ls. length ls = k \<and> (\<forall>l\<in>set ls. 1 \<le> unat l \<and> unat l \<le> max_len)) (read_lengths k len)"
proof (induction k arbitrary: n len)
  case 0
  have "read_lengths 0 len = returnR []" by (rule ext) simp
  then show ?case by (simp add: runs_returnR)
next
  case (Suc k)
  have eq: "read_lengths (Suc k) len = bindR (read_length len) (\<lambda>l. bindR (read_lengths k l) (\<lambda>ls. returnR (word_of_int l # ls)))"
    by (rule ext) simp
  have one: "runs n 0 block_fault (\<lambda>l. 1 \<le> l \<and> l \<le> 20) (read_length len)"
    using runs_length by (rule runs_weaken) auto
  show ?case unfolding eq
  proof (rule runs_bind0 [OF one], rule runs_bind0 [OF Suc.IH])
    fix l ls assume l: "1 \<le> l \<and> l \<le> (20 :: int)" and ls: "length ls = k \<and> (\<forall>l\<in>set ls. 1 \<le> unat l \<and> unat (l :: u8) \<le> max_len)"
    obtain j where "l = int j" using l nonneg_int_cases [of l] by auto
    then have "unat (word_of_int l :: u8) = nat l" using l by (simp add: unat_of_nat_small)
    with l ls show "runs (n - 0 - 0) 0 block_fault (\<lambda>ls. length ls = Suc k \<and> (\<forall>l\<in>set ls. 1 \<le> unat l \<and> unat l \<le> max_len)) (returnR (word_of_int l # ls))"
      by (auto intro!: runs_returnR simp: max_len_def)
  qed simp_all
qed

text \<open>The code lengths of a table, and all that a block holds up to those of its table \<open>i\<close>.\<close>

definition code_lengths :: "nat \<Rightarrow> u8 list reading" where
  "code_lengths n_symbols =
     bindR (require ''huffman start length truncated'' (read_u8 5)) (\<lambda>start. read_lengths n_symbols (uint start))"

definition table_lengths :: "nat \<Rightarrow> u8 list reading" where
  "table_lengths i =
     bindR read_header (\<lambda>orig_ptr. bindR read_used_bytes (\<lambda>used. bindR read_n_groups (\<lambda>n_groups. bindR read_n_selectors (\<lambda>n_sel.
     bindR (read_selectors n_sel n_groups mtf_new) (\<lambda>ss.
     if i < n_groups then bindR (repeatR i (code_lengths (length used + 2))) (\<lambda>ls. code_lengths (length used + 2))
     else failR (BlockError ''no such table''))))))"

lemma bindR_assoc: "bindR (bindR m k) h = bindR m (\<lambda>x. bindR (k x) h)"
proof
  show "bindR (bindR m k) h r = bindR m (\<lambda>x. bindR (k x) h) r" for r
    by (cases "m r") (auto simp: bindR_def)
qed

lemma read_tree_eq:
  "read_tree k = bindR (code_lengths k) (\<lambda>lengths. liftR (map_block_error ''invalid huffman tree'' (from_lengths lengths)))"
  by (simp add: read_tree_def code_lengths_def bindR_assoc)

definition lengths_ok :: "nat \<Rightarrow> u8 list \<Rightarrow> bool" where
  "lengths_ok k ls \<longleftrightarrow> length ls = k \<and> (\<forall>l\<in>set ls. 1 \<le> unat l \<and> unat l \<le> max_len)"

lemma runs_code_lengths: "runs n 0 block_fault (lengths_ok k) (code_lengths k)"
  unfolding code_lengths_def lengths_ok_def [abs_def] by (rule runs_bind0 [OF runs_u8], simp, simp, rule runs_lengths) simp

text \<open>The only fault besides an error value is the panic of a table.\<close>

definition table_fault :: "fault \<Rightarrow> bool" where
  "table_fault e \<longleftrightarrow> block_fault e \<or> (\<exists>m. e = Panic m)"

lemma runs_no_panic: "runs n d block_fault Q m \<Longrightarrow> runs n d table_fault Q m"
  by (erule runs_weaken) (simp_all add: table_fault_def)

lemma tree_fault:
  assumes "lengths_ok k ls" "0 < k" "k \<le> 258" "map_block_error msg (from_lengths ls) = Inl e"
  shows "block_fault e \<or> (\<exists>m. e = Panic m) \<and> from_lengths ls = Inl e \<and> over_subscribed ls"
proof -
  from assms(1-3) from_lengths_fault [of ls] have "from_lengths ls = Inl f \<Longrightarrow> over_subscribed ls \<and> (\<forall>m. f \<noteq> Undefined m)" for f
    by (cases ls) (auto simp: lengths_ok_def)
  with assms(4) show ?thesis
    by (auto simp: map_block_error_def split: sum.splits fault.splits)
qed

lemma runs_tree:
  assumes "0 < k" "k \<le> 258"
  shows "runs n 0 table_fault (\<lambda>t. tree_sane t k) (read_tree k)"
  unfolding read_tree_eq
proof (rule runs_bindR [where ?d1.0 = 0 and ?d2.0 = 0, OF runs_no_panic [OF runs_code_lengths]], rule runs_liftR)
  fix ls e assume "lengths_ok k ls" "map_block_error ''invalid huffman tree'' (from_lengths ls) = Inl e"
  from tree_fault [OF this(1) assms this(2)] show "table_fault e" by (auto simp: table_fault_def)
next
  fix ls t assume ls: "lengths_ok k ls" and t: "map_block_error ''invalid huffman tree'' (from_lengths ls) = Inr t"
  then have "from_lengths ls = Inr t" by (auto simp: map_block_error_def split: sum.splits fault.splits)
  from from_lengths_sane [OF this] ls assms show "tree_sane t k" by (simp add: lengths_ok_def)
qed simp_all

definition tables_ok :: "block_tables \<Rightarrow> bool" where
  "tables_ok bt \<longleftrightarrow> used_bytes bt \<noteq> [] \<and> length (used_bytes bt) \<le> 256 \<and> length (selectors bt) = MAX_SELECTORS \<and>
     n_selectors bt \<le> MAX_SELECTORS \<and> (\<forall>s\<in>set (selectors bt). unat s < n_trees bt) \<and> 2 \<le> n_trees bt \<and> n_trees bt \<le> 6 \<and>
     length (trees bt) = 6 \<and> (\<forall>t\<in>set (trees bt). tree_sane t (length (used_bytes bt) + 2))"

lemma first_selectors:
  assumes "2 \<le> g" "g \<le> 6"
  shows "runs n 0 block_fault (\<lambda>ss. length ss = k \<and> (\<forall>s\<in>set ss. unat s < g)) (read_selectors k g mtf_new)"
proof -
  have "\<forall>s\<in>set (take g (symbols mtf_new)). unat s < g"
    using assms by (auto simp: mtf_new_def take_map unat_of_nat_small)
  then show ?thesis using assms by (intro runs_selectors) auto
qed

lemmas runs_tbind = runs_bindR [where ?d1.0 = 0 and ?d2.0 = 0 and d = 0 and E = table_fault]

lemma runs_tables: "runs n 0 table_fault tables_ok read_tables"
  unfolding read_tables_def
proof (rule runs_tbind [OF runs_no_panic [OF runs_used_bytes]], rule runs_tbind [OF runs_no_panic [OF runs_n_groups]],
    rule runs_tbind [OF runs_no_panic [OF runs_n_selectors]])
  fix used :: "u8 list" and g k :: nat and n
  assume used: "used \<noteq> [] \<and> length used \<le> 256" and g: "2 \<le> g \<and> g \<le> 6" and k: "k \<le> MAX_SELECTORS"
  note sels = first_selectors [of g n k]
  have ts: "runs n 0 table_fault (\<lambda>ts. length ts = g \<and> (\<forall>t\<in>set ts. tree_sane t (length used + 2))) (repeatR g (read_tree (length used + 2)))" for n
    using used by (intro runs_repeatR runs_tree) auto
  show "runs n 0 table_fault tables_ok
     (bindR (read_selectors k g mtf_new) (\<lambda>sels.
     bindR (repeatR g (read_tree (length used + 2))) (\<lambda>ts.
     returnR \<lparr>used_bytes = used, selectors = sels @ replicate (MAX_SELECTORS - k) 0, n_selectors = k,
              trees = ts @ replicate (6 - g) empty_tree, n_trees = g\<rparr>)))"
    by (rule runs_tbind [OF runs_no_panic [OF sels]], use g in simp, use g in simp, rule runs_tbind [OF ts])
      (use used g k in \<open>auto intro!: runs_returnR simp: tables_ok_def tree_sane_empty\<close>)
qed simp_all

subsection \<open>The symbol loop\<close>

text \<open>
  The state holds the bytes \<open>L\<close> decoded so far: \<open>tt\<close> their zero-extensions, \<open>counts\<close> their counts.
  The run counter stays below 900001, and the power below the counter plus two.
\<close>

definition loop_ok :: "nat \<Rightarrow> u8 list \<Rightarrow> u8 list \<Rightarrow> block_state \<Rightarrow> bool" where
  "loop_ok max_blocksize used L s \<longleftrightarrow>
     tt s = map ucast L \<and> counts s = byte_counts L \<and> length L \<le> max_blocksize \<and> set L \<subseteq> set used \<and>
     mtf_ok (mtf_state s) \<and> set (take (length used) (symbols (mtf_state s))) = set used \<and>
     unat (repeat s) \<le> MAX_BLOCKSIZE \<and> (repeat s \<noteq> 0 \<longrightarrow> unat (repeat_power s) \<le> unat (repeat s) + 1)"

lemma byte_count_append:
  "byte_count (L @ M) (length (L @ M)) b = byte_count L (length L) b + byte_count M (length M) b"
proof -
  have "{k. k < length (L @ M) \<and> unat ((L @ M) ! k) = b} =
      {k. k < length L \<and> unat (L ! k) = b} \<union> (\<lambda>k. k + length L) ` {k. k < length M \<and> unat (M ! k) = b}"
    by (auto simp: nth_append image_iff) (metis add.commute le_add_diff_inverse less_diff_conv2 linorder_not_le)+
  moreover have "card \<dots> = card {k. k < length L \<and> unat (L ! k) = b} + card {k. k < length M \<and> unat (M ! k) = b}"
    by (subst card_Un_disjoint) (auto simp: card_image)
  ultimately show ?thesis by (simp add: byte_count_def)
qed

lemma byte_count_replicate: "byte_count (replicate n x) n b = (if unat x = b then n else 0)"
proof -
  have "{k. k < n \<and> unat (replicate n x ! k) = b} = (if unat x = b then {..<n} else {})" by auto
  then show ?thesis by (simp add: byte_count_def)
qed

lemma byte_count_le: "byte_count L (length L) b \<le> length L"
  using card_mono [of "{..<length L}" "{k. k < length L \<and> unat (L ! k) = b}"] by (auto simp: byte_count_def)

lemma length_byte_counts [simp]: "length (byte_counts L) = 256"
  by (simp add: byte_counts_def)

lemma count_byte_ok:
  assumes "length L + unat n < 2 ^ 32"
  shows "count_byte b n (byte_counts L) = Inr (byte_counts (L @ replicate (unat n) b))"
proof -
  let ?M = "replicate (unat n) b"
  have b: "unat b < 256" by (rule unat_u8_less)
  let ?cb = "byte_count L (length L) (unat b)"
  have cb: "?cb + unat n < 2 ^ 32" using byte_count_le [of L "unat b"] assms by simp
  have nb: "byte_counts L ! unat b = of_nat ?cb" using b by (simp add: byte_counts_def)
  have "unat (of_nat ?cb :: u32) = ?cb" using cb by (intro unat_of_nat_small) simp
  then have "add32 (of_nat ?cb) n = Inr (of_nat ?cb + n)" using cb by (simp add: add32_def)
  moreover have "(byte_counts L)[unat b := of_nat ?cb + n] = byte_counts (L @ ?M)"
  proof (rule nth_equalityI)
    fix i assume "i < length ((byte_counts L)[unat b := of_nat ?cb + n])"
    then have i: "i < 256" by simp
    have "byte_count (L @ ?M) (length (L @ ?M)) i = byte_count L (length L) i + (if unat b = i then unat n else 0)"
      by (subst byte_count_append) (simp add: byte_count_replicate)
    then have "byte_counts (L @ ?M) ! i = of_nat (byte_count L (length L) i + (if unat b = i then unat n else 0))"
      using i by (simp add: byte_counts_def)
    then show "(byte_counts L)[unat b := of_nat ?cb + n] ! i = byte_counts (L @ ?M) ! i"
      using i b by (simp add: nth_list_update byte_counts_def)
  qed simp
  ultimately show ?thesis using b nb by (simp add: count_byte_def)
qed

lemma run_symbol_ok:
  assumes "loop_ok m used L s" "unat sy < 2"
  shows "(\<exists>e. run_symbol sy s = Inl (BlockError e)) \<or> (\<exists>s'. run_symbol sy s = Inr s' \<and> loop_ok m used L s')"
proof -
  let ?p = "if repeat s = 0 then 1 else repeat_power s"
  have p: "unat ?p \<le> unat (repeat s) + 1" using assms(1) by (auto simp: loop_ok_def)
  have r: "unat (repeat s) \<le> 900000" using assms(1) by (simp add: loop_ok_def MAX_BLOCKSIZE_def)
  have "unat (push_bit k ?p) = 2 ^ k * unat ?p" if "k < 2" for k
    using p r that by (subst unat_push_bit_small) (cases k; simp)+
  note push = this
  let ?q = "push_bit (unat sy) ?p"
  have q: "unat ?p \<le> unat ?q" "unat ?q \<le> 2 * unat ?p"
    using push [OF assms(2)] assms(2) by (cases "unat sy"; simp)+
  then have sm: "unat (repeat s) + unat ?q < 2 ^ 32" using p r by simp
  then have add: "add32 (repeat s) ?q = Inr (repeat s + ?q)" "unat (repeat s + ?q) = unat (repeat s) + unat ?q"
    by (simp_all add: add32_def unat_word_ariths)
  show ?thesis
  proof (cases "unat (repeat s) + unat ?q > MAX_BLOCKSIZE")
    case True
    then show ?thesis using add by (simp add: run_symbol_def Let_def)
  next
    case False
    have "unat (push_bit 1 ?p) \<le> unat (repeat s) + unat ?q + 1"
      using push [of 1] p q(1) by simp
    then have "loop_ok m used L (s\<lparr>repeat := repeat s + ?q, repeat_power := push_bit 1 ?p\<rparr>)"
      using assms(1) False add(2) by (simp add: loop_ok_def)
    then show ?thesis using add False by (auto simp: run_symbol_def Let_def)
  qed
qed

lemma flush_run_ok:
  assumes "loop_ok m used L s" "m < 2 ^ 31" "used \<noteq> []"
  shows "(\<exists>e. flush_run m s = Inl (BlockError e)) \<or> (\<exists>s' L'. flush_run m s = Inr s' \<and> loop_ok m used L' s')"
proof (cases "repeat s > 0 \<and> length L + unat (repeat s) \<le> m")
  case True
  let ?b = "mtf_first (mtf_state s)"
  have ok: "counts s = byte_counts L" "tt s = map ucast L" "length L \<le> m" using assms(1) by (simp_all add: loop_ok_def)
  have "length (symbols (mtf_state s)) = 256" using assms(1) by (simp add: loop_ok_def mtf_ok_def)
  then have "?b = hd (take (length used) (symbols (mtf_state s)))" "take (length used) (symbols (mtf_state s)) \<noteq> []"
    using assms(3) by (cases "symbols (mtf_state s)"; cases used; simp add: mtf_first_def)+
  then have "?b \<in> set (take (length used) (symbols (mtf_state s)))" by (metis hd_in_set)
  then have b: "?b \<in> set used" using assms(1) by (simp add: loop_ok_def)
  have "count_byte ?b (repeat s) (counts s) = Inr (byte_counts (L @ replicate (unat (repeat s)) ?b))"
    unfolding ok by (rule count_byte_ok) (use True assms(2) in simp)
  moreover have "loop_ok m used (L @ replicate (unat (repeat s)) ?b)
      (s\<lparr>tt := tt s @ replicate (unat (repeat s)) (ucast ?b), counts := byte_counts (L @ replicate (unat (repeat s)) ?b), repeat := 0\<rparr>)"
    using assms(1) True b by (auto simp: loop_ok_def)
  ultimately show ?thesis using True ok by (auto simp: flush_run_def Let_def)
next
  case False
  then show ?thesis using assms(1) by (auto simp: flush_run_def Let_def loop_ok_def word_gt_0)
qed

lemma byte_symbol_ok:
  assumes "loop_ok m used L s" "m < 2 ^ 31" "2 \<le> unat sy" "unat sy \<le> length used" "length used \<le> 256"
  shows "(\<exists>e. byte_symbol m sy s = Inl (BlockError e)) \<or> (\<exists>s' L'. byte_symbol m sy s = Inr s' \<and> loop_ok m used L' s')"
proof -
  obtain b d where d: "mtf_decode (ucast (sy - 1)) (mtf_state s) = (b, d)" by (cases "mtf_decode (ucast (sy - 1)) (mtf_state s)")
  have "unat (sy - 1) = unat sy - 1" using assms(3) by (subst unat_sub) (simp_all add: word_le_nat_alt)
  then have "unat (ucast (sy - 1) :: u8) = unat sy - 1"
    using assms(3-5) by (simp add: unsigned_ucast_eq take_bit_nat_eq_self)
  then have i: "unat (ucast (sy - 1) :: u8) < length used" using assms(3,4) by simp
  have ok: "mtf_ok (mtf_state s)" "set (take (length used) (symbols (mtf_state s))) = set used" "counts s = byte_counts L" "tt s = map ucast L"
    using assms(1) by (simp_all add: loop_ok_def)
  note pre = mtf_decode_prefix [OF ok(1) i assms(5) d]
  show ?thesis
  proof (cases "length L < m")
    case True
    have "count_byte b 1 (byte_counts L) = Inr (byte_counts (L @ replicate (unat (1 :: u32)) b))"
      by (rule count_byte_ok) (use True assms(2) in simp)
    then have c: "count_byte b 1 (byte_counts L) = Inr (byte_counts (L @ [b]))" by simp
    have "loop_ok m used (L @ [b]) (s\<lparr>tt := tt s @ [ucast b], counts := byte_counts (L @ [b]), mtf_state := d\<rparr>)"
      using assms(1) True pre ok by (auto simp: loop_ok_def)
    then show ?thesis using True c ok d by (auto simp: byte_symbol_def)
  next
    case False
    then show ?thesis using ok d by (auto simp: byte_symbol_def)
  qed
qed

lemma symbol_step_ok:
  assumes ok: "loop_ok m used L s" and m: "m < 2 ^ 31" and used: "used \<noteq> []" "length used \<le> 256" and sy: "unat sy < length used + 2"
  shows "(\<exists>e. symbol_step m (of_nat (length used + 1)) sy s = Inl (BlockError e)) \<or>
    (\<exists>f s' L'. symbol_step m (of_nat (length used + 1)) sy s = Inr (f, s') \<and> loop_ok m used L' s')"
proof (cases "sy < 2")
  case True
  then have "unat sy < 2" by (simp add: word_less_nat_alt)
  from run_symbol_ok [OF ok this] True show ?thesis by (auto simp: symbol_step_def)
next
  case False
  then have s2: "2 \<le> unat sy" by (simp add: word_less_nat_alt)
  have eob: "sy = of_nat (length used + 1) \<longleftrightarrow> unat sy = length used + 1"
    using used(2) by (simp add: word_unat_eq_iff unat_of_nat_small del: of_nat_add of_nat_Suc)
  from flush_run_ok [OF ok m used(1)] show ?thesis
  proof (elim disjE exE conjE)
    fix s' L' assume f: "flush_run m s = Inr s'" "loop_ok m used L' s'"
    show ?thesis
    proof (cases "unat sy = length used + 1")
      case True
      with f False eob show ?thesis by (auto simp: symbol_step_def)
    next
      case ne: False
      with sy have "unat sy \<le> length used" by simp
      from byte_symbol_ok [OF f(2) m s2 this used(2)] ne f False eob show ?thesis
        by (auto simp: symbol_step_def)
    qed
  qed (auto simp: symbol_step_def False)
qed

lemma symbol_loop_eq:
  "symbol_loop bt m left i tree s =
     (if left = 0 then bindR (liftR (next_tree bt (i + 1))) (\<lambda>tree'. symbol_loop bt m 50 (i + 1) tree' s)
      else bindR (require ''huffman bitstream truncated'' (decode tree)) (\<lambda>sy.
             bindR (liftR (symbol_step m (eob_symbol bt) sy s)) (\<lambda>(finished, s').
             if finished then returnR s' else symbol_loop bt m (left - 1) i tree s')))"
proof (rule ext)
  fix r
  show "symbol_loop bt m left i tree s r =
     (if left = 0 then bindR (liftR (next_tree bt (i + 1))) (\<lambda>tree'. symbol_loop bt m 50 (i + 1) tree' s)
      else bindR (require ''huffman bitstream truncated'' (decode tree)) (\<lambda>sy.
             bindR (liftR (symbol_step m (eob_symbol bt) sy s)) (\<lambda>(finished, s').
             if finished then returnR s' else symbol_loop bt m (left - 1) i tree s'))) r"
  proof (cases "left = 0")
    case True
    then show ?thesis
      by (subst symbol_loop.simps) (cases "next_tree bt (i + 1)"; simp add: bindR_def reading_simps)
  next
    case False
    have "bindE (symbol_step m (eob_symbol bt) sy s) (\<lambda>(finished, s'). if finished then Inr (s', q) else symbol_loop bt m (left - 1) i tree s' q) =
       bindR (liftR (symbol_step m (eob_symbol bt) sy s)) (\<lambda>(finished, s'). if finished then returnR s' else symbol_loop bt m (left - 1) i tree s') q"
      for sy q
      by (cases "symbol_step m (eob_symbol bt) sy s") (auto simp: bindR_def reading_simps)
    with False show ?thesis by (subst symbol_loop.simps) (simp add: bindR_def)
  qed
qed

lemma next_tree_ok:
  assumes "tables_ok bt"
  shows "(\<exists>e. next_tree bt i = Inl (BlockError e)) \<or> (\<exists>t. next_tree bt i = Inr t \<and> tree_sane t (length (used_bytes bt) + 2))"
    and "next_tree bt i \<noteq> Inl (BlockError ''selector out of range'')"
proof -
  have "unat (selectors bt ! i) < n_trees bt \<and> unat (selectors bt ! i) < length (trees bt)" if "i < n_selectors bt"
    using assms that unfolding tables_ok_def by (metis nth_mem order_less_le_trans)
  moreover have "i < length (selectors bt)" if "i < n_selectors bt" using assms that by (simp add: tables_ok_def)
  moreover have "tree_sane t (length (used_bytes bt) + 2)" if "t \<in> set (trees bt)" for t using assms that by (simp add: tables_ok_def)
  ultimately show "(\<exists>e. next_tree bt i = Inl (BlockError e)) \<or> (\<exists>t. next_tree bt i = Inr t \<and> tree_sane t (length (used_bytes bt) + 2))"
    and "next_tree bt i \<noteq> Inl (BlockError ''selector out of range'')"
    by (cases "i < n_selectors bt"; auto simp: next_tree_def not_le not_less)+
qed

lemma runs_symbol_loop:
  assumes bt: "tables_ok bt" and m: "m < 2 ^ 31"
  shows "tree_sane tree (length (used_bytes bt) + 2) \<Longrightarrow> loop_ok m (used_bytes bt) L s \<Longrightarrow>
    runs n 0 block_fault (\<lambda>s'. \<exists>L'. loop_ok m (used_bytes bt) L' s') (symbol_loop bt m left i tree s)"
proof (induction n arbitrary: left i tree s L rule: less_induct)
  case (less n)
  let ?Q = "\<lambda>s'. \<exists>L'. loop_ok m (used_bytes bt) L' s'"
  have used: "used_bytes bt \<noteq> []" "length (used_bytes bt) \<le> 256" using bt by (simp_all add: tables_ok_def)
  have some: "runs n 0 block_fault ?Q (symbol_loop bt m left i tree s)"
    if "tree_sane tree (length (used_bytes bt) + 2)" "0 < left" for left i tree
  proof -
    have eq: "symbol_loop bt m left i tree s = bindR (require ''huffman bitstream truncated'' (decode tree)) (\<lambda>sy.
             bindR (liftR (symbol_step m (eob_symbol bt) sy s)) (\<lambda>(finished, s').
             if finished then returnR s' else symbol_loop bt m (left - 1) i tree s'))"
      using that(2) by (subst symbol_loop_eq) simp
    show ?thesis unfolding eq
  proof (rule runs_bindR [where ?d1.0 = 1 and ?d2.0 = 0])
    show "runs n 1 block_fault (\<lambda>s. unat s < length (used_bytes bt) + 2) (require ''huffman bitstream truncated'' (decode tree))"
      by (rule runs_decode) (use that used in auto)
    fix sy :: u16 assume sy: "unat sy < length (used_bytes bt) + 2" and n: "1 \<le> n"
    have step: "runs (n - 1) 0 block_fault (\<lambda>(f, s'). ?Q s') (liftR (symbol_step m (eob_symbol bt) sy s))"
      using symbol_step_ok [OF less.prems(2) m used sy] unfolding eob_symbol_def
      by (intro runs_liftR) auto
    show "runs (n - 1) 0 block_fault ?Q (bindR (liftR (symbol_step m (eob_symbol bt) sy s)) (\<lambda>(finished, s').
             if finished then returnR s' else symbol_loop bt m (left - 1) i tree s'))"
    proof (rule runs_bind0 [OF step])
      fix fs :: "bool \<times> block_state" assume "case fs of (f, s') \<Rightarrow> ?Q s'"
      then obtain f s' L' where fs: "fs = (f, s')" "loop_ok m (used_bytes bt) L' s'" by (cases fs) auto
      have "runs (n - 1) 0 block_fault ?Q (symbol_loop bt m (left - 1) i tree s')"
        using less.IH [of "n - 1"] n that(1) fs(2) by simp
      then show "runs (n - 1 - 0) 0 block_fault ?Q (case fs of (finished, s') \<Rightarrow>
             if finished then returnR s' else symbol_loop bt m (left - 1) i tree s')"
        using fs by (auto intro!: runs_returnR)
    qed simp_all
  qed simp
  qed
  show ?case
  proof (cases "left = 0")
    case False
    with some less.prems(1) show ?thesis by simp
  next
    case True
    have "runs n 0 block_fault (\<lambda>t. tree_sane t (length (used_bytes bt) + 2)) (liftR (next_tree bt (i + 1)))"
      using next_tree_ok(1) [OF bt, of "i + 1"] by (intro runs_liftR) auto
    note nt = this
    have "runs n 0 block_fault ?Q (bindR (liftR (next_tree bt (i + 1))) (\<lambda>tree'. symbol_loop bt m 50 (i + 1) tree' s))"
      by (rule runs_bind0 [OF nt]) (use some in simp_all)
    then show ?thesis by (subst symbol_loop_eq) (simp add: True)
  qed
qed

text \<open>The result: the linked vector of a non-empty column of used bytes, and a row of it.\<close>

definition block_result :: "nat \<Rightarrow> u32 list \<times> u32 \<Rightarrow> bool" where
  "block_result m = (\<lambda>(tt, t). \<exists>L i. tt = linked L \<and> t = of_nat i \<and> i < length L \<and> length L \<le> m)"

lemma start_state_ok:
  assumes "tables_ok bt"
  shows "loop_ok m (used_bytes bt) [] (start_state bt [])"
proof -
  have "length (used_bytes bt) \<le> 256" using assms by (simp add: tables_ok_def)
  moreover have "byte_counts [] = replicate 256 0"
    by (rule nth_equalityI) (simp_all add: byte_counts_def byte_count_def)
  ultimately show ?thesis
    by (simp add: loop_ok_def start_state_def with_symbols_def mtf_ok_def)
qed

text \<open>After the tables nothing panics.\<close>

definition after_tables :: "tt_vec \<Rightarrow> nat \<Rightarrow> nat \<Rightarrow> block_tables \<Rightarrow> (u32 list \<times> u32) reading" where
  "after_tables slot m p bt =
     bindR (liftR (bindE (index (selectors bt) 0) (\<lambda>sel. index (trees bt) (unat sel)))) (\<lambda>tree.
     bindR (symbol_loop bt m 50 0 tree (start_state bt (fst (fst (take_tt_buffer m slot))))) (\<lambda>s.
     if p \<ge> length (tt s) then failR (BlockError ''orig_ptr out of bounds'')
     else liftR (inverse_bwt (tt s) p (counts s))))"

lemma common_eq: "decode_block_common slot m = bindR read_header (\<lambda>p. bindR read_tables (after_tables slot m p))"
  by (simp add: decode_block_common_def after_tables_def [abs_def])

lemma runs_rest:
  assumes "m \<le> 2 ^ 24" "tables_ok bt"
  shows "runs n 0 block_fault (block_result m) (after_tables slot m p bt)"
proof -
  have "0 < length (selectors bt)" using assms(2) by (simp add: tables_ok_def MAX_SELECTORS_def)
  moreover from this have "unat (selectors bt ! 0) < length (trees bt)"
    using assms(2) nth_mem [of 0 "selectors bt"] by (fastforce simp: tables_ok_def)
  ultimately have sel: "bindE (index (selectors bt) 0) (\<lambda>sel. index (trees bt) (unat sel)) = Inr (trees bt ! unat (selectors bt ! 0))"
      "trees bt ! unat (selectors bt ! 0) \<in> set (trees bt)" by simp_all
  then have tree: "runs n 0 block_fault (\<lambda>t. tree_sane t (length (used_bytes bt) + 2))
      (liftR (bindE (index (selectors bt) 0) (\<lambda>sel. index (trees bt) (unat sel))))"
    using assms(2) unfolding sel(1) by (intro runs_liftR) (simp_all add: tables_ok_def)
  have start: "loop_ok m (used_bytes bt) [] (start_state bt (fst (fst (take_tt_buffer m slot))))"
    using start_state_ok [OF assms(2)] by (simp add: take_tt_buffer_def)
  have loop: "runs n 0 block_fault (\<lambda>s'. \<exists>L'. loop_ok m (used_bytes bt) L' s')
      (symbol_loop bt m 50 0 tree (start_state bt (fst (fst (take_tt_buffer m slot)))))"
    if "tree_sane tree (length (used_bytes bt) + 2)" for tree n
    by (rule runs_symbol_loop [OF assms(2) _ that start]) (use assms(1) in simp)
  show ?thesis
    unfolding after_tables_def
  proof (rule runs_bind0 [OF tree], rule runs_bind0 [OF loop], assumption)
    fix s :: block_state and n assume "\<exists>L'. loop_ok m (used_bytes bt) L' s"
    then obtain L where L: "tt s = map ucast L" "counts s = byte_counts L" "length L \<le> m" by (auto simp: loop_ok_def)
    show "runs n 0 block_fault (block_result m) (if p \<ge> length (tt s) then failR (BlockError ''orig_ptr out of bounds'')
       else liftR (inverse_bwt (tt s) p (counts s)))"
    proof (cases "p < length L")
      case True
      have "length L \<le> 2 ^ 24" using L(3) assms(1) by simp
      from inverse_bwt_eq [OF this True] have "inverse_bwt (tt s) p (counts s) = Inr (linked L, of_nat (t_vector L ! p))"
        by (simp add: L)
      moreover have "block_result m (linked L, of_nat (t_vector L ! p))"
        using t_vector_less [OF True] L(3) by (auto simp: block_result_def)
      ultimately show ?thesis using True L by (auto intro!: runs_liftR)
    next
      case False
      then show ?thesis using L by (simp add: runs_failR)
    qed
  qed simp_all
qed

lemma runs_common:
  assumes "m \<le> 2 ^ 24"
  shows "runs n 0 table_fault (block_result m) (decode_block_common slot m)"
  unfolding common_eq
  by (rule runs_tbind [OF runs_no_panic [OF runs_header]], rule runs_tbind [OF runs_tables],
      rule runs_no_panic [OF runs_rest [OF assms]]) simp_all

subsection \<open>A panic is that of a table\<close>

lemma no_panic_cases:
  assumes "runs n 0 block_fault Q m" "reader_at bs r" "length (bits_of r) \<le> n" "bindR m k r = Inl (Panic msg)"
  obtains x q where "m r = Inr (x, q)" "Q x" "reader_at bs q" "k x q = Inl (Panic msg)"
  using runs_one [OF assms(1-3)] assms(4) by cases (auto simp: bindR_def block_fault_def)

lemma trees_panic:
  assumes "repeatR g (read_tree k) r = Inl (Panic msg)" "reader_at bs r" "0 < k" "k \<le> 258"
  shows "\<exists>i ls lengths r' q. i < g \<and> repeatR i (code_lengths k) r = Inr (ls, r') \<and> code_lengths k r' = Inr (lengths, q) \<and>
    from_lengths lengths = Inl (Panic msg) \<and> over_subscribed lengths"
  using assms(1,2)
proof (induction g arbitrary: r)
  case 0
  then show ?case by (simp add: repeatR_eqs reading_simps)
next
  case (Suc g)
  from runs_one [OF runs_code_lengths Suc.prems(2) order_refl, of k] show ?case
  proof cases
    case (1 e)
    then have "repeatR (Suc g) (read_tree k) r = Inl e" by (simp add: repeatR_eqs read_tree_eq bindR_def)
    with Suc.prems(1) 1(1) show ?thesis by (simp add: block_fault_def)
  next
    case (2 lengths q j)
    show ?thesis
    proof (cases "map_block_error ''invalid huffman tree'' (from_lengths lengths)")
      case (Inl e)
      then have "repeatR (Suc g) (read_tree k) r = Inl e" using 2(4) by (simp add: repeatR_eqs read_tree_eq bindR_def liftR_def)
      with Suc.prems(1) tree_fault [OF 2(1) assms(3,4) Inl] have "from_lengths lengths = Inl (Panic msg)" "over_subscribed lengths"
        by (auto simp: block_fault_def)
      with 2(4) show ?thesis by (intro exI [of _ 0]) (simp add: repeatR_eqs reading_simps)
    next
      case (Inr t)
      then have "read_tree k r = Inr (t, q)" using 2(4) by (simp add: read_tree_eq bindR_def reading_simps)
      with Suc.prems(1) have "repeatR g (read_tree k) q = Inl (Panic msg)"
        by (cases "repeatR g (read_tree k) q") (auto simp: repeatR_eqs bindR_def reading_simps)
      from Suc.IH [OF this 2(5)] obtain i ls lengths' r' q' where "i < g" "repeatR i (code_lengths k) q = Inr (ls, r')"
        "code_lengths k r' = Inr (lengths', q')" "from_lengths lengths' = Inl (Panic msg)" "over_subscribed lengths'" by blast
      moreover from this(2) 2(4) have "repeatR (Suc i) (code_lengths k) r = Inr (lengths # ls, r')" by (simp add: repeatR_eqs bindR_def reading_simps)
      ultimately show ?thesis by blast
    qed
  qed
qed

lemma common_panic:
  assumes "reader_at bs r" "m \<le> 2 ^ 24" "decode_block_common slot m r = Inl (Panic msg)"
  shows "\<exists>i lengths q. table_lengths i r = Inr (lengths, q) \<and> from_lengths lengths = Inl (Panic msg) \<and> over_subscribed lengths"
proof -
  obtain p r1 where r1: "read_header r = Inr (p, r1)" "reader_at bs r1"
    and rest: "bindR read_tables (after_tables slot m p) r1 = Inl (Panic msg)"
    by (rule no_panic_cases [OF runs_header assms(1) order_refl assms(3) [unfolded common_eq]]) blast
  have tables: "read_tables r1 = Inl (Panic msg)"
  proof (rule runs_one [OF runs_tables r1(2) order_refl])
    fix bt q k assume bt: "tables_ok bt" "read_tables r1 = Inr (bt, q)" "reader_at bs q"
    with rest have "after_tables slot m p bt q = Inl (Panic msg)" by (simp add: bindR_def)
    then show ?thesis using runs_one [OF runs_rest [OF assms(2) bt(1), of _ slot p] bt(3) order_refl]
      by (auto simp: block_fault_def)
  qed (use rest in \<open>auto simp: bindR_def\<close>)
  obtain used r2 where r2: "read_used_bytes r1 = Inr (used, r2)" "used \<noteq> []" "length used \<le> 256" "reader_at bs r2"
    and t2: "bindR read_n_groups (\<lambda>n_groups. bindR read_n_selectors (\<lambda>n_sel. bindR (read_selectors n_sel n_groups mtf_new) (\<lambda>sels.
      bindR (repeatR n_groups (read_tree (length used + 2))) (\<lambda>ts.
      returnR \<lparr>used_bytes = used, selectors = sels @ replicate (MAX_SELECTORS - n_sel) 0, n_selectors = n_sel,
              trees = ts @ replicate (6 - n_groups) empty_tree, n_trees = n_groups\<rparr>)))) r2 = Inl (Panic msg)"
    by (rule no_panic_cases [OF runs_used_bytes r1(2) order_refl tables [unfolded read_tables_def]]) blast
  obtain g r3 where r3: "read_n_groups r2 = Inr (g, r3)" "2 \<le> g" "g \<le> 6" "reader_at bs r3"
    and t3: "bindR read_n_selectors (\<lambda>n_sel. bindR (read_selectors n_sel g mtf_new) (\<lambda>sels.
      bindR (repeatR g (read_tree (length used + 2))) (\<lambda>ts.
      returnR \<lparr>used_bytes = used, selectors = sels @ replicate (MAX_SELECTORS - n_sel) 0, n_selectors = n_sel,
              trees = ts @ replicate (6 - g) empty_tree, n_trees = g\<rparr>))) r3 = Inl (Panic msg)"
    by (rule no_panic_cases [OF runs_n_groups r2(4) order_refl t2]) blast
  obtain n r4 where r4: "read_n_selectors r3 = Inr (n, r4)" "reader_at bs r4"
    and t4: "bindR (read_selectors n g mtf_new) (\<lambda>sels.
      bindR (repeatR g (read_tree (length used + 2))) (\<lambda>ts.
      returnR \<lparr>used_bytes = used, selectors = sels @ replicate (MAX_SELECTORS - n) 0, n_selectors = n,
              trees = ts @ replicate (6 - g) empty_tree, n_trees = g\<rparr>)) r4 = Inl (Panic msg)"
    by (rule no_panic_cases [OF runs_n_selectors r3(4) order_refl t3]) blast
  obtain ss r5 where r5: "read_selectors n g mtf_new r4 = Inr (ss, r5)" "reader_at bs r5"
    and t5: "bindR (repeatR g (read_tree (length used + 2))) (\<lambda>ts.
      returnR \<lparr>used_bytes = used, selectors = ss @ replicate (MAX_SELECTORS - n) 0, n_selectors = n,
              trees = ts @ replicate (6 - g) empty_tree, n_trees = g\<rparr>) r5 = Inl (Panic msg)"
    by (rule no_panic_cases [OF first_selectors [OF r3(2,3)] r4(2) order_refl t4]) blast
  from t5 have rest: "repeatR g (read_tree (length used + 2)) r5 = Inl (Panic msg)"
    by (cases "repeatR g (read_tree (length used + 2)) r5") (auto simp: bindR_def reading_simps)
  have "length used + 2 \<le> 258" using r2(3) by simp
  from trees_panic [OF rest r5(2) _ this] obtain i ls lengths r' q where "i < g" "repeatR i (code_lengths (length used + 2)) r5 = Inr (ls, r')"
    "code_lengths (length used + 2) r' = Inr (lengths, q)" "from_lengths lengths = Inl (Panic msg)" "over_subscribed lengths" by auto
  then show ?thesis
    using r1(1) r2(1) r3(1) r4(1) r5(1) by (intro exI [of _ i] exI [of _ lengths] exI [of _ q]) (simp add: table_lengths_def bindR_def)
qed

subsection \<open>The two decoders\<close>

lemma common_slot: "decode_block_common slot m = decode_block_common slot' m"
  by (simp add: decode_block_common_def take_tt_buffer_def)

text \<open>The bytes of a column read along its links, and what the final decoders make of them.\<close>

definition column_bytes :: "u8 list \<Rightarrow> nat \<Rightarrow> u8 list" where
  "column_bytes L i = walk_bytes L (length L) i"

definition alloc_fault :: "fault \<Rightarrow> bool" where
  "alloc_fault e \<longleftrightarrow> table_fault e \<or> e = Undefined ''write outside output''"

definition into_fault :: "fault \<Rightarrow> bool" where
  "into_fault e \<longleftrightarrow> table_fault e"

lemma runs_block_slot:
  assumes "m \<le> 2 ^ 24"
  shows "runs n 0 alloc_fault (\<lambda>(out, s). \<exists>w. out = rle2_spec w \<and> length w \<le> m) (decode_block_slot slot m)"
  unfolding decode_block_slot_def
proof (rule runs_bindR [where ?d1.0 = 0 and ?d2.0 = 0])
  show "runs n 0 alloc_fault (block_result m) (decode_block_common slot m)"
    by (rule runs_weaken [OF runs_common [OF assms]]) (auto simp: alloc_fault_def)
  fix x assume "block_result m x"
  then obtain L i where x: "x = (linked L, of_nat i)" "i < length L" "length L \<le> m" by (cases x) (auto simp: block_result_def)
  then have L: "length L \<le> 2 ^ 24" using assms by simp
  have "runs (n - 0) 0 alloc_fault (\<lambda>out. \<exists>w. out = rle2_spec w \<and> length w \<le> m) (liftR (rle2_decode_alloc (linked L) (of_nat i)))"
    using decode_alloc_cases [OF x(2) L] x(3) by (intro runs_liftR) (auto simp: alloc_fault_def)
  then show "runs (n - 0) 0 alloc_fault (\<lambda>(out, s). \<exists>w. out = rle2_spec w \<and> length w \<le> m)
      (case x of (v, t_pos) \<Rightarrow> bindR (liftR (rle2_decode_alloc v t_pos)) (\<lambda>out.
     returnR (out, return_tt_buffer (v, snd (fst (take_tt_buffer m slot))) (snd (take_tt_buffer m slot)))))"
    unfolding x prod.case by (rule runs_bindR [where ?d1.0 = 0 and ?d2.0 = 0]) (auto intro!: runs_returnR)
qed simp

lemma runs_block_into_slot:
  assumes "m \<le> 2 ^ 24"
  shows "runs n 0 into_fault (\<lambda>(out, s). \<exists>w. out = rle2_spec w \<and> length w \<le> m \<and> length out \<le> out_cap) (decode_block_into_slot slot m out_cap)"
  unfolding decode_block_into_slot_def
proof (rule runs_bindR [where ?d1.0 = 0 and ?d2.0 = 0])
  show "runs n 0 into_fault (block_result m) (decode_block_common slot m)"
    by (rule runs_weaken [OF runs_common [OF assms]]) (auto simp: into_fault_def)
  fix x assume "block_result m x"
  then obtain L i where x: "x = (linked L, of_nat i)" "i < length L" "length L \<le> m" by (cases x) (auto simp: block_result_def)
  then have L: "length L \<le> 2 ^ 24" using assms by simp
  have "runs (n - 0) 0 into_fault (\<lambda>out. \<exists>w. out = rle2_spec w \<and> length w \<le> m \<and> length out \<le> out_cap)
      (liftR (rle2_decode_into (linked L) (of_nat i) out_cap))"
    using decode_into_walk [OF x(2) L, of out_cap] x(3) by (intro runs_liftR) (auto simp: into_fault_def table_fault_def split: if_splits)
  then show "runs (n - 0) 0 into_fault (\<lambda>(out, s). \<exists>w. out = rle2_spec w \<and> length w \<le> m \<and> length out \<le> out_cap)
      (case x of (v, t_pos) \<Rightarrow> bindR (liftR (rle2_decode_into v t_pos out_cap)) (\<lambda>out.
     returnR (out, return_tt_buffer (v, snd (fst (take_tt_buffer m slot))) (snd (take_tt_buffer m slot)))))"
    unfolding x prod.case by (rule runs_bindR [where ?d1.0 = 0 and ?d2.0 = 0]) (auto intro!: runs_returnR)
qed simp

lemma runs_block:
  assumes "m \<le> 2 ^ 24"
  shows "runs n 0 alloc_fault (\<lambda>out. \<exists>w. out = rle2_spec w \<and> length w \<le> m) (decode_block m)"
  unfolding decode_block_def
  by (rule runs_bindR [where ?d1.0 = 0 and ?d2.0 = 0, OF runs_block_slot [OF assms]]) (auto intro!: runs_returnR)

lemma runs_block_into:
  assumes "m \<le> 2 ^ 24"
  shows "runs n 0 into_fault (\<lambda>out. \<exists>w. out = rle2_spec w \<and> length w \<le> m \<and> length out \<le> out_cap) (decode_block_into m out_cap)"
  unfolding decode_block_into_def
  by (rule runs_bindR [where ?d1.0 = 0 and ?d2.0 = 0, OF runs_block_into_slot [OF assms]]) (auto intro!: runs_returnR)

lemma decode_block_slot_free:
  "map_sum id (\<lambda>((out, s), q). (out, q)) (decode_block_slot slot m r) = decode_block m r"
proof (cases "decode_block_common ([], 0) m r")
  case (Inl e)
  then show ?thesis
    by (simp add: decode_block_def decode_block_slot_def bindR_def common_slot [of slot m "([], 0)"])
next
  case (Inr p)
  obtain v t q where p: "p = ((v, t), q)" by (cases p) auto
  show ?thesis
    using Inr p by (cases "rle2_decode_alloc v t")
      (simp_all add: decode_block_def decode_block_slot_def bindR_def reading_simps common_slot [of slot m "([], 0)"])
qed

subsection \<open>Properties\<close>

text \<open>
  C11. The block decoder on any bits, for any block size up to 2 to the 24 and at any place of
  any slice: it returns a block error; or it panics, and then on the code lengths of one of the block's own tables, which
  the block has in this place and which are over-subscribed; or it returns
  the linked vector of at most \<open>max_blocksize\<close> bytes together with one of its rows. No other array
  index, shift, counter or buffer access can go wrong: not the run counter, not
  the 18002 selectors, not the six trees, not the unchecked read of the lookup table, not the origin pointer.
\<close>

theorem block_decoder_safe:
  assumes "reader_at bs r" "m \<le> 2 ^ 24"
  shows "(\<exists>msg. decode_block_common slot m r = Inl (BlockError msg)) \<or>
    (\<exists>msg i lengths q. decode_block_common slot m r = Inl (Panic msg) \<and> table_lengths i r = Inr (lengths, q) \<and>
       from_lengths lengths = Inl (Panic msg) \<and> over_subscribed lengths) \<or>
    (\<exists>L i r'. decode_block_common slot m r = Inr ((linked L, of_nat i), r') \<and> i < length L \<and> length L \<le> m \<and> reader_at bs r')"
  using runs_common [OF assms(2)] assms(1) order_refl
proof (rule runs_one)
  fix e assume "table_fault e" "decode_block_common slot m r = Inl e"
  then show ?thesis using common_panic [OF assms, of slot] unfolding table_fault_def block_fault_def by blast
next
  fix x q k assume "block_result m x" "decode_block_common slot m r = Inr (x, q)" "reader_at bs q"
  then show ?thesis by (cases x) (auto simp: block_result_def)
qed

theorem block_decoder_safe_witness:
  "\<exists>r. new_reader [] = Inr r \<and> \<not> (\<exists>msg. decode_block_common ([], 0) 900000 r = Inl (Undefined msg))"
proof -
  obtain r where r: "new_reader [] = Inr r" "reader_at [] r"
    by (rule from_bit_offset_bits [of "[]" 0]) (auto simp: reader_at_def from_bit_offset_def new_reader_def refill_def refill_tail.simps)
  have "(900000 :: nat) \<le> 2 ^ 24" by simp
  from block_decoder_safe [OF r(2) this, of "([], 0)"] r(1) show ?thesis by auto
qed

text \<open>
  C12. What a block decodes to is a function of its bits alone. Two readers with the same bits to
  come, over different slices, at different byte and bit offsets, with different amounts buffered, and
  with any vectors left in the thread-local slot, give the same bytes or the same
  error, and stop at the same place. This is what decoding blocks in parallel from their bit offsets relies on.
\<close>

theorem block_position_independent:
  assumes "reader_at bs r" "reader_at bs' r'" "bits_of r = bits_of r'" "m \<le> 2 ^ 24"
  shows "(\<exists>e. decode_block_slot slot m r = Inl e \<and> decode_block_slot slot' m r' = Inl e) \<or>
    (\<exists>out s s' q q'. decode_block_slot slot m r = Inr ((out, s), q) \<and> decode_block_slot slot' m r' = Inr ((out, s'), q') \<and>
       bits_of q = bits_of q')"
proof -
  from runs_cases [OF runs_block [OF assms(4)] assms(1-3) order_refl]
  have "(\<exists>e. decode_block m r = Inl e \<and> decode_block m r' = Inl e) \<or>
    (\<exists>out q q'. decode_block m r = Inr (out, q) \<and> decode_block m r' = Inr (out, q') \<and> bits_of q = bits_of q')"
    by cases auto
  then show ?thesis
    unfolding decode_block_slot_free [of slot m r, symmetric] decode_block_slot_free [of slot' m r', symmetric]
    by (cases "decode_block_slot slot m r"; cases "decode_block_slot slot' m r'") auto
qed

theorem block_position_independent_witness:
  "\<exists>r r'. from_bit_offset [0x31, 0x41, 0x59] 8 = Inr r \<and> from_bit_offset [0x41, 0x59] 0 = Inr r' \<and>
    ((\<exists>e. decode_block_slot ([1, 2, 3], 8) 900000 r = Inl e \<and> decode_block_slot ([], 0) 900000 r' = Inl e) \<or>
     (\<exists>out s s' q q'. decode_block_slot ([1, 2, 3], 8) 900000 r = Inr ((out, s), q) \<and>
        decode_block_slot ([], 0) 900000 r' = Inr ((out, s'), q') \<and> bits_of q = bits_of q'))"
proof -
  obtain r where r: "from_bit_offset [0x31, 0x41, 0x59] 8 = Inr r" "reader_at [0x31, 0x41, 0x59] r"
      "bits_of r = drop 8 (stream_bits [0x31, 0x41, 0x59])"
    by (rule from_bit_offset_bits [of "[0x31, 0x41, 0x59]" 8]) (simp add: reader_at_def)
  obtain r' where r': "from_bit_offset [0x41, 0x59] 0 = Inr r'" "reader_at [0x41, 0x59] r'"
      "bits_of r' = drop 0 (stream_bits [0x41, 0x59])"
    by (rule from_bit_offset_bits [of "[0x41, 0x59]" 0]) (simp add: reader_at_def)
  have same: "bits_of r = bits_of r'" unfolding r(3) r'(3) by code_simp
  have m: "(900000 :: nat) \<le> 2 ^ 24" by simp
  from block_position_independent [OF r(2) r'(2) same m, of "([1, 2, 3], 8)" "([], 0)"] r(1) r'(1)
  show ?thesis by blast
qed

end
