(* ===== verification/Block_Roundtrip.thy ===== *)
theory Block_Roundtrip
  imports Block_Safety
begin

text \<open>
  A reference encoder for blocks, written from the layout of the format, and the round trip: on
  the bits of an encoded block, the block decoder returns the data. The encoder is free in
  what the format leaves free: the checksum, the code lengths and the selectors.
\<close>

subsection \<open>Fields\<close>

lemma word_of_nat_bits: "c < 2 ^ k \<Longrightarrow> k \<le> LENGTH('a) \<Longrightarrow> word_of_bits (nat_bits k c) = (of_nat c :: 'a::len word)"
proof -
  assume c: "c < 2 ^ k" "k \<le> LENGTH('a)"
  then have "c < 2 ^ LENGTH('a)" by (meson order_less_le_trans power_increasing one_le_numeral)
  with c show ?thesis
    by (simp add: word_unat_eq_iff unat_word_of_bits nat_of_bits_nat_bits unat_of_nat_small)
qed

lemma reads_nat_field:
  assumes "c < 2 ^ k" "0 < k" "k \<le> LENGTH('a::len)" "LENGTH('a) \<le> 57"
  shows "reads bs (require msg (read_uint LENGTH('a) k :: 'a word option reading)) (nat_bits k c) (of_nat c)"
  using reads_require [OF reads_field [of "nat_bits k c" k, where 'a = 'a]] assms by (simp add: word_of_nat_bits)

lemma reads_u8: "c < 2 ^ k \<Longrightarrow> 0 < k \<Longrightarrow> k \<le> 8 \<Longrightarrow> reads bs (require msg (read_u8 k)) (nat_bits k c) (of_nat c)"
  using reads_nat_field [of c k, where 'a = 8] by (simp add: read_u8_def [abs_def])

lemma reads_u16: "c < 2 ^ k \<Longrightarrow> 0 < k \<Longrightarrow> k \<le> 16 \<Longrightarrow> reads bs (require msg (read_u16 k)) (nat_bits k c) (of_nat c)"
  using reads_nat_field [of c k, where 'a = 16] by (simp add: read_u16_def [abs_def])

lemma reads_u32: "c < 2 ^ k \<Longrightarrow> 0 < k \<Longrightarrow> k \<le> 32 \<Longrightarrow> reads bs (require msg (read_u32 k)) (nat_bits k c) (of_nat c)"
  using reads_nat_field [of c k, where 'a = 32] by (simp add: read_u32_def [abs_def])

definition header_bits :: "nat \<Rightarrow> nat \<Rightarrow> bool list" where
  "header_bits crc orig_ptr = nat_bits 32 crc @ False # nat_bits 24 orig_ptr"

lemma reads_header:
  assumes "crc < 2 ^ 32" "p < 2 ^ 24"
  shows "reads bs read_header (header_bits crc p) p"
proof -
  have "unat (of_nat p :: u32) = p" using assms by (intro unat_of_nat_small) simp
  then have "reads bs (bindR (require ''orig_ptr truncated'' (read_u32 24)) (\<lambda>p. returnR (unat p))) (nat_bits 24 p) p"
    using assms by (intro reads_map [OF reads_u32]) simp_all
  then show ?thesis
    unfolding read_header_def header_bits_def
    by (intro reads_bindR [OF reads_u32] reads_bind_bit) (use assms in simp_all)
qed

subsection \<open>The symbol bitmap\<close>

definition used_of :: "u8 list \<Rightarrow> u8 list" where
  "used_of s = filter (\<lambda>b. b \<in> set s) (map of_nat [0..<256])"

definition range_bytes :: "nat \<Rightarrow> u8 list" where
  "range_bytes i = map (\<lambda>sub. of_nat i * 16 + of_nat sub) [0..<16]"

definition range_present :: "u8 list \<Rightarrow> nat \<Rightarrow> bool" where
  "range_present s i \<longleftrightarrow> list_ex (\<lambda>b. b \<in> set s) (range_bytes i)"

definition bitmap_bits :: "u8 list \<Rightarrow> bool list" where
  "bitmap_bits s = map (range_present s) [0..<16] @
     concat (map (\<lambda>i. map (\<lambda>b. b \<in> set s) (range_bytes i)) (filter (range_present s) [0..<16]))"

lemma used_of_ranges: "used_of s = concat (map (\<lambda>i. filter (\<lambda>b. b \<in> set s) (range_bytes i)) [0..<16])"
proof -
  have "map of_nat [0..<256] = concat (map range_bytes [0..<16])"
    by code_simp
  then show ?thesis by (simp only: used_of_def filter_concat map_map comp_def)
qed

lemma set_used_of: "set (used_of s) = set s"
proof -
  have "x \<in> of_nat ` {0..<256}" for x :: u8
    by (rule image_eqI [of _ _ "unat x"]) (use unat_u8_less [of x] in simp_all)
  then show ?thesis by (auto simp: used_of_def)
qed

lemma distinct_used_of: "distinct (used_of s)"
proof -
  have "inj_on (of_nat :: nat \<Rightarrow> u8) {0..<256}"
    by (rule inj_on_inverseI [of _ unat]) (simp add: unat_of_nat_small)
  then show ?thesis by (simp add: used_of_def distinct_map)
qed

lemma length_used_of: "length (used_of s) \<le> 256"
  using length_filter_le [of "\<lambda>b. b \<in> set s" "map of_nat [0..<256]"] by (simp add: used_of_def)

lemma reads_subs:
  "reads bs (read_subs i subs) (map (\<lambda>sub. P (of_nat i * 16 + of_nat sub)) subs)
     (filter P (map (\<lambda>sub. of_nat i * 16 + of_nat sub) subs))"
proof (induction subs)
  case Nil
  have "read_subs i [] = returnR []" by (rule ext) simp
  then show ?case by (simp add: reads_returnR)
next
  case (Cons sub subs)
  have eq: "read_subs i (sub # subs) = bindR (require ''symbol bitmap truncated'' read_bit) (\<lambda>present.
     bindR (read_subs i subs) (\<lambda>bs. returnR (if present then (of_nat i * 16 + of_nat sub) # bs else bs)))"
    by (rule ext) simp
  show ?case unfolding eq
    by (simp only: list.map) (rule reads_bind_bit, rule reads_map [OF Cons.IH], simp)
qed

lemma reads_ranges:
  "reads bs (read_ranges (zip is (map (range_present s) is)))
     (concat (map (\<lambda>i. map (\<lambda>b. b \<in> set s) (range_bytes i)) (filter (range_present s) is)))
     (concat (map (\<lambda>i. filter (\<lambda>b. b \<in> set s) (range_bytes i)) is))"
proof (induction "is")
  case Nil
  have "read_ranges [] = returnR []" by (rule ext) simp
  then show ?case by (simp add: reads_returnR)
next
  case (Cons i "is")
  let ?rest = "read_ranges (zip is (map (range_present s) is))"
  have eq: "read_ranges (zip (i # is) (map (range_present s) (i # is))) = (if \<not> range_present s i then ?rest
      else bindR (read_subs i [0..<16]) (\<lambda>bs. bindR ?rest (\<lambda>bs'. returnR (bs @ bs'))))"
    by (rule ext) simp
  show ?case
  proof (cases "range_present s i")
    case True
    have subs: "reads bs (read_subs i [0..<16]) (map (\<lambda>b. b \<in> set s) (range_bytes i)) (filter (\<lambda>b. b \<in> set s) (range_bytes i))"
      using reads_subs [of bs i "[0..<16]" "\<lambda>b. b \<in> set s"] by (simp add: range_bytes_def comp_def)
    have "reads bs (bindR (read_subs i [0..<16]) (\<lambda>bs. bindR ?rest (\<lambda>bs'. returnR (bs @ bs'))))
       (map (\<lambda>b. b \<in> set s) (range_bytes i) @ concat (map (\<lambda>i. map (\<lambda>b. b \<in> set s) (range_bytes i)) (filter (range_present s) is)))
       (filter (\<lambda>b. b \<in> set s) (range_bytes i) @ concat (map (\<lambda>i. filter (\<lambda>b. b \<in> set s) (range_bytes i)) is))"
      by (rule reads_bindR [OF subs], rule reads_map [OF Cons.IH]) simp
    with True show ?thesis unfolding eq by simp
  next
    case False
    then have "filter (\<lambda>b. b \<in> set s) (range_bytes i) = []"
      by (auto simp: range_present_def list_ex_iff filter_empty_conv)
    with False Cons.IH show ?thesis unfolding eq by simp
  qed
qed

lemma reads_used_bytes:
  assumes "s \<noteq> []"
  shows "reads bs read_used_bytes (bitmap_bits s) (used_of s)"
proof -
  let ?ps = "map (range_present s) [0..<16]"
  have len: "length ?ps = 16" by simp
  have "reads bs (repeatR (length ?ps) (require ''symbol range truncated'' read_bit)) (concat (map (\<lambda>b. [b]) ?ps)) (map (\<lambda>b. b) ?ps)"
    by (rule reads_repeatR) (rule reads_bit)
  then have ps: "reads bs (repeatR 16 (require ''symbol range truncated'' read_bit)) ?ps ?ps"
    unfolding len by (simp add: comp_def)
  have ne: "used_of s \<noteq> []" using set_used_of [of s] assms by fastforce
  show ?thesis
    unfolding read_used_bytes_def bitmap_bits_def
    by (rule reads_bindR [OF ps], rule reads_map [OF reads_ranges]) (use ne in \<open>simp add: used_of_ranges [symmetric]\<close>)
qed

subsection \<open>Selectors\<close>

definition unary :: "nat \<Rightarrow> bool list" where
  "unary k = replicate k True @ [False]"

text \<open>Selectors are move-to-front coded over the table numbers, the indices in unary.\<close>

fun selector_bits :: "u8 list \<Rightarrow> u8 list \<Rightarrow> bool list" where
  "selector_bits table [] = []"
| "selector_bits table (x # xs) =
     (case mtf_code table x of (i, table') \<Rightarrow> unary (unat i) @ selector_bits table' xs)"

lemma reads_selector: "t + k < g \<Longrightarrow> reads bs (read_selector g t) (unary k) (t + k)"
proof (induction k arbitrary: t)
  case 0
  then show ?case
    by (subst read_selector_eq) (auto simp: unary_def intro!: reads_bind_bit reads_returnR)
next
  case (Suc k)
  have "reads bs (read_selector g (t + 1)) (unary k) (t + 1 + k)" by (rule Suc.IH) (use Suc.prems in simp)
  then show ?case
    using Suc.prems by (subst read_selector_eq) (auto simp: unary_def intro!: reads_bind_bit)
qed

lemma reads_selectors:
  assumes "mtf_rel table d" "set xs \<subseteq> set table" "length table \<le> g" "g \<le> 6"
  shows "reads bs (read_selectors (length xs) g d) (selector_bits table xs) xs"
  using assms(1-3)
proof (induction xs arbitrary: table d)
  case Nil
  have "read_selectors 0 g d = returnR []" by (rule ext) simp
  then show ?case by (simp add: reads_returnR)
next
  case (Cons x xs)
  let ?i = "position_of x table"
  obtain c table' where c: "mtf_code table x = (c, table')" by (cases "mtf_code table x")
  obtain d' where d': "mtf_decode c d = (x, d')" "mtf_rel table' d'"
    using mtf.dec_enc [OF Cons.prems(1) _ c] Cons.prems(2) by auto
  have i: "?i < length table" using position_of_nth [of x table] Cons.prems(2) by simp
  have ci: "c = of_nat ?i" "table' = mtf_step ?i table" using c by (auto simp: mtf_code_def mtf_encode_def)
  have uc: "unat c = ?i" unfolding ci using i Cons.prems(3) assms(4) by (intro unat_of_nat_small) simp
  have t': "set table' = set table" "length table' = length table" using i by (simp_all add: ci)
  have eq: "read_selectors (length (x # xs)) g d = bindR (read_selector g 0) (\<lambda>t.
     case mtf_decode (of_nat t) d of (sel, d') \<Rightarrow> bindR (read_selectors (length xs) g d') (\<lambda>sels. returnR (sel # sels)))"
    by (rule ext) simp
  have sel: "reads bs (read_selector g 0) (unary (unat c)) (unat c)"
    using reads_selector [of 0 "unat c" g bs] uc i Cons.prems(3) by simp
  have IH: "reads bs (read_selectors (length xs) g d') (selector_bits table' xs) xs"
    using Cons.IH [OF d'(2)] Cons.prems t' by simp
  have "reads bs (bindR (read_selectors (length xs) g d') (\<lambda>sels. returnR (x # sels))) (selector_bits table' xs) (x # xs)"
    by (rule reads_map [OF IH]) simp
  then show ?case unfolding eq using c d' by (simp, intro reads_bindR [OF sel]) simp
qed

subsection \<open>Code lengths\<close>

definition delta_bits :: "nat \<Rightarrow> nat \<Rightarrow> bool list" where
  "delta_bits from_len to_len =
     concat (replicate (to_len - from_len) [True, False]) @ concat (replicate (from_len - to_len) [True, True]) @ [False]"

fun lengths_bits :: "nat \<Rightarrow> u8 list \<Rightarrow> bool list" where
  "lengths_bits len [] = []"
| "lengths_bits len (l # ls) = delta_bits len (unat l) @ lengths_bits (unat l) ls"

definition tree_bits :: "u8 list \<Rightarrow> bool list" where
  "tree_bits lengths = nat_bits 5 (unat (hd lengths)) @ lengths_bits (unat (hd lengths)) lengths"

lemma reads_length:
  assumes "1 \<le> a" "a \<le> 20" "1 \<le> b" "b \<le> 20"
  shows "reads bs (read_length (int a)) (delta_bits a b) (int b)"
  using assms
proof (induction "(b - a) + (a - b)" arbitrary: a)
  case 0
  then have "a = b" by simp
  with 0 show ?case
    by (subst read_length_eq) (auto simp: delta_bits_def intro!: reads_bind_bit reads_returnR)
next
  case (Suc n)
  consider "a < b" | "b < a" using Suc.hyps(2) by linarith
  then show ?case
  proof cases
    case 1
    then have "b - a = Suc (b - Suc a)" by simp
    then have bits: "delta_bits a b = True # False # delta_bits (Suc a) b" using 1 by (simp add: delta_bits_def)
    have "reads bs (read_length (int (Suc a))) (delta_bits (Suc a) b) (int b)"
      by (rule Suc.hyps(1)) (use 1 Suc.hyps(2) Suc.prems in simp_all)
    then show ?thesis unfolding bits using Suc.prems
      by (subst read_length_eq) (auto intro!: reads_bind_bit simp: add.commute)
  next
    case 2
    then obtain a' where a': "a = Suc a'" by (cases a) auto
    then have "a - b = Suc (a' - b)" using 2 by simp
    then have bits: "delta_bits a b = True # True # delta_bits a' b" using 2 a' by (simp add: delta_bits_def)
    have "reads bs (read_length (int a')) (delta_bits a' b) (int b)"
      by (rule Suc.hyps(1)) (use 2 a' Suc.hyps(2) Suc.prems in simp_all)
    then show ?thesis unfolding bits using Suc.prems a'
      by (subst read_length_eq) (auto intro!: reads_bind_bit)
  qed
qed

lemma reads_lengths:
  assumes "1 \<le> a" "a \<le> 20" "\<forall>l\<in>set ls. 1 \<le> unat l \<and> unat l \<le> 20"
  shows "reads bs (read_lengths (length ls) (int a)) (lengths_bits a ls) ls"
  using assms
proof (induction ls arbitrary: a)
  case Nil
  have "read_lengths 0 (int a) = returnR []" by (rule ext) simp
  then show ?case by (simp add: reads_returnR)
next
  case (Cons l ls)
  have eq: "read_lengths (length (l # ls)) (int a) = bindR (read_length (int a)) (\<lambda>v. bindR (read_lengths (length ls) v) (\<lambda>vs. returnR (word_of_int v # vs)))"
    by (rule ext) simp
  have one: "reads bs (read_length (int a)) (delta_bits a (unat l)) (int (unat l))"
    using Cons.prems by (intro reads_length) simp_all
  have IH: "reads bs (read_lengths (length ls) (int (unat l))) (lengths_bits (unat l) ls) ls"
    by (rule Cons.IH) (use Cons.prems in simp_all)
  show ?case unfolding eq lengths_bits.simps
    by (rule reads_bindR [OF one], rule reads_map [OF IH]) simp
qed

definition code_lengths_ok :: "nat \<Rightarrow> u8 list \<Rightarrow> bool" where
  "code_lengths_ok n lengths \<longleftrightarrow> length lengths = n \<and> (\<forall>l\<in>set lengths. 1 \<le> unat l \<and> unat l \<le> 20) \<and>
     kraft (used_symbols lengths) \<le> 2 ^ max_len"

lemma code_lengths_ok_valid: "code_lengths_ok n lengths \<Longrightarrow> 0 < n \<Longrightarrow> n \<le> 258 \<Longrightarrow> lengths_valid lengths"
proof -
  assume a: "code_lengths_ok n lengths" "0 < n" "n \<le> 258"
  then have "(0, unat (lengths ! 0)) \<in> set (used_symbols lengths)"
    by (auto simp: used_symbols_iff code_lengths_ok_def intro: nth_mem Suc_le_lessD)
  then have "used_symbols lengths \<noteq> []" by auto
  with a show ?thesis by (auto simp: lengths_valid_def code_lengths_ok_def max_len_def)
qed

definition tree_of :: "u8 list \<Rightarrow> huffman_tree" where
  "tree_of lengths = (case from_lengths lengths of Inr t \<Rightarrow> t | Inl _ \<Rightarrow> empty_tree)"

lemma tree_of:
  assumes "lengths_valid lengths"
  shows "from_lengths lengths = Inr (tree_of lengths)" "tree_holds (tree_of lengths) (codes_of lengths)"
  using from_lengths_holds [OF assms] by (auto simp: tree_of_def)

lemma reads_tree:
  assumes "code_lengths_ok n lengths" "0 < n" "n \<le> 258"
  shows "reads bs (read_tree n) (tree_bits lengths) (tree_of lengths)"
proof -
  let ?h = "unat (hd lengths)"
  have n: "n = length lengths" and l: "\<forall>l\<in>set lengths. 1 \<le> unat l \<and> unat l \<le> 20"
    using assms(1) by (simp_all add: code_lengths_ok_def)
  have "hd lengths \<in> set lengths" using n assms(2) by (intro hd_in_set) auto
  then have h: "1 \<le> ?h" "?h \<le> 20" using l by simp_all
  have start: "reads bs (require msg (read_u8 5)) (nat_bits 5 ?h) (hd lengths)" for msg
    using reads_u8 [of ?h 5 bs msg] h by simp
  have u: "uint (hd lengths) = int ?h" by simp
  have m: "map_block_error ''invalid huffman tree'' (from_lengths lengths) = Inr (tree_of lengths)"
    using tree_of(1) [OF code_lengths_ok_valid [OF assms]] by (simp add: map_block_error_def)
  have "reads bs (bindR (read_lengths (length lengths) (int ?h)) (\<lambda>lengths.
       liftR (map_block_error ''invalid huffman tree'' (from_lengths lengths))))
     (lengths_bits ?h lengths @ []) (tree_of lengths)"
    by (rule reads_bindR [OF reads_lengths [OF h l]]) (rule reads_liftR [OF m])
  then show ?thesis
    unfolding read_tree_def tree_bits_def n by (intro reads_bindR [OF start]) (simp only: u append_Nil2)
qed

subsection \<open>The tables\<close>

record coding =
  lens :: "u8 list list"
  sels :: "u8 list"

definition coding_ok :: "nat \<Rightarrow> coding \<Rightarrow> bool" where
  "coding_ok n_symbols cd \<longleftrightarrow> 2 \<le> length (lens cd) \<and> length (lens cd) \<le> 6 \<and>
     (\<forall>ls\<in>set (lens cd). code_lengths_ok n_symbols ls) \<and>
     0 < length (sels cd) \<and> length (sels cd) \<le> MAX_SELECTORS \<and> (\<forall>s\<in>set (sels cd). unat s < length (lens cd))"

definition tables_bits :: "u8 list \<Rightarrow> coding \<Rightarrow> bool list" where
  "tables_bits s cd = bitmap_bits s @ nat_bits 3 (length (lens cd)) @ nat_bits 15 (length (sels cd)) @
     selector_bits (map of_nat [0..<length (lens cd)]) (sels cd) @ concat (map tree_bits (lens cd))"

definition tables_of :: "u8 list \<Rightarrow> coding \<Rightarrow> block_tables" where
  "tables_of s cd = \<lparr>used_bytes = used_of s, selectors = sels cd @ replicate (MAX_SELECTORS - length (sels cd)) 0,
     n_selectors = length (sels cd), trees = map tree_of (lens cd) @ replicate (6 - length (lens cd)) empty_tree,
     n_trees = length (lens cd)\<rparr>"

lemma reads_n_groups:
  assumes "2 \<le> g" "g \<le> 6"
  shows "reads bs read_n_groups (nat_bits 3 g) g"
proof -
  have u: "unat (of_nat g :: u8) = g" using assms by (intro unat_of_nat_small) simp
  have f: "reads bs (require msg (read_u8 3)) (nat_bits 3 g) (of_nat g)" for msg using assms by (intro reads_u8) simp_all
  show ?thesis unfolding read_n_groups_def
    by (rule reads_map [OF f]) (use assms u in \<open>simp add: word_less_nat_alt\<close>)
qed

lemma reads_n_selectors:
  assumes "k \<le> MAX_SELECTORS"
  shows "reads bs read_n_selectors (nat_bits 15 k) k"
proof -
  have k: "k < 2 ^ 15" "k < 2 ^ 16" using assms by (simp_all add: MAX_SELECTORS_def)
  have u: "unat (of_nat k :: u16) = k" using k by (intro unat_of_nat_small) simp
  have f: "reads bs (require msg (read_u16 15)) (nat_bits 15 k) (of_nat k)" for msg using k by (intro reads_u16) simp_all
  show ?thesis unfolding read_n_selectors_def
    by (rule reads_map [OF f]) (use assms u in simp)
qed

lemma mtf_rel_start: "g \<le> 256 \<Longrightarrow> mtf_rel (map of_nat [0..<g]) mtf_new"
proof -
  assume g: "g \<le> 256"
  have "inj_on (of_nat :: nat \<Rightarrow> u8) {0..<g}"
    by (rule inj_on_inverseI [of _ unat]) (use g in \<open>simp add: unat_of_nat_small\<close>)
  with g show ?thesis by (auto simp: mtf_rel_def mtf_ok_def mtf_new_def distinct_map take_map min_def)
qed

lemma reads_tables:
  assumes "s \<noteq> []" "coding_ok (length (used_of s) + 2) cd"
  shows "reads bs read_tables (tables_bits s cd) (tables_of s cd)"
proof -
  let ?g = "length (lens cd)" and ?n = "length (used_of s) + 2"
  have g: "2 \<le> ?g" "?g \<le> 6" and k: "length (sels cd) \<le> MAX_SELECTORS"
    and ls: "\<forall>ls\<in>set (lens cd). code_lengths_ok ?n ls" and ss: "\<forall>s\<in>set (sels cd). unat s < ?g"
    using assms(2) by (simp_all add: coding_ok_def)
  have n: "0 < ?n" "?n \<le> 258" using length_used_of [of s] by simp_all
  have "x \<in> of_nat ` {0..<?g}" if "x \<in> set (sels cd)" for x
    by (rule image_eqI [of _ _ "unat x"]) (use ss that in simp_all)
  then have sub: "set (sels cd) \<subseteq> set (map of_nat [0..<?g])" by auto
  have sel: "reads bs (read_selectors (length (sels cd)) ?g mtf_new) (selector_bits (map of_nat [0..<?g]) (sels cd)) (sels cd)"
    using g by (intro reads_selectors [OF mtf_rel_start sub]) simp_all
  have trees: "reads bs (repeatR ?g (read_tree ?n)) (concat (map tree_bits (lens cd))) (map tree_of (lens cd))"
  proof (rule reads_repeatR)
    fix l assume "l \<in> set (lens cd)"
    then have "code_lengths_ok ?n l" using ls by simp
    then show "reads bs (read_tree ?n) (tree_bits l) (tree_of l)" by (rule reads_tree [OF _ n])
  qed
  have ne: "length (used_of s) + 2 = ?n" by simp
  show ?thesis
    unfolding read_tables_def tables_bits_def
    by (rule reads_bindR [OF reads_used_bytes [OF assms(1)]], rule reads_bindR [OF reads_n_groups [OF g]],
        rule reads_bindR [OF reads_n_selectors [OF k]], rule reads_bindR [OF sel], rule reads_map [OF trees])
      (simp add: tables_of_def)
qed

subsection \<open>The symbols\<close>

text \<open>A run of \<open>n\<close> zero indices as digits of the bijective base two, least significant first.\<close>

fun run_code :: "nat \<Rightarrow> nat list" where
  "run_code n = (if n = 0 then [] else if odd n then 0 # run_code ((n - 1) div 2) else 1 # run_code ((n - 2) div 2))"

declare run_code.simps [simp del]

fun mtf_symbols :: "u8 list \<Rightarrow> nat \<Rightarrow> u8 list \<Rightarrow> nat list" where
  "mtf_symbols table k [] = run_code k"
| "mtf_symbols table k (x # xs) =
     (let i = position_of x table
      in if i = 0 then mtf_symbols table (Suc k) xs
         else run_code k @ (i + 1) # mtf_symbols (mtf_step i table) 0 xs)"

definition block_symbols :: "u8 list \<Rightarrow> nat list" where
  "block_symbols s = mtf_symbols (used_of s) 0 (bwt_last s) @ [length (used_of s) + 1]"

text \<open>The code words, with the table of selector \<open>i\<close> for \<open>left\<close> more symbols.\<close>

fun symbol_bits :: "coding \<Rightarrow> nat \<Rightarrow> nat \<Rightarrow> nat list \<Rightarrow> bool list" where
  "symbol_bits cd left i [] = []"
| "symbol_bits cd 0 i (y # ys) = code_for (lens cd ! unat (sels cd ! (i + 1))) y @ symbol_bits cd 49 (i + 1) ys"
| "symbol_bits cd (Suc left) i (y # ys) = code_for (lens cd ! unat (sels cd ! i)) y @ symbol_bits cd left i ys"

fun steps_to :: "nat \<Rightarrow> u16 \<Rightarrow> nat list \<Rightarrow> block_state \<Rightarrow> block_state \<Rightarrow> bool" where
  "steps_to m eob [] s s' = (s = s')"
| "steps_to m eob (y # ys) s s' = (\<exists>s1. symbol_step m eob (of_nat y) s = Inr (False, s1) \<and> steps_to m eob ys s1 s')"

fun finishes :: "nat \<Rightarrow> u16 \<Rightarrow> nat list \<Rightarrow> block_state \<Rightarrow> block_state \<Rightarrow> bool" where
  "finishes m eob [] s s' = False"
| "finishes m eob (y # ys) s s' =
     (if ys = [] then symbol_step m eob (of_nat y) s = Inr (True, s')
      else \<exists>s1. symbol_step m eob (of_nat y) s = Inr (False, s1) \<and> finishes m eob ys s1 s')"

lemma finishes_append: "steps_to m eob ys s s1 \<Longrightarrow> finishes m eob zs s1 s2 \<Longrightarrow> finishes m eob (ys @ zs) s s2"
  by (induction ys arbitrary: s) auto

lemma run_digit:
  assumes "d < 2" "unat (repeat s) = v" "v = 0 \<and> j = 0 \<or> 0 < v \<and> unat (repeat_power s) = 2 ^ j" "v + 2 ^ j * (d + 1) \<le> 900000"
  shows "\<exists>p. unat p = 2 ^ Suc j \<and> symbol_step m eob (of_nat d) s = Inr (False, s\<lparr>repeat := of_nat (v + 2 ^ j * (d + 1)), repeat_power := p\<rparr>)"
proof -
  let ?p = "if repeat s = 0 then 1 else repeat_power s"
  have p: "unat ?p = 2 ^ j" using assms(2,3) by (auto simp: unat_eq_0)
  have j: "2 ^ j \<le> (900000 :: nat)" using assms(4) by (simp add: algebra_simps)
  have d: "d + 1 = 2 ^ d" "unat (of_nat d :: u16) = d" using assms(1) by (cases d; simp)+
  have q: "unat (push_bit d ?p) = 2 ^ j * (d + 1)"
  proof -
    have "2 ^ j * 2 ^ d \<le> (900000 :: nat)" using assms(4) unfolding d(1) by linarith
    then have "unat ?p * 2 ^ d < 2 ^ LENGTH(32)" unfolding p by simp
    then have "unat (push_bit d ?p) = unat ?p * 2 ^ d" by (rule unat_push_bit_small)
    then show ?thesis unfolding p d(1) .
  qed
  have add: "add32 (repeat s) (push_bit d ?p) = Inr (repeat s + push_bit d ?p)"
      "unat (repeat s + push_bit d ?p) = v + 2 ^ j * (d + 1)"
    using assms(2,4) q by (simp_all add: add32_def unat_word_ariths)
  then have eq: "repeat s + push_bit d ?p = of_nat (v + 2 ^ j * (d + 1))"
    unfolding add(2) [symmetric] by simp
  have "unat (push_bit 1 ?p) = 2 ^ Suc j" using p j by (subst unat_push_bit_small) simp_all
  moreover have "(of_nat d :: u16) < 2" using d(2) assms(1) by (simp add: word_less_nat_alt)
  ultimately show ?thesis
    using add assms(4) d(2) unfolding eq [symmetric]
    by (intro exI [of _ "push_bit 1 ?p"]) (simp add: symbol_step_def run_symbol_def Let_def MAX_BLOCKSIZE_def)
qed

lemma run_code_steps:
  assumes "unat (repeat s) = v" "v = 0 \<and> j = 0 \<or> 0 < v \<and> unat (repeat_power s) = 2 ^ j" "v + 2 ^ j * n \<le> 900000"
  shows "\<exists>p. steps_to m eob (run_code n) s (s\<lparr>repeat := of_nat (v + 2 ^ j * n), repeat_power := p\<rparr>)"
  using assms
proof (induction n arbitrary: s v j rule: run_code.induct)
  case (1 n)
  show ?case
  proof (cases "n = 0")
    case True
    have "s\<lparr>repeat := of_nat v, repeat_power := repeat_power s\<rparr> = s" using "1.prems"(1) by (cases s) auto
    then have "steps_to m eob (run_code n) s (s\<lparr>repeat := of_nat (v + 2 ^ j * n), repeat_power := repeat_power s\<rparr>)"
      using True by (subst run_code.simps) (simp del: block_state.update_convs)
    then show ?thesis by blast
  next
    case False
    obtain d k where n: "n = d + 1 + 2 * k" "d < 2" and code: "run_code n = d # run_code k"
      and k: "k = (n - 1) div 2 \<and> odd n \<or> k = (n - 2) div 2 \<and> even n"
    proof (cases "odd n")
      case True
      then have "run_code n = 0 # run_code ((n - 1) div 2)" "n = 0 + 1 + 2 * ((n - 1) div 2)"
        using False by (simp_all add: run_code.simps [of n])
      with True show thesis by (intro that [of 0 "(n - 1) div 2"]) simp_all
    next
      case even: False
      with False have "run_code n = 1 # run_code ((n - 2) div 2)" "n = 1 + 1 + 2 * ((n - 2) div 2)" 
        by (simp_all add: run_code.simps [of n], presburger)
      with even show thesis by (intro that [of 1 "(n - 2) div 2"]) simp_all
    qed
    have le: "v + 2 ^ j * (d + 1) \<le> 900000" "v + 2 ^ j * (d + 1) + 2 ^ Suc j * k = v + 2 ^ j * n"
      using "1.prems"(3) n(1) by (simp_all add: algebra_simps)
    obtain p where p: "unat p = 2 ^ Suc j"
      "symbol_step m eob (of_nat d) s = Inr (False, s\<lparr>repeat := of_nat (v + 2 ^ j * (d + 1)), repeat_power := p\<rparr>)"
      using run_digit [OF n(2) "1.prems"(1,2) le(1)] by blast
    let ?s = "s\<lparr>repeat := of_nat (v + 2 ^ j * (d + 1)), repeat_power := p\<rparr>"
    have s: "unat (repeat ?s) = v + 2 ^ j * (d + 1)" "0 < v + 2 ^ j * (d + 1) \<and> unat (repeat_power ?s) = 2 ^ Suc j"
      using le(1) p(1) by (simp_all add: unat_of_nat_small del: of_nat_add of_nat_mult of_nat_power)
    have "\<exists>p'. steps_to m eob (run_code k) ?s (?s\<lparr>repeat := of_nat (v + 2 ^ j * (d + 1) + 2 ^ Suc j * k), repeat_power := p'\<rparr>)"
      using "1.IH" [OF False] k s le "1.prems"(3) by metis
    then show ?thesis unfolding code le(2) using p(2) by auto
  qed
qed

text \<open>The state after the bytes \<open>L\<close>, with no run pending.\<close>

definition holds_bytes :: "u8 list \<Rightarrow> u8 list \<Rightarrow> block_state \<Rightarrow> bool" where
  "holds_bytes table L s \<longleftrightarrow> tt s = map ucast L \<and> counts s = byte_counts L \<and> mtf_rel table (mtf_state s)"

lemma flush_run_bytes:
  assumes "holds_bytes table L s" "table \<noteq> []" "unat (repeat s) = k" "length L + k \<le> m" "m \<le> 900000"
  shows "\<exists>s'. flush_run m s = Inr s' \<and> holds_bytes table (L @ replicate k (hd table)) s' \<and> repeat s' = 0"
proof -
  have s: "tt s = map ucast L" "counts s = byte_counts L" "mtf_rel table (mtf_state s)" using assms(1) by (simp_all add: holds_bytes_def)
  then have "take (length table) (symbols (mtf_state s)) = table" by (simp add: mtf_rel_def)
  then have f: "mtf_first (mtf_state s) = hd table"
    using assms(2) by (cases "symbols (mtf_state s)"; cases table; auto simp: mtf_first_def)
  show ?thesis
  proof (cases "k = 0")
    case True
    then have "repeat s = 0" using assms(3) by (simp add: unat_eq_0)
    with True assms(1) show ?thesis by (simp add: flush_run_def)
  next
    case False
    then have pos: "repeat s > 0" using assms(3) by (auto simp: word_gt_0)
    have "count_byte (hd table) (repeat s) (counts s) = Inr (byte_counts (L @ replicate (unat (repeat s)) (hd table)))"
      unfolding s(2) by (rule count_byte_ok) (use assms(3-5) in simp)
    with pos f s assms(3,4) show ?thesis by (simp add: flush_run_def Let_def holds_bytes_def)
  qed
qed

lemma byte_symbol_bytes:
  assumes "holds_bytes table L s" "x \<in> set table" "0 < position_of x table" "length L < m" "m \<le> 900000" "length table \<le> 256"
  shows "\<exists>s'. byte_symbol m (of_nat (position_of x table + 1)) s = Inr s' \<and>
    holds_bytes (mtf_step (position_of x table) table) (L @ [x]) s' \<and> repeat s' = repeat s"
proof -
  let ?i = "position_of x table"
  have i: "?i < 256" using position_of_nth [OF assms(2)] assms(6) by simp
  have c: "mtf_code table x = (of_nat ?i, mtf_step ?i table)" by (simp add: mtf_code_def mtf_encode_def)
  have "(of_nat (?i + 1) :: u16) - 1 = of_nat ?i" by simp
  then have e: "ucast ((of_nat (?i + 1) :: u16) - 1) = (of_nat ?i :: u8)"
    using i by (simp add: word_unat_eq_iff unsigned_ucast_eq unat_of_nat_small take_bit_nat_eq_self)
  have s: "tt s = map ucast L" "counts s = byte_counts L" "mtf_rel table (mtf_state s)" using assms(1) by (simp_all add: holds_bytes_def)
  obtain d where d: "mtf_decode (of_nat ?i) (mtf_state s) = (x, d)" "mtf_rel (mtf_step ?i table) d"
    using mtf.dec_enc [OF s(3) assms(2) c] by blast
  have "count_byte x 1 (byte_counts L) = Inr (byte_counts (L @ replicate (unat (1 :: u32)) x))"
    by (rule count_byte_ok) (use assms(4,5) in simp)
  then show ?thesis
    using s d e assms(4) by (simp add: byte_symbol_def holds_bytes_def)
qed

lemma symbols_finish:
  assumes "holds_bytes table L s" "repeat s = 0" "set xs \<subseteq> set table" "table \<noteq> []" "length table \<le> 256" "distinct table"
    and "length L + k + length xs \<le> m" "m \<le> 900000"
  shows "\<exists>s'. finishes m (of_nat (length table + 1)) (mtf_symbols table k xs @ [length table + 1]) s s' \<and>
    tt s' = map ucast (L @ replicate k (hd table) @ xs) \<and> counts s' = byte_counts (L @ replicate k (hd table) @ xs)"
  using assms
proof (induction xs arbitrary: table k L s)
  case Nil
  let ?eob = "of_nat (length table + 1) :: u16"
  have k: "0 + 2 ^ 0 * k \<le> 900000" using Nil.prems by simp
  obtain p where p: "steps_to m ?eob (run_code k) s (s\<lparr>repeat := of_nat (0 + 2 ^ 0 * k), repeat_power := p\<rparr>)"
    using run_code_steps [OF _ _ k, of s] Nil.prems(2) by auto
  let ?s = "s\<lparr>repeat := of_nat (0 + 2 ^ 0 * k), repeat_power := p\<rparr>"
  have "holds_bytes table L ?s" "unat (repeat ?s) = k" using Nil.prems(1) k by (simp_all add: holds_bytes_def unat_of_nat_small)
  then obtain s' where s': "flush_run m ?s = Inr s'" "holds_bytes table (L @ replicate k (hd table)) s'"
    using flush_run_bytes [of table L ?s k m] Nil.prems by auto
  have "unat ?eob = length table + 1" using Nil.prems(5) by (intro unat_of_nat_small) simp
  then have "\<not> ?eob < 2" using Nil.prems(4) by (cases table) (simp_all add: word_less_nat_alt)
  then have "finishes m ?eob [length table + 1] ?s s'" using s'(1) by (simp add: symbol_step_def)
  from finishes_append [OF p this] s'(2) show ?case by (auto simp: holds_bytes_def)
next
  case (Cons x xs)
  let ?i = "position_of x table" and ?eob = "of_nat (length table + 1) :: u16"
  have i: "?i < length table" "table ! ?i = x" using position_of_nth [of x table] Cons.prems(3) by auto
  show ?case
  proof (cases "?i = 0")
    case True
    then have "x = hd table" using i Cons.prems(4) by (simp add: hd_conv_nth)
    then have "L @ replicate (Suc k) (hd table) @ xs = L @ replicate k (hd table) @ x # xs"
      by (simp add: replicate_app_Cons_same)
    note eq = this
    have "\<exists>s'. finishes m ?eob (mtf_symbols table (Suc k) xs @ [length table + 1]) s s' \<and>
        tt s' = map ucast (L @ replicate (Suc k) (hd table) @ xs) \<and> counts s' = byte_counts (L @ replicate (Suc k) (hd table) @ xs)"
      by (rule Cons.IH) (use Cons.prems in simp_all)
    then show ?thesis unfolding eq by (simp only: mtf_symbols.simps Let_def True simp_thms if_True)
  next
    case False
    have k: "0 + 2 ^ 0 * k \<le> 900000" using Cons.prems by simp
    obtain p where p: "steps_to m ?eob (run_code k) s (s\<lparr>repeat := of_nat (0 + 2 ^ 0 * k), repeat_power := p\<rparr>)"
      using run_code_steps [OF _ _ k, of s] Cons.prems(2) by auto
    let ?s = "s\<lparr>repeat := of_nat (0 + 2 ^ 0 * k), repeat_power := p\<rparr>"
    have "holds_bytes table L ?s" "unat (repeat ?s) = k" using Cons.prems(1) k by (simp_all add: holds_bytes_def unat_of_nat_small)
    then obtain s1 where s1: "flush_run m ?s = Inr s1" "holds_bytes table (L @ replicate k (hd table)) s1" "repeat s1 = 0"
      using flush_run_bytes [of table L ?s k m] Cons.prems by auto
    obtain s2 where s2: "byte_symbol m (of_nat (?i + 1)) s1 = Inr s2"
        "holds_bytes (mtf_step ?i table) ((L @ replicate k (hd table)) @ [x]) s2" "repeat s2 = 0"
      using byte_symbol_bytes [OF s1(2), of x m] False i Cons.prems s1(3) by auto
    have u: "unat (of_nat (?i + 1) :: u16) = ?i + 1" "unat ?eob = length table + 1"
      using i Cons.prems(5) by (intro unat_of_nat_small; simp)+
    then have "\<not> (of_nat (?i + 1) :: u16) < 2" "of_nat (?i + 1) \<noteq> ?eob"
      using False i by (auto simp: word_less_nat_alt word_unat_eq_iff simp del: of_nat_add of_nat_Suc)
    then have step: "symbol_step m ?eob (of_nat (?i + 1)) ?s = Inr (False, s2)"
      using s1(1) s2(1) by (simp add: symbol_step_def)
    let ?t = "mtf_step ?i table"
    have t: "length ?t = length table" "set ?t = set table" "distinct ?t" using i Cons.prems(6) by simp_all
    have "?t \<noteq> []" using t(1) Cons.prems(4) by auto
    have "\<exists>s'. finishes m (of_nat (length ?t + 1)) (mtf_symbols ?t 0 xs @ [length ?t + 1]) s2 s' \<and>
        tt s' = map ucast (((L @ replicate k (hd table)) @ [x]) @ replicate 0 (hd ?t) @ xs) \<and>
        counts s' = byte_counts (((L @ replicate k (hd table)) @ [x]) @ replicate 0 (hd ?t) @ xs)"
      by (rule Cons.IH [OF s2(2,3) _ \<open>?t \<noteq> []\<close>]) (use Cons.prems t in auto)
    then obtain s' where s': "finishes m ?eob (mtf_symbols ?t 0 xs @ [length table + 1]) s2 s'"
        "tt s' = map ucast (L @ replicate k (hd table) @ x # xs)" "counts s' = byte_counts (L @ replicate k (hd table) @ x # xs)"
      unfolding t(1) by auto
    have "finishes m ?eob ((?i + 1) # mtf_symbols ?t 0 xs @ [length table + 1]) ?s s'"
      using step s'(1) by simp
    from finishes_append [OF p this] s'(2,3) False show ?thesis by (auto simp: Let_def)
  qed
qed

lemma run_code_less: "y \<in> set (run_code n) \<Longrightarrow> y < 2"
proof (induction n rule: run_code.induct)
  case (1 n)
  show ?case
  proof (cases "n = 0")
    case True
    with "1.prems" show ?thesis by (simp add: run_code.simps [of 0])
  next
    case False
    with "1.prems" have "y = (if odd n then 0 else 1) \<or> odd n \<and> y \<in> set (run_code ((n - 1) div 2)) \<or> even n \<and> y \<in> set (run_code ((n - 2) div 2))"
      by (auto simp: run_code.simps [of n] split: if_splits)
    with "1.IH" False show ?thesis by (auto split: if_splits)
  qed
qed

lemma mtf_symbols_less: "set xs \<subseteq> set table \<Longrightarrow> table \<noteq> [] \<Longrightarrow> y \<in> set (mtf_symbols table k xs) \<Longrightarrow> y < length table + 1"
proof (induction xs arbitrary: table k)
  case Nil
  then have "y < 2" "0 < length table" using run_code_less by auto
  then show ?case by linarith
next
  case (Cons x xs)
  let ?i = "position_of x table"
  have i: "?i < length table" using position_of_nth [of x table] Cons.prems(1) by simp
  then have t: "set (mtf_step ?i table) = set table" "length (mtf_step ?i table) = length table" by simp_all
  with i have ne: "mtf_step ?i table \<noteq> []" by (metis length_0_conv not_less0)
  consider "?i = 0" "y \<in> set (mtf_symbols table (Suc k) xs)" | "y \<in> set (run_code k)" | "y = ?i + 1"
    | "y \<in> set (mtf_symbols (mtf_step ?i table) 0 xs)"
    using Cons.prems(3) by (auto simp: Let_def split: if_splits)
  then show ?case
  proof cases
    case 1
    then show ?thesis using Cons.IH [of table "Suc k"] Cons.prems by simp
  next
    case 2
    then have "y < 2" by (rule run_code_less)
    then show ?thesis using i by simp
  next
    case 3
    then show ?thesis using i by simp
  next
    case 4
    then show ?thesis using Cons.IH [of "mtf_step ?i table" 0] Cons.prems t ne by simp
  qed
qed

subsection \<open>The symbol loop\<close>

lemma reads_decode:
  assumes "lengths_valid ls" "y < length ls" "0 < unat (ls ! y)"
  shows "reads bs (decode (tree_of ls)) (code_for ls y) (Some (of_nat y))"
proof -
  obtain c where c: "(c, unat (ls ! y), y) \<in> set (codes_of ls)" "code_for ls y = nat_bits (unat (ls ! y)) c"
    using code_for_codes_of [OF assms(2,3)] by blast
  show ?thesis unfolding c(2) by (rule decode_parses [OF tree_of(2) [OF assms(1)] c(1)])
qed

lemma coding_lengths:
  assumes "coding_ok n cd" "0 < n" "n \<le> 258" "i < length (sels cd)"
  shows "lengths_valid (lens cd ! unat (sels cd ! i))" "unat (sels cd ! i) < length (lens cd)"
    and "y < n \<Longrightarrow> y < length (lens cd ! unat (sels cd ! i)) \<and> 0 < unat (lens cd ! unat (sels cd ! i) ! y)"
proof -
  show s: "unat (sels cd ! i) < length (lens cd)"
    using assms(1,4) nth_mem [OF assms(4)] by (simp add: coding_ok_def)
  then have l: "code_lengths_ok n (lens cd ! unat (sels cd ! i))" using assms(1) by (simp add: coding_ok_def)
  then show "lengths_valid (lens cd ! unat (sels cd ! i))" using assms(2,3) by (rule code_lengths_ok_valid)
  from l show "y < n \<Longrightarrow> y < length (lens cd ! unat (sels cd ! i)) \<and> 0 < unat (lens cd ! unat (sels cd ! i) ! y)"
    by (auto simp: code_lengths_ok_def intro: nth_mem Suc_le_lessD)
qed

lemma next_tree_of:
  assumes "coding_ok n cd" "i < length (sels cd)"
  shows "next_tree (tables_of s cd) i = Inr (tree_of (lens cd ! unat (sels cd ! i)))"
    "bindE (index (selectors (tables_of s cd)) i) (\<lambda>sel. index (trees (tables_of s cd)) (unat sel)) = Inr (tree_of (lens cd ! unat (sels cd ! i)))"
proof -
  have "unat (sels cd ! i) < length (lens cd)" using assms(1) nth_mem [OF assms(2)] by (simp add: coding_ok_def)
  with assms(2) show "next_tree (tables_of s cd) i = Inr (tree_of (lens cd ! unat (sels cd ! i)))"
    "bindE (index (selectors (tables_of s cd)) i) (\<lambda>sel. index (trees (tables_of s cd)) (unat sel)) = Inr (tree_of (lens cd ! unat (sels cd ! i)))"
    by (simp_all add: next_tree_def tables_of_def nth_append not_le)
qed

lemma reads_symbol_loop:
  assumes cd: "coding_ok n cd" and n: "n = length (used_of s) + 2" "n \<le> 258"
  shows "finishes m (eob_symbol (tables_of s cd)) ys st st' \<Longrightarrow> \<forall>y\<in>set ys. y < n \<Longrightarrow> i < length (sels cd) \<Longrightarrow>
    length ys + 50 * i + 50 \<le> left + 50 * length (sels cd) \<Longrightarrow>
    reads bs (symbol_loop (tables_of s cd) m left i (tree_of (lens cd ! unat (sels cd ! i))) st) (symbol_bits cd left i ys) st'"
proof (induction ys arbitrary: left i st)
  case Nil
  then show ?case by simp
next
  case (Cons y ys)
  let ?bt = "tables_of s cd" and ?tree = "\<lambda>i. tree_of (lens cd ! unat (sels cd ! i))"
  let ?code = "\<lambda>i. code_for (lens cd ! unat (sels cd ! i)) y"
  have y: "y < n" and n0: "0 < n" using Cons.prems(2) n by auto
  have main: "reads bs (symbol_loop ?bt m (Suc l) i (?tree i) st) (?code i @ symbol_bits cd l i ys) st'"
    if i: "i < length (sels cd)" and len: "length ys + 50 * i + 50 \<le> l + 50 * length (sels cd)" for l i
  proof -
    have dec: "reads bs (require msg (decode (?tree i))) (?code i) (of_nat y)" for msg
      using coding_lengths [OF cd n0 n(2) i] y by (intro reads_require reads_decode) blast+
    have eq: "symbol_loop ?bt m (Suc l) i (?tree i) st = bindR (require ''huffman bitstream truncated'' (decode (?tree i))) (\<lambda>sy.
             bindR (liftR (symbol_step m (eob_symbol ?bt) sy st)) (\<lambda>(finished, s').
             if finished then returnR s' else symbol_loop ?bt m l i (?tree i) s'))"
      using symbol_loop_eq [of ?bt m "Suc l" i "?tree i" st, unfolded diff_Suc_1] by simp
    show ?thesis
    proof (cases "ys = []")
      case True
      with Cons.prems(1) have step: "symbol_step m (eob_symbol ?bt) (of_nat y) st = Inr (True, st')" by simp
      have "reads bs (bindR (liftR (symbol_step m (eob_symbol ?bt) (of_nat y) st)) (\<lambda>(finished, s').
             if finished then returnR s' else symbol_loop ?bt m l i (?tree i) s')) [] st'"
        by (rule reads_map [OF reads_liftR [OF step]]) simp
      then show ?thesis unfolding eq using True by (intro reads_bindR [OF dec]) simp
    next
      case False
      with Cons.prems(1) obtain s1 where step: "symbol_step m (eob_symbol ?bt) (of_nat y) st = Inr (False, s1)"
        and fin: "finishes m (eob_symbol ?bt) ys s1 st'" by auto
      have IH: "reads bs (symbol_loop ?bt m l i (?tree i) s1) (symbol_bits cd l i ys) st'"
        using Cons.prems(2) by (intro Cons.IH [OF fin _ i len]) simp
      have "reads bs (bindR (liftR (symbol_step m (eob_symbol ?bt) (of_nat y) st)) (\<lambda>(finished, s').
             if finished then returnR s' else symbol_loop ?bt m l i (?tree i) s')) ([] @ symbol_bits cd l i ys) st'"
        by (rule reads_bindR [OF reads_liftR [OF step]]) (use IH in simp)
      then show ?thesis unfolding eq by (intro reads_bindR [OF dec]) simp
    qed
  qed
  show ?case
  proof (cases left)
    case (Suc l)
    have "reads bs (symbol_loop ?bt m (Suc l) i (?tree i) st) (?code i @ symbol_bits cd l i ys) st'"
      by (rule main) (use Cons.prems Suc in simp_all)
    then show ?thesis by (simp add: Suc)
  next
    case 0
    have i1: "i + 1 < length (sels cd)" using Cons.prems(4) 0 by simp
    have "reads bs (symbol_loop ?bt m (Suc 49) (i + 1) (?tree (i + 1)) st) (?code (i + 1) @ symbol_bits cd 49 (i + 1) ys) st'"
      by (rule main [OF i1]) (use Cons.prems(4) 0 in simp)
    then have "reads bs (symbol_loop ?bt m 50 (i + 1) (?tree (i + 1)) st) (symbol_bits cd 0 i (y # ys)) st'" by simp
    from reads_bindR [OF reads_liftR [OF next_tree_of(1) [OF cd i1]], of bs "\<lambda>t. symbol_loop ?bt m 50 (i + 1) t st" _ _ s, OF this]
    have "reads bs (bindR (liftR (next_tree ?bt (i + 1))) (\<lambda>t. symbol_loop ?bt m 50 (i + 1) t st)) (symbol_bits cd 0 i (y # ys)) st'"
      by simp
    then show ?thesis by (subst symbol_loop_eq) (simp add: 0)
  qed
qed

subsection \<open>The block\<close>

definition encode_block :: "nat \<Rightarrow> coding \<Rightarrow> u8 list \<Rightarrow> bool list" where
  "encode_block crc cd s = header_bits crc (bwt_index s) @ tables_bits s cd @ symbol_bits cd 50 0 (block_symbols s)"

definition encodable :: "nat \<Rightarrow> nat \<Rightarrow> coding \<Rightarrow> u8 list \<Rightarrow> bool" where
  "encodable m crc cd s \<longleftrightarrow> s \<noteq> [] \<and> length s \<le> m \<and> m \<le> MAX_BLOCKSIZE \<and> crc < 2 ^ 32 \<and>
     coding_ok (length (used_of s) + 2) cd \<and> length (block_symbols s) \<le> 50 * length (sels cd)"

lemma set_bwt_last: "set (bwt_last s) \<subseteq> set s"
proof
  fix x assume "x \<in> set (bwt_last s)"
  then obtain k where "k < length s" "x = last (rotate k s)"
    by (auto simp: bwt_last_def bwt_rows_def rotations_def)
  then show "x \<in> set s" by (cases s) (auto, metis last_in_set list.distinct(1) rotate_is_Nil_conv set_rotate list.simps(15) insert_iff)
qed

lemma reads_common:
  assumes "encodable m crc cd s"
  shows "\<exists>t. t < length s \<and> walk_bytes (bwt_last s) (length s) t = s \<and>
    (\<forall>bs. reads bs (decode_block_common slot m) (encode_block crc cd s) (linked (bwt_last s), of_nat t))"
proof -
  let ?L = "bwt_last s" and ?p = "bwt_index s" and ?bt = "tables_of s cd" and ?used = "used_of s"
  let ?n = "length ?used + 2"
  have s: "s \<noteq> []" "length s \<le> m" "m \<le> 900000" "crc < 2 ^ 32" "coding_ok ?n cd" "length (block_symbols s) \<le> 50 * length (sels cd)"
    using assms by (simp_all add: encodable_def MAX_BLOCKSIZE_def)
  have n: "?n \<le> 258" "?used \<noteq> []" using length_used_of [of s] set_used_of [of s] s(1) by auto
  have len24: "length s \<le> 2 ^ 24" using s(2,3) by simp
  obtain t where t: "t < length s" "inverse_bwt (map ucast ?L) ?p (byte_counts ?L) = Inr (linked ?L, of_nat t)"
    "walk_bytes ?L (length s) t = s"
    by (rule bwt_walk [OF s(1) len24])
  have p: "?p < length s" by (rule bwt_index(1) [OF s(1)])
  let ?st = "start_state ?bt (fst (fst (take_tt_buffer m slot)))"
  have "byte_counts [] = replicate 256 0"
    by (rule nth_equalityI) (simp_all add: byte_counts_def byte_count_def)
  moreover have "mtf_rel ?used (with_symbols (?used @ replicate (256 - length ?used) 0))"
    using length_used_of [of s] distinct_used_of [of s] by (simp add: mtf_rel_def mtf_ok_def with_symbols_def)
  ultimately have st: "holds_bytes ?used [] ?st" "repeat ?st = 0"
    by (simp_all add: holds_bytes_def start_state_def take_tt_buffer_def tables_of_def)
  have "set ?L \<subseteq> set ?used" using set_bwt_last [of s] by (simp add: set_used_of)
  then have "\<exists>s'. finishes m (of_nat (length ?used + 1)) (mtf_symbols ?used 0 ?L @ [length ?used + 1]) ?st s' \<and>
      tt s' = map ucast ([] @ replicate 0 (hd ?used) @ ?L) \<and> counts s' = byte_counts ([] @ replicate 0 (hd ?used) @ ?L)"
    by (intro symbols_finish [OF st]) (use n length_used_of distinct_used_of s in simp_all)
  then obtain s' where s': "finishes m (eob_symbol ?bt) (block_symbols s) ?st s'" "tt s' = map ucast ?L" "counts s' = byte_counts ?L"
    by (auto simp: block_symbols_def eob_symbol_def tables_of_def)
  have ys: "\<forall>y\<in>set (block_symbols s). y < ?n"
    using mtf_symbols_less [of ?L ?used] n(2) set_bwt_last [of s] by (fastforce simp: block_symbols_def set_used_of)
  have sel0: "0 < length (sels cd)" using s(5) by (simp add: coding_ok_def)
  have "reads bs (decode_block_common slot m) (encode_block crc cd s) (linked ?L, of_nat t)" for bs
  proof -
    have hdr: "reads bs read_header (header_bits crc ?p) ?p"
      using s(4) p len24 by (intro reads_header) simp_all
    have tab: "reads bs read_tables (tables_bits s cd) ?bt" by (rule reads_tables [OF s(1,5)])
    have loop: "reads bs (symbol_loop ?bt m 50 0 (tree_of (lens cd ! unat (sels cd ! 0))) ?st) (symbol_bits cd 50 0 (block_symbols s)) s'"
      by (rule reads_symbol_loop [OF s(5) refl n(1) s'(1) ys sel0]) (use s(6) in simp)
    have fin: "reads bs (if ?p \<ge> length (tt s') then failR (BlockError ''orig_ptr out of bounds'')
       else liftR (inverse_bwt (tt s') ?p (counts s'))) [] (linked ?L, of_nat t)"
      using p t(2) s'(2,3) by (auto intro!: reads_liftR)
    have rest: "reads bs (bindR (liftR (bindE (index (selectors ?bt) 0) (\<lambda>sel. index (trees ?bt) (unat sel)))) (\<lambda>tree.
       bindR (symbol_loop ?bt m 50 0 tree ?st) (\<lambda>s.
       if ?p \<ge> length (tt s) then failR (BlockError ''orig_ptr out of bounds'')
       else liftR (inverse_bwt (tt s) ?p (counts s))))) ([] @ symbol_bits cd 50 0 (block_symbols s) @ []) (linked ?L, of_nat t)"
      by (rule reads_bindR [OF reads_liftR [OF next_tree_of(2) [OF s(5) sel0]]], rule reads_bindR [OF loop]) (rule fin)
    then have "reads bs (bindR (liftR (bindE (index (selectors ?bt) 0) (\<lambda>sel. index (trees ?bt) (unat sel)))) (\<lambda>tree.
       bindR (symbol_loop ?bt m 50 0 tree ?st) (\<lambda>s.
       if ?p \<ge> length (tt s) then failR (BlockError ''orig_ptr out of bounds'')
       else liftR (inverse_bwt (tt s) ?p (counts s))))) (symbol_bits cd 50 0 (block_symbols s)) (linked ?L, of_nat t)"
      by simp
    then show ?thesis
      unfolding decode_block_common_def encode_block_def by (rule reads_bindR [OF hdr reads_bindR [OF tab]])
  qed
  with t(1,3) show ?thesis by blast
qed

subsection \<open>Properties\<close>

lemma block_into_parses:
  assumes "encodable m crc cd (rle1_encode d)" "length d \<le> out_cap"
  shows "parses (reader_at bs) bits_of (decode_block_into m out_cap) (encode_block crc cd (rle1_encode d)) d"
proof -
  let ?s = "rle1_encode d"
  obtain t where t: "t < length ?s" "walk_bytes (bwt_last ?s) (length ?s) t = ?s"
    "\<And>bs. reads bs (decode_block_common ([], 0) m) (encode_block crc cd ?s) (linked (bwt_last ?s), of_nat t)"
    using reads_common [OF assms(1)] by blast
  have len: "length (bwt_last ?s) \<le> 2 ^ 24" using assms(1) by (simp add: encodable_def MAX_BLOCKSIZE_def)
  have "rle2_spec ?s = d" by (rule expand_encode) simp_all
  then have into: "rle2_decode_into (linked (bwt_last ?s)) (of_nat t) out_cap = Inr d"
    using decode_into_walk [of t "bwt_last ?s" out_cap] t(1,2) len assms(2) by simp
  have "reads bs (decode_block_into_slot ([], 0) m out_cap) (encode_block crc cd ?s)
      (d, return_tt_buffer (linked (bwt_last ?s), snd (fst (take_tt_buffer m ([], 0)))) (snd (take_tt_buffer m ([], 0))))"
    unfolding decode_block_into_slot_def
    by (rule reads_map [OF t(3)]) (simp add: fun_eq_iff bindR_def reading_simps into)
  then show ?thesis
    unfolding decode_block_into_def by (rule reads_map) simp
qed

text \<open>
  C10. Round trip of a whole block: for any data whose run-length encoding fits a block of at most
  900000 bytes, any checksum, any two to six complete or incomplete prefix codes and any selectors for
  the groups of 50 symbols, \<open>decode_block_into\<close> on the bits of the encoded block, at any position of any slice
  and whatever follows, returns the data, given room for it, and stops right after the block.
\<close>

theorem block_roundtrip:
  assumes "encodable m crc cd (rle1_encode d)" "length d \<le> out_cap"
  shows "parses (reader_at bs) bits_of (decode_block_into m out_cap) (encode_block crc cd (rle1_encode d)) d"
  by (rule block_into_parses [OF assms])

text \<open>The same for \<open>decode_block\<close>, on data its buffer is large enough for.\<close>

lemma block_alloc_roundtrip:
  assumes "encodable m crc cd (rle1_encode d)" "length d \<le> length (rle1_encode d) + length (rle1_encode d) div 4"
  shows "parses (reader_at bs) bits_of (decode_block m) (encode_block crc cd (rle1_encode d)) d"
proof -
  let ?s = "rle1_encode d"
  obtain t where t: "t < length ?s" "walk_bytes (bwt_last ?s) (length ?s) t = ?s"
    "\<And>bs. reads bs (decode_block_common ([], 0) m) (encode_block crc cd ?s) (linked (bwt_last ?s), of_nat t)"
    using reads_common [OF assms(1)] by blast
  have len: "length (bwt_last ?s) \<le> 2 ^ 24" using assms(1) by (simp add: encodable_def MAX_BLOCKSIZE_def)
  have "rle2_spec ?s = d" by (rule expand_encode) simp_all
  then have out: "rle2_decode_alloc (linked (bwt_last ?s)) (of_nat t) = Inr d"
    using decode_alloc_fits [of t "bwt_last ?s"] t(1,2) len assms(2) by simp
  have "reads bs (decode_block_slot ([], 0) m) (encode_block crc cd ?s)
      (d, return_tt_buffer (linked (bwt_last ?s), snd (fst (take_tt_buffer m ([], 0)))) (snd (take_tt_buffer m ([], 0))))"
    unfolding decode_block_slot_def
    by (rule reads_map [OF t(3)]) (simp add: fun_eq_iff bindR_def reading_simps out)
  then show ?thesis
    unfolding decode_block_def by (rule reads_map) simp
qed

definition sample_coding :: coding where
  "sample_coding = \<lparr>lens = [[2, 2, 2, 2], [2, 2, 2, 2]], sels = [1]\<rparr>"

lemma sample_encodable: "encodable 900000 0 sample_coding (rle1_encode [98, 97])"
proof -
  have e: "rle1_encode [98, 97] = [98, 97]" by code_simp
  have u: "used_of [98, 97] = [97, 98]" by code_simp
  have y: "block_symbols [98, 97] = [2, 2, 3]" by code_simp
  show ?thesis unfolding e encodable_def u
    by (simp add: y sample_coding_def coding_ok_def code_lengths_ok_def used_symbols_def kraft_def weight_def max_len_def
        MAX_BLOCKSIZE_def MAX_SELECTORS_def)
qed

theorem block_roundtrip_witness:
  "\<forall>bs. parses (reader_at bs) bits_of (decode_block_into 900000 2) (encode_block 0 sample_coding (rle1_encode [98, 97])) [98, 97]"
  using block_roundtrip [OF sample_encodable, of 2] by simp

text \<open>
  C18. The check \<open>sel >= n_trees\<close> is never true: the selector loop leaves its unary code below the
  number of groups, and move-to-front decoding of such indices permutes the first \<open>n_groups\<close> entries of
  the identity table. For tables read from any input, no switch of the tree fails with "selector out of range".
\<close>

theorem selector_always_in_range:
  assumes "reader_at bs r" "read_tables r = Inr (bt, r')"
  shows "next_tree bt i \<noteq> Inl (BlockError ''selector out of range'') \<and>
    (\<forall>s\<in>set (selectors bt). unat s < n_trees bt)"
proof -
  from runs_one [OF runs_tables assms(1) order_refl] assms(2) have "tables_ok bt" by (auto simp: block_fault_def)
  with next_tree_ok(2) show ?thesis by (auto simp: tables_ok_def)
qed

theorem selector_always_in_range_witness:
  "\<exists>r bt r'. read_tables r = Inr (bt, r') \<and> n_trees bt = 2 \<and> (\<forall>s\<in>set (selectors bt). unat s < n_trees bt)"
proof -
  let ?w = "tables_bits (rle1_encode [98, 97]) sample_coding"
  obtain k where "stream_bits (pack_bits ?w) = ?w @ replicate k False" using stream_bits_pack by blast
  then obtain r where r: "reader_at (pack_bits ?w) r" "bits_of r = ?w @ replicate k False"
    by (metis from_bit_offset_bits [of "pack_bits ?w" 0] drop_0 reader_at_def le0)
  have "reads (pack_bits ?w) read_tables ?w (tables_of (rle1_encode [98, 97]) sample_coding)"
    using sample_encodable by (intro reads_tables) (simp_all add: encodable_def)
  then obtain r' where "read_tables r = Inr (tables_of (rle1_encode [98, 97]) sample_coding, r')"
    using r by (rule parsesD)
  moreover from selector_always_in_range [OF r(1) this] have
    "\<forall>s\<in>set (selectors (tables_of (rle1_encode [98, 97]) sample_coding)). unat s < n_trees (tables_of (rle1_encode [98, 97]) sample_coding)" by blast
  moreover have "n_trees (tables_of (rle1_encode [98, 97]) sample_coding) = 2" by (simp add: tables_of_def sample_coding_def)
  ultimately show ?thesis by blast
qed

end
