(* ===== verification/Block_Outcomes.thy ===== *)
theory Block_Outcomes
  imports Block_Safety
begin

text \<open>
  What there is at a bit of a slice: the result of a reading program started there, and where it stops. The statements about whole
  streams and segments are made over these places. Here: the outcomes of the two block decoders at a place, each with its reason.
\<close>

definition at_bit :: "'a reading \<Rightarrow> u8 list \<Rightarrow> nat \<Rightarrow> ('a \<times> nat) result" where
  "at_bit m data p = bindE (from_bit_offset data p) (\<lambda>r. bindE (m r) (\<lambda>(x, r'). bindE (position r') (\<lambda>q. Inr (x, q))))"

lemma position_at: "reader_at data r \<Longrightarrow> position r = Inr (bit_pos r)"
  by (simp add: reader_at_def position_ok)

lemma reader_at_moved:
  assumes "reader_at data r" "reader_at data r'" "bits_of r' = drop n (bits_of r)" "n \<le> length (bits_of r)"
  shows "bit_pos r' = bit_pos r + n"
proof -
  have "length (bits_of r) = 8 * length data - bit_pos r" "bit_pos r \<le> 8 * length data"
      "length (bits_of r') = 8 * length data - bit_pos r'" "bit_pos r' \<le> 8 * length data"
    using assms(1,2) by (auto simp: reader_at_def length_bits_of)
  moreover have "length (bits_of r') = length (bits_of r) - n" by (simp add: assms(3))
  ultimately show ?thesis using assms(4) by linarith
qed

text \<open>A program that runs on any input gives at a place what it gives on a reader that has come there.\<close>

lemma runs_at:
  assumes "runs n d E Q m" "reader_at data r" "length (bits_of r) \<le> n"
  obtains e where "E e" "m r = Inl e" "at_bit m data (bit_pos r) = Inl e"
  | x q where "Q x" "m r = Inr (x, q)" "at_bit m data (bit_pos r) = Inr (x, bit_pos q)" "reader_at data q"
      "length (bits_of q) \<le> length (bits_of r) - d" "bit_pos r + d \<le> bit_pos q"
proof -
  have r: "bytes r = data" "bit_pos r \<le> 8 * length data" using assms(2) by (simp_all add: reader_at_def)
  obtain r0 where r0: "from_bit_offset data (bit_pos r) = Inr r0" "reader_at data r0" "bits_of r = bits_of r0"
    by (rule from_bit_offset_bits [of data "bit_pos r"]) (use r in \<open>simp add: reader_at_def bits_of_def\<close>)
  from runs_cases [OF assms(1,2) r0(2,3) assms(3)] show thesis
  proof cases
    case (1 e)
    then show thesis using that(1) r0(1) by (simp add: at_bit_def)
  next
    case (2 x q q' k)
    have "bit_pos q = bit_pos r + k" by (rule reader_at_moved [OF assms(2) 2(6,8,3)])
    moreover have "bit_pos q' = bit_pos q" using reader_at_pos [OF 2(6)] reader_at_pos [OF 2(7)] 2(8,9) by simp
    ultimately show thesis using that(2) [of x q] 2 r0(1) position_at [OF 2(7)] by (simp add: at_bit_def)
  qed
qed

subsection \<open>The column of a block, and the panic of a table\<close>

text \<open>The block at bit \<open>p\<close> has the bytes \<open>w\<close> before its runs are expanded.\<close>

definition block_bytes :: "nat \<Rightarrow> u8 list \<Rightarrow> nat \<Rightarrow> u8 list \<Rightarrow> bool" where
  "block_bytes m data p w \<longleftrightarrow> (\<exists>L i q. at_bit (decode_block_common ([], 0) m) data p = Inr ((linked L, of_nat i), q) \<and>
     i < length L \<and> length L \<le> m \<and> w = column_bytes L i)"

text \<open>One of its tables has over-subscribed code lengths.\<close>

definition table_panics :: "u8 list \<Rightarrow> nat \<Rightarrow> fault \<Rightarrow> bool" where
  "table_panics data p e \<longleftrightarrow> (\<exists>msg i lengths q. e = Panic msg \<and> at_bit (table_lengths i) data p = Inr (lengths, q) \<and>
     from_lengths lengths = Inl e \<and> over_subscribed lengths)"

lemma runs_table_lengths: "runs n 0 block_fault (\<lambda>_. True) (table_lengths i)"
  unfolding table_lengths_def
  by (rule runs_bind0 [OF runs_header], rule runs_bind0 [OF runs_used_bytes], rule runs_bind0 [OF runs_n_groups], rule runs_bind0 [OF runs_n_selectors])
    (auto intro!: runs_bind0 [OF first_selectors] runs_bind0 [OF runs_repeatR] runs_weaken [OF runs_code_lengths] runs_failR)

lemma panic_at:
  assumes "reader_at data r" "m \<le> 2 ^ 24" "decode_block_common slot m r = Inl (Panic msg)"
  shows "table_panics data (bit_pos r) (Panic msg)"
proof -
  from common_panic [OF assms] obtain i lengths q where t: "table_lengths i r = Inr (lengths, q)" "from_lengths lengths = Inl (Panic msg)"
    "over_subscribed lengths" by blast
  then obtain q' where "at_bit (table_lengths i) data (bit_pos r) = Inr (lengths, q')"
    by (cases rule: runs_at [OF runs_table_lengths assms(1) order_refl, of i]) auto
  with t(2,3) show ?thesis by (auto simp: table_panics_def)
qed

lemma common_at:
  assumes "reader_at data r" "m \<le> 2 ^ 24"
  obtains msg where "decode_block_common ([], 0) m r = Inl (BlockError msg)"
  | msg where "decode_block_common ([], 0) m r = Inl (Panic msg)" "table_panics data (bit_pos r) (Panic msg)"
  | L i q where "decode_block_common ([], 0) m r = Inr ((linked L, of_nat i), q)" "block_bytes m data (bit_pos r) (column_bytes L i)"
      "i < length L" "length L \<le> m" "length L \<le> 2 ^ 24"
proof (cases rule: runs_at [OF runs_common [OF assms(2)] assms(1) order_refl, of "([], 0)"])
  case (1 e)
  then show thesis using that(1,2) panic_at [OF assms, of "([], 0)"] by (auto simp: table_fault_def block_fault_def)
next
  case (2 x q)
  then obtain L i where "x = (linked L, of_nat i)" "i < length L" "length L \<le> m" by (auto simp: block_result_def)
  with 2 assms(2) that(3) [of L i q] show thesis unfolding block_bytes_def by auto
qed

subsection \<open>The outcomes of the decoders\<close>

text \<open>
  The decoder that grows its output fails with an error value, on a table, or with a write outside its output, which needs a block
  that expands by more than a quarter.
\<close>

definition block_fails :: "nat \<Rightarrow> u8 list \<Rightarrow> nat \<Rightarrow> fault \<Rightarrow> bool" where
  "block_fails m data p e \<longleftrightarrow> (\<exists>msg. e = BlockError msg) \<or> table_panics data p e \<or>
     (e = Undefined ''write outside output'' \<and> (\<exists>w. block_bytes m data p w \<and> length w + length w div 4 < length (rle2_spec w)))"

text \<open>The decoder into a buffer of \<open>cap\<close> bytes fails with an error value, on a table, or on a block that does not fit the buffer.\<close>

definition into_fails :: "nat \<Rightarrow> nat \<Rightarrow> u8 list \<Rightarrow> nat \<Rightarrow> fault \<Rightarrow> bool" where
  "into_fails m cap data p e \<longleftrightarrow> (\<exists>msg. e = BlockError msg) \<or> table_panics data p e \<or>
     (\<exists>msg w. e = Panic msg \<and> block_bytes m data p w \<and> cap < length (rle2_spec w))"

lemma length_column [simp]: "length (column_bytes L i) = length L"
  by (simp add: column_bytes_def)

lemma block_at:
  assumes "reader_at data r" "m \<le> 2 ^ 24"
  obtains e where "decode_block m r = Inl e" "at_bit (decode_block m) data (bit_pos r) = Inl e" "block_fails m data (bit_pos r) e"
  | w q where "decode_block m r = Inr (rle2_spec w, q)" "at_bit (decode_block m) data (bit_pos r) = Inr (rle2_spec w, bit_pos q)"
      "block_bytes m data (bit_pos r) w" "reader_at data q" "length (bits_of q) \<le> length (bits_of r)"
proof -
  have outcome: "block_fails m data (bit_pos r) e" if "decode_block m r = Inl e" for e
  proof (cases rule: common_at [OF assms])
    case (3 L i q)
    then show ?thesis using that decode_alloc_cases [OF 3(3,5)] decode_alloc_fits [OF 3(3,5)]
      by (auto simp: decode_block_def decode_block_slot_def bindR_def reading_simps block_fails_def column_bytes_def not_le [symmetric])
  qed (use that in \<open>auto simp: decode_block_def decode_block_slot_def bindR_def block_fails_def\<close>)
  have bytes: "\<exists>w. out = rle2_spec w \<and> block_bytes m data (bit_pos r) w" if "decode_block m r = Inr (out, q)" for out q
  proof (cases rule: common_at [OF assms])
    case (3 L i q')
    then show ?thesis using that decode_alloc_cases [OF 3(3,5)]
      by (auto simp: decode_block_def decode_block_slot_def bindR_def reading_simps column_bytes_def)
  qed (use that in \<open>auto simp: decode_block_def decode_block_slot_def bindR_def\<close>)
  show thesis
  proof (cases rule: runs_at [OF runs_block [OF assms(2)] assms(1) order_refl])
    case (1 e)
    with that(1) outcome show thesis by blast
  next
    case (2 x q)
    with bytes obtain w where "x = rle2_spec w" "block_bytes m data (bit_pos r) w" by blast
    with 2 that(2) [of w q] show thesis by auto
  qed
qed

lemma into_at:
  assumes "reader_at data r" "m \<le> 2 ^ 24"
  obtains e where "decode_block_into m cap r = Inl e" "at_bit (decode_block_into m cap) data (bit_pos r) = Inl e" "into_fails m cap data (bit_pos r) e"
  | w q where "decode_block_into m cap r = Inr (rle2_spec w, q)" "at_bit (decode_block_into m cap) data (bit_pos r) = Inr (rle2_spec w, bit_pos q)"
      "block_bytes m data (bit_pos r) w" "length (rle2_spec w) \<le> cap" "reader_at data q" "length (bits_of q) \<le> length (bits_of r)"
proof -
  have outcome: "into_fails m cap data (bit_pos r) e" if "decode_block_into m cap r = Inl e" for e
  proof (cases rule: common_at [OF assms])
    case (3 L i q)
    then show ?thesis using that decode_into_walk [OF 3(3,5), of cap]
      by (auto simp: decode_block_into_def decode_block_into_slot_def bindR_def reading_simps into_fails_def column_bytes_def split: if_splits)
  qed (use that in \<open>auto simp: decode_block_into_def decode_block_into_slot_def bindR_def into_fails_def\<close>)
  have bytes: "\<exists>w. out = rle2_spec w \<and> block_bytes m data (bit_pos r) w" if "decode_block_into m cap r = Inr (out, q)" for out q
  proof (cases rule: common_at [OF assms])
    case (3 L i q')
    then show ?thesis using that decode_into_walk [OF 3(3,5), of cap]
      by (auto simp: decode_block_into_def decode_block_into_slot_def bindR_def reading_simps column_bytes_def split: if_splits)
  qed (use that in \<open>auto simp: decode_block_into_def decode_block_into_slot_def bindR_def\<close>)
  show thesis
  proof (cases rule: runs_at [OF runs_block_into [OF assms(2)] assms(1) order_refl, of cap])
    case (1 e)
    with that(1) outcome show thesis by blast
  next
    case (2 x q)
    with bytes obtain w where "x = rle2_spec w" "block_bytes m data (bit_pos r) w" by blast
    with 2 that(2) [of w q] show thesis by auto
  qed
qed

end
