(* ===== verification/Stream_Decoder.thy ===== *)
theory Stream_Decoder
  imports Block_Roundtrip Block_Outcomes
begin

text \<open>
  The sequential decoder of a whole stream (\<open>stream.rs\<close>): the four header bytes, the loop over
  the 48-bit magics, and the concatenation of the blocks. The loop ends because every operation on
  the reader only ever takes bits from it (\<open>shrinks\<close>), also on a reader in any state.
\<close>

subsection \<open>Operations that only take bits\<close>

definition shrinks :: "'a reading \<Rightarrow> bool" where
  "shrinks m \<longleftrightarrow> (\<forall>r x r'. m r = Inr (x, r') \<longrightarrow> bits_left r' \<le> bits_left r)"

named_theorems shrink_intros \<open>reading programs that only take bits\<close>

lemma shrinksI: "(\<And>r x r'. m r = Inr (x, r') \<Longrightarrow> bits_left r' \<le> bits_left r) \<Longrightarrow> shrinks m"
  by (simp add: shrinks_def)

lemma shrinksD: "shrinks m \<Longrightarrow> m r = Inr (x, r') \<Longrightarrow> bits_left r' \<le> bits_left r"
  by (auto simp: shrinks_def)

lemma shrinks_basic [shrink_intros]: "shrinks (returnR x)" "shrinks (failR e)" "shrinks (liftR m)"
  by (auto simp: shrinks_def reading_simps result_simps)

lemma shrinks_bindR [shrink_intros]: "shrinks m \<Longrightarrow> (\<And>x. shrinks (k x)) \<Longrightarrow> shrinks (bindR m k)"
  unfolding shrinks_def bindR_Inr_iff by (metis order_trans)

lemma shrinks_if [shrink_intros]: "shrinks m \<Longrightarrow> shrinks m' \<Longrightarrow> shrinks (if b then m else m')"
  by simp

lemma shrinks_prod [shrink_intros]: "(\<And>x y. shrinks (k x y)) \<Longrightarrow> shrinks (case p of (x, y) \<Rightarrow> k x y)"
  by (cases p) simp

lemma shrinks_require [shrink_intros]: "shrinks m \<Longrightarrow> shrinks (require msg m)"
  by (auto simp: shrinks_def require_Inr_iff)

lemma shrinks_repeatR [shrink_intros]: "shrinks m \<Longrightarrow> shrinks (repeatR n m)"
  by (induction n) (simp_all add: repeatR_eqs shrink_intros)

lemma shrinks_read_bit [shrink_intros]: "shrinks read_bit"
  by (rule shrinksI) (auto dest: left_read_bit)

lemma shrinks_read_bits [shrink_intros]: "shrinks (read_bits n)"
  by (rule shrinksI) (auto dest: left_read_bits)

lemma shrinks_read_uint [shrink_intros]: "shrinks (read_uint k n :: 'a::len word option reading)"
proof (rule shrinksI)
  fix r and x :: "'a word option" and r'
  assume "read_uint k n r = Inr (x, r')"
  then obtain v where "read_bits n r = Inr (v, r')" by (auto simp: read_uint_def result_simps)
  then show "bits_left r' \<le> bits_left r" by (rule shrinksD [OF shrinks_read_bits])
qed

lemma shrinks_fields [shrink_intros]: "shrinks (read_u8 n)" "shrinks (read_u16 n)" "shrinks (read_u32 n)"
  by (simp_all add: read_u8_def [abs_def] read_u16_def [abs_def] read_u32_def [abs_def] shrinks_read_uint)

lemma shrinks_read_u64 [shrink_intros]: "shrinks (read_u64 n)"
  by (rule shrinksI) (auto simp: read_u64_def result_simps dest: left_read_bits)

lemma shrinks_decode [shrink_intros]: "shrinks (require msg (decode t))"
  by (rule shrinksI) (auto simp: require_Inr_iff dest: left_decode)

lemma shrinks_read_subs [shrink_intros]: "shrinks (read_subs i subs)"
  by (induction i subs rule: read_subs.induct) (auto intro!: shrink_intros simp del: read_subs.simps simp: read_subs.simps [abs_def])

lemma shrinks_read_ranges [shrink_intros]: "shrinks (read_ranges rs)"
  by (induction rs rule: read_ranges.induct) (auto intro!: shrink_intros simp del: read_ranges.simps simp: read_ranges.simps [abs_def])

lemma shrinks_read_selector [shrink_intros]: "shrinks (read_selector g t)"
proof (rule shrinksI)
  show "read_selector g t r = Inr (x, r') \<Longrightarrow> bits_left r' \<le> bits_left r" for r x r'
  proof (induction g t r rule: read_selector.induct)
    case (1 g t r)
    from "1.prems" obtain b r1 where b: "read_bit r = Inr (Some b, r1)"
      and rest: "(if b then if t + 1 \<ge> g then Inl (BlockError ''selector tree index too large'')
        else read_selector g (t + 1) r1 else Inr (t, r1)) = Inr (x, r')"
      by (subst (asm) read_selector.simps) (auto simp: result_simps)
    have le: "bits_left r1 \<le> bits_left r" by (rule shrinksD [OF shrinks_read_bit b])
    have req: "require ''selector bit truncated'' read_bit r = Inr (b, r1)" using b by (simp add: require_Inr_iff)
    show ?case
    proof (cases "b \<and> \<not> t + 1 \<ge> g")
      case True
      with rest have "read_selector g (t + 1) r1 = Inr (x, r')" by simp
      from "1.IH" [OF req _ _ this] True le show ?thesis by simp
    next
      case False
      with rest le show ?thesis by (auto split: if_splits)
    qed
  qed
qed

lemma shrinks_read_selectors [shrink_intros]: "shrinks (read_selectors n g d)"
proof (induction n arbitrary: d)
  case 0
  show ?case unfolding read_selectors.simps [abs_def] by (intro shrink_intros)
next
  case (Suc n)
  show ?case
    unfolding read_selectors.simps [abs_def] by (intro shrink_intros Suc.IH)
qed

lemma shrinks_read_length [shrink_intros]: "shrinks (read_length l)"
proof (rule shrinksI)
  show "read_length l r = Inr (x, r') \<Longrightarrow> bits_left r' \<le> bits_left r" for r x r'
  proof (induction l r rule: read_length.induct)
    case (1 l r)
    have l: "\<not> (l < 1 \<or> l > 20)"
      using "1.prems" by (subst (asm) read_length.simps) (auto split: if_splits)
    with "1.prems" obtain b1 r1 where b1: "read_bit r = Inr (Some b1, r1)"
      and rest: "(if \<not> b1 then Inr (l, r1)
        else bindR (require ''length adjust bit2 truncated'' read_bit) (\<lambda>b2 r2.
          read_length (if b2 then l - 1 else l + 1) r2) r1) = Inr (x, r')"
      by (subst (asm) read_length.simps) (auto simp: bindR_Inr_iff require_Inr_iff)
    have le: "bits_left r1 \<le> bits_left r" by (rule shrinksD [OF shrinks_read_bit b1])
    have req: "require ''length adjust bit1 truncated'' read_bit r = Inr (b1, r1)" using b1 by (simp add: require_Inr_iff)
    show ?case
    proof (cases b1)
      case True
      with rest obtain b2 r2 where b2: "require ''length adjust bit2 truncated'' read_bit r1 = Inr (b2, r2)"
        and rec: "read_length (if b2 then l - 1 else l + 1) r2 = Inr (x, r')" by (auto simp: bindR_Inr_iff)
      have "bits_left r2 \<le> bits_left r1" by (rule shrinksD [OF shrinks_require [OF shrinks_read_bit] b2])
      moreover have "bits_left r' \<le> bits_left r2" by (rule "1.IH" [OF l req _ b2 rec]) (simp add: True)
      ultimately show ?thesis using le by simp
    next
      case False
      with rest le show ?thesis by simp
    qed
  qed
qed

lemma shrinks_read_lengths [shrink_intros]: "shrinks (read_lengths n l)"
proof (induction n arbitrary: l)
  case 0
  show ?case by (simp add: read_lengths.simps [abs_def] shrink_intros)
next
  case (Suc n)
  show ?case unfolding read_lengths.simps [abs_def] by (intro shrink_intros Suc.IH)
qed

lemma shrinks_read_tables [shrink_intros]: "shrinks read_header" "shrinks read_tables"
  unfolding read_header_def read_tables_def read_used_bytes_def read_n_groups_def read_n_selectors_def read_tree_def
  by (intro shrink_intros)+

lemma shrinks_symbol_loop [shrink_intros]: "shrinks (symbol_loop bt m left i t s)"
proof (rule shrinksI)
  show "symbol_loop bt m left i t s r = Inr (x, r') \<Longrightarrow> bits_left r' \<le> bits_left r" for r x r'
  proof (induction bt m left i t s r rule: symbol_loop.induct)
    case (1 bt m left i t s r)
    show ?case
    proof (cases "left = 0")
      case True
      with "1.prems" obtain t' where t': "next_tree bt (i + 1) = Inr t'" "symbol_loop bt m 50 (i + 1) t' s r = Inr (x, r')"
        by (subst (asm) symbol_loop.simps) (auto simp: result_simps)
      then show ?thesis using "1.IH"(1) True by blast
    next
      case False
      with "1.prems" obtain sy r1 b s' where d: "require ''huffman bitstream truncated'' (decode t) r = Inr (sy, r1)"
        and st: "symbol_step m (eob_symbol bt) sy s = Inr (b, s')"
        and rest: "(if b then Inr (s', r1) else symbol_loop bt m (left - 1) i t s' r1) = Inr (x, r')"
        by (subst (asm) symbol_loop.simps) (auto simp: bindE_Inr_iff bindR_Inr_iff)
      have le: "bits_left r1 \<le> bits_left r" by (rule shrinksD [OF shrinks_decode d])
      show ?thesis
      proof (cases b)
        case True
        with rest le show ?thesis by simp
      next
        case b: False
        with rest have rec: "symbol_loop bt m (left - 1) i t s' r1 = Inr (x, r')" by simp
        have "bits_left r' \<le> bits_left r1"
          by (rule "1.IH"(2) [OF False d st refl _ rec]) (simp add: b)
        with le show ?thesis by simp
      qed
    qed
  qed
qed

lemma shrinks_decode_block [shrink_intros]: "shrinks (decode_block m)" "shrinks (decode_block_into m out_cap)"
  unfolding decode_block_def decode_block_slot_def decode_block_into_def decode_block_into_slot_def decode_block_common_def
  by (intro shrink_intros)+

subsection \<open>The decoder\<close>

definition BLOCK_MAGIC :: u64 where "BLOCK_MAGIC = 0x314159265359"
definition FINAL_MAGIC :: u64 where "FINAL_MAGIC = 0x177245385090"

definition stream_header :: "u8 list \<Rightarrow> nat result" where
  "stream_header data =
     bindE (guard (4 \<le> length data) (BlockError ''input too short for bzip2 header'')) (\<lambda>_.
     bindE (guard (take 2 data = [0x42, 0x5A]) (BlockError ''bad bzip2 signature'')) (\<lambda>_.
     bindE (guard (data ! 2 = 0x68) (BlockError ''only huffman bzip2 supported'')) (\<lambda>_.
     let level = data ! 3 in
     bindE (guard (0x31 \<le> level \<and> level \<le> 0x39) (BlockError ''invalid bzip2 block size level'')) (\<lambda>_.
     Inr (100000 * unat (level - 0x30))))))"

lemma read_magic_left: "require msg (read_u64 48) r = Inr (v, r') \<Longrightarrow> bits_left r' + 48 = bits_left r"
  by (auto simp: require_Inr_iff read_u64_def result_simps dest: left_read_bits)

function stream_loop :: "nat \<Rightarrow> u8 list \<Rightarrow> bitreader \<Rightarrow> (u8 list \<times> bitreader) result" where
  "stream_loop max_blocksize output r =
     bindR (require ''unexpected end of stream'' (read_u64 48)) (\<lambda>magic r1.
       if magic = BLOCK_MAGIC
       then bindR (decode_block max_blocksize) (\<lambda>block_data r2. stream_loop max_blocksize (output @ block_data) r2) r1
       else if magic = FINAL_MAGIC then Inr (output, r1)
       else Inl (BlockError ''invalid block magic'')) r"
  by pat_completeness auto
termination
proof (relation "measure (\<lambda>(m, out, r). bits_left r)")
  fix m out r v r1 d r2
  assume "require ''unexpected end of stream'' (read_u64 48) r = Inr (v, r1)" "decode_block m r1 = Inr (d, r2)"
  then show "((m, out @ d, r2), m, out, r) \<in> measure (\<lambda>(m, out, r). bits_left r)"
    using read_magic_left [of "''unexpected end of stream''" r v r1] shrinksD [OF shrinks_decode_block(1), of m r1 d r2] by simp
qed simp

declare stream_loop.simps [simp del]

definition decompress :: "u8 list \<Rightarrow> u8 list result" where
  "decompress data =
     bindE (stream_header data) (\<lambda>max_blocksize.
     bindE (from_bit_offset data (4 * 8)) (\<lambda>r.
     bindE (stream_loop max_blocksize [] r) (\<lambda>(output, r'). Inr output)))"

lemma stream_loop_eq:
  "stream_loop m out = bindR (require ''unexpected end of stream'' (read_u64 48)) (\<lambda>magic.
     if magic = BLOCK_MAGIC then bindR (decode_block m) (\<lambda>d. stream_loop m (out @ d))
     else if magic = FINAL_MAGIC then returnR out else failR (BlockError ''invalid block magic''))"
  by (rule ext, subst stream_loop.simps, rule bindR_cong) (auto simp: reading_simps)

subsection \<open>Streams\<close>

text \<open>
  The encoder's side: a block is given by its checksum, its code tables and its data, a
  stream by its level, its blocks and the checksum after the final magic.
\<close>

type_synonym coded_block = "nat \<times> coding \<times> u8 list"

definition magic_bits :: "u64 \<Rightarrow> bool list" where
  "magic_bits m = nat_bits 48 (unat m)"

definition block_data :: "coded_block \<Rightarrow> u8 list" where
  "block_data = (\<lambda>(crc, cd, d). d)"

definition block_bits :: "coded_block \<Rightarrow> bool list" where
  "block_bits = (\<lambda>(crc, cd, d). encode_block crc cd (rle1_encode d))"

definition blocks_bits :: "coded_block list \<Rightarrow> bool list" where
  "blocks_bits blocks = concat (map (\<lambda>b. magic_bits BLOCK_MAGIC @ block_bits b) blocks)"

definition header_bytes :: "nat \<Rightarrow> u8 list" where
  "header_bytes level = [0x42, 0x5A, 0x68, 0x30 + of_nat level]"

definition encode_stream :: "nat \<Rightarrow> coded_block list \<Rightarrow> nat \<Rightarrow> u8 list" where
  "encode_stream level blocks crc =
     header_bytes level @ pack_bits (blocks_bits blocks @ magic_bits FINAL_MAGIC @ nat_bits 32 crc)"

text \<open>What a block of a stream must satisfy for the decoder that grows its output.\<close>

definition block_fits :: "nat \<Rightarrow> coded_block \<Rightarrow> bool" where
  "block_fits m = (\<lambda>(crc, cd, d). encodable m crc cd (rle1_encode d) \<and>
     length d \<le> length (rle1_encode d) + length (rle1_encode d) div 4)"

lemma reads_magic:
  assumes "unat m < 2 ^ 48"
  shows "reads bs (require msg (read_u64 48)) (magic_bits m) m"
proof -
  have "(word_of_bits (magic_bits m) :: u64) = m"
    using word_of_nat_bits [of "unat m" 48, where 'a = 64] assms by (simp add: magic_bits_def)
  moreover have "reads bs (read_bits 48) (magic_bits m) (Some (word_of_bits (magic_bits m)))"
    by (rule br.parses_readn) (simp_all add: magic_bits_def)
  moreover have "read_u64 48 = read_bits 48" by (rule ext) (simp add: read_u64_def)
  ultimately show ?thesis by (metis reads_require)
qed

lemma reads_BLOCK_MAGIC: "reads bs (require msg (read_u64 48)) (magic_bits BLOCK_MAGIC) BLOCK_MAGIC"
  and reads_FINAL_MAGIC: "reads bs (require msg (read_u64 48)) (magic_bits FINAL_MAGIC) FINAL_MAGIC"
  by (rule reads_magic, simp add: BLOCK_MAGIC_def FINAL_MAGIC_def)+

lemma magics_differ: "FINAL_MAGIC \<noteq> BLOCK_MAGIC"
  by (simp add: BLOCK_MAGIC_def FINAL_MAGIC_def)

lemma reads_block: "block_fits m b \<Longrightarrow> reads bs (decode_block m) (block_bits b) (block_data b)"
  by (cases b) (auto simp: block_fits_def block_bits_def block_data_def intro: block_alloc_roundtrip)

lemma reads_stream_loop:
  assumes "\<forall>b\<in>set blocks. block_fits m b"
  shows "reads bs (stream_loop m out) (blocks_bits blocks @ magic_bits FINAL_MAGIC) (out @ concat (map block_data blocks))"
  using assms
proof (induction blocks arbitrary: out)
  case Nil
  show ?case
    by (subst stream_loop_eq)
      (simp add: blocks_bits_def, rule reads_map [OF reads_FINAL_MAGIC], simp add: magics_differ)
next
  case (Cons b blocks)
  let ?rest = "blocks_bits blocks @ magic_bits FINAL_MAGIC"
  have fits: "block_fits m b" "\<forall>b\<in>set blocks. block_fits m b" using Cons.prems by simp_all
  have "reads bs (stream_loop m (out @ block_data b)) ?rest ((out @ block_data b) @ concat (map block_data blocks))"
    by (rule Cons.IH [OF fits(2)])
  from reads_bindR [OF reads_block [OF fits(1)], of bs "\<lambda>d. stream_loop m (out @ d)", OF this]
  have "reads bs (stream_loop m out) (magic_bits BLOCK_MAGIC @ block_bits b @ ?rest) ((out @ block_data b) @ concat (map block_data blocks))"
    by (subst stream_loop_eq) (rule reads_bindR [OF reads_BLOCK_MAGIC], simp)
  then show ?case by (simp add: blocks_bits_def)
qed

lemma stream_header_bytes:
  assumes "1 \<le> level" "level \<le> 9"
  shows "stream_header (header_bytes level @ rest) = Inr (100000 * level)"
proof -
  have "level \<in> {1, 2, 3, 4, 5, 6, 7, 8, 9}" using assms by auto
  then show ?thesis by (auto simp: stream_header_def header_bytes_def Let_def)
qed

text \<open>What follows the blocks decides how the loop ends.\<close>

lemma reads_blocks_then:
  assumes "\<forall>b\<in>set blocks. block_fits m b" "reader_at bs r" "bits_of r = blocks_bits blocks @ tail"
  obtains r' where "reader_at bs r'" "bits_of r' = tail" "stream_loop m out r = stream_loop m (out @ concat (map block_data blocks)) r'"
  using assms
proof (induction blocks arbitrary: out r thesis)
  case Nil
  then show ?case by (simp add: blocks_bits_def)
next
  case (Cons b blocks)
  let ?rest = "blocks_bits blocks @ tail"
  have fits: "block_fits m b" "\<forall>b\<in>set blocks. block_fits m b" using Cons.prems(2) by simp_all
  have "bits_of r = magic_bits BLOCK_MAGIC @ block_bits b @ ?rest" using Cons.prems(4) by (simp add: blocks_bits_def)
  with Cons.prems(3) obtain r1 where r1: "require ''unexpected end of stream'' (read_u64 48) r = Inr (BLOCK_MAGIC, r1)"
      "reader_at bs r1" "bits_of r1 = block_bits b @ ?rest"
    by (rule parsesD [OF reads_BLOCK_MAGIC])
  obtain r2 where r2: "decode_block m r1 = Inr (block_data b, r2)" "reader_at bs r2" "bits_of r2 = ?rest"
    using r1(2,3) by (rule parsesD [OF reads_block [OF fits(1)]])
  obtain r' where r': "reader_at bs r'" "bits_of r' = tail"
      "stream_loop m (out @ block_data b) r2 = stream_loop m ((out @ block_data b) @ concat (map block_data blocks)) r'"
    by (rule Cons.IH [OF _ fits(2) r2(2,3)])
  have "stream_loop m out r = stream_loop m (out @ block_data b) r2"
    by (subst stream_loop_eq) (simp add: bindR_def r1(1) r2(1))
  with r' Cons.prems(1) show ?case by simp
qed

lemma reader_from:
  assumes "off \<le> 8 * length bs"
  obtains r where "from_bit_offset bs off = Inr r" "reader_at bs r" "bits_of r = drop off (stream_bits bs)"
  by (rule from_bit_offset_bits [of bs off]) (use assms that in \<open>simp add: reader_at_def\<close>)

lemma decompress_start:
  assumes "1 \<le> level" "level \<le> 9"
  obtains r where "reader_at (header_bytes level @ body) r" "bits_of r = stream_bits body"
    "decompress (header_bytes level @ body) = bindE (stream_loop (100000 * level) [] r) (\<lambda>(output, r'). Inr output)"
proof -
  let ?data = "header_bytes level @ body"
  have len: "length (header_bytes level) = 4" by (simp add: header_bytes_def)
  have "4 * 8 \<le> 8 * length ?data" using len by simp
  then obtain r where r: "from_bit_offset ?data (4 * 8) = Inr r" "reader_at ?data r"
      "bits_of r = drop (4 * 8) (stream_bits ?data)"
    by (rule reader_from)
  moreover have "bits_of r = stream_bits body" using r(3) len by (simp add: stream_bits_append)
  ultimately show thesis
    using that [of r] r(1) by (simp add: decompress_def stream_header_bytes [OF assms])
qed

subsection \<open>A stream by the places of its blocks\<close>

text \<open>The 48 bits at bit \<open>p\<close> are there, and are \<open>v\<close>.\<close>

definition magic_is :: "u8 list \<Rightarrow> nat \<Rightarrow> u64 \<Rightarrow> bool" where
  "magic_is data p v \<longleftrightarrow> p + 48 \<le> 8 * length data \<and> word_of_bits (take 48 (drop p (stream_bits data))) = v"

text \<open>From bit \<open>p\<close> to bit \<open>q\<close> there are blocks, each behind a block magic, which decode one by one to \<open>outs\<close>.\<close>

fun blocks_at :: "nat \<Rightarrow> u8 list \<Rightarrow> nat \<Rightarrow> u8 list list \<Rightarrow> nat \<Rightarrow> bool" where
  "blocks_at m data p [] q \<longleftrightarrow> q = p"
| "blocks_at m data p (out # outs) q \<longleftrightarrow> magic_is data p BLOCK_MAGIC \<and>
     (case at_bit (decode_block m) data (p + 48) of Inl e \<Rightarrow> False | Inr (out', p') \<Rightarrow> out' = out \<and> blocks_at m data p' outs q)"

text \<open>What the result must be when \<open>out\<close> has been decoded up to bit \<open>p\<close>, where no block can be decoded.\<close>

definition stream_ends :: "nat \<Rightarrow> u8 list \<Rightarrow> nat \<Rightarrow> u8 list \<Rightarrow> u8 list result \<Rightarrow> bool" where
  "stream_ends m data p out v \<longleftrightarrow>
     magic_is data p FINAL_MAGIC \<and> v = Inr out \<or>
     8 * length data < p + 48 \<and> v = Inl (BlockError ''unexpected end of stream'') \<or>
     p + 48 \<le> 8 * length data \<and> \<not> magic_is data p BLOCK_MAGIC \<and> \<not> magic_is data p FINAL_MAGIC \<and> v = Inl (BlockError ''invalid block magic'') \<or>
     magic_is data p BLOCK_MAGIC \<and> (\<exists>e. at_bit (decode_block m) data (p + 48) = Inl e \<and> v = Inl e \<and> block_fails m data (p + 48) e)"

lemma magic_at_reader:
  assumes "reader_at data r"
  obtains "8 * length data < bit_pos r + 48" "\<And>msg. require msg (read_u64 48) r = Inl (BlockError msg)" "\<exists>q. read_u64 48 r = Inr (None, q)"
  | v q where "bit_pos r + 48 \<le> 8 * length data" "\<And>v'. magic_is data (bit_pos r) v' \<longleftrightarrow> v' = v" "\<And>msg. require msg (read_u64 48) r = Inr (v, q)"
      "read_u64 48 r = Inr (Some v, q)" "reader_at data q" "bit_pos q = bit_pos r + 48" "length (bits_of q) < length (bits_of r)"
proof -
  have eq: "read_u64 48 = read_bits 48" by (rule ext) (simp add: read_u64_def)
  have r: "bytes r = data" "length (bits_of r) = 8 * length data - bit_pos r" using assms by (simp_all add: reader_at_def length_bits_of)
  show thesis
  proof (cases "48 \<le> length (bits_of r)")
    case True
    then obtain q where q: "read_bits 48 r = Inr (Some (word_of_bits (take 48 (bits_of r))), q)" "reader_at data q" "bits_of q = drop 48 (bits_of r)"
      using br.readn_enough [OF assms, of 48] by auto
    moreover have "bit_pos q = bit_pos r + 48" by (rule reader_at_moved [OF assms q(2,3) True])
    moreover have "bit_pos r + 48 \<le> 8 * length data" using True r(2) by linarith
    moreover have "length (bits_of q) < length (bits_of r)" using True q(3) by simp
    ultimately show thesis
      using that(2) [of "word_of_bits (take 48 (bits_of r))" q] r(1) by (auto simp: eq require_Inr_iff magic_is_def bits_of_def)
  next
    case False
    then obtain q where "read_bits 48 r = Inr (None, q)" using br.readn_short [OF assms, of 48] by auto
    moreover have "8 * length data < bit_pos r + 48" using False r(2) by linarith
    ultimately show thesis using that(1) by (simp add: eq require_def bindR_def reading_simps)
  qed
qed

lemma stream_loop_places:
  assumes "reader_at data r" "m \<le> 2 ^ 24"
  shows "\<exists>outs p. blocks_at m data (bit_pos r) outs p \<and> stream_ends m data p (out @ concat outs) (map_sum id fst (stream_loop m out r)) \<and>
    (\<forall>d\<in>set outs. \<exists>w. d = rle2_spec w \<and> length w \<le> m)"
  using assms(1)
proof (induction "length (bits_of r)" arbitrary: out r rule: less_induct)
  case less
  show ?case
  proof (cases rule: magic_at_reader [OF less.prems])
    case 1
    then have "stream_loop m out r = Inl (BlockError ''unexpected end of stream'')" by (subst stream_loop_eq) (simp add: bindR_def)
    with 1(1) show ?thesis by (intro exI [of _ "[]"] exI [of _ "bit_pos r"]) (simp add: stream_ends_def)
  next
    case (2 v q)
    note magic = 2(2)
    have loop: "stream_loop m out r = (if v = BLOCK_MAGIC then bindR (decode_block m) (\<lambda>d. stream_loop m (out @ d)) q
        else if v = FINAL_MAGIC then Inr (out, q) else Inl (BlockError ''invalid block magic''))"
      using 2(3) by (subst stream_loop_eq) (simp add: bindR_def reading_simps)
    show ?thesis
    proof (cases "v = BLOCK_MAGIC")
      case False
      with loop 2(1) magic show ?thesis
        by (intro exI [of _ "[]"] exI [of _ "bit_pos r"]) (auto simp: stream_ends_def magics_differ)
    next
      case True
      show ?thesis
      proof (cases rule: block_at [OF 2(5) assms(2)])
        case (1 e)
        then show ?thesis using True loop magic 2(6)
          by (intro exI [of _ "[]"] exI [of _ "bit_pos r"]) (simp add: stream_ends_def bindR_def)
      next
        case (2 w q')
        have "length (bits_of q') < length (bits_of r)" using 2(5) \<open>length (bits_of q) < length (bits_of r)\<close> by simp
        from less.hyps [OF this 2(4), of "out @ rle2_spec w"] obtain outs p where rest: "blocks_at m data (bit_pos q') outs p"
          "stream_ends m data p ((out @ rle2_spec w) @ concat outs) (map_sum id fst (stream_loop m (out @ rle2_spec w) q'))"
          "\<forall>d\<in>set outs. \<exists>w. d = rle2_spec w \<and> length w \<le> m" by blast
        have "length w \<le> m" using 2(3) by (auto simp: block_bytes_def)
        with rest 2(1,2) True loop magic \<open>bit_pos q = bit_pos r + 48\<close> show ?thesis
          by (intro exI [of _ "rle2_spec w # outs"] exI [of _ p]) (auto simp: bindR_def)
      qed
    qed
  qed
qed

lemma header_bytes_inj:
  assumes "header_bytes l = header_bytes l'" "l \<le> 9" "l' \<le> 9"
  shows "l = l'"
proof -
  have "(of_nat l :: u8) = of_nat l'" using assms(1) by (simp add: header_bytes_def)
  then have "unat (of_nat l :: u8) = unat (of_nat l' :: u8)" by simp
  then show ?thesis using assms(2,3) by (simp add: unat_of_nat_small)
qed

lemma stream_header_cases:
  obtains msg where "stream_header data = Inl (BlockError msg)" "\<not> (\<exists>level. 1 \<le> level \<and> level \<le> 9 \<and> take 4 data = header_bytes level)"
  | level where "1 \<le> level" "level \<le> 9" "take 4 data = header_bytes level" "stream_header data = Inr (100000 * level)" "32 \<le> 8 * length data"
proof (cases "\<exists>level. 1 \<le> level \<and> level \<le> 9 \<and> take 4 data = header_bytes level")
  case True
  then obtain level where level: "1 \<le> level" "level \<le> 9" "take 4 data = header_bytes level" by blast
  moreover from this have "stream_header data = Inr (100000 * level)"
    using stream_header_bytes [OF level(1,2), of "drop 4 data"] by (metis append_take_drop_id)
  moreover have "32 \<le> 8 * length data" using arg_cong [OF level(3), of length] by (simp add: header_bytes_def min_def split: if_splits)
  ultimately show thesis using that(2) by blast
next
  case False
  show thesis
  proof (cases "stream_header data")
    case (Inl e)
    then obtain msg where "e = BlockError msg" by (auto simp: stream_header_def Let_def guard_def split: if_splits)
    with Inl False that(1) show thesis by blast
  next
    case (Inr m)
    then have h: "4 \<le> length data" "take 2 data = [0x42, 0x5A]" "data ! 2 = 0x68" "0x31 \<le> data ! 3" "data ! 3 \<le> 0x39"
      by (auto simp: stream_header_def Let_def result_simps)
    let ?level = "unat (data ! 3 - 0x30)"
    have "1 \<le> ?level" "?level \<le> 9" using h(4,5) by (simp_all add: word_le_nat_alt unat_sub)
    moreover have "take 4 data = header_bytes ?level"
    proof -
      have "take 4 data = take 2 data @ [data ! 2, data ! 3]" using h(1) by (simp add: take_Suc_conv_app_nth numeral_eq_Suc)
      then show ?thesis using h(2,3) by (simp add: header_bytes_def)
    qed
    ultimately show thesis using False by blast
  qed
qed

subsection \<open>Properties\<close>

lemma decompress_encoded:
  assumes "1 \<le> level" "level \<le> 9" "\<forall>b\<in>set blocks. block_fits (100000 * level) b"
  shows "decompress (encode_stream level blocks crc @ trailing) = Inr (concat (map block_data blocks))"
proof -
  let ?w = "blocks_bits blocks @ magic_bits FINAL_MAGIC @ nat_bits 32 crc"
  let ?body = "pack_bits ?w @ trailing"
  obtain r where r: "reader_at (header_bytes level @ ?body) r" "bits_of r = stream_bits ?body"
      "decompress (header_bytes level @ ?body) = bindE (stream_loop (100000 * level) [] r) (\<lambda>(output, r'). Inr output)"
    by (rule decompress_start [OF assms(1,2)])
  obtain k where "stream_bits (pack_bits ?w) = ?w @ replicate k False" using stream_bits_pack by blast
  then have "bits_of r = (blocks_bits blocks @ magic_bits FINAL_MAGIC) @ (nat_bits 32 crc @ replicate k False @ stream_bits trailing)"
    by (simp add: r(2) stream_bits_append)
  with r(1) obtain r' where "stream_loop (100000 * level) [] r = Inr ([] @ concat (map block_data blocks), r')"
    by (rule parsesD [OF reads_stream_loop [OF assms(3)]])
  with r(3) show ?thesis by (simp add: encode_stream_def)
qed

text \<open>
  C22. Round trip of a whole stream: for every level, every list of blocks that fit the level, any
  checksums, and any bytes after the end of the stream, \<open>decompress\<close> returns the data of all
  blocks in order. What follows the final magic, a second stream included, is ignored.
\<close>

theorem stream_roundtrip:
  assumes "1 \<le> level" "level \<le> 9" "\<forall>b\<in>set blocks. block_fits (100000 * level) b"
  shows "decompress (encode_stream level blocks crc @ trailing) = Inr (concat (map block_data blocks))"
  by (rule decompress_encoded [OF assms])

definition sample_block :: coded_block where
  "sample_block = (0, sample_coding, [98, 97])"

lemma sample_fits: "block_fits 900000 sample_block"
proof -
  have "rle1_encode [98, 97] = [98, 97]" by code_simp
  with sample_encodable show ?thesis by (simp add: block_fits_def sample_block_def)
qed

theorem stream_roundtrip_witness:
  "decompress (encode_stream 9 [sample_block, sample_block] 0 @ [1, 2, 3]) = Inr [98, 97, 98, 97]"
  using stream_roundtrip [of 9 "[sample_block, sample_block]" 0 "[1, 2, 3]"] sample_fits
  by (simp add: sample_block_def block_data_def)

text \<open>
  The loop ends on every input, and how it ends is decided by what follows the last valid
  block: fewer than 48 bits are an unexpected end of the stream, 48 bits that are neither magic are an
  invalid magic. The blocks before are decoded, and dropped with the error.
\<close>

theorem stream_loop_stops:
  assumes "\<forall>b\<in>set blocks. block_fits m b" "reader_at bs r" "bits_of r = blocks_bits blocks @ tail"
    and "48 \<le> length tail \<Longrightarrow> word_of_bits (take 48 tail) \<notin> {BLOCK_MAGIC, FINAL_MAGIC}"
  shows "stream_loop m out r =
    Inl (BlockError (if length tail < 48 then ''unexpected end of stream'' else ''invalid block magic''))"
proof -
  obtain r' where r': "reader_at bs r'" "bits_of r' = tail" "stream_loop m out r = stream_loop m (out @ concat (map block_data blocks)) r'"
    by (rule reads_blocks_then [OF assms(1-3)])
  have eq: "read_u64 48 = read_bits 48" by (rule ext) (simp add: read_u64_def)
  show ?thesis
  proof (cases "length tail < 48")
    case True
    then obtain q where "read_bits 48 r' = Inr (None, q)" using br.readn_short [OF r'(1), of 48] r'(2) by auto
    with True show ?thesis unfolding r'(3) by (subst stream_loop_eq) (simp add: eq require_def bindR_def reading_simps)
  next
    case False
    then obtain q where "read_bits 48 r' = Inr (Some (word_of_bits (take 48 tail)), q)"
      using br.readn_enough [OF r'(1), of 48] r'(2) by auto
    with False assms(4) show ?thesis unfolding r'(3) by (subst stream_loop_eq) (simp add: eq require_def bindR_def reading_simps)
  qed
qed

theorem stream_loop_stops_witness:
  "\<exists>r. reader_at (pack_bits (blocks_bits [sample_block])) r \<and>
     stream_loop 900000 [] r = Inl (BlockError ''unexpected end of stream'')"
proof -
  let ?w = "blocks_bits [sample_block]"
  obtain k where k: "k < 8" "stream_bits (pack_bits ?w) = ?w @ replicate k False" using stream_bits_pack by blast
  obtain r where r: "reader_at (pack_bits ?w) r" "bits_of r = drop 0 (stream_bits (pack_bits ?w))"
    by (rule reader_from [of 0]) simp_all
  have "stream_loop 900000 [] r = Inl (BlockError (if length (replicate k False) < 48 then ''unexpected end of stream'' else ''invalid block magic''))"
    by (rule stream_loop_stops [of "[sample_block]"]) (use sample_fits r k in simp_all)
  with r(1) k(1) show ?thesis by auto
qed

text \<open>
  C23. Whatever the bytes, \<open>decompress\<close> ends, and its result is given by the places of the blocks. Without one of the nine headers it
  is an error value. With a header, blocks follow each other from bit 32 on, and the result is decided at the bit behind the last of
  them that can be decoded: there the final magic makes it the data of all these blocks in their order, each the run expansion of at
  most 100000 bytes for each level; too few bits or bits that are no magic make it their error values; and a block that cannot be
  decoded makes it the fault of this block, which is an error value, the panic of one of its own tables if it is over-subscribed, or
  the write outside the output of \<open>rle2_decode_alloc\<close> if the block expands by more than a quarter.
\<close>

theorem decompress_safe:
  "\<not> (\<exists>level. 1 \<le> level \<and> level \<le> 9 \<and> take 4 data = header_bytes level) \<and> (\<exists>msg. decompress data = Inl (BlockError msg)) \<or>
   (\<exists>level outs p. 1 \<le> level \<and> level \<le> 9 \<and> take 4 data = header_bytes level \<and> blocks_at (100000 * level) data 32 outs p \<and>
      stream_ends (100000 * level) data p (concat outs) (decompress data) \<and>
      (\<forall>d\<in>set outs. \<exists>w. d = rle2_spec w \<and> length w \<le> 100000 * level))"
proof (cases rule: stream_header_cases [of data])
  case (1 msg)
  then show ?thesis by (simp add: decompress_def)
next
  case (2 level)
  obtain r where r: "from_bit_offset data 32 = Inr r" "reader_at data r" "bit_pos r = 32"
    by (rule from_bit_offset_bits [of data 32]) (use 2(5) in \<open>simp add: reader_at_def\<close>)
  have "100000 * level \<le> 2 ^ 24" using 2(2) by simp
  from stream_loop_places [OF r(2) this, of "[]"] r(3) obtain outs p where places: "blocks_at (100000 * level) data 32 outs p"
    "stream_ends (100000 * level) data p (concat outs) (map_sum id fst (stream_loop (100000 * level) [] r))"
    "\<forall>d\<in>set outs. \<exists>w. d = rle2_spec w \<and> length w \<le> 100000 * level" by auto
  moreover have "decompress data = map_sum id fst (stream_loop (100000 * level) [] r)"
    using 2(4) r(1) by (cases "stream_loop (100000 * level) [] r") (auto simp: decompress_def)
  ultimately show ?thesis using 2(1-3) by (intro disjI2 exI [of _ level] exI [of _ outs] exI [of _ p]) simp
qed

theorem decompress_safe_witness:
  "\<exists>outs p. blocks_at 900000 (encode_stream 9 [sample_block, sample_block] 0) 32 outs p \<and>
     magic_is (encode_stream 9 [sample_block, sample_block] 0) p FINAL_MAGIC \<and> concat outs = [98, 97, 98, 97]"
proof -
  let ?data = "encode_stream 9 [sample_block, sample_block] 0"
  have out: "decompress ?data = Inr [98, 97, 98, 97]"
    using decompress_encoded [of 9 "[sample_block, sample_block]" 0 "[]"] sample_fits by (simp add: sample_block_def block_data_def)
  have nine: "level = 9" if "take 4 ?data = header_bytes level" "level \<le> 9" for level
    using that by (intro header_bytes_inj) (simp_all add: encode_stream_def header_bytes_def)
  from decompress_safe [of ?data] nine show ?thesis unfolding out stream_ends_def by fastforce
qed

end
