(* ===== verification/Par_Map.thy ===== *)
theory Par_Map
  imports Bz_Prelude
begin

text \<open>
  The parallel map (\<open>par.rs\<close>): the worker budget, the function \<open>par_map\<close> computes, and the pool
  of scoped threads that computes it: every thread claims the next index with \<open>fetch_add\<close>, runs
  the closure and stores the result in the slot of the index, in any interleaving. The lemmas show
  that every run of the pool ends and leaves what the function says.
\<close>

subsection \<open>The worker budget\<close>

text \<open>\<open>str::parse::<usize>\<close>: an optional plus sign, at least one digit, and a value below 2 to the 64.\<close>

fun digits_value :: "nat \<Rightarrow> string \<Rightarrow> nat option" where
  "digits_value acc [] = Some acc"
| "digits_value acc (c # cs) =
     (let d = of_char c :: nat; v = 10 * acc + (d - 48)
      in if 48 \<le> d \<and> d \<le> 57 \<and> v < 2 ^ 64 then digits_value v cs else None)"

definition parse_usize :: "string \<Rightarrow> nat option" where
  "parse_usize s =
     (let ds = (case s of [] \<Rightarrow> [] | c # cs \<Rightarrow> if c = CHR ''+'' then cs else s)
      in if ds = [] then None else digits_value 0 ds)"

text \<open>The environment variable and the available parallelism are arguments.\<close>

definition worker_count :: "string option \<Rightarrow> nat option \<Rightarrow> nat" where
  "worker_count env avail =
     max 1 (case Option.bind env parse_usize of Some n \<Rightarrow> n | None \<Rightarrow> (case avail of Some n \<Rightarrow> n | None \<Rightarrow> 4))"

subsection \<open>The function\<close>

text \<open>
  With one thread the closure runs over the indices in order. With more, a panic of the closure
  ends its thread and, when all threads have ended, the scope panics. Which of several faults
  a run meets depends on the schedule; an access outside an allocation is kept as such.
\<close>

definition scope_fault :: "fault \<Rightarrow> fault" where
  "scope_fault e = (case e of Undefined msg \<Rightarrow> Undefined msg | _ \<Rightarrow> Panic ''a scoped thread panicked'')"

definition par_map :: "nat \<Rightarrow> nat \<Rightarrow> (nat \<Rightarrow> 'a result) \<Rightarrow> 'a list result" where
  "par_map workers n f =
     (if n = 0 then Inr []
      else let threads = min workers n in
        if threads \<le> 1 then mapE f [0..<n]
        else case mapE f [0..<n] of Inr vs \<Rightarrow> Inr vs | Inl e \<Rightarrow> Inl (scope_fault e))"

lemma par_map_Inr_iff [result_simps]: "par_map workers n f = Inr vs \<longleftrightarrow> mapE f [0..<n] = Inr vs"
  by (auto simp: par_map_def Let_def split: sum.splits)

lemma par_map_values [result_simps]:
  "par_map workers n f = Inr vs \<longleftrightarrow> length vs = n \<and> (\<forall>i<n. f i = Inr (vs ! i))"
  by (auto simp: par_map_Inr_iff mapE_Inr_iff)

subsection \<open>The interface: a map over indices\<close>

text \<open>
  What the callers rely on: the map returns exactly when the closure returns on every index, and then
  returns the values in index order.
\<close>

locale index_map =
  fixes pmap :: "nat \<Rightarrow> (nat \<Rightarrow> 'a result) \<Rightarrow> 'a list result"
  assumes pmap_values: "pmap n f = Inr vs \<longleftrightarrow> length vs = n \<and> (\<forall>i<n. f i = Inr (vs ! i))"
begin

lemma pure: "(\<And>i. i < n \<Longrightarrow> f i = Inr (g i)) \<Longrightarrow> pmap n f = Inr (map g [0..<n])"
  by (simp add: pmap_values)

text \<open>A map over the elements of a list, reached by their index.\<close>

lemma over_list: "pmap (length xs) (\<lambda>i. bindE (index xs i) f) = Inr vs \<longleftrightarrow> mapE f xs = Inr vs"
  by (auto simp: pmap_values mapE_Inr_iff)

lemma order_free: "pmap n f = Inr vs \<Longrightarrow> i < n \<Longrightarrow> f i = Inr (vs ! i)"
  by (simp add: pmap_values)

end

interpretation pm: index_map "par_map budget" for budget
  by unfold_locales (rule par_map_values)

subsection \<open>The pool\<close>

datatype worker = Claiming | Working nat | Stopped | Died fault

record 'a pool =
  next_item :: nat
  slots :: "'a option list"
  workers :: "worker list"

definition pool_start :: "nat \<Rightarrow> nat \<Rightarrow> 'a pool" where
  "pool_start threads n = \<lparr>next_item = 0, slots = replicate n None, workers = replicate threads Claiming\<rparr>"

inductive pool_step :: "nat \<Rightarrow> (nat \<Rightarrow> 'a result) \<Rightarrow> 'a pool \<Rightarrow> 'a pool \<Rightarrow> bool" for n f where
  claim: "w < length (workers s) \<Longrightarrow> workers s ! w = Claiming \<Longrightarrow> next_item s < n \<Longrightarrow>
    pool_step n f s (s\<lparr>next_item := next_item s + 1, workers := (workers s)[w := Working (next_item s)]\<rparr>)"
| leave: "w < length (workers s) \<Longrightarrow> workers s ! w = Claiming \<Longrightarrow> n \<le> next_item s \<Longrightarrow>
    pool_step n f s (s\<lparr>next_item := next_item s + 1, workers := (workers s)[w := Stopped]\<rparr>)"
| fill: "w < length (workers s) \<Longrightarrow> workers s ! w = Working i \<Longrightarrow> f i = Inr v \<Longrightarrow>
    pool_step n f s (s\<lparr>slots := (slots s)[i := Some v], workers := (workers s)[w := Claiming]\<rparr>)"
| die: "w < length (workers s) \<Longrightarrow> workers s ! w = Working i \<Longrightarrow> f i = Inl e \<Longrightarrow>
    pool_step n f s (s\<lparr>workers := (workers s)[w := Died e]\<rparr>)"

inductive_cases pool_stepE: "pool_step n f s s'"

definition ended :: "worker \<Rightarrow> bool" where
  "ended w \<longleftrightarrow> w = Stopped \<or> (\<exists>e. w = Died e)"

definition pool_done :: "'a pool \<Rightarrow> bool" where
  "pool_done s \<longleftrightarrow> list_all ended (workers s)"

text \<open>The end of the scope and the collection of the slots.\<close>

definition pool_result :: "nat \<Rightarrow> 'a pool \<Rightarrow> 'a list result" where
  "pool_result n s =
     (if list_ex (\<lambda>w. w \<noteq> Stopped) (workers s) then Inl (Panic ''a scoped thread panicked'')
      else mapE (\<lambda>i. ok_or (Panic ''slot filled'') (slots s ! i)) [0..<n])"

subsection \<open>The invariant\<close>

text \<open>
  Every claimed index is either in the hands of exactly one worker, or its slot is filled with its
  value, or its worker died of its fault; the slots of the others are empty.
\<close>

definition item_state :: "(nat \<Rightarrow> 'a result) \<Rightarrow> 'a pool \<Rightarrow> nat \<Rightarrow> bool" where
  "item_state f s i \<longleftrightarrow>
     (if i < next_item s
      then (\<exists>v. f i = Inr v \<and> slots s ! i = Some v \<and> Working i \<notin> set (workers s)) \<or>
        slots s ! i = None \<and> (Working i \<in> set (workers s) \<or> (\<exists>e. f i = Inl e \<and> Died e \<in> set (workers s)))
      else slots s ! i = None)"

definition pool_inv :: "nat \<Rightarrow> (nat \<Rightarrow> 'a result) \<Rightarrow> 'a pool \<Rightarrow> bool" where
  "pool_inv n f s \<longleftrightarrow> length (slots s) = n \<and>
     (\<forall>i<n. item_state f s i) \<and>
     (\<forall>i. Working i \<in> set (workers s) \<longrightarrow> i < next_item s \<and> i < n) \<and>
     (\<forall>w w' i. w < length (workers s) \<longrightarrow> w' < length (workers s) \<longrightarrow>
        workers s ! w = Working i \<longrightarrow> workers s ! w' = Working i \<longrightarrow> w = w') \<and>
     (\<forall>e. Died e \<in> set (workers s) \<longrightarrow> (\<exists>i<n. f i = Inl e)) \<and>
     (Stopped \<in> set (workers s) \<longrightarrow> n \<le> next_item s)"

lemma pool_inv_start: "pool_inv n f (pool_start threads n)"
  by (auto simp: pool_inv_def pool_start_def item_state_def)

lemma update_other:
  assumes "w < length ws" "x \<noteq> ws ! w"
  shows "x \<in> set (ws[w := y]) \<longleftrightarrow> x = y \<or> x \<in> set ws"
proof
  show "x \<in> set (ws[w := y]) \<Longrightarrow> x = y \<or> x \<in> set ws" using set_update_subset_insert by fastforce
  show "x = y \<or> x \<in> set ws \<Longrightarrow> x \<in> set (ws[w := y])"
    using assms by (auto simp: in_set_conv_nth nth_list_update set_update_memI)
qed

lemma update_gone:
  assumes "x \<noteq> y" "\<And>w'. w' < length ws \<Longrightarrow> ws ! w' = x \<Longrightarrow> w' = w"
  shows "x \<notin> set (ws[w := y])"
proof
  assume "x \<in> set (ws[w := y])"
  then obtain v where v: "v < length ws" "ws[w := y] ! v = x" by (auto simp: in_set_conv_nth)
  then show False using assms by (cases "v = w") auto
qed

lemma pool_inv_parts:
  assumes "pool_inv n f s"
  shows "length (slots s) = n" "i < n \<Longrightarrow> item_state f s i"
    "Working i \<in> set (workers s) \<Longrightarrow> i < next_item s \<and> i < n"
    "w < length (workers s) \<Longrightarrow> w' < length (workers s) \<Longrightarrow> workers s ! w = Working i \<Longrightarrow> workers s ! w' = Working i \<Longrightarrow> w = w'"
    "Died e \<in> set (workers s) \<Longrightarrow> \<exists>i<n. f i = Inl e"
    "Stopped \<in> set (workers s) \<Longrightarrow> n \<le> next_item s"
  using assms unfolding pool_inv_def by blast+

lemma pool_invI:
  assumes "\<And>i. i < n \<Longrightarrow> item_state f s i"
    and "\<And>v v' i. v < length (workers s) \<Longrightarrow> v' < length (workers s) \<Longrightarrow> workers s ! v = Working i \<Longrightarrow> workers s ! v' = Working i \<Longrightarrow> v = v'"
    and "\<And>i. Working i \<in> set (workers s) \<Longrightarrow> i < next_item s \<and> i < n"
    and "length (slots s) = n"
    and "\<And>e. Died e \<in> set (workers s) \<Longrightarrow> \<exists>i<n. f i = Inl e"
    and "Stopped \<in> set (workers s) \<Longrightarrow> n \<le> next_item s"
  shows "pool_inv n f s"
  using assms unfolding pool_inv_def by blast

lemma pool_inv_step:
  assumes "pool_step n f s s'" "pool_inv n f s"
  shows "pool_inv n f s'"
  using assms(1)
proof cases
  case (claim w)
  note inv = pool_inv_parts [OF assms(2)]
  have mem: "x \<noteq> Claiming \<Longrightarrow> x \<in> set (workers s') \<longleftrightarrow> x = Working (next_item s) \<or> x \<in> set (workers s)" for x
    using update_other [of w "workers s" x] claim by simp
  have fresh: "Working (next_item s) \<notin> set (workers s)" using inv(3) by blast
  then have fresh': "v < length (workers s) \<Longrightarrow> workers s ! v \<noteq> Working (next_item s)" for v
    by (auto simp: in_set_conv_nth)
  have "item_state f s' i" if "i < n" for i
  proof (cases "i = next_item s")
    case True
    then show ?thesis using inv(2) [OF that] claim mem [of "Working i"] by (simp add: item_state_def)
  next
    case False
    then show ?thesis using inv(2) [OF that] claim(1) mem by (simp add: item_state_def less_Suc_eq)
  qed
  moreover have "v = v'" if "v < length (workers s')" "v' < length (workers s')" "workers s' ! v = Working i" "workers s' ! v' = Working i" for v v' i
    using that inv(4) [of v v' i] fresh' [of v] fresh' [of v'] claim by (auto simp: nth_list_update split: if_splits)
  moreover have "i < next_item s' \<and> i < n" if "Working i \<in> set (workers s')" for i
    using that mem [of "Working i"] inv(3) [of i] claim by auto
  moreover have "length (slots s') = n" using claim(1) inv(1) by simp
  moreover have "\<exists>i<n. f i = Inl e" if "Died e \<in> set (workers s')" for e
    using that mem [of "Died e"] inv(5) by auto
  moreover have "n \<le> next_item s'" if "Stopped \<in> set (workers s')"
    using that mem [of Stopped] inv(6) claim by auto
  ultimately show ?thesis by (rule pool_invI)
next
  case (leave w)
  note inv = pool_inv_parts [OF assms(2)]
  have mem: "x \<noteq> Claiming \<Longrightarrow> x \<noteq> Stopped \<Longrightarrow> x \<in> set (workers s') \<longleftrightarrow> x \<in> set (workers s)" for x
    using update_other [of w "workers s" x] leave by simp
  have "item_state f s' i" if "i < n" for i
    using inv(2) [OF that] leave that mem by (simp add: item_state_def)
  moreover have "v = v'" if "v < length (workers s')" "v' < length (workers s')" "workers s' ! v = Working i" "workers s' ! v' = Working i" for v v' i
    using that inv(4) [of v v' i] leave by (auto simp: nth_list_update split: if_splits)
  moreover have "i < next_item s' \<and> i < n" if "Working i \<in> set (workers s')" for i
    using that mem [of "Working i"] inv(3) [of i] leave by auto
  moreover have "length (slots s') = n" using leave(1) inv(1) by simp
  moreover have "\<exists>i<n. f i = Inl e" if "Died e \<in> set (workers s')" for e
    using that mem [of "Died e"] inv(5) by auto
  moreover have "n \<le> next_item s'" using leave by simp
  ultimately show ?thesis by (rule pool_invI)
next
  case (fill w j v)
  note inv = pool_inv_parts [OF assms(2)]
  have j: "j < next_item s" "j < n" using inv(3) [of j] fill nth_mem [of w "workers s"] by auto
  have only: "w' = w" if "w' < length (workers s)" "workers s ! w' = Working j" for w'
    using inv(4) [of w' w j] fill that by simp
  have "Working j \<notin> set ((workers s)[w := Claiming])" by (rule update_gone [OF _ only]) simp_all
  then have gone: "Working j \<notin> set (workers s')" by (simp add: fill(1))
  have mem: "x \<noteq> Working j \<Longrightarrow> x \<noteq> Claiming \<Longrightarrow> x \<in> set (workers s') \<longleftrightarrow> x \<in> set (workers s)" for x
    using update_other [of w "workers s" x] fill by simp
  have "item_state f s' i" if "i < n" for i
  proof (cases "i = j")
    case True
    then show ?thesis using j fill(1,4) inv(1) gone by (simp add: item_state_def)
  next
    case False
    then show ?thesis using inv(2) [OF that] fill(1) mem by (simp add: item_state_def)
  qed
  moreover have "v = v'" if "v < length (workers s')" "v' < length (workers s')" "workers s' ! v = Working i" "workers s' ! v' = Working i" for v v' i
    using that inv(4) [of v v' i] fill by (auto simp: nth_list_update split: if_splits)
  moreover have "i < next_item s' \<and> i < n" if "Working i \<in> set (workers s')" for i
    using that gone mem [of "Working i"] inv(3) [of i] fill(1) by auto
  moreover have "length (slots s') = n" using fill(1) inv(1) by simp
  moreover have "\<exists>i<n. f i = Inl e" if "Died e \<in> set (workers s')" for e
    using that mem [of "Died e"] inv(5) by auto
  moreover have "n \<le> next_item s'" if "Stopped \<in> set (workers s')"
    using that mem [of Stopped] inv(6) fill(1) by auto
  ultimately show ?thesis by (rule pool_invI)
next
  case (die w j e)
  note inv = pool_inv_parts [OF assms(2)]
  have j: "j < next_item s" "j < n" and jn: "Working j \<in> set (workers s)"
    using inv(3) [of j] die nth_mem [of w "workers s"] by auto
  have only: "w' = w" if "w' < length (workers s)" "workers s ! w' = Working j" for w'
    using inv(4) [of w' w j] die that by simp
  have "Working j \<notin> set ((workers s)[w := Died e])" by (rule update_gone [OF _ only]) simp_all
  then have gone: "Working j \<notin> set (workers s')" by (simp add: die(1))
  have mem: "x \<noteq> Working j \<Longrightarrow> x \<in> set (workers s') \<longleftrightarrow> x = Died e \<or> x \<in> set (workers s)" for x
    using update_other [of w "workers s" x] die by simp
  have "item_state f s' i" if "i < n" for i
  proof (cases "i = j")
    case True
    then show ?thesis using j inv(2) [OF that] jn die(1,4) mem [of "Died e"] by (auto simp: item_state_def)
  next
    case False
    then show ?thesis using inv(2) [OF that] die(1) mem by (auto simp: item_state_def)
  qed
  moreover have "v = v'" if "v < length (workers s')" "v' < length (workers s')" "workers s' ! v = Working i" "workers s' ! v' = Working i" for v v' i
    using that inv(4) [of v v' i] die by (auto simp: nth_list_update split: if_splits)
  moreover have "i < next_item s' \<and> i < n" if "Working i \<in> set (workers s')" for i
    using that gone mem [of "Working i"] inv(3) [of i] die(1) by auto
  moreover have "length (slots s') = n" using die(1) inv(1) by simp
  moreover have "\<exists>i<n. f i = Inl x" if "Died x \<in> set (workers s')" for x
    using that mem [of "Died x"] inv(5) die(4) j(2) by auto
  moreover have "n \<le> next_item s'" if "Stopped \<in> set (workers s')"
    using that mem [of Stopped] inv(6) die(1) by auto
  ultimately show ?thesis by (rule pool_invI)
qed

lemma pool_step_length: "pool_step n f s s' \<Longrightarrow> length (workers s') = length (workers s)"
  by (erule pool_stepE) simp_all

lemma pool_inv_reachable:
  assumes "(pool_step n f)\<^sup>*\<^sup>* (pool_start threads n) s"
  shows "pool_inv n f s" "length (workers s) = threads"
  using assms by (induction rule: rtranclp_induct)
    (simp_all add: pool_inv_start pool_inv_step pool_step_length, simp add: pool_start_def)

subsection \<open>Runs end\<close>

fun worker_weight :: "worker \<Rightarrow> nat" where
  "worker_weight Claiming = 1"
| "worker_weight (Working i) = 2"
| "worker_weight Stopped = 0"
| "worker_weight (Died e) = 0"

definition pool_measure :: "nat \<Rightarrow> 'a pool \<Rightarrow> nat" where
  "pool_measure n s = 2 * (n - next_item s) + sum_list (map worker_weight (workers s))"

lemma weight_update:
  "w < length ws \<Longrightarrow> sum_list (map worker_weight (ws[w := y])) + worker_weight (ws ! w) =
     sum_list (map worker_weight ws) + worker_weight y"
  by (induction ws arbitrary: w) (auto simp: nth_Cons split: nat.splits)

lemma pool_step_measure:
  assumes "pool_step n f s s'"
  shows "pool_measure n s' < pool_measure n s"
  using assms
proof cases
  case (claim w)
  then show ?thesis using weight_update [of w "workers s" "Working (next_item s)"] by (simp add: pool_measure_def)
next
  case (leave w)
  then show ?thesis using weight_update [of w "workers s" Stopped] by (simp add: pool_measure_def)
next
  case (fill w i v)
  then show ?thesis using weight_update [of w "workers s" Claiming] by (simp add: pool_measure_def)
next
  case (die w i e)
  then show ?thesis using weight_update [of w "workers s" "Died e"] by (simp add: pool_measure_def)
qed

lemma pool_progress:
  assumes "\<not> pool_done s"
  shows "\<exists>s'. pool_step n f s s'"
proof -
  obtain w where w: "w < length (workers s)" "\<not> ended (workers s ! w)"
    using assms by (auto simp: pool_done_def list_all_length)
  show ?thesis
  proof (cases "workers s ! w")
    case Claiming
    with w(1) show ?thesis using pool_step.claim [of w s n f] pool_step.leave [of w s n f] by (meson not_le)
  next
    case (Working i)
    with w(1) show ?thesis using pool_step.fill [of w s i f _ n] pool_step.die [of w s i f _ n] by (meson sum.exhaust)
  qed (use w(2) in \<open>auto simp: ended_def\<close>)
qed

lemma pool_steps_measure: "((pool_step n f) ^^ k) s s' \<Longrightarrow> k + pool_measure n s' \<le> pool_measure n s"
proof (induction k arbitrary: s')
  case (Suc k)
  then obtain t where "((pool_step n f) ^^ k) s t" "pool_step n f t s'" by auto
  then show ?case using Suc.IH [of t] pool_step_measure [of n f t s'] by simp
qed simp

lemma pool_runs_out: "\<exists>t. (pool_step n f)\<^sup>*\<^sup>* s t \<and> pool_done t"
proof (induction "pool_measure n s" arbitrary: s rule: less_induct)
  case less
  show ?case
  proof (cases "pool_done s")
    case False
    then obtain s' where s': "pool_step n f s s'" using pool_progress by blast
    from less [OF pool_step_measure [OF s']] s' show ?thesis by (meson converse_rtranclp_into_rtranclp)
  qed blast
qed

lemma pool_final:
  assumes "pool_inv n f s" "pool_done s" "workers s \<noteq> []"
  shows "pool_result n s = Inr vs \<longleftrightarrow> mapE f [0..<n] = Inr vs"
proof (cases "list_ex (\<lambda>w. w \<noteq> Stopped) (workers s)")
  case True
  then obtain e where "Died e \<in> set (workers s)"
    using assms(2) by (auto simp: list_ex_iff pool_done_def list_all_iff ended_def)
  then obtain i where "i < n" "f i = Inl e" using pool_inv_parts(5) [OF assms(1)] by blast
  then have "mapE f [0..<n] \<noteq> Inr vs" by (auto simp: mapE_Inr_iff)
  with True show ?thesis by (simp add: pool_result_def)
next
  case False
  then have st: "set (workers s) = {Stopped}" using assms(3) by (cases "workers s") (auto simp: list_ex_iff)
  then have "n \<le> next_item s" using pool_inv_parts(6) [OF assms(1)] by simp
  then have "\<exists>v. f i = Inr v \<and> slots s ! i = Some v" if "i < n" for i
    using pool_inv_parts(2) [OF assms(1) that] that st by (auto simp: item_state_def)
  then have "ok_or (Panic ''slot filled'') (slots s ! i) = f i" if "i \<in> set [0..<n]" for i
    using that by fastforce
  then have "mapE (\<lambda>i. ok_or (Panic ''slot filled'') (slots s ! i)) [0..<n] = mapE f [0..<n]"
    by (rule mapE_cong)
  with False show ?thesis by (simp add: pool_result_def)
qed

subsection \<open>Properties\<close>

text \<open>
  C24. Whatever the interleaving of the threads, when the scope of \<open>par_map\<close> ends, the slots hold
  the values of the closure in index order exactly when the closure returns on every index; otherwise
  the scope panics. No slot is left empty: \<open>expect("slot filled")\<close> cannot fail on a scope without a panic.
\<close>

theorem par_map_refines:
  assumes "(pool_step n f)\<^sup>*\<^sup>* (pool_start (min budget n) n) s" "pool_done s" "2 \<le> min budget n"
  shows "pool_result n s = Inr vs \<longleftrightarrow> par_map budget n f = Inr vs"
proof -
  have "workers s \<noteq> []" using pool_inv_reachable(2) [OF assms(1)] assms(3) by auto
  with pool_final [OF pool_inv_reachable(1) [OF assms(1)] assms(2)] show ?thesis by (simp add: par_map_Inr_iff)
qed

theorem par_map_refines_witness:
  "\<exists>s. (pool_step 3 (\<lambda>i. Inr (i + 7)))\<^sup>*\<^sup>* (pool_start (min 2 3) 3) s \<and> pool_done s \<and> pool_result 3 s = Inr [7, 8, 9 :: nat]"
proof -
  obtain s where s: "(pool_step 3 (\<lambda>i. Inr (i + 7)))\<^sup>*\<^sup>* (pool_start (min 2 3) 3) s" "pool_done s"
    using pool_runs_out by blast
  moreover have "par_map 2 3 (\<lambda>i. Inr (i + 7)) = Inr [7, 8, 9 :: nat]" by code_simp
  ultimately show ?thesis using par_map_refines [OF s, of "[7, 8, 9]"] by auto
qed

text \<open>
  C25. No run of the pool is longer than two steps for every item and one for every thread, and a
  pool that is not done can always take a step: every run ends, and only in a state where all
  threads have ended.
\<close>

theorem par_map_ends:
  assumes "((pool_step n f) ^^ k) (pool_start threads n) s"
  shows "k \<le> 2 * n + threads \<and> (pool_done s \<or> (\<exists>s'. pool_step n f s s'))"
proof
  have "k + pool_measure n s \<le> pool_measure n (pool_start threads n :: 'a pool)" by (rule pool_steps_measure [OF assms])
  moreover have "sum_list (map worker_weight (replicate threads Claiming)) = threads" by (induction threads) simp_all
  ultimately show "k \<le> 2 * n + threads" by (simp add: pool_measure_def pool_start_def)
  show "pool_done s \<or> (\<exists>s'. pool_step n f s s')" using pool_progress by blast
qed

theorem par_map_ends_witness:
  "\<exists>s. ((pool_step 1 (\<lambda>i. Inr i)) ^^ 1) (pool_start 1 1) s \<and> (pool_done s \<or> (\<exists>s'. pool_step 1 (\<lambda>i. Inr i) s s'))"
proof -
  obtain s where "pool_step 1 (\<lambda>i. Inr i) (pool_start 1 1) s"
    using pool_progress [of "pool_start 1 1" 1 "\<lambda>i. Inr i"] by (auto simp: pool_done_def pool_start_def ended_def)
  then have s: "((pool_step 1 (\<lambda>i. Inr i)) ^^ 1) (pool_start 1 1) s" by auto
  from par_map_ends [OF s] s show ?thesis by blast
qed

text \<open>
  At every moment of every run an index below \<open>n\<close> is unclaimed with an empty slot, or in the hands of
  exactly one thread with an empty slot, or its slot holds its value and no thread works on it, or a thread
  died of its fault: no item is computed twice and no slot is written twice.
\<close>

theorem par_map_items_exclusive:
  assumes "(pool_step n f)\<^sup>*\<^sup>* (pool_start threads n) s" "i < n"
  shows "(next_item s \<le> i \<and> slots s ! i = None) \<or>
    ((\<exists>!w. w < threads \<and> workers s ! w = Working i) \<and> slots s ! i = None) \<or>
    ((\<exists>v. f i = Inr v \<and> slots s ! i = Some v) \<and> Working i \<notin> set (workers s)) \<or>
    (\<exists>e. f i = Inl e \<and> Died e \<in> set (workers s) \<and> slots s ! i = None)"
proof -
  note inv = pool_inv_reachable(1) [OF assms(1)] and len = pool_inv_reachable(2) [OF assms(1)]
  show ?thesis
  proof (cases "Working i \<in> set (workers s)")
    case True
    then have "\<exists>!w. w < threads \<and> workers s ! w = Working i"
      using pool_inv_parts(4) [OF inv] len by (auto simp: in_set_conv_nth)
    moreover have "slots s ! i = None"
      using pool_inv_parts(2) [OF inv assms(2)] True by (auto simp: item_state_def split: if_splits)
    ultimately show ?thesis by blast
  next
    case False
    with pool_inv_parts(2) [OF inv assms(2)] show ?thesis by (auto simp: item_state_def not_less split: if_splits)
  qed
qed

theorem par_map_items_exclusive_witness:
  "\<exists>s. (pool_step 2 (\<lambda>i. Inr i))\<^sup>*\<^sup>* (pool_start 2 2) s \<and> pool_done s \<and> slots s ! 1 = Some 1"
proof -
  obtain s where s: "(pool_step 2 (\<lambda>i. Inr i))\<^sup>*\<^sup>* (pool_start 2 2) s" "pool_done s"
    using pool_runs_out by blast
  have "length (workers s) = 2" by (rule pool_inv_reachable(2) [OF s(1)])
  then have "workers s ! 0 \<in> set (workers s)" by (intro nth_mem) simp
  moreover have inv: "pool_inv 2 (\<lambda>i. Inr i) s" by (rule pool_inv_reachable(1) [OF s(1)])
  then have "\<forall>e. Died e \<notin> set (workers s)" using pool_inv_parts(5) by fastforce
  moreover have "\<forall>w\<in>set (workers s). ended w" using s(2) by (simp add: pool_done_def list_all_iff)
  ultimately have w: "Stopped \<in> set (workers s)" "\<forall>i. Working i \<notin> set (workers s)" by (auto simp: ended_def)
  have "2 \<le> next_item s" by (rule pool_inv_parts(6) [OF inv w(1)])
  with par_map_items_exclusive [OF s(1), of 1] w(2) \<open>\<forall>e. Died e \<notin> set (workers s)\<close>
  have "slots s ! 1 = Some 1" by (auto simp: in_set_conv_nth \<open>length (workers s) = 2\<close>)
  with s show ?thesis by blast
qed

end
