(* ===== verification/Block_Scan.thy ===== *)
theory Block_Scan
  imports Stream_Decoder Par_Map
begin

text \<open>
  The search for block magics at arbitrary bit offsets (\<open>block_scan.rs\<close>): the 64-bit window that
  moves by two bytes, the scan of all blocks, its parallel version, and the split points
  of a chunk with their quick check of the block header. Bit offsets are naturals: a slice has
  less than 2 to the 61 bytes, so no \<open>u64\<close> bit offset wraps.
\<close>

subsection \<open>The scan\<close>

record block_boundary =
  bit_offset :: nat

definition byte_offset :: "block_boundary \<Rightarrow> nat" where
  "byte_offset b = bit_offset b div 8"

definition bit_within_byte :: "block_boundary \<Rightarrow> u8" where
  "bit_within_byte b = of_nat (bit_offset b mod 8)"

fun scan_shifts :: "u64 \<Rightarrow> nat \<Rightarrow> nat \<Rightarrow> nat list \<Rightarrow> block_boundary option" where
  "scan_shifts window byte start_bit [] = None"
| "scan_shifts window byte start_bit (shift # shifts) =
     (let candidate = drop_bit (16 - shift) window AND 0xFFFFFFFFFFFF;
          abs_bit = byte * 8 + shift
      in if candidate = BLOCK_MAGIC \<and> abs_bit \<ge> start_bit then Some \<lparr>bit_offset = abs_bit\<rparr>
         else scan_shifts window byte start_bit shifts)"

function scan_windows :: "u8 list \<Rightarrow> nat \<Rightarrow> nat \<Rightarrow> nat \<Rightarrow> block_boundary option" where
  "scan_windows search start_byte start_bit byte_idx =
     (if byte_idx + 8 \<le> length search
      then let window = be_word (take 8 (drop byte_idx search))
           in case scan_shifts window (start_byte + byte_idx) start_bit [0..<16] of
                Some b \<Rightarrow> Some b
              | None \<Rightarrow> scan_windows search start_byte start_bit (byte_idx + 2)
      else None)"
  by pat_completeness auto
termination by (relation "measure (\<lambda>(search, sb, s, i). length search - i)") auto

declare scan_windows.simps [simp del]

definition find_next_block :: "u8 list \<Rightarrow> nat \<Rightarrow> block_boundary option" where
  "find_next_block data start_bit =
     (let start_byte = start_bit div 8
      in if length data < start_byte + 8 then None
         else scan_windows (drop start_byte data) start_byte start_bit 0)"

subsection \<open>What a window shows\<close>

text \<open>The 48 bits of a magic at a bit offset, and the magics a scan from a start bit looks at.\<close>

definition magic_at :: "u8 list \<Rightarrow> nat \<Rightarrow> bool" where
  "magic_at data p \<longleftrightarrow> p + 48 \<le> 8 * length data \<and> word_of_bits (take 48 (drop p (stream_bits data))) = BLOCK_MAGIC"

definition covered :: "u8 list \<Rightarrow> nat \<Rightarrow> nat \<Rightarrow> bool" where
  "covered data start_byte p \<longleftrightarrow> start_byte \<le> p div 8 \<and> start_byte + 2 * ((p div 8 - start_byte) div 2) + 8 \<le> length data"

lemma window_candidate:
  assumes "q + 8 \<le> length data" "shift < 16"
  shows "drop_bit (16 - shift) (be_word (take 8 (drop q data))) AND 0xFFFFFFFFFFFF =
    (word_of_bits (take 48 (drop (q * 8 + shift) (stream_bits data))) :: u64)" (is "?l = ?r")
proof (rule bit_eqI)
  fix i assume "possible_bit TYPE(u64) i"
  then have i: "i < 64" by simp
  let ?bs = "take 48 (drop (q * 8 + shift) (stream_bits data))"
  have len: "length ?bs = 48" using assms by simp
  have mask: "(0xFFFFFFFFFFFF :: u64) = mask 48" by (simp add: mask_eq_exp_minus_1)
  show "bit ?l i = bit ?r i"
  proof (cases "i < 48")
    case True
    let ?k = "47 + shift - i"
    have k: "16 - shift + i = 63 - ?k" "?k < 64" using True assms by auto
    have "bit ?l i = bit (be_word (take 8 (drop q data))) (16 - shift + i)"
      using True i by (simp add: mask bit_and_iff bit_drop_bit_eq bit_mask_iff)
    also have "\<dots> = stream_bit data (8 * q + ?k)"
      unfolding k(1) by (rule be_window_bit [OF assms(1) k(2)])
    also have "\<dots> = ?bs ! (47 - i)"
      using True assms by (simp add: algebra_simps)
    also have "\<dots> = bit ?r i"
      using True i len by (simp add: bit_word_of_bits)
    finally show ?thesis .
  next
    case False
    then show ?thesis using len by (simp add: mask bit_and_iff bit_mask_iff bit_word_of_bits)
  qed
qed

lemma window_magic:
  assumes "q + 8 \<le> length data" "shift < 16"
  shows "drop_bit (16 - shift) (be_word (take 8 (drop q data))) AND 0xFFFFFFFFFFFF = BLOCK_MAGIC \<longleftrightarrow> magic_at data (q * 8 + shift)"
  using window_candidate [OF assms] assms by (simp add: magic_at_def)

text \<open>The first magic of an interval, as an option.\<close>

definition first_in :: "(nat \<Rightarrow> bool) \<Rightarrow> block_boundary option \<Rightarrow> bool" where
  "first_in P v \<longleftrightarrow> (case v of None \<Rightarrow> \<forall>p. \<not> P p | Some b \<Rightarrow> P (bit_offset b) \<and> (\<forall>p<bit_offset b. \<not> P p))"

lemma first_in_cong: "(\<And>p. P p = Q p) \<Longrightarrow> first_in P v = first_in Q v"
  by (cases v) (simp_all add: first_in_def)

lemma first_in_or:
  assumes "first_in P v" "v = None \<Longrightarrow> first_in Q v'" "\<And>p q. P p \<Longrightarrow> Q q \<Longrightarrow> p < q"
  shows "first_in (\<lambda>p. P p \<or> Q p) (case v of Some b \<Rightarrow> Some b | None \<Rightarrow> v')"
proof (cases v)
  case None
  then have "\<not> P p" for p using assms(1) by (simp add: first_in_def)
  then show ?thesis using assms(2) [OF None] None by simp
next
  case (Some b)
  then show ?thesis using assms(1,3) by (fastforce simp: first_in_def)
qed

lemma scan_shifts_first:
  assumes "q + 8 \<le> length data" "k \<le> 16"
  shows "first_in (\<lambda>p. magic_at data p \<and> start \<le> p \<and> q * 8 + k \<le> p \<and> p < q * 8 + 16)
    (scan_shifts (be_word (take 8 (drop q data))) q start [k..<16])"
  using assms(2)
proof (induction "16 - k" arbitrary: k)
  case 0
  then show ?case by (simp add: first_in_def)
next
  case (Suc d)
  then have k: "k < 16" and cons: "[k..<16] = k # [Suc k..<16]" by (simp_all add: upt_conv_Cons)
  show ?case
  proof (cases "magic_at data (q * 8 + k) \<and> start \<le> q * 8 + k")
    case True
    then show ?thesis using k window_magic [OF assms(1) k] by (simp add: cons Let_def first_in_def)
  next
    case False
    have "first_in (\<lambda>p. magic_at data p \<and> start \<le> p \<and> q * 8 + Suc k \<le> p \<and> p < q * 8 + 16)
      (scan_shifts (be_word (take 8 (drop q data))) q start [Suc k..<16])"
      using Suc k by (intro Suc.hyps(1)) simp_all
    moreover have "(magic_at data p \<and> start \<le> p \<and> q * 8 + Suc k \<le> p \<and> p < q * 8 + 16) =
        (magic_at data p \<and> start \<le> p \<and> q * 8 + k \<le> p \<and> p < q * 8 + 16)" for p
      using False by (cases "p = q * 8 + k") auto
    ultimately show ?thesis
      using False window_magic [OF assms(1) k] by (auto simp: cons Let_def)
  qed
qed

lemma scan_windows_first:
  assumes "even i"
  shows "first_in (\<lambda>p. magic_at data p \<and> start \<le> p \<and> covered data sb p \<and> 8 * (sb + i) \<le> p)
    (scan_windows (drop sb data) sb start i)"
  using assms
proof (induction "drop sb data" sb start i rule: scan_windows.induct)
  case (1 sb start i)
  have step: "sb \<le> p div 8 \<and> 2 * ((p div 8 - sb) div 2) = i" if "8 * (sb + i) \<le> p" "p < 8 * (sb + i) + 16" for p
  proof -
    have "sb + i \<le> p div 8" "p div 8 < sb + i + 2"
      using that by (simp_all add: less_eq_div_iff_mult_less_eq div_less_iff_less_mult)
    moreover from this have "p div 8 - sb = i \<or> p div 8 - sb = i + 1" by linarith
    ultimately show ?thesis using "1.prems" by auto
  qed
  have later: "i \<le> 2 * ((p div 8 - sb) div 2)" if "8 * (sb + i) \<le> p" for p
  proof -
    have "sb + i \<le> p div 8" using that by (simp add: less_eq_div_iff_mult_less_eq)
    then have "i \<le> p div 8 - sb" by linarith
    then show ?thesis using "1.prems" by presburger
  qed
  show ?case
  proof (cases "i + 8 \<le> length (drop sb data)")
    case True
    then have q: "sb + i + 8 \<le> length data" by simp
    let ?v = "scan_shifts (be_word (take 8 (drop i (drop sb data)))) (sb + i) start [0..<16]"
    have eq: "scan_windows (drop sb data) sb start i =
        (case ?v of Some b \<Rightarrow> Some b | None \<Rightarrow> scan_windows (drop sb data) sb start (i + 2))"
      by (subst scan_windows.simps) (simp only: True if_True Let_def)
    have "first_in (\<lambda>p. magic_at data p \<and> start \<le> p \<and> (sb + i) * 8 + 0 \<le> p \<and> p < (sb + i) * 8 + 16) ?v"
      using scan_shifts_first [OF q, of 0 start] by (simp add: add.commute)
    moreover have "first_in (\<lambda>p. magic_at data p \<and> start \<le> p \<and> covered data sb p \<and> 8 * (sb + (i + 2)) \<le> p)
        (scan_windows (drop sb data) sb start (i + 2))" if "?v = None"
      using "1.hyps" [OF True refl that] "1.prems" by simp
    ultimately have "first_in (\<lambda>p. (magic_at data p \<and> start \<le> p \<and> (sb + i) * 8 + 0 \<le> p \<and> p < (sb + i) * 8 + 16) \<or>
        (magic_at data p \<and> start \<le> p \<and> covered data sb p \<and> 8 * (sb + (i + 2)) \<le> p)) (scan_windows (drop sb data) sb start i)"
      unfolding eq by (rule first_in_or) simp_all
    moreover have "(magic_at data p \<and> start \<le> p \<and> (sb + i) * 8 + 0 \<le> p \<and> p < (sb + i) * 8 + 16) \<or>
        (magic_at data p \<and> start \<le> p \<and> covered data sb p \<and> 8 * (sb + (i + 2)) \<le> p) \<longleftrightarrow>
        magic_at data p \<and> start \<le> p \<and> covered data sb p \<and> 8 * (sb + i) \<le> p" for p
    proof (cases "8 * (sb + i) \<le> p \<and> p < 8 * (sb + i) + 16")
      case True
      then have "covered data sb p" using step [of p] q by (simp add: covered_def)
      with True show ?thesis by auto
    qed auto
    ultimately show ?thesis by simp
  next
    case False
    then have "\<not> (covered data sb p \<and> 8 * (sb + i) \<le> p)" for p
      using later [of p] by (auto simp: covered_def)
    moreover have "scan_windows (drop sb data) sb start i = None" using False by (subst scan_windows.simps) simp
    ultimately show ?thesis by (auto simp: first_in_def)
  qed
qed

lemma find_next_first:
  "first_in (\<lambda>p. magic_at data p \<and> start \<le> p \<and> covered data (start div 8) p) (find_next_block data start)"
proof (cases "length data < start div 8 + 8")
  case True
  then show ?thesis by (simp add: find_next_block_def first_in_def covered_def)
next
  case False
  have "first_in (\<lambda>p. magic_at data p \<and> start \<le> p \<and> covered data (start div 8) p \<and> 8 * (start div 8 + 0) \<le> p) (find_next_block data start)"
    using scan_windows_first [of 0 data start "start div 8"] False by (simp add: find_next_block_def Let_def)
  moreover have "start \<le> p \<Longrightarrow> 8 * (start div 8 + 0) \<le> p" for p
    by (metis add_0_right le_trans times_div_less_eq_dividend)
  ultimately show ?thesis by (elim first_in_cong [THEN iffD1, rotated]) auto
qed

lemma find_next_Some:
  assumes "find_next_block data start = Some b"
  shows "magic_at data (bit_offset b)" "start \<le> bit_offset b" "covered data (start div 8) (bit_offset b)"
    "start \<le> p \<Longrightarrow> p < bit_offset b \<Longrightarrow> covered data (start div 8) p \<Longrightarrow> \<not> magic_at data p"
  using find_next_first [of data start] assms by (auto simp: first_in_def)

lemma find_next_None:
  assumes "find_next_block data start = None" "start \<le> p" "covered data (start div 8) p"
  shows "\<not> magic_at data p"
  using find_next_first [of data start] assms by (auto simp: first_in_def)

text \<open>Every magic whose first byte starts a whole window is covered from every start before it.\<close>

lemma covered_whole: "p div 8 + 8 \<le> length data \<Longrightarrow> start \<le> p \<Longrightarrow> covered data (start div 8) p"
  unfolding covered_def by (auto simp: div_le_mono)

subsection \<open>All blocks\<close>

function find_all_from :: "u8 list \<Rightarrow> nat \<Rightarrow> block_boundary list" where
  "find_all_from data bit_pos0 =
     (case find_next_block data bit_pos0 of
        Some b \<Rightarrow> b # find_all_from data (bit_offset b + 48)
      | None \<Rightarrow> [])"
  by pat_completeness auto
termination
proof (relation "measure (\<lambda>(data, p). 8 * length data - p)")
  fix data p b
  assume "find_next_block data p = Some b"
  then have "magic_at data (bit_offset b)" "p \<le> bit_offset b" by (rule find_next_Some)+
  then show "((data, bit_offset b + 48), data, p) \<in> measure (\<lambda>(data, p). 8 * length data - p)"
    by (auto simp: magic_at_def)
qed simp

declare find_all_from.simps [simp del]

definition find_all_blocks :: "u8 list \<Rightarrow> block_boundary list" where
  "find_all_blocks data = find_all_from data 0"

text \<open>One thread of the parallel scan, from a start bit up to an end bit.\<close>

function scan_chunk :: "u8 list \<Rightarrow> nat \<Rightarrow> nat \<Rightarrow> block_boundary list" where
  "scan_chunk data end_bit p =
     (if p < end_bit
      then case find_next_block data p of
             Some b \<Rightarrow> if bit_offset b < end_bit then b # scan_chunk data end_bit (bit_offset b + 48) else []
           | None \<Rightarrow> []
      else [])"
  by pat_completeness auto
termination
proof (relation "measure (\<lambda>(data, e, p). e - p)")
  fix data e p b
  assume "p < e" "find_next_block data p = Some b"
  moreover from this(2) have "p \<le> bit_offset b" by (rule find_next_Some)
  ultimately show "((data, e, bit_offset b + 48), data, e, p) \<in> measure (\<lambda>(data, e, p). e - p)"
    by auto
qed simp

declare scan_chunk.simps [simp del]

definition scan_part :: "u8 list \<Rightarrow> nat \<Rightarrow> nat \<Rightarrow> block_boundary list" where
  "scan_part data n i =
     (let chunk_size = length data div n;
          start_byte = i * chunk_size;
          end_byte = (if i + 1 < n then (i + 1) * chunk_size + 8 else length data)
      in scan_chunk data (end_byte * 8) (start_byte * 8))"

text \<open>\<open>Vec::dedup_by_key\<close> drops every element with the key of the one kept before it.\<close>

fun dedup_by_key :: "('a \<Rightarrow> 'b) \<Rightarrow> 'a list \<Rightarrow> 'a list" where
  "dedup_by_key f [] = []"
| "dedup_by_key f [x] = [x]"
| "dedup_by_key f (x # y # zs) =
     (if f x = f y then dedup_by_key f (x # zs) else x # dedup_by_key f (y # zs))"

definition find_all_blocks_parallel :: "nat \<Rightarrow> u8 list \<Rightarrow> nat \<Rightarrow> block_boundary list result" where
  "find_all_blocks_parallel budget data n_threads =
     (let n = max n_threads 1
      in if length data < 16 \<or> n = 1 then Inr (find_all_blocks data)
         else bindE (par_map budget n (\<lambda>i. Inr (scan_part data n i))) (\<lambda>per_thread.
              Inr (dedup_by_key bit_offset (sort_key bit_offset (concat per_thread)))))"

subsection \<open>What the scans find\<close>

definition boundaries_at :: "nat list \<Rightarrow> block_boundary list" where
  "boundaries_at ps = map (\<lambda>p. \<lparr>bit_offset = p\<rparr>) ps"

definition magics_from :: "u8 list \<Rightarrow> nat \<Rightarrow> nat \<Rightarrow> nat list" where
  "magics_from data p e = filter (magic_at data) [p..<min e (8 * length data)]"

text \<open>
  No magic starts in the last seven bytes, where no whole window is left, and no two magics
  overlap (the 48 bits can overlap themselves by three).
\<close>

definition scannable :: "u8 list \<Rightarrow> bool" where
  "scannable data \<longleftrightarrow> (\<forall>p. magic_at data p \<longrightarrow> p div 8 + 8 \<le> length data) \<and>
     (\<forall>p q. magic_at data p \<longrightarrow> magic_at data q \<longrightarrow> p < q \<longrightarrow> p + 48 \<le> q)"

lemma boundary_eta: "\<lparr>bit_offset = bit_offset b\<rparr> = b"
  by simp

lemma filter_upt_first:
  assumes "P m" "a \<le> m" "m < e" "\<And>p. a \<le> p \<Longrightarrow> p < m \<Longrightarrow> \<not> P p" "\<And>p. m < p \<Longrightarrow> p < c \<Longrightarrow> p < e \<Longrightarrow> \<not> P p" "m < c"
  shows "filter P [a..<e] = m # filter P [c..<e]"
proof -
  have "[a..<e] = [a..<m] @ m # [Suc m..<min c e] @ [c..<e]"
  proof -
    have "[a..<e] = [a..<m] @ [m..<e]" using assms(2,3) by (metis le_add_diff_inverse less_imp_le upt_add_eq_append)
    moreover have "[m..<e] = m # [Suc m..<e]" using assms(3) by (simp add: upt_conv_Cons)
    moreover have "[Suc m..<e] = [Suc m..<min c e] @ [c..<e]"
    proof (cases "c \<le> e")
      case True
      then show ?thesis using assms(6) by (metis Suc_leI le_add_diff_inverse min.absorb1 upt_add_eq_append)
    qed (simp add: min_def)
    ultimately show ?thesis by simp
  qed
  moreover have "filter P [a..<m] = []" using assms(4) by (simp add: filter_empty_conv)
  moreover have "filter P [Suc m..<min c e] = []" using assms(5) by (simp add: filter_empty_conv)
  ultimately show ?thesis using assms(1) by simp
qed

lemma find_next_scannable:
  assumes "scannable data" "find_next_block data p = v"
  shows "(case v of None \<Rightarrow> magics_from data p e = []
    | Some b \<Rightarrow> if bit_offset b < e then magics_from data p e = bit_offset b # magics_from data (bit_offset b + 48) e
        else magics_from data p e = [])"
proof (cases v)
  case None
  have "\<not> magic_at data q" if "p \<le> q" for q
    using find_next_None [of data p q] assms None that by (auto simp: scannable_def intro: covered_whole)
  then show ?thesis by (simp add: None magics_from_def filter_empty_conv)
next
  case (Some b)
  note b = find_next_Some [OF assms(2) [unfolded Some]]
  have before: "\<not> magic_at data q" if "p \<le> q" "q < bit_offset b" for q
    using b(4) [OF that] assms(1) that(1) by (auto simp: scannable_def intro: covered_whole)
  have after: "\<not> magic_at data q" if "bit_offset b < q" "q < bit_offset b + 48" for q
    using assms(1) b(1) that unfolding scannable_def by (meson not_le)
  have bound: "bit_offset b < 8 * length data" using b(1) by (simp add: magic_at_def)
  show ?thesis
  proof (cases "bit_offset b < e")
    case True
    then have "bit_offset b < min e (8 * length data)" using bound by simp
    then show ?thesis
      using True b(1,2) before after unfolding magics_from_def Some
      by (simp del: min_less_iff_conj, intro filter_upt_first) auto
  next
    case False
    then show ?thesis using before by (simp add: Some magics_from_def filter_empty_conv)
  qed
qed

lemma find_all_from_scannable:
  "scannable data \<Longrightarrow> find_all_from data p = boundaries_at (magics_from data p (8 * length data))"
proof (induction data p rule: find_all_from.induct)
  case (1 data p)
  show ?case
  proof (cases "find_next_block data p")
    case None
    then show ?thesis using find_next_scannable [OF "1.prems" None, of "8 * length data"]
      by (subst find_all_from.simps) (simp add: boundaries_at_def)
  next
    case (Some b)
    then have "bit_offset b < 8 * length data" using find_next_Some(1) [OF Some] by (simp add: magic_at_def)
    then show ?thesis
      using find_next_scannable [OF "1.prems" Some, of "8 * length data"] "1.IH" [OF Some "1.prems"] Some
      by (subst find_all_from.simps) (simp add: boundaries_at_def)
  qed
qed

lemma scan_chunk_scannable:
  "scannable data \<Longrightarrow> scan_chunk data e p = boundaries_at (magics_from data p e)"
proof (induction data e p rule: scan_chunk.induct)
  case (1 data e p)
  show ?case
  proof (cases "p < e")
    case False
    then show ?thesis by (subst scan_chunk.simps) (simp add: magics_from_def boundaries_at_def)
  next
    case True
    show ?thesis
    proof (cases "find_next_block data p")
      case None
      then show ?thesis using find_next_scannable [OF "1.prems" None, of e]
        by (subst scan_chunk.simps) (simp add: boundaries_at_def)
    next
      case (Some b)
      then show ?thesis
        using find_next_scannable [OF "1.prems" Some, of e] "1.IH" [OF True Some _ "1.prems"] True
        by (subst scan_chunk.simps) (auto simp: boundaries_at_def)
    qed
  qed
qed

subsection \<open>The parallel scan\<close>

lemma map_dedup_by_key: "map f (dedup_by_key f xs) = remdups_adj (map f xs)"
  by (induction f xs rule: dedup_by_key.induct) simp_all

lemma sorted_distinct_adj: "sorted xs \<Longrightarrow> distinct_adj xs \<Longrightarrow> distinct (xs :: nat list)"
proof (induction xs)
  case (Cons x xs)
  show ?case
  proof (cases xs)
    case (Cons y ys)
    then have "x < y" "\<forall>z\<in>set xs. y \<le> z" using Cons.prems by auto
    then have "x \<notin> set xs" by fastforce
    then show ?thesis using Cons.IH Cons.prems Cons by auto
  qed simp
qed simp

lemma sorted_dedup:
  fixes f :: "'a \<Rightarrow> nat"
  shows "sorted (map f xs) \<Longrightarrow> sorted (map f (dedup_by_key f xs)) \<and> distinct (map f (dedup_by_key f xs))"
  by (simp add: map_dedup_by_key sorted_distinct_adj)

lemma map_bit_offset_inj: "map bit_offset xs = map bit_offset ys \<Longrightarrow> xs = (ys :: block_boundary list)"
proof -
  have "inj (bit_offset :: block_boundary \<Rightarrow> nat)" by (rule injI) (rule block_boundary.equality, simp_all)
  then show "map bit_offset xs = map bit_offset ys \<Longrightarrow> xs = ys" by (simp add: inj_map_eq_map)
qed

text \<open>The parts cover the buffer.\<close>

lemma parts_cover:
  fixes N n p :: nat
  assumes "0 < n" "p < 8 * N"
  shows "\<exists>i<n. i * (N div n) * 8 \<le> p \<and> p < (if i + 1 < n then (i + 1) * (N div n) + 8 else N) * 8"
proof (cases "(n - 1) * (N div n) * 8 \<le> p")
  case True
  then show ?thesis using assms by (intro exI [of _ "n - 1"]) simp
next
  case False
  let ?c = "8 * (N div n)"
  have c: "0 < ?c" using False by (cases "N div n") simp_all
  let ?i = "p div ?c"
  have i: "?i < n - 1" using False c by (simp add: div_less_iff_less_mult algebra_simps)
  moreover have "?i * ?c \<le> p" by simp
  moreover have "p < (?i + 1) * ?c" using c dividend_less_div_times [of ?c p] by simp
  moreover have "?i + 1 < n" using i by simp
  ultimately show ?thesis by (intro exI [of _ ?i]) (simp add: algebra_simps)
qed

lemma find_all_parallel_scannable:
  assumes "scannable data"
  shows "find_all_blocks_parallel budget data n_threads = Inr (find_all_blocks data)"
proof (cases "length data < 16 \<or> max n_threads 1 = 1")
  case True
  then show ?thesis by (auto simp: find_all_blocks_parallel_def)
next
  case False
  define n where "n = max n_threads 1"
  then have n: "0 < n" and nn: "max n_threads (Suc 0) = n" by simp_all
  let ?N = "length data"
  let ?e = "\<lambda>i. (if i + 1 < n then (i + 1) * (?N div n) + 8 else ?N) * 8"
  let ?ps = "\<lambda>i. magics_from data (i * (?N div n) * 8) (?e i)"
  have part: "scan_part data n i = boundaries_at (?ps i)" for i
    by (simp add: scan_part_def Let_def scan_chunk_scannable [OF assms])
  let ?all = "concat (map (scan_part data n) [0..<n])"
  let ?out = "dedup_by_key bit_offset (sort_key bit_offset ?all)"
  have all: "find_all_blocks_parallel budget data n_threads = Inr ?out"
    using False n by (simp add: find_all_blocks_parallel_def Let_def nn pm.pure [where g = "scan_part data n"])
  have "bit_offset ` set ?all = (\<Union>i<n. set (?ps i))"
    by (auto simp: part boundaries_at_def atLeast0LessThan image_iff) (force simp: image_iff)+
  also have "\<dots> = set (magics_from data 0 (8 * ?N))"
  proof
    show "(\<Union>i<n. set (?ps i)) \<subseteq> set (magics_from data 0 (8 * ?N))" by (auto simp: magics_from_def)
    show "set (magics_from data 0 (8 * ?N)) \<subseteq> (\<Union>i<n. set (?ps i))"
    proof
      fix p assume p: "p \<in> set (magics_from data 0 (8 * ?N))"
      then obtain i where "i < n" "i * (?N div n) * 8 \<le> p" "p < ?e i"
        using parts_cover [OF n, of p ?N] by (auto simp: magics_from_def)
      then have "p \<in> set (?ps i)" using p by (simp add: magics_from_def)
      with \<open>i < n\<close> show "p \<in> (\<Union>i<n. set (?ps i))" by blast
    qed
  qed
  finally have set_all: "bit_offset ` set ?all = set (magics_from data 0 (8 * ?N))" .
  have out: "sorted (map bit_offset ?out) \<and> distinct (map bit_offset ?out)" by (rule sorted_dedup) simp
  have "set (map bit_offset ?out) = set (magics_from data 0 (8 * ?N))"
    unfolding map_dedup_by_key remdups_adj_set set_map set_sort by (rule set_all)
  then have "map bit_offset ?out = magics_from data 0 (8 * ?N)"
    using out sorted_wrt_filter [OF sorted_upt] by (intro sorted_distinct_set_unique) (simp_all add: magics_from_def)
  moreover have "map bit_offset (find_all_blocks data) = magics_from data 0 (8 * ?N)"
    by (simp add: find_all_blocks_def find_all_from_scannable [OF assms] boundaries_at_def comp_def)
  ultimately show ?thesis unfolding all by (metis map_bit_offset_inj)
qed

lemma find_all_from_spec:
  "(\<forall>b\<in>set (find_all_from data p). magic_at data (bit_offset b) \<and> p \<le> bit_offset b) \<and>
   sorted_wrt (\<lambda>a b. bit_offset a + 48 \<le> bit_offset b) (find_all_from data p) \<and>
   (\<forall>q\<ge>p. magic_at data q \<and> q div 8 + 8 \<le> length data \<longrightarrow>
      (\<exists>b\<in>set (find_all_from data p). bit_offset b \<le> q \<and> q < bit_offset b + 48))"
proof (induction data p rule: find_all_from.induct)
  case (1 data p)
  show ?case
  proof (cases "find_next_block data p")
    case None
    then have "find_all_from data p = []" by (subst find_all_from.simps) simp
    moreover have "\<not> (magic_at data q \<and> q div 8 + 8 \<le> length data)" if "p \<le> q" for q
      using find_next_None [OF None that] covered_whole [OF _ that] by blast
    ultimately show ?thesis by simp
  next
    case (Some b)
    note b = find_next_Some [OF Some] and IH = "1.IH" [OF Some]
    have eq: "find_all_from data p = b # find_all_from data (bit_offset b + 48)" using Some by (subst find_all_from.simps) simp
    have "\<exists>c\<in>set (find_all_from data p). bit_offset c \<le> q \<and> q < bit_offset c + 48"
      if q: "p \<le> q" "magic_at data q" "q div 8 + 8 \<le> length data" for q
    proof (cases "bit_offset b + 48 \<le> q")
      case True
      then show ?thesis using IH q by (auto simp: eq)
    next
      case False
      have "bit_offset b \<le> q" using b(4) [OF q(1) _ covered_whole [OF q(3,1)]] q(2) by (meson not_le)
      with False show ?thesis by (auto simp: eq)
    qed
    moreover have "\<forall>c\<in>set (find_all_from data (bit_offset b + 48)). magic_at data (bit_offset c) \<and> p \<le> bit_offset c"
      using IH b(2) by fastforce
    ultimately show ?thesis using IH b(1,2) unfolding eq by auto
  qed
qed

subsection \<open>Split points\<close>

text \<open>\<open>split_boundaries\<close>: the first block after each nominal split, without repetitions of the last one.\<close>

fun split_from :: "u8 list \<Rightarrow> nat \<Rightarrow> nat list \<Rightarrow> block_boundary list \<Rightarrow> block_boundary list" where
  "split_from data n_splits [] boundaries = boundaries"
| "split_from data n_splits (i # is) boundaries =
     (let nominal_bit = 8 * length data * i div n_splits
      in case find_next_block data nominal_bit of
           Some b \<Rightarrow>
             if boundaries = [] \<or> bit_offset (last boundaries) \<noteq> bit_offset b
             then split_from data n_splits is (boundaries @ [b])
             else split_from data n_splits is boundaries
         | None \<Rightarrow> split_from data n_splits is boundaries)"

definition split_boundaries :: "u8 list \<Rightarrow> nat \<Rightarrow> block_boundary list" where
  "split_boundaries data n_splits =
     (if n_splits \<le> 1 \<or> data = [] then [] else split_from data n_splits [1..<n_splits] [])"

subsection \<open>The quick check of a block header\<close>

definition quick_fields :: "nat \<Rightarrow> bool reading" where
  "quick_fields max_blocksize =
     bindR (read_u32 32) (\<lambda>crc. if crc = None then returnR False else
     bindR read_bit (\<lambda>randomised. if randomised \<noteq> Some False then returnR False else
     bindR (read_u32 24) (\<lambda>orig_ptr.
       if \<not> (case orig_ptr of Some v \<Rightarrow> unat v < max_blocksize | None \<Rightarrow> False) then returnR False else
     bindR (read_u16 16) (\<lambda>bitmap. returnR (case bitmap of Some v \<Rightarrow> v \<noteq> 0 | None \<Rightarrow> False)))))"

definition quick_verify_block :: "u8 list \<Rightarrow> nat \<Rightarrow> nat \<Rightarrow> bool result" where
  "quick_verify_block data magic_bit_offset max_blocksize =
     (let total_bits = 8 * length data; after_magic = magic_bit_offset + 48
      in if after_magic + 73 > total_bits then Inr False
         else bindE (from_bit_offset data after_magic) (\<lambda>r.
              bindE (quick_fields max_blocksize r) (\<lambda>(ok, r'). Inr ok)))"

function find_quick_boundary :: "u8 list \<Rightarrow> nat \<Rightarrow> nat \<Rightarrow> block_boundary option result" where
  "find_quick_boundary data search_bit max_blocksize =
     (case find_next_block data search_bit of
        None \<Rightarrow> Inr None
      | Some candidate \<Rightarrow>
          if bit_offset candidate + 48 + 73 > 8 * length data then Inr None
          else bindE (quick_verify_block data (bit_offset candidate) max_blocksize) (\<lambda>ok.
               if ok then Inr (Some candidate)
               else find_quick_boundary data (bit_offset candidate + 1) max_blocksize))"
  by pat_completeness auto
termination
proof (relation "measure (\<lambda>(data, p, m). 8 * length data - p)")
  fix data p m and b :: block_boundary and ok :: bool
  assume "find_next_block data p = Some b"
  then have "magic_at data (bit_offset b)" "p \<le> bit_offset b" by (rule find_next_Some)+
  then show "((data, bit_offset b + 1, m), data, p, m) \<in> measure (\<lambda>(data, p, m). 8 * length data - p)"
    by (auto simp: magic_at_def)
qed simp

declare find_quick_boundary.simps [simp del]

definition split_boundaries_parallel :: "nat \<Rightarrow> u8 list \<Rightarrow> nat \<Rightarrow> nat \<Rightarrow> block_boundary list result" where
  "split_boundaries_parallel budget data n_splits max_blocksize =
     (if n_splits \<le> 1 \<or> data = [] then Inr []
      else bindE (par_map budget (n_splits - 1) (\<lambda>idx.
             find_quick_boundary data (8 * length data * (idx + 1) div n_splits) max_blocksize)) (\<lambda>boundaries.
           Inr (dedup_by_key bit_offset (sort_key bit_offset (concat (map (\<lambda>v. case v of Some b \<Rightarrow> [b] | None \<Rightarrow> []) boundaries))))))"

text \<open>The 73 bits after a magic at \<open>p\<close> look like a block header.\<close>

definition header_plausible :: "u8 list \<Rightarrow> nat \<Rightarrow> nat \<Rightarrow> bool" where
  "header_plausible data p m \<longleftrightarrow> p + 121 \<le> 8 * length data \<and>
     (let w = drop (p + 48) (stream_bits data)
      in \<not> w ! 32 \<and> nat_of_bits (take 24 (drop 33 w)) < m \<and> True \<in> set (take 16 (drop 57 w)))"

lemma nat_of_bits_zero: "nat_of_bits bs = 0 \<longleftrightarrow> True \<notin> set bs"
  by (induction bs rule: rev_induct) (auto simp: nat_of_bits_snoc)

lemma unat_word_of_bits_take:
  "n \<le> LENGTH('a) \<Longrightarrow> unat (word_of_bits (take n w) :: 'a::len word) = nat_of_bits (take n w)"
  by (rule unat_word_of_bits) simp

lemma read_u32_enough:
  assumes "reader_at bs r" "0 < n" "n \<le> 32" "n \<le> length (bits_of r)"
  obtains r' where "read_u32 n r = Inr (Some (word_of_bits (take n (bits_of r))), r')" "reader_at bs r'" "bits_of r' = drop n (bits_of r)"
proof (rule read_uint_cases [OF assms(1,2), where 'a = 32])
  fix q assume "read_uint LENGTH(32) n r = Inr (if n \<le> length (bits_of r) then Some (word_of_bits (take n (bits_of r)) :: u32) else None, q)"
    "reader_at bs q" "n \<le> length (bits_of r) \<Longrightarrow> bits_of q = drop n (bits_of r)"
  then show thesis using assms(4) by (intro that [of q]) (simp_all add: read_u32_def)
qed (use assms(3) in simp_all)

lemma read_u16_enough:
  assumes "reader_at bs r" "0 < n" "n \<le> 16" "n \<le> length (bits_of r)"
  obtains r' where "read_u16 n r = Inr (Some (word_of_bits (take n (bits_of r))), r')" "reader_at bs r'" "bits_of r' = drop n (bits_of r)"
proof (rule read_uint_cases [OF assms(1,2), where 'a = 16])
  fix q assume "read_uint LENGTH(16) n r = Inr (if n \<le> length (bits_of r) then Some (word_of_bits (take n (bits_of r)) :: u16) else None, q)"
    "reader_at bs q" "n \<le> length (bits_of r) \<Longrightarrow> bits_of q = drop n (bits_of r)"
  then show thesis using assms(4) by (intro that [of q]) (simp_all add: read_u16_def)
qed (use assms(3) in simp_all)

lemma quick_fields_bits:
  assumes "reader_at bs r" "73 \<le> length (bits_of r)"
  obtains r' where "quick_fields m r = Inr (\<not> bits_of r ! 32 \<and> nat_of_bits (take 24 (drop 33 (bits_of r))) < m \<and>
    True \<in> set (take 16 (drop 57 (bits_of r))), r')"
proof -
  let ?w = "bits_of r"
  have w: "32 \<le> length ?w" using assms(2) by simp
  obtain r1 where r1: "read_u32 32 r = Inr (Some (word_of_bits (take 32 ?w)), r1)" "reader_at bs r1" "bits_of r1 = drop 32 ?w"
    by (rule read_u32_enough [OF assms(1) _ _ w]) simp_all
  obtain r2 where r2: "read_bit r1 = Inr (Some (?w ! 32), r2)" "reader_at bs r2" "bits_of r2 = drop 33 ?w"
  proof -
    obtain q where "read_bit r1 = Inr (if bits_of r1 = [] then None else Some (hd (bits_of r1)), q)" "reader_at bs q"
        "bits_of q = tl (bits_of r1)"
      by (rule read_bit_cases [OF r1(2)])
    moreover have "tl (drop 32 ?w) = drop (Suc 32) ?w" by (simp only: drop_Suc tl_drop)
    ultimately show thesis using that assms(2) by (simp add: r1(3) hd_drop_conv_nth)
  qed
  have w2: "24 \<le> length (bits_of r2)" using assms(2) by (simp add: r2(3))
  obtain r3 where r3: "read_u32 24 r2 = Inr (Some (word_of_bits (take 24 (bits_of r2))), r3)" "reader_at bs r3" "bits_of r3 = drop 24 (bits_of r2)"
    by (rule read_u32_enough [OF r2(2) _ _ w2]) simp_all
  have w3: "16 \<le> length (bits_of r3)" "bits_of r3 = drop 57 ?w" using assms(2) by (simp_all add: r2(3) r3(3))
  obtain r4 where r4: "read_u16 16 r3 = Inr (Some (word_of_bits (take 16 (bits_of r3))), r4)"
    by (rule read_u16_enough [OF r3(2) _ _ w3(1)]) simp_all
  have ptr: "unat (word_of_bits (take 24 (drop 33 ?w)) :: u32) = nat_of_bits (take 24 (drop 33 ?w))"
    by (rule unat_word_of_bits_take) simp
  have map: "(word_of_bits (take 16 (drop 57 ?w)) :: u16) \<noteq> 0 \<longleftrightarrow> True \<in> set (take 16 (drop 57 ?w))"
    using unat_word_of_bits_take [of 16 "drop 57 ?w", where 'a = 16] nat_of_bits_zero [of "take 16 (drop 57 ?w)"]
    by (auto simp: unat_eq_0)
  show thesis
    by (cases "?w ! 32"; cases "nat_of_bits (take 24 (drop 33 ?w)) < m")
      (rule that, simp add: quick_fields_def bindR_def reading_simps r1(1) r2(1,3) r3(1) r4 w3(2) ptr map)+
qed

lemma quick_verify_spec: "quick_verify_block data p m = Inr (header_plausible data p m)"
proof (cases "p + 48 + 73 > 8 * length data")
  case True
  then show ?thesis by (auto simp: quick_verify_block_def header_plausible_def)
next
  case False
  then have "p + 48 \<le> 8 * length data" by simp
  then obtain r where r: "from_bit_offset data (p + 48) = Inr r" "reader_at data r" "bits_of r = drop (p + 48) (stream_bits data)"
    by (rule reader_from)
  have "73 \<le> length (bits_of r)" using False by (simp add: r(3))
  then obtain r' where "quick_fields m r = Inr (\<not> bits_of r ! 32 \<and> nat_of_bits (take 24 (drop 33 (bits_of r))) < m \<and>
      True \<in> set (take 16 (drop 57 (bits_of r))), r')" by (rule quick_fields_bits [OF r(2)])
  with False r(1) show ?thesis by (simp add: quick_verify_block_def header_plausible_def Let_def r(3))
qed

lemma plausible_whole: "header_plausible data p m \<Longrightarrow> p div 8 + 8 \<le> length data"
  by (auto simp: header_plausible_def)

lemma find_quick_first:
  "\<exists>v. find_quick_boundary data s m = Inr v \<and> first_in (\<lambda>p. magic_at data p \<and> s \<le> p \<and> header_plausible data p m) v"
proof (induction data s m rule: find_quick_boundary.induct)
  case (1 data s m)
  show ?case
  proof (cases "find_next_block data s")
    case None
    have "\<not> (magic_at data p \<and> s \<le> p \<and> header_plausible data p m)" for p
      using find_next_None [OF None, of p] covered_whole [OF plausible_whole, of data p m s] by blast
    then show ?thesis using None by (subst find_quick_boundary.simps) (simp add: first_in_def)
  next
    case (Some c)
    note c = find_next_Some [OF Some]
    have before: "\<not> (magic_at data p \<and> s \<le> p \<and> header_plausible data p m)" if "p < bit_offset c" for p
      using c(4) [OF _ that] covered_whole [OF plausible_whole, of data p m s] by blast
    show ?thesis
    proof (cases "bit_offset c + 48 + 73 > 8 * length data")
      case True
      then have "\<not> (magic_at data p \<and> s \<le> p \<and> header_plausible data p m)" for p
        using before [of p] by (cases "p < bit_offset c") (auto simp: header_plausible_def)
      then show ?thesis using Some True by (subst find_quick_boundary.simps) (simp add: first_in_def)
    next
      case False
      show ?thesis
      proof (cases "header_plausible data (bit_offset c) m")
        case True
        then show ?thesis using Some False before c(1,2)
          by (subst find_quick_boundary.simps) (simp add: first_in_def quick_verify_spec)
      next
        case nv: False
        then have eq: "find_quick_boundary data s m = find_quick_boundary data (bit_offset c + 1) m"
          using Some False by (subst find_quick_boundary.simps) (simp add: quick_verify_spec)
        have "(magic_at data p \<and> bit_offset c + 1 \<le> p \<and> header_plausible data p m) =
            (magic_at data p \<and> s \<le> p \<and> header_plausible data p m)" for p
          using before [of p] nv c(2) by (cases "p = bit_offset c"; cases "p < bit_offset c") auto
        with "1.IH" [OF Some False quick_verify_spec nv] show ?thesis unfolding eq by simp
      qed
    qed
  qed
qed

text \<open>A block that decodes has a plausible header.\<close>

lemma decoded_header:
  assumes "reader_at bs r" "decode_block_common slot m r = Inr (v, r')" "m \<le> 2 ^ 24"
  obtains p r1 bt r2 where "read_header r = Inr (p, r1)" "read_tables r1 = Inr (bt, r2)" "p < m"
proof -
  let ?st = "\<lambda>bt. start_state bt (fst (fst (take_tt_buffer m slot)))"
  from assms(2) obtain p r1 bt r2 tree s r3 where h: "read_header r = Inr (p, r1)" and t: "read_tables r1 = Inr (bt, r2)"
    and sel: "bindE (index (selectors bt) 0) (\<lambda>sel. index (trees bt) (unat sel)) = Inr tree"
    and loop: "symbol_loop bt m 50 0 tree (?st bt) r2 = Inr (s, r3)" and p: "p < length (tt s)"
    unfolding decode_block_common_def bindR_Inr_iff liftR_Inr_iff
    by (auto simp: reading_simps not_le split: if_splits)
  have r1: "reader_at bs r1" using runs_one [OF runs_header assms(1) order_refl] h by (auto simp: block_fault_def)
  have r2: "reader_at bs r2" and bt: "tables_ok bt"
    using runs_one [OF runs_tables r1 order_refl] t by (auto simp: block_fault_def)
  from sel obtain i where i: "i < length (trees bt)" "tree = trees bt ! i" by (auto simp: result_simps)
  then have ts: "tree_sane tree (length (used_bytes bt) + 2)" using bt by (simp add: tables_ok_def)
  have st: "loop_ok m (used_bytes bt) [] (?st bt)" using start_state_ok [OF bt] by (simp add: take_tt_buffer_def)
  have "runs n 0 block_fault (\<lambda>s'. \<exists>L'. loop_ok m (used_bytes bt) L' s') (symbol_loop bt m 50 0 tree (?st bt))" for n
    by (rule runs_symbol_loop [OF bt _ ts st]) (use assms(3) in simp)
  from runs_one [OF this r2 order_refl] have "length (tt s) \<le> m"
  proof cases
    case (2 s' q k)
    then show ?thesis using loop by (auto simp: loop_ok_def)
  qed (use loop in simp)
  with h t p that show thesis by simp
qed

lemma read_ranges_none: "read_ranges rs r = Inr (bs, r') \<Longrightarrow> \<forall>x\<in>set rs. \<not> snd x \<Longrightarrow> bs = []"
proof (induction rs arbitrary: bs r)
  case (Cons a rs)
  obtain i b where a: "a = (i, b)" by (cases a)
  then have "\<not> b" using Cons.prems(2) by simp
  with a have "read_ranges (a # rs) r = read_ranges rs r" by simp
  with Cons show ?case by simp
qed (simp add: reading_simps)

lemma decoded_plausible:
  assumes "p + 48 \<le> 8 * length data" "from_bit_offset data (p + 48) = Inr r" "decode_block_common slot m r = Inr (v, r')" "m \<le> 2 ^ 24"
  shows "header_plausible data p m"
proof -
  obtain q where "from_bit_offset data (p + 48) = Inr q" "reader_at data q" "bits_of q = drop (p + 48) (stream_bits data)"
    by (rule reader_from [OF assms(1)])
  then have r: "reader_at data r" "bits_of r = drop (p + 48) (stream_bits data)" using assms(2) by simp_all
  let ?w = "bits_of r"
  obtain ptr r1 bt r2 where h: "read_header r = Inr (ptr, r1)" and t: "read_tables r1 = Inr (bt, r2)" and ptr: "ptr < m"
    by (rule decoded_header [OF r(1) assms(3,4)])
  from h obtain crc q1 b q2 w where c1: "read_uint LENGTH(32) 32 r = Inr (Some (crc :: u32), q1)"
    and c2: "require ''randomised flag truncated'' read_bit q1 = Inr (b, q2)" and nb: "\<not> b"
    and c3: "read_uint LENGTH(32) 24 q2 = Inr (Some (w :: u32), r1)" and pw: "ptr = unat w"
    unfolding read_header_def bindR_Inr_iff require_Inr_iff
    by (auto simp: bindR_Inr_iff require_Inr_iff reading_simps read_u32_def split: if_splits)
  have q1: "32 \<le> length ?w" "reader_at data q1" "bits_of q1 = drop 32 ?w"
    by (rule read_uint_Some [OF r(1) c1]; simp)+
  have q2: "bits_of q1 = False # bits_of q2" "reader_at data q2" using require_bit_Some [OF q1(2) c2] nb by auto
  have r1: "24 \<le> length (bits_of q2)" "w = word_of_bits (take 24 (bits_of q2))" "reader_at data r1" "bits_of r1 = drop 24 (bits_of q2)"
    by (rule read_uint_Some [OF q2(2) c3]; simp)+
  from t obtain xs q3 used q4 where c4: "repeatR 16 (require ''symbol range truncated'' read_bit) r1 = Inr (xs, q3)"
    and ranges: "read_ranges (zip [0..<16] xs) q3 = Inr (used, q4)" and used: "used \<noteq> []"
    unfolding read_tables_def read_used_bytes_def bindR_Inr_iff by (auto simp: reading_simps split: if_splits)
  have q3: "bits_of r1 = xs @ bits_of q3" "length xs = 16" using repeat_bits_Some [OF r1(3) c4] by simp_all
  have xs: "True \<in> set xs" using read_ranges_none [OF ranges] used by (fastforce dest: set_zip_rightD)
  have w: "?w = take 32 ?w @ False # take 24 (bits_of q2) @ xs @ bits_of q3"
    using q1 q2(1) r1(1,4) q3(1) by (metis append_take_drop_id)
  have len: "length (take 32 ?w) = 32" "length (take 24 (bits_of q2)) = 24" using q1(1) r1(1) by simp_all
  have "\<not> ?w ! 32" "take 24 (drop 33 ?w) = take 24 (bits_of q2)" "take 16 (drop 57 ?w) = xs" "73 \<le> length ?w"
    using len q3(2) by (subst w, simp add: nth_append)+
  moreover have "unat w = nat_of_bits (take 24 (bits_of q2))" unfolding r1(2) by (rule unat_word_of_bits_take) simp
  ultimately show ?thesis
    using xs ptr pw assms(1) by (simp add: header_plausible_def Let_def r(2) [symmetric]) (simp add: r(2))
qed

text \<open>The split points are the first plausible magics at or after the nominal points.\<close>

definition split_point :: "u8 list \<Rightarrow> nat \<Rightarrow> nat \<Rightarrow> nat \<Rightarrow> block_boundary \<Rightarrow> bool" where
  "split_point data n m i b \<longleftrightarrow>
     first_in (\<lambda>p. magic_at data p \<and> 8 * length data * i div n \<le> p \<and> header_plausible data p m) (Some b)"

lemma split_parallel_set:
  assumes "split_boundaries_parallel budget data n m = Inr bs" "1 < n" "data \<noteq> []"
  shows "set bs = {b. \<exists>i. 0 < i \<and> i < n \<and> split_point data n m i b}" "length bs \<le> n - 1"
    "sorted_wrt (\<lambda>a b. bit_offset a < bit_offset b) bs"
proof -
  let ?f = "\<lambda>v. case v of Some b \<Rightarrow> [b] | None \<Rightarrow> []" and ?q = "\<lambda>idx. find_quick_boundary data (8 * length data * (idx + 1) div n) m"
  from assms obtain vs where vs: "par_map budget (n - 1) ?q = Inr vs"
    and bs: "bs = dedup_by_key bit_offset (sort_key bit_offset (concat (map ?f vs)))"
    by (auto simp: split_boundaries_parallel_def bindE_Inr_iff simp del: One_nat_def)
  have len: "length vs = n - 1" and vi: "i < n - 1 \<Longrightarrow> ?q i = Inr (vs ! i)" for i
    using vs by (auto simp: pm.pmap_values)
  have nth: "vs ! i = Some b \<longleftrightarrow> split_point data n m (i + 1) b" if i: "i < n - 1" for i b
  proof -
    obtain v where v: "?q i = Inr v" "first_in (\<lambda>p. magic_at data p \<and> 8 * length data * (i + 1) div n \<le> p \<and> header_plausible data p m) v"
      using find_quick_first by blast
    have "v = Some b \<longleftrightarrow> split_point data n m (i + 1) b"
    proof (cases v)
      case None
      then show ?thesis using v(2) by (auto simp: split_point_def first_in_def)
    next
      case (Some c)
      have "bit_offset b = bit_offset c" if "split_point data n m (i + 1) b"
        using that v(2) Some by (auto simp: split_point_def first_in_def) (meson linorder_neqE_nat)
      then have "b = c" if "split_point data n m (i + 1) b" using that by (intro block_boundary.equality) simp_all
      with v(2) Some show ?thesis by (auto simp: split_point_def)
    qed
    with v(1) vi [OF i] show ?thesis by simp
  qed
  have "set bs = {b. Some b \<in> set vs}"
  proof -
    have "bit_offset ` set bs = bit_offset ` {b. Some b \<in> set vs}"
      unfolding bs set_map [symmetric] map_dedup_by_key remdups_adj_set
      by (force simp: image_iff split: option.splits)
    moreover have "inj (bit_offset :: block_boundary \<Rightarrow> nat)" by (rule injI) (rule block_boundary.equality, simp_all)
    ultimately show ?thesis by (simp add: inj_image_eq_iff)
  qed
  also have "\<dots> = {b. \<exists>i. 0 < i \<and> i < n \<and> split_point data n m i b}"
  proof (intro set_eqI iffI; clarify)
    fix b assume "Some b \<in> set vs"
    then obtain i where "i < n - 1" "vs ! i = Some b" using len by (auto simp: in_set_conv_nth)
    with nth [of i b] show "\<exists>i. 0 < i \<and> i < n \<and> split_point data n m i b" by (intro exI [of _ "i + 1"]) simp
  next
    fix b i assume "0 < i" "i < n" "split_point data n m i b"
    then have "i - 1 < n - 1" "vs ! (i - 1) = Some b" using nth [of "i - 1" b] by simp_all
    then show "Some b \<in> set vs" using len by (metis nth_mem)
  qed
  finally show "set bs = {b. \<exists>i. 0 < i \<and> i < n \<and> split_point data n m i b}" .
  have "sorted (map bit_offset bs) \<and> distinct (map bit_offset bs)" unfolding bs by (rule sorted_dedup) simp
  then show "sorted_wrt (\<lambda>a b. bit_offset a < bit_offset b) bs"
    using strict_sorted_iff [of "map bit_offset bs"] by (simp add: sorted_wrt_map)
  have "length bs = length (remdups_adj (map bit_offset (sort_key bit_offset (concat (map ?f vs)))))"
    unfolding bs map_dedup_by_key [symmetric] by simp
  also have "\<dots> \<le> length (concat (map ?f vs))" using remdups_adj_length [of "map bit_offset (sort_key bit_offset (concat (map ?f vs)))"] by simp
  also have "\<dots> \<le> length vs" by (induction vs) (auto split: option.splits)
  finally show "length bs \<le> n - 1" by (simp add: len)
qed

lemma split_parallel_spec:
  assumes "split_boundaries_parallel budget data n m = Inr bs"
  shows "sorted_wrt (\<lambda>a b. bit_offset a < bit_offset b) bs" "length bs \<le> n - 1"
    "b \<in> set bs \<Longrightarrow> magic_at data (bit_offset b) \<and> header_plausible data (bit_offset b) m \<and>
       (\<exists>i. 0 < i \<and> i < n \<and> 8 * length data * i div n \<le> bit_offset b)"
proof -
  have "sorted_wrt (\<lambda>a b. bit_offset a < bit_offset b) bs \<and> length bs \<le> n - 1 \<and>
    (\<forall>b\<in>set bs. magic_at data (bit_offset b) \<and> header_plausible data (bit_offset b) m \<and>
       (\<exists>i. 0 < i \<and> i < n \<and> 8 * length data * i div n \<le> bit_offset b))"
  proof (cases "n \<le> 1 \<or> data = []")
    case True
    then have "bs = []" using assms by (simp add: split_boundaries_parallel_def)
    then show ?thesis by simp
  next
    case False
    then have "1 < n" "data \<noteq> []" by simp_all
    from split_parallel_set [OF assms this] show ?thesis by (auto simp: split_point_def first_in_def)
  qed
  then show "sorted_wrt (\<lambda>a b. bit_offset a < bit_offset b) bs" "length bs \<le> n - 1"
    "b \<in> set bs \<Longrightarrow> magic_at data (bit_offset b) \<and> header_plausible data (bit_offset b) m \<and>
       (\<exists>i. 0 < i \<and> i < n \<and> 8 * length data * i div n \<le> bit_offset b)" by blast+
qed

lemma split_parallel_total: "\<exists>bs. split_boundaries_parallel budget data n m = Inr bs"
proof (cases "n \<le> 1 \<or> data = []")
  case False
  have "\<exists>v. find_quick_boundary data s m = Inr v" for s using find_quick_first [of data s m] by blast
  then obtain g where "\<And>s. find_quick_boundary data s m = Inr (g s)" by metis
  then have "par_map budget (n - 1) (\<lambda>idx. find_quick_boundary data (8 * length data * (idx + 1) div n) m) =
      Inr (map (\<lambda>idx. g (8 * length data * (idx + 1) div n)) [0..<n - 1])"
    by (intro pm.pure) simp
  with False show ?thesis by (simp add: split_boundaries_parallel_def)
qed (simp add: split_boundaries_parallel_def)

text \<open>A slice of zeros with one byte-aligned magic in it, for the examples.\<close>

definition lone_magic :: "nat \<Rightarrow> nat \<Rightarrow> u8 list" where
  "lone_magic a b = replicate a 0 @ [0x31, 0x41, 0x59, 0x26, 0x53, 0x59] @ replicate b 0"

lemma length_lone_magic [simp]: "length (lone_magic a b) = a + 6 + b"
  by (simp add: lone_magic_def)

lemma stream_bits_zeros: "stream_bits (replicate n 0) = replicate (8 * n) False"
  by (induction n) (simp_all add: stream_bits_Cons map_replicate_const numeral_eq_Suc)

lemma lone_magic_bits:
  "stream_bits (lone_magic a b) = replicate (8 * a) False @ stream_bits [0x31, 0x41, 0x59, 0x26, 0x53, 0x59] @ replicate (8 * b) False"
  by (simp only: lone_magic_def stream_bits_append stream_bits_zeros)

lemma magic_at_bits:
  assumes "magic_at data p" "i < 48" "bit BLOCK_MAGIC (47 - i)"
  shows "stream_bits data ! (p + i)"
proof -
  have len: "length (take 48 (drop p (stream_bits data))) = 48" using assms(1) by (auto simp: magic_at_def min_def)
  have "bit (word_of_bits (take 48 (drop p (stream_bits data))) :: u64) (47 - i)"
    using assms(1,3) by (simp add: magic_at_def)
  then have "take 48 (drop p (stream_bits data)) ! (48 - 1 - (47 - i))"
    unfolding bit_word_of_bits len by simp
  then show ?thesis using assms(1,2) by (simp add: magic_at_def)
qed

lemma lone_magic_at: "magic_at (lone_magic a b) p \<longleftrightarrow> p = 8 * a"
proof
  assume m: "magic_at (lone_magic a b) p"
  then have le: "p + 48 \<le> 8 * (a + 6 + b)" by (simp add: magic_at_def)
  have "bit BLOCK_MAGIC (47 - 2)" "bit BLOCK_MAGIC (47 - 47)" by (simp_all add: BLOCK_MAGIC_def)
  with magic_at_bits [OF m, of 2] magic_at_bits [OF m, of 47]
  have b: "stream_bits (lone_magic a b) ! (p + 2)" "stream_bits (lone_magic a b) ! (p + 47)" by simp_all
  have "\<not> stream_bits [0x31, 0x41, 0x59, 0x26, 0x53, 0x59] ! 0" "\<not> stream_bits [0x31, 0x41, 0x59, 0x26, 0x53, 0x59] ! 1" by code_simp+
  then have zero: "\<not> stream_bits (lone_magic a b) ! q" if "q < 8 * a + 2" for q
  proof (cases "q < 8 * a")
    case True
    then show ?thesis by (simp add: lone_magic_bits nth_append)
  next
    case False
    then have "q = 8 * a + (q - 8 * a)" "q - 8 * a = 0 \<or> q - 8 * a = 1" using that by linarith+
    then obtain j where "q = 8 * a + j" "j = 0 \<or> j = 1" by blast
    moreover from this(2) have "stream_bits (lone_magic a b) ! (8 * a + j) = stream_bits [0x31, 0x41, 0x59, 0x26, 0x53, 0x59] ! j"
      by (auto simp: lone_magic_bits nth_append)
    ultimately show ?thesis
      using \<open>\<not> stream_bits [0x31, 0x41, 0x59, 0x26, 0x53, 0x59] ! 0\<close> \<open>\<not> stream_bits [0x31, 0x41, 0x59, 0x26, 0x53, 0x59] ! 1\<close> by metis
  qed
  have "8 * a \<le> p" using zero [of "p + 2"] b(1) by (meson add_less_cancel_right not_le)
  moreover have "p + 47 < 8 * a + 48"
  proof (rule ccontr)
    assume "\<not> p + 47 < 8 * a + 48"
    then obtain d where d: "p = 8 * a + 1 + d" using nat_le_iff_add [of "8 * a + 1" p] by auto
    with le have "\<not> p + 47 < 8 * a" "\<not> p + 47 - 8 * a < 48" "p + 47 - 8 * a - 48 < 8 * b" by simp_all
    then have "\<not> stream_bits (lone_magic a b) ! (p + 47)" by (simp add: lone_magic_bits nth_append)
    with b(2) show False by simp
  qed
  ultimately show "p = 8 * a" by simp
next
  assume p: "p = 8 * a"
  have "take 48 (drop p (stream_bits (lone_magic a b))) = stream_bits [0x31, 0x41, 0x59, 0x26, 0x53, 0x59]"
    by (simp add: p lone_magic_bits)
  moreover have "(word_of_bits (stream_bits [0x31, 0x41, 0x59, 0x26, 0x53, 0x59]) :: u64) = BLOCK_MAGIC" by code_simp
  ultimately show "magic_at (lone_magic a b) p" using p by (simp add: magic_at_def)
qed

lemma lone_scannable: "2 \<le> b \<Longrightarrow> scannable (lone_magic a b)"
  by (simp add: scannable_def lone_magic_at)

lemma lone_next:
  assumes "p \<le> 8 * a"
  shows "find_next_block (lone_magic a b) p = (if covered (lone_magic a b) (p div 8) (8 * a) then Some \<lparr>bit_offset = 8 * a\<rparr> else None)"
proof (cases "find_next_block (lone_magic a b) p")
  case None
  with find_next_None [OF None assms] show ?thesis by (auto simp: lone_magic_at)
next
  case (Some c)
  with find_next_Some(1,3) [OF Some] show ?thesis by (auto simp: lone_magic_at)
qed

lemma lone_next_after: "8 * a < p \<Longrightarrow> find_next_block (lone_magic a b) p = None"
  using find_next_Some(1,2) [of "lone_magic a b" p] by (cases "find_next_block (lone_magic a b) p") (auto simp: lone_magic_at)

subsection \<open>Properties\<close>

text \<open>
  C26. \<open>find_next_block\<close> returns the first bit position, at or after the start bit, where the 48 bits
  of the slice are the block magic, among those the windows cover: the window
  steps by two bytes from the start byte, and a magic in the last bytes is seen only when the whole
  eight-byte window around it fits. When there is none it returns \<open>None\<close>.
\<close>

theorem find_next_block_first:
  "case find_next_block data start of
     None \<Rightarrow> \<forall>p. start \<le> p \<and> covered data (start div 8) p \<longrightarrow> \<not> magic_at data p
   | Some b \<Rightarrow> magic_at data (bit_offset b) \<and> start \<le> bit_offset b \<and>
       (\<forall>p. start \<le> p \<and> p < bit_offset b \<and> covered data (start div 8) p \<longrightarrow> \<not> magic_at data p)"
  using find_next_first [of data start] by (auto simp: first_in_def split: option.splits)

theorem find_next_block_first_witness:
  "find_next_block [0x31, 0x41, 0x59, 0x26, 0x53, 0x59, 0, 0] 0 = Some \<lparr>bit_offset = 0\<rparr> \<and>
   magic_at [0x31, 0x41, 0x59, 0x26, 0x53, 0x59, 0, 0] 0"
proof -
  have "find_next_block [0x31, 0x41, 0x59, 0x26, 0x53, 0x59, 0, 0] 0 = Some \<lparr>bit_offset = 0\<rparr>" by code_simp
  with find_next_block_first [where data = "[0x31, 0x41, 0x59, 0x26, 0x53, 0x59, 0, 0]" and start = 0] show ?thesis by simp
qed

text \<open>
  \<open>find_all_blocks\<close> ends on every slice and lists magics only, at least 48 bits apart and in increasing order;
  every magic that starts at least eight bytes before the end of the slice is listed, unless it overlaps a listed one.
\<close>

theorem find_all_blocks_spec:
  "(\<forall>b\<in>set (find_all_blocks data). magic_at data (bit_offset b)) \<and>
   sorted_wrt (\<lambda>a b. bit_offset a + 48 \<le> bit_offset b) (find_all_blocks data) \<and>
   (\<forall>p. magic_at data p \<and> p div 8 + 8 \<le> length data \<longrightarrow>
      (\<exists>b\<in>set (find_all_blocks data). bit_offset b \<le> p \<and> p < bit_offset b + 48))"
  using find_all_from_spec [of data 0] by (auto simp: find_all_blocks_def)

theorem find_all_blocks_spec_witness:
  "map bit_offset (find_all_blocks [0, 0x31, 0x41, 0x59, 0x26, 0x53, 0x59, 0, 0]) = [8] \<and>
   magic_at [0, 0x31, 0x41, 0x59, 0x26, 0x53, 0x59, 0, 0] 8"
proof -
  have "map bit_offset (find_all_blocks [0, 0x31, 0x41, 0x59, 0x26, 0x53, 0x59, 0, 0]) = [8]" by code_simp
  with find_all_blocks_spec [of "[0, 0x31, 0x41, 0x59, 0x26, 0x53, 0x59, 0, 0]"] show ?thesis by auto
qed

text \<open>
  C27. On a slice whose magics neither overlap nor start in the last seven bytes, the parallel scan, for any number
  of threads and any worker budget, returns exactly what the serial scan returns: all
  magics in order, those of the overlapping ends of the parts once.
\<close>

theorem parallel_scan_is_serial:
  assumes "scannable data"
  shows "find_all_blocks_parallel budget data n_threads = Inr (find_all_blocks data) \<and>
    map bit_offset (find_all_blocks data) = filter (magic_at data) [0..<8 * length data]"
  using find_all_parallel_scannable [OF assms]
  by (simp add: find_all_blocks_def find_all_from_scannable [OF assms] boundaries_at_def magics_from_def comp_def)

theorem parallel_scan_is_serial_witness:
  "find_all_blocks_parallel 2 (lone_magic 4 10) 3 = Inr (find_all_blocks (lone_magic 4 10)) \<and>
   32 \<in> set (map bit_offset (find_all_blocks (lone_magic 4 10)))"
proof -
  have "scannable (lone_magic 4 10)" by (rule lone_scannable) simp
  from parallel_scan_is_serial [OF this, of 2 3] show ?thesis by (simp add: lone_magic_at)
qed

text \<open>
  Without that condition the two scans differ: the windows of a part start at the byte parity of the
  part, so a magic that starts in the seventh byte from the end is seen from a start byte of the other parity only.
  On such a slice of 30 bytes the serial scan finds the block and the parallel scan with two threads,
  whose second part starts at byte 15, finds none.
\<close>

theorem parallel_scan_misses_last_magic:
  "map bit_offset (find_all_blocks (lone_magic 23 1)) = [184] \<and> find_all_blocks_parallel 2 (lone_magic 23 1) 2 = Inr []"
proof
  have c: "covered (lone_magic 23 1) 0 184" "\<not> covered (lone_magic 23 1) 15 184" by (simp_all add: covered_def)
  have n: "find_next_block (lone_magic 23 1) 0 = Some \<lparr>bit_offset = 184\<rparr>" "find_next_block (lone_magic 23 1) 120 = None"
    "find_next_block (lone_magic 23 1) 232 = None"
    using lone_next [of 0 23 1] lone_next [of 120 23 1] lone_next_after [of 23 232 1] c by simp_all
  show "map bit_offset (find_all_blocks (lone_magic 23 1)) = [184]"
    using n by (simp add: find_all_blocks_def find_all_from.simps [of _ 0] find_all_from.simps [of _ 232])
  have "scan_part (lone_magic 23 1) 2 i = []" if "i < 2" for i
  proof -
    have "i = 0 \<or> i = 1" using that by auto
    then show ?thesis
      using n by (auto simp: scan_part_def Let_def scan_chunk.simps [of _ _ 0] scan_chunk.simps [of _ _ 120])
  qed
  then have "par_map 2 2 (\<lambda>i. Inr (scan_part (lone_magic 23 1) 2 i)) = Inr (map (\<lambda>i. []) [0..<2])"
    by (intro pm.pure) simp
  moreover have "max 2 1 = (2 :: nat)" "concat (map (\<lambda>i. []) [0..<2]) = ([] :: block_boundary list)" by (simp_all add: upt_conv_Cons)
  ultimately show "find_all_blocks_parallel 2 (lone_magic 23 1) 2 = Inr []"
    unfolding find_all_blocks_parallel_def Let_def by (simp add: upt_conv_Cons del: One_nat_def)
qed

text \<open>
  C28. \<open>find_quick_boundary\<close> ends on every slice and returns the first magic at or after the start bit
  whose next 73 bits are a plausible header, and \<open>None\<close> when there is none. The windows hide no
  such magic: one with 121 bits to the end always has a whole window.
\<close>

theorem find_quick_boundary_first:
  "\<exists>v. find_quick_boundary data start m = Inr v \<and>
     (case v of
        None \<Rightarrow> \<forall>p\<ge>start. \<not> (magic_at data p \<and> header_plausible data p m)
      | Some b \<Rightarrow> start \<le> bit_offset b \<and> magic_at data (bit_offset b) \<and> header_plausible data (bit_offset b) m \<and>
          (\<forall>p. start \<le> p \<and> p < bit_offset b \<longrightarrow> \<not> (magic_at data p \<and> header_plausible data p m)))"
  using find_quick_first [of data start m] by (auto simp: first_in_def split: option.splits)

theorem find_quick_boundary_first_witness:
  "find_quick_boundary (lone_magic 4 10) 0 900000 = Inr None"
proof -
  have "\<not> header_plausible (lone_magic 4 10) 32 900000"
    by (simp add: header_plausible_def lone_magic_bits Let_def)
  then have none: "\<not> (magic_at (lone_magic 4 10) p \<and> header_plausible (lone_magic 4 10) p 900000)" for p
    by (auto simp: lone_magic_at)
  obtain v where "find_quick_boundary (lone_magic 4 10) 0 900000 = Inr v"
    "case v of None \<Rightarrow> True | Some b \<Rightarrow> magic_at (lone_magic 4 10) (bit_offset b) \<and> header_plausible (lone_magic 4 10) (bit_offset b) 900000"
    using find_quick_boundary_first [of "lone_magic 4 10" 0 900000] by (auto split: option.splits)
  with none show ?thesis by (auto split: option.splits)
qed

text \<open>
  C29. The quick check has no false negatives: at every bit position where the block decoder, started after the 48 bits of a
  magic, decodes a block, \<open>quick_verify_block\<close> says yes. So no decodable block is lost as a split point.
\<close>

theorem quick_verify_accepts_blocks:
  assumes "p + 48 \<le> 8 * length data" "from_bit_offset data (p + 48) = Inr r"
    and "decode_block_common slot m r = Inr (v, r')" "m \<le> 2 ^ 24"
  shows "quick_verify_block data p m = Inr True"
  using decoded_plausible [OF assms] by (simp add: quick_verify_spec)

theorem quick_verify_accepts_blocks_witness:
  "\<exists>data. quick_verify_block data 0 900000 = Inr True \<and> data = pack_bits (magic_bits BLOCK_MAGIC @ block_bits sample_block)"
proof -
  let ?b = "block_bits sample_block" and ?data = "pack_bits (magic_bits BLOCK_MAGIC @ block_bits sample_block)"
  obtain k where bits: "stream_bits ?data = (magic_bits BLOCK_MAGIC @ ?b) @ replicate k False" using stream_bits_pack by blast
  have mlen: "length (magic_bits BLOCK_MAGIC) = 48" by (simp add: magic_bits_def)
  have len: "0 + 48 \<le> 8 * length ?data" using arg_cong [OF bits, of length] mlen by simp
  then obtain r where r: "from_bit_offset ?data (0 + 48) = Inr r" "reader_at ?data r" "bits_of r = drop (0 + 48) (stream_bits ?data)"
    by (rule reader_from)
  have "bits_of r = ?b @ replicate k False" unfolding r(3) bits using mlen by simp
  note r_bits = this
  obtain t where "reads ?data (decode_block_common ([], 0) 900000) (encode_block 0 sample_coding (rle1_encode [98, 97]))
      (linked (bwt_last (rle1_encode [98, 97])), of_nat t)"
    using reads_common [OF sample_encodable, of "([], 0)"] by blast
  then have "reads ?data (decode_block_common ([], 0) 900000) ?b (linked (bwt_last (rle1_encode [98, 97])), of_nat t)"
    by (simp add: block_bits_def sample_block_def)
  then obtain r' where dec: "decode_block_common ([], 0) 900000 r = Inr ((linked (bwt_last (rle1_encode [98, 97])), of_nat t), r')"
    using r(2) r_bits by (rule parsesD)
  have "(900000 :: nat) \<le> 2 ^ 24" by simp
  from quick_verify_accepts_blocks [OF len r(1) dec this] show ?thesis by simp
qed

text \<open>
  C30. The parallel split points, for any number of splits and workers: at most \<open>n_splits - 1\<close> boundaries, strictly
  increasing, each a magic with a plausible header at or after one of the nominal points. No closure can panic.
\<close>

theorem split_boundaries_sorted:
  "\<exists>bs. split_boundaries_parallel budget data n m = Inr bs \<and> length bs \<le> n - 1 \<and>
     sorted_wrt (\<lambda>a b. bit_offset a < bit_offset b) bs \<and>
     (\<forall>b\<in>set bs. magic_at data (bit_offset b) \<and> header_plausible data (bit_offset b) m \<and>
        (\<exists>i. 0 < i \<and> i < n \<and> 8 * length data * i div n \<le> bit_offset b))"
proof -
  obtain bs where "split_boundaries_parallel budget data n m = Inr bs" using split_parallel_total by blast
  with split_parallel_spec [OF this] show ?thesis by blast
qed

theorem split_boundaries_sorted_witness:
  "\<exists>bs. split_boundaries_parallel 4 (lone_magic 4 10) 4 900000 = Inr bs \<and> length bs \<le> 3"
  using split_boundaries_sorted [of 4 "lone_magic 4 10" 4 900000] by auto

end
