(* ===== verification/Samples.thy ===== *)
theory Samples
  imports Block_Scan
begin

text \<open>
  A concrete encoded block and the streams made of it, for the witnesses of the properties that need
  a whole stream: its bits, evaluated, and the magics in them.
\<close>

text \<open>Where a bit pattern occurs in a list of bits.\<close>

fun occurrences :: "bool list \<Rightarrow> bool list \<Rightarrow> nat \<Rightarrow> nat list" where
  "occurrences w [] n = []"
| "occurrences w (b # bs) n =
     (if take (length w) (b # bs) = w then n # occurrences w bs (n + 1) else occurrences w bs (n + 1))"

lemma occurrences_complete:
  "w \<noteq> [] \<Longrightarrow> take (length w) (drop p bs) = w \<Longrightarrow> n + p \<in> set (occurrences w bs n)"
proof (induction bs arbitrary: n p)
  case (Cons b bs)
  show ?case
  proof (cases p)
    case (Suc q)
    with Cons.IH [of q "n + 1"] Cons.prems show ?thesis by simp
  qed (use Cons.prems in simp)
qed simp

lemma nat_bits_numeral: "nat_bits (numeral k) c = nat_bits (pred_numeral k) (c div 2) @ [odd c]"
  by (simp add: numeral_eq_Suc)

lemma block_magic_bits: "magic_bits BLOCK_MAGIC =
  [False, False, True, True, False, False, False, True, False, True, False, False, False, False, False, True,
   False, True, False, True, True, False, False, True, False, False, True, False, False, True, True, False,
   False, True, False, True, False, False, True, True, False, True, False, True, True, False, False, True]"
  by (simp add: magic_bits_def BLOCK_MAGIC_def nat_bits_numeral)

lemma final_magic_bits: "magic_bits FINAL_MAGIC =
  [False, False, False, True, False, True, True, True, False, True, True, True, False, False, True, False,
   False, True, False, False, False, True, False, True, False, False, True, True, True, False, False, False,
   False, True, False, True, False, False, False, False, True, False, False, True, False, False, False, False]"
  by (simp add: magic_bits_def FINAL_MAGIC_def nat_bits_numeral)

lemma magic_at_occurs:
  assumes "magic_at data p"
  shows "p \<in> set (occurrences (magic_bits BLOCK_MAGIC) (stream_bits data) 0)"
proof -
  let ?w = "take 48 (drop p (stream_bits data))"
  have len: "length ?w = 48" using assms by (auto simp: magic_at_def min_def)
  have "bit (word_of_bits ?w :: u64) i = bit (word_of_bits (magic_bits BLOCK_MAGIC) :: u64) i" for i
  proof -
    have "(word_of_bits (magic_bits BLOCK_MAGIC) :: u64) = BLOCK_MAGIC"
      using word_of_nat_bits [of "unat BLOCK_MAGIC" 48, where 'a = 64] by (simp add: magic_bits_def BLOCK_MAGIC_def)
    then show ?thesis using assms by (simp add: magic_at_def)
  qed
  then have same: "?w ! (47 - i) = magic_bits BLOCK_MAGIC ! (47 - i)" if "i < 48" for i
  proof -
    have "bit (word_of_bits ?w :: u64) i = bit (word_of_bits (magic_bits BLOCK_MAGIC) :: u64) i" by fact
    with that show ?thesis unfolding bit_word_of_bits len by (simp add: magic_bits_def)
  qed
  have "?w = magic_bits BLOCK_MAGIC"
  proof (rule nth_equalityI)
    show "length ?w = length (magic_bits BLOCK_MAGIC)" using len by (simp add: magic_bits_def)
    fix i assume "i < length ?w"
    then show "?w ! i = magic_bits BLOCK_MAGIC ! i" using same [of "47 - i"] len by simp
  qed
  then have "take (length (magic_bits BLOCK_MAGIC)) (drop p (stream_bits data)) = magic_bits BLOCK_MAGIC"
    by (simp add: magic_bits_def)
  from occurrences_complete [OF _ this, of 0] show ?thesis by (simp add: block_magic_bits)
qed

subsection \<open>The sample block\<close>

definition sample_bits :: "bool list" where
  "sample_bits = replicate 56 False @ [True] @
     [False, False, False, False, False, False, True, False, False, False, False, False, False, False, False, False,
      False, True, True, False, False, False, False, False, False, False, False, False, False, False, False, False,
      False, True, False, False, False, False, False, False, False, False, False, False, False, False, False, False,
      False, True, True, False, False, False, False, True, False, False, False, False, False, False, False, False,
      True, False, False, False, False, False] @ [True, False, True, False, True, True]"

lemma sample_block_bits: "block_bits sample_block = sample_bits"
proof -
  have "rle1_encode [98, 97] = [98, 97]" by code_simp
  moreover have "bwt_index [98, 97] = 1" by code_simp
  moreover have "block_symbols [98, 97] = [2, 2, 3]" by code_simp
  moreover have "header_bits 0 1 @ tables_bits [98, 97] sample_coding @ symbol_bits sample_coding 50 0 [2, 2, 3] = sample_bits" by code_simp
  ultimately show ?thesis by (simp add: block_bits_def sample_block_def encode_block_def)
qed

lemma length_sample_bits [simp]: "length sample_bits = 133"
  by (simp add: sample_bits_def)

lemma header_9_bits: "stream_bits (header_bytes 9) =
  [False, True, False, False, False, False, True, False, False, True, False, True, True, False, True, False,
   False, True, True, False, True, False, False, False, False, False, True, True, True, False, False, True]"
  by code_simp

text \<open>The magics of the header followed by the block, with the end of the stream and without it.\<close>

lemma magics_whole:
  "occurrences (magic_bits BLOCK_MAGIC) (stream_bits (header_bytes 9) @ magic_bits BLOCK_MAGIC @ sample_bits @
     magic_bits FINAL_MAGIC @ replicate 35 False) 0 = [32]"
  unfolding block_magic_bits final_magic_bits header_9_bits by code_simp

lemma magics_truncated:
  "occurrences (magic_bits BLOCK_MAGIC) (stream_bits (header_bytes 9) @ magic_bits BLOCK_MAGIC @ sample_bits @ replicate 3 False) 0 = [32]"
  unfolding block_magic_bits header_9_bits by code_simp

lemma stream_bits_pack_exact:
  assumes "length w + k = 8 * n" "k < 8"
  shows "stream_bits (pack_bits w) = w @ replicate k False"
proof -
  obtain j where j: "j < 8" "stream_bits (pack_bits w) = w @ replicate j False" using stream_bits_pack by blast
  have "length (stream_bits (pack_bits w)) = length w + j" unfolding j(2) by simp
  then have "8 * length (pack_bits w) = length w + j" by simp
  with assms j(1) have "8 * length (pack_bits w) + k = 8 * n + j" by simp
  with assms(2) j(1) have "j = k" by presburger
  with j(2) show ?thesis by simp
qed

lemma nat_bits_0: "nat_bits k 0 = replicate k False"
  by (induction k) (simp_all add: replicate_append_same)

text \<open>The two sample streams: one block and the end of the stream, and the block alone.\<close>

definition sample_body :: "u8 list" where
  "sample_body = pack_bits (blocks_bits [sample_block] @ magic_bits FINAL_MAGIC @ nat_bits 32 0)"

definition sample_truncated :: "u8 list" where
  "sample_truncated = pack_bits (blocks_bits [sample_block])"

lemma sample_body_bits: "stream_bits sample_body = blocks_bits [sample_block] @ magic_bits FINAL_MAGIC @ replicate 35 False"
proof -
  have "length (blocks_bits [sample_block] @ magic_bits FINAL_MAGIC @ nat_bits 32 0) + 3 = 8 * 33"
    by (simp add: blocks_bits_def sample_block_bits magic_bits_def)
  from stream_bits_pack_exact [OF this] show ?thesis
    by (simp add: sample_body_def nat_bits_0 replicate_add [symmetric])
qed

lemma sample_truncated_bits: "stream_bits sample_truncated = blocks_bits [sample_block] @ replicate 3 False"
proof -
  have "length (blocks_bits [sample_block]) + 3 = 8 * 23"
    by (simp add: blocks_bits_def sample_block_bits magic_bits_def)
  from stream_bits_pack_exact [OF this] show ?thesis by (simp add: sample_truncated_def)
qed

lemma sample_magics:
  "magic_at (header_bytes 9 @ sample_body) p \<Longrightarrow> p = 32"
  "magic_at (header_bytes 9 @ sample_truncated) p \<Longrightarrow> p = 32"
  using magic_at_occurs [of "header_bytes 9 @ sample_body" p] magic_at_occurs [of "header_bytes 9 @ sample_truncated" p]
  by (simp_all add: stream_bits_append sample_body_bits sample_truncated_bits blocks_bits_def sample_block_bits
      magics_whole magics_truncated)

end
