(* ===== verification/Parallel_Decode.thy ===== *)
theory Parallel_Decode
  imports Samples
begin

text \<open>
  The parallel decoder of a whole stream (\<open>parallel.rs\<close>): the scan for the blocks, one decoder per block
  over the parallel map, and the assembly in order. The lemmas relate it to the
  sequential decoder of \<open>Stream_Decoder\<close>.
\<close>

subsection \<open>The decoder\<close>

definition decode_at :: "u8 list \<Rightarrow> nat \<Rightarrow> block_boundary \<Rightarrow> u8 list result" where
  "decode_at data max_blocksize boundary =
     bindE (from_bit_offset data (bit_offset boundary + 48)) (\<lambda>r.
     bindE (decode_block max_blocksize r) (\<lambda>(out, r'). Inr out))"

text \<open>The results of the closures: \<open>Result<Vec<u8>, BlockError>\<close> values, of which the first error is returned.\<close>

fun total_size :: "nat \<Rightarrow> (string + u8 list) list \<Rightarrow> nat result" where
  "total_size n [] = Inr n"
| "total_size n (Inr v # rs) = total_size (n + length v) rs"
| "total_size n (Inl e # rs) = Inl (BlockError e)"

fun append_results :: "u8 list \<Rightarrow> (string + u8 list) list \<Rightarrow> u8 list result" where
  "append_results output [] = Inr output"
| "append_results output (Inr v # rs) = append_results (output @ v) rs"
| "append_results output (Inl e # rs) = Inl (BlockError e)"

text \<open>\<open>env\<close> is the value of \<open>LBZIP2_THREADS\<close>, \<open>avail\<close> the available parallelism.\<close>

definition decompress_parallel :: "string option \<Rightarrow> nat option \<Rightarrow> u8 list \<Rightarrow> u8 list result" where
  "decompress_parallel env avail data =
     bindE (stream_header data) (\<lambda>max_blocksize.
     let n_threads = (case avail of Some n \<Rightarrow> n | None \<Rightarrow> 4); budget = worker_count env avail in
     bindE (find_all_blocks_parallel budget data n_threads) (\<lambda>boundaries.
     if boundaries = [] then Inr []
     else bindE (par_map budget (length boundaries) (\<lambda>bi.
            bindE (index boundaries bi) (\<lambda>boundary. caught (decode_at data max_blocksize boundary)))) (\<lambda>results.
          bindE (total_size 0 results) (\<lambda>n. append_results [] results))))"

subsection \<open>Assembly\<close>

lemma append_results_all: "append_results out (map Inr vs) = Inr (out @ concat vs)"
  by (induction vs arbitrary: out) simp_all

lemma total_size_all: "total_size n (map Inr vs) = Inr (n + length (concat vs))"
  by (induction vs arbitrary: n) simp_all

lemma total_size_error: "total_size n (map Inr vs @ Inl e # rs) = Inl (BlockError e)"
  by (induction vs arbitrary: n) simp_all

subsection \<open>Blocks at their offsets\<close>

fun block_offsets :: "nat \<Rightarrow> coded_block list \<Rightarrow> nat list" where
  "block_offsets off [] = []"
| "block_offsets off (b # bs) = off # block_offsets (off + 48 + length (block_bits b)) bs"

lemma length_magic_bits [simp]: "length (magic_bits m) = 48"
  by (simp add: magic_bits_def)

lemma block_offsets_bits:
  assumes "drop off (stream_bits data) = blocks_bits blocks @ tail" "off \<le> 8 * length data"
  shows "list_all2 (\<lambda>p b. p \<le> 8 * length data \<and> (\<exists>rest. drop p (stream_bits data) = magic_bits BLOCK_MAGIC @ block_bits b @ rest)) (block_offsets off blocks) blocks"
  using assms
proof (induction blocks arbitrary: off)
  case (Cons b blocks)
  let ?n = "48 + length (block_bits b)"
  have now: "drop off (stream_bits data) = magic_bits BLOCK_MAGIC @ block_bits b @ blocks_bits blocks @ tail"
    using Cons.prems(1) by (simp add: blocks_bits_def)
  have "drop (off + ?n) (stream_bits data) = drop ?n (drop off (stream_bits data))" by (simp add: add.commute)
  also have "\<dots> = blocks_bits blocks @ tail" unfolding now by simp
  finally have next_bits: "drop (off + ?n) (stream_bits data) = blocks_bits blocks @ tail" .
  have "8 * length data - off \<ge> ?n" using arg_cong [OF now, of length] by simp
  then have "off + ?n \<le> 8 * length data" using Cons.prems(2) by simp
  from Cons.IH [OF next_bits this] show ?case using now Cons.prems(2) by (auto simp: add.assoc)
qed simp

lemma decode_at_bits:
  assumes "p \<le> 8 * length data" "drop p (stream_bits data) = magic_bits BLOCK_MAGIC @ block_bits b @ rest" "block_fits m b"
  shows "decode_at data m \<lparr>bit_offset = p\<rparr> = Inr (block_data b)"
proof -
  have "8 * length data - p \<ge> 48" using arg_cong [OF assms(2), of length] by simp
  then have "p + 48 \<le> 8 * length data" using assms(1) by simp
  then obtain r where r: "from_bit_offset data (p + 48) = Inr r" "reader_at data r" "bits_of r = drop (p + 48) (stream_bits data)"
    by (rule reader_from)
  have "drop (p + 48) (stream_bits data) = drop 48 (drop p (stream_bits data))" by (simp add: add.commute)
  then have "bits_of r = block_bits b @ rest" unfolding r(3) assms(2) by simp
  with r(2) obtain r' where "decode_block m r = Inr (block_data b, r')" by (rule parsesD [OF reads_block [OF assms(3)]])
  with r(1) show ?thesis by (simp add: decode_at_def)
qed

lemma decode_all_blocks:
  assumes "drop off (stream_bits data) = blocks_bits blocks @ tail" "off \<le> 8 * length data" "\<forall>b\<in>set blocks. block_fits m b"
  shows "mapE (decode_at data m) (boundaries_at (block_offsets off blocks)) = Inr (map block_data blocks)"
proof -
  have "list_all2 (\<lambda>p b. decode_at data m \<lparr>bit_offset = p\<rparr> = Inr (block_data b)) (block_offsets off blocks) blocks"
    using block_offsets_bits [OF assms(1,2)] assms(3)
    by (fastforce simp: list_all2_conv_all_nth intro: decode_at_bits)
  then show ?thesis by (auto simp: mapE_Inr_iff boundaries_at_def list_all2_conv_all_nth)
qed

text \<open>When the magics of the slice are those of its blocks, the scan finds exactly the blocks.\<close>

lemma length_block_bits: "57 \<le> length (block_bits b)"
  by (cases b) (simp add: block_bits_def encode_block_def header_bits_def)

lemma block_offsets_sorted: "sorted_wrt (\<lambda>p q. p + 48 \<le> q) (block_offsets off blocks) \<and> (\<forall>p\<in>set (block_offsets off blocks). off \<le> p)"
proof (induction blocks arbitrary: off)
  case (Cons b blocks)
  from Cons.IH [of "off + 48 + length (block_bits b)"] show ?case by fastforce
qed simp

lemma magic_at_block:
  assumes "drop p (stream_bits data) = magic_bits BLOCK_MAGIC @ rest" "p \<le> 8 * length data"
  shows "magic_at data p"
proof -
  have "8 * length data - p \<ge> 48" using arg_cong [OF assms(1), of length] by simp
  moreover have "(word_of_bits (magic_bits BLOCK_MAGIC) :: u64) = BLOCK_MAGIC"
    using word_of_nat_bits [of "unat BLOCK_MAGIC" 48, where 'a = 64] by (simp add: magic_bits_def BLOCK_MAGIC_def)
  ultimately show ?thesis using assms by (simp add: magic_at_def)
qed

definition magics_are_blocks :: "u8 list \<Rightarrow> nat \<Rightarrow> coded_block list \<Rightarrow> bool" where
  "magics_are_blocks data off blocks \<longleftrightarrow> (\<forall>p. magic_at data p \<longrightarrow> p \<in> set (block_offsets off blocks))"

lemma block_offset_facts:
  assumes "drop off (stream_bits data) = blocks_bits blocks @ tail" "off \<le> 8 * length data" "p \<in> set (block_offsets off blocks)"
  shows "magic_at data p" "p div 8 + 8 \<le> length data" "p + 105 \<le> 8 * length data"
proof -
  obtain i where "i < length (block_offsets off blocks)" "p = block_offsets off blocks ! i"
    using assms(3) by (auto simp: in_set_conv_nth)
  with list_all2_nthD [OF block_offsets_bits [OF assms(1,2)], of i] obtain b rest
    where p: "p \<le> 8 * length data" "drop p (stream_bits data) = magic_bits BLOCK_MAGIC @ block_bits b @ rest" by metis
  then show "magic_at data p" by (intro magic_at_block)
  have "8 * length data - p \<ge> 105" using arg_cong [OF p(2), of length] length_block_bits [of b] by simp
  then show "p + 105 \<le> 8 * length data" by simp
  then show "p div 8 + 8 \<le> length data" by auto
qed

lemma sorted_gap: "sorted_wrt (\<lambda>p q. p + 48 \<le> q) ps \<Longrightarrow> p \<in> set ps \<Longrightarrow> q \<in> set ps \<Longrightarrow> p < q \<Longrightarrow> p + 48 \<le> (q :: nat)"
  by (induction ps) fastforce+

lemma scan_finds_blocks:
  assumes "drop off (stream_bits data) = blocks_bits blocks @ tail" "off \<le> 8 * length data" "magics_are_blocks data off blocks"
  shows "scannable data" "find_all_blocks data = boundaries_at (block_offsets off blocks)"
proof -
  let ?ps = "block_offsets off blocks"
  have mag: "magic_at data p \<longleftrightarrow> p \<in> set ?ps" for p
    using assms(3) block_offset_facts(1) [OF assms(1,2)] by (auto simp: magics_are_blocks_def)
  have srt: "sorted_wrt (\<lambda>p q. p + 48 \<le> q) ?ps" using block_offsets_sorted by blast
  note gap = sorted_gap [OF srt]
  show sc: "scannable data"
    unfolding scannable_def using mag gap block_offset_facts(2) [OF assms(1,2)] by blast
  have "sorted_wrt (<) ?ps" by (rule sorted_wrt_mono_rel [OF _ srt]) simp
  then have "sorted ?ps \<and> distinct ?ps" by (simp add: strict_sorted_iff)
  moreover have "set ?ps = set (filter (magic_at data) [0..<8 * length data])"
  proof -
    have "set ?ps = {p. magic_at data p}" using mag by auto
    also have "\<dots> = set (filter (magic_at data) [0..<8 * length data])" by (auto simp: magic_at_def)
    finally show ?thesis .
  qed
  ultimately have "?ps = filter (magic_at data) [0..<8 * length data]"
    using sorted_wrt_filter [OF sorted_upt] by (intro sorted_distinct_set_unique) simp_all
  then show "find_all_blocks data = boundaries_at ?ps"
    by (simp add: find_all_blocks_def find_all_from_scannable [OF sc] magics_from_def)
qed

lemma decompress_parallel_blocks:
  assumes "1 \<le> level" "level \<le> 9" "\<forall>b\<in>set blocks. block_fits (100000 * level) b"
    and "stream_bits body = blocks_bits blocks @ tail" "magics_are_blocks (header_bytes level @ body) 32 blocks"
  shows "decompress_parallel env avail (header_bytes level @ body) = Inr (concat (map block_data blocks))"
proof -
  let ?data = "header_bytes level @ body" and ?m = "100000 * level" and ?bs = "boundaries_at (block_offsets 32 blocks)"
  let ?budget = "worker_count env avail"
  have len: "length (header_bytes level) = 4" by (simp add: header_bytes_def)
  have off: "drop 32 (stream_bits ?data) = blocks_bits blocks @ tail" "32 \<le> 8 * length ?data"
    using assms(4) len by (simp_all add: stream_bits_append)
  note scan = scan_finds_blocks [OF off assms(5)]
  note dec = decode_all_blocks [OF off assms(3)]
  have hdr: "stream_header ?data = Inr ?m" by (rule stream_header_bytes [OF assms(1,2)])
  show ?thesis
  proof (cases "blocks = []")
    case True
    then show ?thesis
      by (simp add: decompress_parallel_def hdr Let_def find_all_parallel_scannable [OF scan(1)] scan(2) boundaries_at_def)
  next
    case False
    then have ne: "?bs \<noteq> []" by (cases blocks) (simp_all add: boundaries_at_def)
    have "par_map ?budget (length ?bs) (\<lambda>bi. bindE (index ?bs bi) (\<lambda>boundary. caught (decode_at ?data ?m boundary))) =
        Inr (map Inr (map block_data blocks))"
      unfolding pm.over_list by (rule mapE_caught [OF dec])
    then show ?thesis
      using ne append_results_all [of "[]" "map block_data blocks"] total_size_all [of 0 "map block_data blocks"]
      by (simp add: decompress_parallel_def hdr Let_def find_all_parallel_scannable [OF scan(1)] scan(2))
  qed
qed

subsection \<open>Properties\<close>

text \<open>
  C31. The parallel decoder is the sequential one on every well-formed stream whose only magics are those of its
  blocks: for any level, blocks, thread count and environment, both return the data of all blocks in order.
\<close>

theorem parallel_is_sequential:
  assumes "1 \<le> level" "level \<le> 9" "\<forall>b\<in>set blocks. block_fits (100000 * level) b"
    and "stream_bits body = blocks_bits blocks @ magic_bits FINAL_MAGIC @ rest"
    and "magics_are_blocks (header_bytes level @ body) 32 blocks"
  shows "decompress_parallel env avail (header_bytes level @ body) = decompress (header_bytes level @ body) \<and>
    decompress (header_bytes level @ body) = Inr (concat (map block_data blocks))"
proof -
  obtain r where r: "reader_at (header_bytes level @ body) r" "bits_of r = stream_bits body"
      "decompress (header_bytes level @ body) = bindE (stream_loop (100000 * level) [] r) (\<lambda>(output, r'). Inr output)"
    by (rule decompress_start [OF assms(1,2)])
  have "bits_of r = (blocks_bits blocks @ magic_bits FINAL_MAGIC) @ rest" by (simp add: r(2) assms(4))
  with r(1) obtain r' where "stream_loop (100000 * level) [] r = Inr ([] @ concat (map block_data blocks), r')"
    by (rule parsesD [OF reads_stream_loop [OF assms(3)]])
  with r(3) have "decompress (header_bytes level @ body) = Inr (concat (map block_data blocks))" by simp
  with decompress_parallel_blocks [OF assms(1-3,4,5)] show ?thesis by simp
qed

lemma sample_magics_are_blocks:
  "magics_are_blocks (header_bytes 9 @ sample_body) 32 [sample_block]"
  "magics_are_blocks (header_bytes 9 @ sample_truncated) 32 [sample_block]"
  using sample_magics by (auto simp: magics_are_blocks_def)

theorem parallel_is_sequential_witness:
  "decompress_parallel (Some ''3'') (Some 8) (header_bytes 9 @ sample_body) = Inr [98, 97]"
proof -
  have fits: "\<forall>b\<in>set [sample_block]. block_fits (100000 * 9) b" using sample_fits by simp
  from parallel_is_sequential [OF _ _ fits sample_body_bits sample_magics_are_blocks(1), of "Some ''3''" "Some 8"]
  show ?thesis by (simp add: sample_block_def block_data_def)
qed

text \<open>
  C32. The parallel decoder never looks for the end of the stream. When the file is cut behind the blocks, in front of or within the final
  magic, so that the sequential decoder stops with an error, it returns the data of the blocks as if the stream
  were complete; the only magics of the file are those of its blocks.
\<close>

theorem parallel_accepts_truncated:
  assumes "1 \<le> level" "level \<le> 9" "\<forall>b\<in>set blocks. block_fits (100000 * level) b"
    and "stream_bits body = blocks_bits blocks @ tail" "length tail < 48"
    and "magics_are_blocks (header_bytes level @ body) 32 blocks"
  shows "decompress (header_bytes level @ body) = Inl (BlockError ''unexpected end of stream'') \<and>
    decompress_parallel env avail (header_bytes level @ body) = Inr (concat (map block_data blocks))"
proof -
  obtain r where r: "reader_at (header_bytes level @ body) r" "bits_of r = stream_bits body"
      "decompress (header_bytes level @ body) = bindE (stream_loop (100000 * level) [] r) (\<lambda>(output, r'). Inr output)"
    by (rule decompress_start [OF assms(1,2)])
  obtain r' where r': "reader_at (header_bytes level @ body) r'" "bits_of r' = tail"
      "stream_loop (100000 * level) [] r = stream_loop (100000 * level) ([] @ concat (map block_data blocks)) r'"
    by (rule reads_blocks_then [OF assms(3) r(1) r(2) [unfolded assms(4)]])
  have eq: "read_u64 48 = read_bits 48" by (rule ext) (simp add: read_u64_def)
  obtain q where "read_bits 48 r' = Inr (None, q)" using br.readn_short [OF r'(1), of 48] r'(2) assms(5) by auto
  then have "stream_loop (100000 * level) [] r = Inl (BlockError ''unexpected end of stream'')"
    unfolding r'(3) by (subst stream_loop_eq) (simp add: eq require_def bindR_def reading_simps)
  with r(3) decompress_parallel_blocks [OF assms(1-4,6)] show ?thesis by simp
qed

theorem parallel_accepts_truncated_witness:
  "decompress (header_bytes 9 @ sample_truncated) = Inl (BlockError ''unexpected end of stream'') \<and>
   decompress_parallel None (Some 4) (header_bytes 9 @ sample_truncated) = Inr [98, 97]"
proof -
  have fits: "\<forall>b\<in>set [sample_block]. block_fits (100000 * 9) b" using sample_fits by simp
  from parallel_accepts_truncated [OF _ _ fits sample_truncated_bits _ sample_magics_are_blocks(2), of None "Some 4"]
  show ?thesis by (simp add: sample_block_def block_data_def)
qed

text \<open>
  On a scannable slice with a valid header the error of the parallel decoder is that of its first failing block,
  whatever the schedule and whatever blocks after it fail, as long as no closure panics.
\<close>

theorem parallel_first_error:
  assumes "stream_header data = Inr m" "scannable data"
    and "i < length (find_all_blocks data)" "decode_at data m (find_all_blocks data ! i) = Inl (BlockError msg)"
    and "\<forall>j<i. \<exists>out. decode_at data m (find_all_blocks data ! j) = Inr out"
    and "\<forall>b\<in>set (find_all_blocks data). \<exists>v. caught (decode_at data m b) = Inr v"
  shows "decompress_parallel env avail data = Inl (BlockError msg)"
proof -
  let ?bs = "find_all_blocks data" and ?f = "\<lambda>b. caught (decode_at data m b)"
  from assms(6) obtain g where g: "b \<in> set ?bs \<Longrightarrow> ?f b = Inr (g b)" for b by metis
  have vs: "mapE ?f ?bs = Inr (map g ?bs)" by (rule mapE_pure) (rule g)
  have gi: "g (?bs ! i) = Inl msg" using g [of "?bs ! i"] assms(3,4) by simp
  have "\<exists>us. map g (take i ?bs) = map Inr us"
  proof -
    have "\<forall>j<i. \<exists>out. g (?bs ! j) = Inr out"
    proof (intro allI impI)
      fix j assume j: "j < i"
      then obtain out where "decode_at data m (?bs ! j) = Inr out" using assms(5) by blast
      with g [of "?bs ! j"] j assms(3) show "\<exists>out. g (?bs ! j) = Inr out" by (intro exI [of _ out]) simp
    qed
    then have "\<forall>x\<in>set (take i ?bs). \<exists>out. g x = Inr out" by (auto simp: in_set_conv_nth)
    then have "map g (take i ?bs) = map Inr (map (\<lambda>x. projr (g x)) (take i ?bs))" by auto
    then show ?thesis by blast
  qed
  then obtain us where us: "map g (take i ?bs) = map Inr us" by blast
  have "map g ?bs = map g (take i ?bs @ ?bs ! i # drop (Suc i) ?bs)" using id_take_nth_drop [OF assms(3)] by simp
  then have "map g ?bs = map Inr us @ Inl msg # map g (drop (Suc i) ?bs)" using us gi by simp
  then have "total_size 0 (map g ?bs) = Inl (BlockError msg)" by (simp add: total_size_error)
  moreover have "?bs \<noteq> []" using assms(3) by auto
  moreover have "par_map b (length ?bs) (\<lambda>bi. bindE (index ?bs bi) ?f) = Inr (map g ?bs)" for b
    using vs by (simp add: pm.over_list)
  ultimately show ?thesis
    by (simp add: decompress_parallel_def assms(1) Let_def find_all_parallel_scannable [OF assms(2)])
qed

text \<open>A stream cut off right after the magic of its first block.\<close>

definition sample_cut :: "u8 list" where
  "sample_cut = header_bytes 9 @ lone_magic 0 2"

lemma sample_cut_bits:
  "stream_bits sample_cut = stream_bits (header_bytes 9) @ magic_bits BLOCK_MAGIC @ replicate 16 False"
proof -
  have "stream_bits [0x31, 0x41, 0x59, 0x26, 0x53, 0x59] = magic_bits BLOCK_MAGIC" unfolding block_magic_bits by code_simp
  then show ?thesis by (simp add: sample_cut_def stream_bits_append lone_magic_bits)
qed

lemma length_sample_cut [simp]: "length sample_cut = 12"
  by (simp add: sample_cut_def header_bytes_def)

lemma sample_cut_magic: "magic_at sample_cut p \<longleftrightarrow> p = 32"
proof
  have "occurrences (magic_bits BLOCK_MAGIC) (stream_bits sample_cut) 0 = [32]"
    unfolding sample_cut_bits block_magic_bits header_9_bits by code_simp
  then show "magic_at sample_cut p \<Longrightarrow> p = 32" using magic_at_occurs [of sample_cut p] by simp
  have len: "length (stream_bits (header_bytes 9)) = 32" by (simp add: header_bytes_def)
  have "drop 32 (stream_bits sample_cut) = magic_bits BLOCK_MAGIC @ replicate 16 False" unfolding sample_cut_bits using len by simp
  then have "magic_at sample_cut 32" by (rule magic_at_block) simp
  then show "p = 32 \<Longrightarrow> magic_at sample_cut p" by simp
qed

lemma decode_at_short:
  assumes "p + 48 \<le> 8 * length data" "8 * length data < p + 80"
  shows "decode_at data m \<lparr>bit_offset = p\<rparr> = Inl (BlockError ''block CRC truncated'')"
proof -
  obtain r where r: "from_bit_offset data (p + 48) = Inr r" "reader_at data r" "bits_of r = drop (p + 48) (stream_bits data)"
    by (rule reader_from [OF assms(1)])
  have "length (bits_of r) < 32" using assms by (simp add: r(3))
  then obtain q where "read_bits 32 r = Inr (None, q)" using br.readn_short [OF r(2), of 32] by auto
  with r(1) show ?thesis
    by (simp add: decode_at_def decode_block_def decode_block_slot_def decode_block_common_def read_header_def bindR_def
        require_def reading_simps read_u32_def read_uint_def)
qed

lemma sample_cut_scannable: "scannable sample_cut"
  by (simp add: scannable_def sample_cut_magic)

lemma sample_cut_blocks: "find_all_blocks sample_cut = [\<lparr>bit_offset = 32\<rparr>]"
proof -
  have "magic_at sample_cut = (\<lambda>p. p = 32)" by (rule ext) (rule sample_cut_magic)
  then have "magics_from sample_cut 0 96 = [32]" by (simp add: magics_from_def) (simp add: upt_rec)
  then show ?thesis
    using find_all_from_scannable [OF sample_cut_scannable, of 0] by (simp add: find_all_blocks_def boundaries_at_def)
qed

theorem parallel_first_error_witness:
  "decompress_parallel None None sample_cut = Inl (BlockError ''block CRC truncated'')"
proof -
  have hdr: "stream_header sample_cut = Inr (100000 * 9)"
    unfolding sample_cut_def by (rule stream_header_bytes) simp_all
  have dec: "decode_at sample_cut m \<lparr>bit_offset = 32\<rparr> = Inl (BlockError ''block CRC truncated'')" for m
    by (rule decode_at_short) simp_all
  show ?thesis
    by (rule parallel_first_error [OF hdr sample_cut_scannable, of 0]) (simp_all add: sample_cut_blocks dec)
qed

end
