(* ===== verification/Chunk_Decode.thy ===== *)
theory Chunk_Decode
  imports Parallel_Decode
begin

text \<open>
  The chunk-level decoder (\<open>chunk.rs\<close>): the split of a chunk into segments that start at blocks, and the decoder of
  one segment, which runs over the blocks and stream boundaries (concatenated streams) from its start bit to its end bit.
\<close>

subsection \<open>Splitting a chunk\<close>

record chunk_split =
  segment_starts :: "block_boundary list"
  decode_segments :: nat
  consumed :: nat

fun push_splits :: "block_boundary list \<Rightarrow> block_boundary list \<Rightarrow> block_boundary list" where
  "push_splits starts [] = starts"
| "push_splits starts (s # splits) =
     push_splits (if starts = [] \<or> bit_offset (last starts) \<noteq> bit_offset s then starts @ [s] else starts) splits"

definition split_chunk :: "nat \<Rightarrow> u8 list \<Rightarrow> nat \<Rightarrow> nat \<Rightarrow> bool \<Rightarrow> chunk_split option result" where
  "split_chunk budget data n_segments max_blocksize is_last =
     (case find_next_block data 0 of
        None \<Rightarrow> Inr None
      | Some first_block \<Rightarrow>
          bindE (split_boundaries_parallel budget data n_segments max_blocksize) (\<lambda>splits.
          let starts = push_splits [first_block] splits; n = length starts in
          if \<not> is_last \<and> \<not> n > 1 then Inr None
          else let decode = (if is_last then n else n - 1) in
            bindE (if decode < n then bindE (index starts decode) (\<lambda>b. Inr (byte_offset b)) else Inr (length data)) (\<lambda>used.
            Inr (Some \<lparr>segment_starts = starts, decode_segments = decode, consumed = used\<rparr>))))"

subsection \<open>Decoding a segment\<close>

text \<open>A block appended to the output; after an error the output is cut back and the reader is dropped.\<close>

definition decode_block_into_vec :: "u8 list \<Rightarrow> nat \<Rightarrow> nat \<Rightarrow> bitreader \<Rightarrow> (u8 list \<times> bitreader option) result" where
  "decode_block_into_vec out max_blocksize block_cap r =
     bindE (caught (decode_block_into max_blocksize block_cap r)) (\<lambda>v.
     Inr (case v of Inl e \<Rightarrow> (out, None) | Inr (decoded, r') \<Rightarrow> (out @ decoded, Some r')))"

definition be_bytes32 :: "u32 \<Rightarrow> u8 list" where
  "be_bytes32 h = [ucast (drop_bit 24 h), ucast (drop_bit 16 h), ucast (drop_bit 8 h), ucast h]"

text \<open>
  After the final magic: the checksum, the padding to the next byte, and the header of a concatenated
  stream; \<open>False\<close> is a \<open>break\<close>.
\<close>

definition positionR :: "nat reading" where
  "positionR r = bindE (position r) (\<lambda>p. Inr (p, r))"

definition skipR :: "nat \<Rightarrow> unit reading" where
  "skipR n r = bindE (skip n r) (\<lambda>r'. Inr ((), r'))"

definition skip_pad :: "nat \<Rightarrow> unit reading" where
  "skip_pad p = (let pad = (8 - p mod 8) mod 8 in if pad > 0 then skipR pad else returnR ())"

definition next_stream :: "bool reading" where
  "next_stream =
     bindR (read_u32 32) (\<lambda>crc.
     if crc = None then returnR False else
     bindR positionR (\<lambda>p.
     bindR (skip_pad p) (\<lambda>_.
     bindR (read_u32 32) (\<lambda>h.
     returnR (case h of None \<Rightarrow> False | Some h \<Rightarrow> take 3 (be_bytes32 h) = [0x42, 0x5A, 0x68])))))"

lemma left_skip: "skip n r = Inr r' \<Longrightarrow> bits_left r' \<le> bits_left r"
proof (induction n r rule: skip.induct)
  case (1 n r)
  show ?case
  proof (cases "n > 0")
    case False
    then show ?thesis using "1.prems" by (subst (asm) skip.simps) simp
  next
    case True
    with "1.prems" obtain r1 where r1: "(if bits_in_buf r = 0 then refill r else Inr r) = Inr r1"
      and rest: "(if bits_in_buf r1 = 0 then Inr r1 else let take = min n (bits_in_buf r1)
          in bindE (shl64 (buf r1) take) (\<lambda>b. skip (n - take) (r1\<lparr>buf := b, bits_in_buf := bits_in_buf r1 - take\<rparr>))) = Inr r'"
      by (subst (asm) skip.simps) (simp only: if_True bindE_Inr_iff, blast)
    have l1: "bits_left r1 = bits_left r" by (rule left_maybe_refill [OF r1])
    show ?thesis
    proof (cases "bits_in_buf r1 = 0")
      case True
      with rest l1 show ?thesis by simp
    next
      case nz: False
      let ?t = "min n (bits_in_buf r1)"
      from rest nz obtain b where b: "shl64 (buf r1) ?t = Inr b"
        and rec: "skip (n - ?t) (r1\<lparr>buf := b, bits_in_buf := bits_in_buf r1 - ?t\<rparr>) = Inr r'"
        by (auto simp: Let_def bindE_Inr_iff)
      have "bits_left r' \<le> bits_left (r1\<lparr>buf := b, bits_in_buf := bits_in_buf r1 - ?t\<rparr>)"
        by (rule "1.IH" [OF True r1 nz refl b rec])
      also have "\<dots> \<le> bits_left r1" using left_take [of ?t r1 b] by simp
      finally show ?thesis using l1 by simp
    qed
  qed
qed

lemma shrinks_skip [shrink_intros]: "shrinks positionR" "shrinks (skipR n)"
  by (auto simp: shrinks_def positionR_def skipR_def bindE_Inr_iff dest: left_skip)

lemma shrinks_next_stream [shrink_intros]: "shrinks next_stream"
  unfolding next_stream_def skip_pad_def Let_def by (intro shrink_intros)

lemma left_into_vec: "decode_block_into_vec out m cap r = Inr (out', Some r') \<Longrightarrow> bits_left r' \<le> bits_left r"
proof (cases "decode_block_into m cap r")
  case (Inl e)
  then show "decode_block_into_vec out m cap r = Inr (out', Some r') \<Longrightarrow> bits_left r' \<le> bits_left r"
    by (cases e) (simp_all add: decode_block_into_vec_def)
next
  case (Inr x)
  obtain d q where x: "x = (d, q)" by (cases x)
  then have "bits_left q \<le> bits_left r" using shrinksD [OF shrinks_decode_block(2)] Inr by simp
  then show "decode_block_into_vec out m cap r = Inr (out', Some r') \<Longrightarrow> bits_left r' \<le> bits_left r"
    using Inr x by (simp add: decode_block_into_vec_def)
qed

function segment_loop :: "u8 list \<Rightarrow> nat \<Rightarrow> nat \<Rightarrow> nat \<Rightarrow> u8 list \<Rightarrow> bitreader \<Rightarrow> u8 list result" where
  "segment_loop data end_bit max_blocksize block_cap out r =
     bindE (position r) (\<lambda>pos.
     if pos + 48 > 8 * length data \<or> pos \<ge> end_bit then Inr out
     else bindE (read_u64 48 r) (\<lambda>(v, r1).
       case v of
         None \<Rightarrow> Inr out
       | Some magic \<Rightarrow>
           if magic = BLOCK_MAGIC
           then bindE (decode_block_into_vec out max_blocksize block_cap r1) (\<lambda>(out', next).
                case next of None \<Rightarrow> Inr out' | Some r2 \<Rightarrow> segment_loop data end_bit max_blocksize block_cap out' r2)
           else if magic = FINAL_MAGIC
           then bindE (next_stream r1) (\<lambda>(ok, r2).
                if ok then segment_loop data end_bit max_blocksize block_cap out r2 else Inr out)
           else Inr out))"
  by pat_completeness auto
termination
  by (relation "measure (\<lambda>(data, e, m, c, out, r). bits_left r)")
    (auto simp: read_u64_def result_simps dest!: left_into_vec shrinksD [OF shrinks_next_stream] left_read_bits)

declare segment_loop.simps [simp del]

definition decode_segment :: "u8 list \<Rightarrow> nat \<Rightarrow> nat \<Rightarrow> nat \<Rightarrow> u8 list result" where
  "decode_segment data start_bit end_bit max_blocksize =
     (let block_cap = max_blocksize + max_blocksize div 4 in
      bindE (from_bit_offset data (start_bit + 48)) (\<lambda>r.
      bindE (decode_block_into_vec [] max_blocksize block_cap r) (\<lambda>(out, next).
      case next of None \<Rightarrow> Inr out | Some r' \<Rightarrow> segment_loop data end_bit max_blocksize block_cap out r')))"

subsection \<open>The format: blocks and stream boundaries\<close>

text \<open>
  What follows the first header of a file: the blocks of its streams, and between two streams the final magic, the
  checksum, zeros up to the next byte, and the header of the next stream. The padding depends on the bit position.
\<close>

datatype item = Coded coded_block | Boundary nat nat

definition pad_length :: "nat \<Rightarrow> nat" where
  "pad_length p = (8 - p mod 8) mod 8"

fun item_bits :: "nat \<Rightarrow> item \<Rightarrow> bool list" where
  "item_bits p (Coded b) = magic_bits BLOCK_MAGIC @ block_bits b"
| "item_bits p (Boundary crc level) =
     magic_bits FINAL_MAGIC @ nat_bits 32 crc @ replicate (pad_length (p + 80)) False @ stream_bits (header_bytes level)"

fun items_bits :: "nat \<Rightarrow> item list \<Rightarrow> bool list" where
  "items_bits p [] = []"
| "items_bits p (i # is) = item_bits p i @ items_bits (p + length (item_bits p i)) is"

fun item_data :: "item \<Rightarrow> u8 list" where
  "item_data (Coded b) = block_data b"
| "item_data (Boundary crc level) = []"

definition items_data :: "item list \<Rightarrow> u8 list" where
  "items_data its = concat (map item_data its)"

definition block_into_fits :: "nat \<Rightarrow> coded_block \<Rightarrow> bool" where
  "block_into_fits m = (\<lambda>(crc, cd, d). encodable m crc cd (rle1_encode d) \<and> length d \<le> m + m div 4)"

fun item_ok :: "nat \<Rightarrow> item \<Rightarrow> bool" where
  "item_ok m (Coded b) \<longleftrightarrow> block_into_fits m b"
| "item_ok m (Boundary crc level) \<longleftrightarrow> crc < 2 ^ 32"

lemma items_data_simps [simp]:
  "items_data [] = []" "items_data (i # is) = item_data i @ items_data is" "items_data (xs @ ys) = items_data xs @ items_data ys"
  by (simp_all add: items_data_def)

lemma length_item_bits: "48 \<le> length (item_bits p i)"
  by (cases i) simp_all

lemma items_bits_append: "items_bits p (xs @ ys) = items_bits p xs @ items_bits (p + length (items_bits p xs)) ys"
  by (induction xs arbitrary: p) (simp_all add: add.assoc)

lemma reads_block_into: "block_into_fits m b \<Longrightarrow> reads bs (decode_block_into m (m + m div 4)) (block_bits b) (block_data b)"
  by (cases b) (auto simp: block_into_fits_def block_bits_def block_data_def intro!: block_into_parses)

subsection \<open>The header of the next stream\<close>

lemma be_bytes32_bits: "be_bytes32 (word_of_bits (stream_bits [a, b, c, d])) = [a, b, c, d]"
proof -
  let ?bits = "stream_bits [a, b, c, d]"
  have nth: "?bits ! (8 * k + j) = bit ([a, b, c, d] ! k) (7 - j)" if "k < 4" "j < 8" for k j
    using that stream_bit_byte [of k "[a, b, c, d]" j] by simp
  have byte: "ucast (drop_bit (8 * (3 - k)) (word_of_bits ?bits :: u32)) = [a, b, c, d] ! k" if k: "k < 4" for k
  proof (rule bit_eqI)
    fix i assume "possible_bit TYPE(u8) i"
    then have i: "i < 8" by simp
    have "bit (ucast (drop_bit (8 * (3 - k)) (word_of_bits ?bits :: u32)) :: u8) i = bit (word_of_bits ?bits :: u32) (8 * (3 - k) + i)"
      using i by (simp add: bit_ucast_iff bit_drop_bit_eq)
    also have "\<dots> = ?bits ! (31 - (8 * (3 - k) + i))" using i k by (auto simp: bit_word_of_bits)
    also have "31 - (8 * (3 - k) + i) = 8 * k + (7 - i)" using i k by simp
    also have "?bits ! (8 * k + (7 - i)) = bit ([a, b, c, d] ! k) i" using nth [OF k, of "7 - i"] i by simp
    finally show "bit (ucast (drop_bit (8 * (3 - k)) (word_of_bits ?bits :: u32)) :: u8) i = bit ([a, b, c, d] ! k) i" .
  qed
  show ?thesis using byte [of 0] byte [of 1] byte [of 2] byte [of 3] by (simp add: be_bytes32_def numeral_eq_Suc)
qed

lemma skip_at:
  assumes "reader_at data r" "n < 64"
  obtains r' where "skip n r = Inr r'" "reader_at data r'" "bits_of r' = drop n (bits_of r)"
proof -
  obtain r' where r': "skip n r = Inr r'" "advanced (min n (length (bits_of r))) r r'"
    using skip_ok [of r n] assms by (auto simp: reader_at_def)
  then have "reader_at data r'" using reader_at_advanced [OF assms(1) r'(2)] by simp
  moreover have "bits_of r' = drop n (bits_of r)" using advanced_bits [OF r'(2)] by (cases "n \<le> length (bits_of r)") simp_all
  ultimately show thesis using that r'(1) by blast
qed

lemma skip_pad_at:
  assumes "reader_at data r"
  obtains r' where "skip_pad p r = Inr ((), r')" "reader_at data r'" "bits_of r' = drop (pad_length p) (bits_of r)"
proof -
  have "pad_length p < 64" unfolding pad_length_def by (rule order_less_trans [of _ 8]) simp_all
  then obtain r' where r': "skip (pad_length p) r = Inr r'" "reader_at data r'" "bits_of r' = drop (pad_length p) (bits_of r)"
    by (rule skip_at [OF assms])
  have "skip_pad p r = Inr ((), r')"
  proof (cases "pad_length p > 0")
    case False
    then have "skip (pad_length p) r = Inr r" by (subst skip.simps) simp
    with False r'(1) show ?thesis by (simp add: skip_pad_def pad_length_def reading_simps)
  qed (use r'(1) in \<open>simp add: skip_pad_def pad_length_def skipR_def\<close>)
  with r' that show thesis by blast
qed

lemma next_stream_header:
  assumes "reader_at data r"
    and "bits_of r = nat_bits 32 crc @ replicate (pad_length (bit_pos r + 32)) False @ stream_bits (header_bytes level) @ rest"
  obtains r' where "next_stream r = Inr (True, r')" "reader_at data r'" "bits_of r' = rest"
proof -
  let ?pad = "pad_length (bit_pos r + 32)"
  have l1: "32 \<le> length (bits_of r)" by (simp add: assms(2))
  obtain r1 where r1: "read_u32 32 r = Inr (Some (word_of_bits (take 32 (bits_of r))), r1)" "reader_at data r1" "bits_of r1 = drop 32 (bits_of r)"
    by (rule read_u32_enough [OF assms(1) _ _ l1]) simp_all
  have pos: "bit_pos r1 = bit_pos r + 32"
    by (rule reader_at_moved [OF assms(1) r1(2,3) l1])
  have b1: "bits_of r1 = replicate ?pad False @ stream_bits (header_bytes level) @ rest" unfolding r1(3) assms(2) by simp
  obtain r2 where r2: "skip_pad (bit_pos r + 32) r1 = Inr ((), r2)" "reader_at data r2" "bits_of r2 = drop ?pad (bits_of r1)"
    by (rule skip_pad_at [OF r1(2)])
  then have b2: "bits_of r2 = stream_bits (header_bytes level) @ rest" unfolding b1 by simp
  have len: "length (stream_bits (header_bytes level)) = 32" by (simp add: header_bytes_def)
  then have l2: "32 \<le> length (bits_of r2)" unfolding b2 by simp
  obtain r3 where r3: "read_u32 32 r2 = Inr (Some (word_of_bits (take 32 (bits_of r2))), r3)" "reader_at data r3" "bits_of r3 = drop 32 (bits_of r2)"
    by (rule read_u32_enough [OF r2(2) _ _ l2]) simp_all
  have h: "take 32 (bits_of r2) = stream_bits (header_bytes level)" unfolding b2 using len by simp
  have "take 3 (be_bytes32 (word_of_bits (take 32 (bits_of r2)))) = [0x42, 0x5A, 0x68]"
    unfolding h header_bytes_def be_bytes32_bits by simp
  then have "next_stream r = Inr (True, r3)"
    using r1(1) r2(1) r3(1) position_at [OF r1(2)]
    by (simp add: next_stream_def bindR_def positionR_def reading_simps pos)
  moreover have "bits_of r3 = rest" unfolding r3(3) b2 using len by simp
  ultimately show thesis using that r3(2) by blast
qed

text \<open>At the end of the file there is no next header.\<close>

lemma next_stream_end:
  assumes "reader_at data r" "length (bits_of r) < 64"
  obtains r' where "next_stream r = Inr (False, r')"
proof (cases "32 \<le> length (bits_of r)")
  case False
  then obtain q where "read_bits 32 r = Inr (None, q)" using br.readn_short [OF assms(1), of 32] by auto
  then have "next_stream r = Inr (False, q)" by (simp add: next_stream_def bindR_def reading_simps read_u32_def read_uint_def)
  with that show thesis .
next
  case True
  obtain r1 where r1: "read_u32 32 r = Inr (Some (word_of_bits (take 32 (bits_of r))), r1)" "reader_at data r1" "bits_of r1 = drop 32 (bits_of r)"
    by (rule read_u32_enough [OF assms(1) _ _ True]) simp_all
  obtain r2 where r2: "skip_pad (bit_pos r1) r1 = Inr ((), r2)" "reader_at data r2" "bits_of r2 = drop (pad_length (bit_pos r1)) (bits_of r1)"
    by (rule skip_pad_at [OF r1(2)])
  have "length (bits_of r2) < 32" using assms(2) True by (simp add: r2(3) r1(3))
  then obtain q where "read_bits 32 r2 = Inr (None, q)" using br.readn_short [OF r2(2), of 32] by auto
  then have "read_u32 32 r2 = Inr (None, q)" by (simp add: read_u32_def read_uint_def)
  then have "next_stream r = Inr (False, q)"
    using r1(1) r2(1) position_at [OF r1(2)]
    by (simp add: next_stream_def bindR_def positionR_def reading_simps)
  with that show thesis .
qed

subsection \<open>A segment over the items\<close>

text \<open>The loop runs through all items that start before its end bit.\<close>

lemma segment_loop_items:
  assumes "\<forall>i\<in>set its. item_ok m i" "reader_at data r" "bits_of r = items_bits (bit_pos r) its @ rest"
    and "bit_pos r + length (items_bits (bit_pos r) its) \<le> e"
  obtains r' where "reader_at data r'" "bits_of r' = rest" "bit_pos r' = bit_pos r + length (items_bits (bit_pos r) its)"
    "segment_loop data e m (m + m div 4) out r = segment_loop data e m (m + m div 4) (out @ items_data its) r'"
  using assms
proof (induction its arbitrary: out r thesis)
  case Nil
  then show ?case by simp
next
  case (Cons i its)
  let ?p = "bit_pos r" and ?n = "length (item_bits (bit_pos r) i)" and ?loop = "segment_loop data e m (m + m div 4)"
  let ?rest = "items_bits (?p + ?n) its @ rest"
  have ok: "item_ok m i" "\<forall>i\<in>set its. item_ok m i" using Cons.prems(2) by simp_all
  have b: "bits_of r = item_bits ?p i @ ?rest" using Cons.prems(4) by simp
  have n48: "48 \<le> ?n" by (rule length_item_bits)
  have len: "?n \<le> length (bits_of r)" unfolding b by simp
  have total: "?p + ?n \<le> 8 * length data"
    using len Cons.prems(3) by (auto simp: reader_at_def length_bits_of)
  have go: "\<not> (?p + 48 > 8 * length data \<or> ?p \<ge> e)"
    using total n48 Cons.prems(5) by simp
  have step: "\<exists>q. reader_at data q \<and> bits_of q = ?rest \<and> ?loop out r = ?loop (out @ item_data i) q"
  proof (cases i)
    case (Coded c)
    have b': "bits_of r = magic_bits BLOCK_MAGIC @ (block_bits c @ ?rest)" using b Coded by simp
    obtain r1 where r1: "require ''m'' (read_u64 48) r = Inr (BLOCK_MAGIC, r1)" "reader_at data r1" "bits_of r1 = block_bits c @ ?rest"
      using Cons.prems(3) b' by (rule parsesD [OF reads_BLOCK_MAGIC])
    then have rd: "read_u64 48 r = Inr (Some BLOCK_MAGIC, r1)" by (simp add: require_Inr_iff)
    have "block_into_fits m c" using ok(1) Coded by simp
    note reads = reads_block_into [OF this]
    obtain q where q: "decode_block_into m (m + m div 4) r1 = Inr (block_data c, q)" "reader_at data q" "bits_of q = ?rest"
      using r1(2,3) by (rule parsesD [OF reads])
    have "?loop out r = ?loop (out @ block_data c) q"
      using go by (subst segment_loop.simps)
        (simp add: position_at [OF Cons.prems(3)] rd decode_block_into_vec_def q(1))
    with q Coded show ?thesis by auto
  next
    case (Boundary crc level)
    have b': "bits_of r = magic_bits FINAL_MAGIC @ (nat_bits 32 crc @ replicate (pad_length (?p + 80)) False @
        stream_bits (header_bytes level) @ ?rest)" using b Boundary by simp
    obtain r1 where r1: "require ''m'' (read_u64 48) r = Inr (FINAL_MAGIC, r1)" "reader_at data r1"
        "bits_of r1 = nat_bits 32 crc @ replicate (pad_length (?p + 80)) False @ stream_bits (header_bytes level) @ ?rest"
      using Cons.prems(3) b' by (rule parsesD [OF reads_FINAL_MAGIC])
    then have rd: "read_u64 48 r = Inr (Some FINAL_MAGIC, r1)" by (simp add: require_Inr_iff)
    have d48: "bits_of r1 = drop 48 (bits_of r)" unfolding b' r1(3) by simp
    have "bit_pos r1 = ?p + 48" by (rule reader_at_moved [OF Cons.prems(3) r1(2) d48]) (use len n48 in simp)
    then have pos: "bit_pos r1 + 32 = ?p + 80" by simp
    obtain q where q: "next_stream r1 = Inr (True, q)" "reader_at data q" "bits_of q = ?rest"
      by (rule next_stream_header [OF r1(2) r1(3) [folded pos]])
    have "?loop out r = ?loop out q"
      using go by (subst segment_loop.simps)
        (simp add: position_at [OF Cons.prems(3)] rd magics_differ q(1))
    with q Boundary show ?thesis by auto
  qed
  then obtain q where q: "reader_at data q" "bits_of q = ?rest" "?loop out r = ?loop (out @ item_data i) q" by blast
  have dq: "bits_of q = drop ?n (bits_of r)" unfolding b q(2) by simp
  have pq: "bit_pos q = ?p + ?n" by (rule reader_at_moved [OF Cons.prems(3) q(1) dq len])
  have bq: "bits_of q = items_bits (bit_pos q) its @ rest" using q(2) pq by simp
  have eq: "bit_pos q + length (items_bits (bit_pos q) its) \<le> e" using Cons.prems(5) pq by simp
  obtain r' where r': "reader_at data r'" "bits_of r' = rest" "bit_pos r' = bit_pos q + length (items_bits (bit_pos q) its)"
      "?loop (out @ item_data i) q = ?loop ((out @ item_data i) @ items_data its) r'"
    by (rule Cons.IH [OF _ ok(2) q(1) bq eq])
  show ?case
    by (rule Cons.prems(1) [OF r'(1,2)]) (use r'(3,4) q(3) pq in simp_all)
qed

lemma segment_loop_stop: "reader_at data r \<Longrightarrow> e \<le> bit_pos r \<Longrightarrow> segment_loop data e m cap out r = Inr out"
  by (subst segment_loop.simps) (simp add: position_at)

text \<open>The end of the file: the final magic, the checksum, and less than a header.\<close>

definition file_end :: "bool list \<Rightarrow> bool" where
  "file_end rest \<longleftrightarrow> (\<exists>w. rest = magic_bits FINAL_MAGIC @ w \<and> length w < 64)"

lemma segment_loop_end:
  assumes "reader_at data r" "file_end (bits_of r)"
  shows "segment_loop data e m cap out r = Inr out"
proof -
  obtain w where w: "bits_of r = magic_bits FINAL_MAGIC @ w" "length w < 64" using assms(2) by (auto simp: file_end_def)
  obtain r1 where r1: "require ''m'' (read_u64 48) r = Inr (FINAL_MAGIC, r1)" "reader_at data r1" "bits_of r1 = w"
    using assms(1) w(1) by (rule parsesD [OF reads_FINAL_MAGIC])
  then have rd: "read_u64 48 r = Inr (Some FINAL_MAGIC, r1)" by (simp add: require_Inr_iff)
  have "length (bits_of r1) < 64" using w(2) r1(3) by simp
  then obtain q where "next_stream r1 = Inr (False, q)" by (rule next_stream_end [OF r1(2)])
  then show ?thesis by (subst segment_loop.simps) (simp add: position_at [OF assms(1)] rd magics_differ)
qed

lemma decode_segment_run:
  assumes "drop s (stream_bits data) = items_bits s (Coded c # its) @ rest" "s \<le> 8 * length data"
    and "\<forall>i\<in>set (Coded c # its). item_ok m i" "s + length (items_bits s (Coded c # its)) \<le> e"
  obtains r where "reader_at data r" "bits_of r = rest" "bit_pos r = s + length (items_bits s (Coded c # its))"
    "decode_segment data s e m = segment_loop data e m (m + m div 4) (items_data (Coded c # its)) r"
proof -
  let ?n = "48 + length (block_bits c)"
  have b: "drop s (stream_bits data) = magic_bits BLOCK_MAGIC @ block_bits c @ items_bits (s + ?n) its @ rest"
    using assms(1) by simp
  have "8 * length data - s = ?n + length (items_bits (s + ?n) its @ rest)" using arg_cong [OF b, of length] by simp
  then have le: "s + ?n \<le> 8 * length data" using assms(2) by linarith
  then have "s + 48 \<le> 8 * length data" by simp
  then obtain r where r: "from_bit_offset data (s + 48) = Inr r" "reader_at data r" "bits_of r = drop (s + 48) (stream_bits data)"
    by (rule reader_from)
  have "drop (s + 48) (stream_bits data) = drop 48 (drop s (stream_bits data))" by (simp add: add.commute)
  then have br: "bits_of r = block_bits c @ items_bits (s + ?n) its @ rest" unfolding r(3) b by simp
  have pr: "bit_pos r = s + 48"
    using reader_at_pos [OF r(2)] le by (simp add: r(3))
  have "block_into_fits m c" using assms(3) by simp
  note reads = reads_block_into [OF this]
  obtain q where q: "decode_block_into m (m + m div 4) r = Inr (block_data c, q)" "reader_at data q" "bits_of q = items_bits (s + ?n) its @ rest"
    using r(2) br by (rule parsesD [OF reads])
  have "bits_of q = drop (length (block_bits c)) (bits_of r)" unfolding br q(3) by simp
  then have pq: "bit_pos q = s + ?n"
    using reader_at_moved [OF r(2) q(2), of "length (block_bits c)"] pr br by simp
  have bq: "bits_of q = items_bits (bit_pos q) its @ rest" using q(3) pq by simp
  have ok: "\<forall>i\<in>set its. item_ok m i" using assms(3) by simp
  have eq: "bit_pos q + length (items_bits (bit_pos q) its) \<le> e" using assms(4) pq by simp
  obtain r' where r': "reader_at data r'" "bits_of r' = rest" "bit_pos r' = bit_pos q + length (items_bits (bit_pos q) its)"
      "segment_loop data e m (m + m div 4) (block_data c) q = segment_loop data e m (m + m div 4) (block_data c @ items_data its) r'"
    by (rule segment_loop_items [OF ok q(2) bq eq])
  show thesis
    by (rule that [OF r'(1,2)]) (use r'(3,4) pq r(1) q(1) in \<open>simp_all add: decode_segment_def Let_def decode_block_into_vec_def\<close>)
qed

lemma decode_segment_items:
  assumes "drop s (stream_bits data) = items_bits s (Coded c # its) @ rest" "s \<le> 8 * length data"
    and "\<forall>i\<in>set (Coded c # its). item_ok m i"
    and "e = s + length (items_bits s (Coded c # its)) \<or> file_end rest \<and> s + length (items_bits s (Coded c # its)) \<le> e"
  shows "decode_segment data s e m = Inr (items_data (Coded c # its))"
proof -
  have "s + length (items_bits s (Coded c # its)) \<le> e" using assms(4) by auto
  then obtain r where r: "reader_at data r" "bits_of r = rest" "bit_pos r = s + length (items_bits s (Coded c # its))"
      "decode_segment data s e m = segment_loop data e m (m + m div 4) (items_data (Coded c # its)) r"
    by (rule decode_segment_run [OF assms(1-3)])
  show ?thesis
  proof (cases "file_end rest")
    case True
    then show ?thesis unfolding r(4) using segment_loop_end [OF r(1)] r(2) by simp
  next
    case False
    then have "e \<le> bit_pos r" using assms(4) r(3) by simp
    then show ?thesis unfolding r(4) by (rule segment_loop_stop [OF r(1)])
  qed
qed

subsection \<open>All segments of a chunk\<close>

text \<open>The start and end bits of the segments to decode, as the callers of \<open>split_chunk\<close> compute them.\<close>

definition segment_end :: "u8 list \<Rightarrow> chunk_split \<Rightarrow> nat \<Rightarrow> nat" where
  "segment_end data split i =
     (if i + 1 < length (segment_starts split) then bit_offset (segment_starts split ! (i + 1)) else 8 * length data)"

definition segment_ranges :: "u8 list \<Rightarrow> chunk_split \<Rightarrow> (nat \<times> nat) list" where
  "segment_ranges data split =
     map (\<lambda>i. (bit_offset (segment_starts split ! i), segment_end data split i)) [0..<decode_segments split]"

fun coded_offsets :: "nat \<Rightarrow> item list \<Rightarrow> nat list" where
  "coded_offsets p [] = []"
| "coded_offsets p (Coded b # is) = p # coded_offsets (p + length (item_bits p (Coded b))) is"
| "coded_offsets p (Boundary crc level # is) = coded_offsets (p + length (item_bits p (Boundary crc level))) is"

lemma coded_offsets_range: "q \<in> set (coded_offsets p its) \<Longrightarrow> p \<le> q \<and> q < p + length (items_bits p its)"
proof (induction p its rule: coded_offsets.induct)
  case (2 p b its)
  then show ?case using length_item_bits [of p "Coded b"] by fastforce
next
  case (3 p crc level its)
  then show ?case using length_item_bits [of p "Boundary crc level"] by fastforce
qed simp

lemma coded_offsets_append: "coded_offsets p (xs @ ys) = coded_offsets p xs @ coded_offsets (p + length (items_bits p xs)) ys"
  by (induction p xs rule: coded_offsets.induct) (simp_all add: add.assoc)

lemma coded_split:
  "q \<in> set (coded_offsets p its) \<Longrightarrow> \<exists>A c B. its = A @ Coded c # B \<and> q = p + length (items_bits p A)"
proof (induction p its rule: coded_offsets.induct)
  case (2 p b its)
  show ?case
  proof (cases "q = p")
    case True
    then show ?thesis by (intro exI [of _ "[]"] exI [of _ b] exI [of _ its]) simp
  next
    case False
    with 2 obtain A c B where "its = A @ Coded c # B" "q = p + length (item_bits p (Coded b)) + length (items_bits (p + length (item_bits p (Coded b))) A)" by auto
    then show ?thesis by (intro exI [of _ "Coded b # A"] exI [of _ c] exI [of _ B]) simp
  qed
next
  case (3 p crc level its)
  then obtain A c B where "its = A @ Coded c # B"
    "q = p + length (item_bits p (Boundary crc level)) + length (items_bits (p + length (item_bits p (Boundary crc level))) A)" by auto
  then show ?case by (intro exI [of _ "Boundary crc level # A"] exI [of _ c] exI [of _ B]) simp
qed simp

lemma items_bits_at:
  assumes "drop p (stream_bits data) = items_bits p (A @ B) @ rest" "p \<le> 8 * length data"
  shows "drop (p + length (items_bits p A)) (stream_bits data) = items_bits (p + length (items_bits p A)) B @ rest"
    "p + length (items_bits p A) \<le> 8 * length data"
proof -
  have "drop (p + length (items_bits p A)) (stream_bits data) = drop (length (items_bits p A)) (drop p (stream_bits data))"
    by (simp add: add.commute)
  then show "drop (p + length (items_bits p A)) (stream_bits data) = items_bits (p + length (items_bits p A)) B @ rest"
    unfolding assms(1) by (simp add: items_bits_append)
  have "8 * length data - p = length (items_bits p (A @ B) @ rest)" using arg_cong [OF assms(1), of length] by simp
  then show "p + length (items_bits p A) \<le> 8 * length data" using assms(2) by (simp add: items_bits_append)
qed

lemma segments_before_last:
  assumes "drop p (stream_bits data) = items_bits p (Coded c # its) @ rest" "p \<le> 8 * length data"
    and "\<forall>i\<in>set (Coded c # its). item_ok m i" "sorted_wrt (<) (p # ss)" "set ss \<subseteq> set (coded_offsets p (Coded c # its))"
  shows "\<exists>A c' B ds. Coded c # its = A @ Coded c' # B \<and> last (p # ss) = p + length (items_bits p A) \<and>
    mapE (\<lambda>(s, e). decode_segment data s e m) (zip (p # ss) ss) = Inr ds \<and> concat ds = items_data A"
  using assms
proof (induction ss arbitrary: p c its)
  case Nil
  show ?case by (intro exI [of _ "[]"] exI [of _ c] exI [of _ its]) simp
next
  case (Cons q ss)
  have q: "q \<in> set (coded_offsets p (Coded c # its))" "p < q" using Cons.prems(4,5) by simp_all
  obtain A c1 B where split: "Coded c # its = A @ Coded c1 # B" and qA: "q = p + length (items_bits p A)"
    using coded_split [OF q(1)] by blast
  have "A \<noteq> []" using q(2) qA by auto
  then obtain A' where A: "A = Coded c # A'" using split by (cases A) auto
  have bits: "drop p (stream_bits data) = items_bits p (A @ Coded c1 # B) @ rest" using Cons.prems(1) unfolding split .
  note at_q = items_bits_at [OF bits Cons.prems(2), folded qA]
  have bitsA: "drop p (stream_bits data) = items_bits p (Coded c # A') @ (items_bits q (Coded c1 # B) @ rest)"
    unfolding bits items_bits_append qA A by simp
  have okA: "\<forall>i\<in>set (Coded c # A'). item_ok m i" and okB: "\<forall>i\<in>set (Coded c1 # B). item_ok m i"
    using Cons.prems(3) unfolding split A by simp_all
  have seg: "decode_segment data p q m = Inr (items_data A)"
    unfolding A by (rule decode_segment_items [OF bitsA Cons.prems(2) okA]) (simp add: qA A)
  have srt: "sorted_wrt (<) (q # ss)" using Cons.prems(4) by simp
  have "set ss \<subseteq> set (coded_offsets q (Coded c1 # B))"
  proof
    fix x assume x: "x \<in> set ss"
    then have "q < x" using srt by simp
    moreover have "x \<in> set (coded_offsets p (A @ Coded c1 # B))" using x Cons.prems(5) unfolding split by auto
    then have "x \<in> set (coded_offsets p A) \<or> x \<in> set (coded_offsets q (Coded c1 # B))"
      unfolding coded_offsets_append qA by auto
    ultimately show "x \<in> set (coded_offsets q (Coded c1 # B))" using coded_offsets_range [of x p A] qA by auto
  qed
  from Cons.IH [OF at_q okB srt this] obtain A2 c2 B2 ds where IH: "Coded c1 # B = A2 @ Coded c2 # B2"
      "last (q # ss) = q + length (items_bits q A2)"
      "mapE (\<lambda>(s, e). decode_segment data s e m) (zip (q # ss) ss) = Inr ds" "concat ds = items_data A2" by blast
  show ?case
  proof (intro exI conjI)
    show "Coded c # its = (A @ A2) @ Coded c2 # B2" unfolding split IH(1) by simp
    show "last (p # q # ss) = p + length (items_bits p (A @ A2))" using IH(2) qA by (simp add: items_bits_append)
    show "mapE (\<lambda>(s, e). decode_segment data s e m) (zip (p # q # ss) (q # ss)) = Inr (items_data A # ds)" using seg IH(3) by simp
    show "concat (items_data A # ds) = items_data (A @ A2)" using IH(4) by simp
  qed
qed

lemma mapE_append: "mapE f xs = Inr us \<Longrightarrow> mapE f ys = Inr vs \<Longrightarrow> mapE f (xs @ ys) = Inr (us @ vs)"
  by (induction xs arbitrary: us) (auto simp: bindE_Inr_iff)

lemma zip_snoc: "length xs = Suc (length ys) \<Longrightarrow> zip xs (ys @ [e]) = zip xs ys @ [(last xs, e)]"
proof (induction ys arbitrary: xs)
  case Nil
  then show ?case by (cases xs) auto
next
  case (Cons y ys)
  then obtain x xs' where "xs = x # xs'" "length xs' = Suc (length ys)" by (cases xs) auto
  with Cons.IH [of xs'] show ?case by auto
qed

lemma segments_all:
  assumes "drop p (stream_bits data) = items_bits p (Coded c # its) @ rest" "p \<le> 8 * length data"
    and "\<forall>i\<in>set (Coded c # its). item_ok m i" "sorted_wrt (<) (p # ss)" "set ss \<subseteq> set (coded_offsets p (Coded c # its))"
    and "e = p + length (items_bits p (Coded c # its)) \<or> file_end rest \<and> e = 8 * length data"
  shows "\<exists>ds. mapE (\<lambda>(s, e). decode_segment data s e m) (zip (p # ss) (ss @ [e])) = Inr ds \<and> concat ds = items_data (Coded c # its)"
proof -
  from segments_before_last [OF assms(1-5)] obtain A c' B ds where A: "Coded c # its = A @ Coded c' # B"
      "last (p # ss) = p + length (items_bits p A)"
      "mapE (\<lambda>(s, e). decode_segment data s e m) (zip (p # ss) ss) = Inr ds" "concat ds = items_data A" by blast
  let ?q = "last (p # ss)"
  have bits: "drop p (stream_bits data) = items_bits p (A @ Coded c' # B) @ rest" using assms(1) unfolding A(1) .
  note at_q = items_bits_at [OF bits assms(2), folded A(2)]
  have ok: "\<forall>i\<in>set (Coded c' # B). item_ok m i" using assms(3) unfolding A(1) by simp
  have le: "?q + length (items_bits ?q (Coded c' # B)) \<le> 8 * length data"
  proof -
    have "8 * length data - ?q = length (items_bits ?q (Coded c' # B) @ rest)" using arg_cong [OF at_q(1), of length] by simp
    then show ?thesis using at_q(2) by simp
  qed
  have all: "p + length (items_bits p (Coded c # its)) = ?q + length (items_bits ?q (Coded c' # B))"
    unfolding A(1,2) items_bits_append by simp
  have "e = ?q + length (items_bits ?q (Coded c' # B)) \<or> file_end rest \<and> ?q + length (items_bits ?q (Coded c' # B)) \<le> e"
    using assms(6) le unfolding all by auto
  then have lastd: "decode_segment data ?q e m = Inr (items_data (Coded c' # B))"
    by (rule decode_segment_items [OF at_q ok])
  have z: "zip (p # ss) (ss @ [e]) = zip (p # ss) ss @ [(?q, e)]"
    by (rule zip_snoc) simp
  have "mapE (\<lambda>(s, e). decode_segment data s e m) (zip (p # ss) (ss @ [e])) = Inr (ds @ [items_data (Coded c' # B)])"
    unfolding z by (rule mapE_append [OF A(3)]) (simp only: mapE.simps prod.case lastd bindE.simps)
  moreover have "concat (ds @ [items_data (Coded c' # B)]) = items_data (Coded c # its)" using A(1,4) by simp
  ultimately show ?thesis by blast
qed

subsection \<open>What a split is\<close>

lemma push_splits_sorted:
  assumes "starts \<noteq> []" "sorted_wrt (<) (map bit_offset starts)" "sorted_wrt (<) (map bit_offset splits)"
    and "\<forall>s\<in>set splits. bit_offset (last starts) \<le> bit_offset s"
  shows "sorted_wrt (<) (map bit_offset (push_splits starts splits)) \<and> hd (push_splits starts splits) = hd starts \<and>
    set (push_splits starts splits) = set starts \<union> set splits \<and> push_splits starts splits \<noteq> [] \<and>
    length (push_splits starts splits) \<le> length starts + length splits"
  using assms
proof (induction splits arbitrary: starts)
  case (Cons s splits)
  show ?case
  proof (cases "bit_offset (last starts) = bit_offset s")
    case True
    then have s: "s = last starts" by (intro block_boundary.equality) simp_all
    have le: "\<forall>x\<in>set splits. bit_offset (last starts) \<le> bit_offset x" using Cons.prems(4) by simp
    have srt: "sorted_wrt (<) (map bit_offset splits)" using Cons.prems(3) by simp
    have "s \<in> set starts" using s last_in_set [OF Cons.prems(1)] by simp
    moreover have "push_splits starts (s # splits) = push_splits starts splits" using True Cons.prems(1) by simp
    ultimately show ?thesis using Cons.IH [OF Cons.prems(1,2) srt le] by (simp only: list.set list.size) auto
  next
    case False
    then have lt: "bit_offset (last starts) < bit_offset s" using Cons.prems(4) by simp
    have "sorted_wrt (<) (map bit_offset (butlast starts @ [last starts]))" using Cons.prems(1,2) by simp
    then have "\<forall>x\<in>set (butlast starts @ [last starts]). bit_offset x < bit_offset s"
      using lt by (fastforce simp: sorted_wrt_append)
    then have "\<forall>x\<in>set starts. bit_offset x < bit_offset s" using Cons.prems(1) by simp
    then have srt: "sorted_wrt (<) (map bit_offset (starts @ [s]))" using Cons.prems(2) by (auto simp: sorted_wrt_append)
    have rest: "sorted_wrt (<) (map bit_offset splits)" "\<forall>x\<in>set splits. bit_offset (last (starts @ [s])) \<le> bit_offset x"
      using Cons.prems(3) by auto
    have "starts @ [s] \<noteq> []" by simp
    from Cons.IH [OF this srt rest] Cons.prems(1) False show ?thesis by auto
  qed
qed simp

lemma split_chunk_Some:
  assumes "split_chunk budget data n m is_last = Inr (Some cs)"
  obtains first splits where "find_next_block data 0 = Some first" "split_boundaries_parallel budget data n m = Inr splits"
    "segment_starts cs = push_splits [first] splits" "is_last \<or> 1 < length (segment_starts cs)"
    "decode_segments cs = (if is_last then length (segment_starts cs) else length (segment_starts cs) - 1)"
    "consumed cs = (if is_last then length data else byte_offset (last (segment_starts cs)))"
proof -
  from assms obtain first splits where f: "find_next_block data 0 = Some first" and sp: "split_boundaries_parallel budget data n m = Inr splits"
    by (auto simp: split_chunk_def bindE_Inr_iff split: option.splits)
  let ?s = "push_splits [first] splits"
  have c: "is_last \<or> 1 < length ?s" using assms f sp by (auto simp: split_chunk_def Let_def split: if_splits)
  have "cs = \<lparr>segment_starts = ?s, decode_segments = (if is_last then length ?s else length ?s - 1),
      consumed = (if is_last then length data else byte_offset (last ?s))\<rparr>"
  proof (cases is_last)
    case True
    then show ?thesis using assms f sp by (simp add: split_chunk_def Let_def)
  next
    case False
    with c have l: "1 < length ?s" by simp
    then have ne: "?s \<noteq> []" by auto
    show ?thesis using assms f sp False l ne by (simp add: split_chunk_def Let_def last_conv_nth)
  qed
  with that [OF f sp] c show thesis by simp
qed

lemma split_shape:
  assumes "split_chunk budget data n m is_last = Inr (Some cs)"
  shows "is_last \<or> 1 < length (segment_starts cs)"
    "decode_segments cs = (if is_last then length (segment_starts cs) else length (segment_starts cs) - 1)"
    "consumed cs = (if is_last then length data else byte_offset (last (segment_starts cs)))"
  by (rule split_chunk_Some [OF assms], assumption)+

lemma split_starts:
  assumes "find_next_block data 0 = Some first" "split_boundaries_parallel budget data n m = Inr splits"
  shows "sorted_wrt (<) (map bit_offset (push_splits [first] splits))" "hd (push_splits [first] splits) = first"
    "set (push_splits [first] splits) = insert first (set splits)" "push_splits [first] splits \<noteq> []"
    "length (push_splits [first] splits) \<le> 1 + (n - 1)"
proof -
  note sp = split_parallel_spec [OF assms(2)]
  have "bit_offset first \<le> bit_offset s" if s: "s \<in> set splits" for s
  proof (rule ccontr)
    assume "\<not> bit_offset first \<le> bit_offset s"
    then have "bit_offset s < bit_offset first" by simp
    moreover have "covered data 0 (bit_offset s)"
      using covered_whole [OF plausible_whole, of data "bit_offset s" m 0] sp(3) [OF s] by simp
    ultimately show False using find_next_Some(4) [OF assms(1), of "bit_offset s"] sp(3) [OF s] by simp
  qed
  moreover have "sorted_wrt (<) (map bit_offset splits)" using sp(1) by (simp add: sorted_wrt_map)
  ultimately have "sorted_wrt (<) (map bit_offset (push_splits [first] splits)) \<and> hd (push_splits [first] splits) = hd [first] \<and>
    set (push_splits [first] splits) = set [first] \<union> set splits \<and> push_splits [first] splits \<noteq> [] \<and>
    length (push_splits [first] splits) \<le> length [first] + length splits"
    by (intro push_splits_sorted) simp_all
  with sp(2) show "sorted_wrt (<) (map bit_offset (push_splits [first] splits))" "hd (push_splits [first] splits) = first"
    "set (push_splits [first] splits) = insert first (set splits)" "push_splits [first] splits \<noteq> []"
    "length (push_splits [first] splits) \<le> 1 + (n - 1)" by auto
qed

lemma split_chunk_None:
  "split_chunk budget data n m is_last = Inr None \<longleftrightarrow>
     find_next_block data 0 = None \<or>
     (\<not> is_last \<and> (\<forall>first splits. find_next_block data 0 = Some first \<longrightarrow> split_boundaries_parallel budget data n m = Inr splits \<longrightarrow>
        length (push_splits [first] splits) = 1))"
proof (cases "find_next_block data 0")
  case (Some first)
  obtain splits where sp: "split_boundaries_parallel budget data n m = Inr splits" using split_parallel_total by blast
  have ne: "push_splits [first] splits \<noteq> []" by (rule split_starts(4) [OF Some sp])
  then have one: "\<not> 1 < length (push_splits [first] splits) \<longleftrightarrow> length (push_splits [first] splits) = 1"
    by (cases "push_splits [first] splits") auto
  show ?thesis
    using Some sp one by (auto simp: split_chunk_def Let_def bindE_Inr_iff split: if_splits)
qed (simp add: split_chunk_def)

lemma segment_ranges_zip:
  assumes "segment_starts cs \<noteq> []"
  shows "decode_segments cs = length (segment_starts cs) \<Longrightarrow>
      segment_ranges data cs = zip (map bit_offset (segment_starts cs)) (map bit_offset (tl (segment_starts cs)) @ [8 * length data])"
    "decode_segments cs = length (segment_starts cs) - 1 \<Longrightarrow>
      segment_ranges data cs = zip (map bit_offset (segment_starts cs)) (map bit_offset (tl (segment_starts cs)))"
proof -
  let ?s = "segment_starts cs"
  show "segment_ranges data cs = zip (map bit_offset ?s) (map bit_offset (tl ?s) @ [8 * length data])" if "decode_segments cs = length ?s"
    using that assms by (intro nth_equalityI) (auto simp: segment_ranges_def segment_end_def nth_append nth_tl)
  show "segment_ranges data cs = zip (map bit_offset ?s) (map bit_offset (tl ?s))" if "decode_segments cs = length ?s - 1"
    using that assms by (intro nth_equalityI) (auto simp: segment_ranges_def segment_end_def nth_tl)
qed

subsection \<open>A chunk of a file\<close>

text \<open>
  The bytes from the start of a block to the end of the file: \<open>p\<close> bits before the block (the first header, or the tail of
  the byte the block starts in), the items, the end. The only block magics are those of the items.
\<close>

definition well_formed :: "nat \<Rightarrow> u8 list \<Rightarrow> nat \<Rightarrow> item list \<Rightarrow> bool" where
  "well_formed m data p its \<longleftrightarrow>
     p \<le> 8 * length data \<and> (\<exists>rest. drop p (stream_bits data) = items_bits p its @ rest \<and> file_end rest) \<and>
     (\<exists>b its'. its = Coded b # its') \<and> (\<forall>i\<in>set its. item_ok m i) \<and> (\<forall>q. magic_at data q \<longrightarrow> q \<in> set (coded_offsets p its))"

lemma stream_bits_take: "stream_bits (take k data) = take (8 * k) (stream_bits data)"
  and stream_bits_drop: "stream_bits (drop k data) = drop (8 * k) (stream_bits data)"
proof -
  have split: "stream_bits data = stream_bits (take k data) @ stream_bits (drop k data)"
    by (simp only: stream_bits_append [symmetric] append_take_drop_id)
  have "stream_bits (take k data) = take (8 * k) (stream_bits data) \<and> stream_bits (drop k data) = drop (8 * k) (stream_bits data)"
  proof (cases "k \<le> length data")
    case True
    then show ?thesis unfolding split by simp
  qed simp
  then show "stream_bits (take k data) = take (8 * k) (stream_bits data)" "stream_bits (drop k data) = drop (8 * k) (stream_bits data)"
    by simp_all
qed

lemma magic_at_take: "magic_at (take k data) q \<longleftrightarrow> magic_at data q \<and> q + 48 \<le> 8 * min (length data) k"
proof -
  have "take 48 (drop q (stream_bits (take k data))) = take 48 (drop q (stream_bits data))" if "q + 48 \<le> 8 * k"
    using that by (simp add: stream_bits_take drop_take min_def)
  then show ?thesis by (auto simp: magic_at_def)
qed

lemma magic_at_drop: "magic_at (drop k data) q \<Longrightarrow> magic_at data (8 * k + q)"
  by (auto simp: magic_at_def stream_bits_drop add.commute)

lemma first_block_found:
  assumes "well_formed m data p its" "find_next_block (take k data) 0 = Some first"
  shows "bit_offset first = p"
proof -
  from assms(1) obtain b its' where its: "its = Coded b # its'" by (auto simp: well_formed_def)
  note first = find_next_Some [OF assms(2)]
  have "magic_at data (bit_offset first)" using first(1) by (simp add: magic_at_take)
  then have ge: "p \<le> bit_offset first" using assms(1) coded_offsets_range [of "bit_offset first" p its] by (auto simp: well_formed_def)
  have "covered (take k data) 0 p"
  proof -
    have "2 * (p div 8 div 2) \<le> 2 * (bit_offset first div 8 div 2)" using ge by (intro mult_le_mono2 div_le_mono)
    with first(3) show ?thesis by (simp add: covered_def)
  qed
  moreover have "magic_at (take k data) p"
  proof -
    have "magic_at data p" using assms(1) its by (auto simp: well_formed_def intro!: magic_at_block)
    moreover have "p + 48 \<le> 8 * min (length data) k"
    proof -
      have "bit_offset first + 48 \<le> 8 * min (length data) k" using first(1) by (simp add: magic_at_take)
      with ge show ?thesis by linarith
    qed
    ultimately show ?thesis by (simp add: magic_at_take)
  qed
  ultimately show ?thesis using first(4) [of p] ge by force
qed

text \<open>The bits of items depend on their position only up to whole bytes.\<close>

lemma pad_length_shift: "pad_length (8 * k + p) = pad_length p"
  by (simp add: pad_length_def)

lemma item_bits_shift: "item_bits (8 * k + p) i = item_bits p i"
  using pad_length_shift [of k "p + 80"] by (cases i) (simp_all add: add.assoc)

lemma items_bits_shift: "items_bits (8 * k + p) its = items_bits p its"
proof (induction its arbitrary: p)
  case (Cons i its)
  from Cons.IH [of "p + length (item_bits p i)"] show ?case by (simp add: item_bits_shift add.assoc)
qed simp

lemma coded_offsets_shift: "coded_offsets (8 * k + p) its = map ((+) (8 * k)) (coded_offsets p its)"
proof (induction p its rule: coded_offsets.induct)
  case (3 p crc level its)
  then show ?case using item_bits_shift [of k p "Boundary crc level"] by (simp add: add.assoc)
qed (simp_all add: add.assoc)

lemma coded_offset_room: "q \<in> set (coded_offsets p its) \<Longrightarrow> q + 48 \<le> p + length (items_bits p its)"
proof (induction p its rule: coded_offsets.induct)
  case (3 p crc level its)
  then show ?case by fastforce
qed fastforce+

text \<open>The starts of a split of a chunk are offsets of coded blocks, the first one that of the first block.\<close>

lemma chunk_starts:
  assumes "well_formed m data p its" "split_chunk budget (take k data) n mb is_last = Inr (Some cs)"
  obtains ss where "map bit_offset (segment_starts cs) = p # ss" "sorted_wrt (<) (p # ss)" "set ss \<subseteq> set (coded_offsets p its)"
    "\<forall>x\<in>set ss. magic_at (take k data) x"
proof -
  from split_chunk_Some [OF assms(2)] obtain first splits where f: "find_next_block (take k data) 0 = Some first"
      "split_boundaries_parallel budget (take k data) n mb = Inr splits" "segment_starts cs = push_splits [first] splits" by metis
  note starts = split_starts [OF f(1,2), folded f(3)]
  have p: "bit_offset first = p" by (rule first_block_found [OF assms(1) f(1)])
  have ne: "map bit_offset (segment_starts cs) \<noteq> []" using starts(4) by simp
  have hd: "hd (map bit_offset (segment_starts cs)) = p" using starts(2,4) p by (simp add: hd_map)
  obtain ss where ss: "map bit_offset (segment_starts cs) = p # ss"
    using ne hd by (cases "map bit_offset (segment_starts cs)") simp_all
  moreover have "sorted_wrt (<) (p # ss)" using starts(1) unfolding ss .
  moreover have magics: "\<forall>x\<in>set ss. magic_at (take k data) x"
  proof
    fix x assume x: "x \<in> set ss"
    then have "x \<in> bit_offset ` set (segment_starts cs)" using ss by (metis set_map list.set_intros(2))
    moreover have "x \<noteq> p" using x \<open>sorted_wrt (<) (p # ss)\<close> by auto
    ultimately obtain b where "b \<in> set splits" "x = bit_offset b" using starts(3) p by auto
    then show "magic_at (take k data) x" using split_parallel_spec(3) [OF f(2)] by auto
  qed
  moreover have "set ss \<subseteq> set (coded_offsets p its)"
    using magics assms(1) by (auto simp: well_formed_def magic_at_take)
  ultimately show thesis by (intro that)
qed

text \<open>The last chunk: the segments give the data of all items.\<close>

lemma chunk_last:
  assumes "well_formed m data p its"
  obtains cs ds where "split_chunk budget data n m True = Inr (Some cs)" "consumed cs = length data"
    "mapE (\<lambda>(s, e). decode_segment data s e m) (segment_ranges data cs) = Inr ds" "concat ds = items_data its"
proof -
  from assms obtain b its' rest where its: "its = Coded b # its'" and ok: "\<forall>i\<in>set (Coded b # its'). item_ok m i"
    and bits: "drop p (stream_bits data) = items_bits p (Coded b # its') @ rest" and "file_end rest" and p: "p \<le> 8 * length data"
    by (auto simp: well_formed_def)
  have "8 * length data - p \<ge> 105"
    using arg_cong [OF bits, of length] length_block_bits [of b] by simp
  then have "p div 8 + 8 \<le> length data" by presburger
  then have cov: "covered data (0 div 8) p" by (rule covered_whole) simp
  have "magic_at data p" using bits p by (auto intro!: magic_at_block)
  then obtain first where f: "find_next_block data 0 = Some first"
    using find_next_None [OF _ _ cov] by (cases "find_next_block data 0") auto
  obtain splits where sp: "split_boundaries_parallel budget data n m = Inr splits" using split_parallel_total by blast
  note ne = split_starts(4) [OF f sp]
  obtain cs where cs: "split_chunk budget data n m True = Inr (Some cs)"
    using f sp by (simp add: split_chunk_def Let_def)
  then have cs': "split_chunk budget (take (length data) data) n m True = Inr (Some cs)" by simp
  have d: "decode_segments cs = length (segment_starts cs)" "consumed cs = length data" using split_shape(2,3) [OF cs] by simp_all
  obtain ss where ss: "map bit_offset (segment_starts cs) = p # ss" "sorted_wrt (<) (p # ss)" "set ss \<subseteq> set (coded_offsets p its)"
    by (rule chunk_starts [OF assms cs'])
  have "segment_starts cs \<noteq> []" using ss(1) by auto
  from segment_ranges_zip(1) [OF this d(1), of data]
  have ranges: "segment_ranges data cs = zip (p # ss) (ss @ [8 * length data])"
    unfolding map_tl ss(1) by simp
  obtain ds where "mapE (\<lambda>(s, e). decode_segment data s e m) (zip (p # ss) (ss @ [8 * length data])) = Inr ds" "concat ds = items_data its"
    using segments_all [OF bits p ok ss(2) ss(3) [unfolded its], of "8 * length data"] \<open>file_end rest\<close> its by auto
  with that [OF cs d(2)] ranges show thesis by simp
qed

text \<open>The bytes from the byte in which an item starts.\<close>

lemma well_formed_suffix:
  assumes "well_formed m data p (A @ Coded c # B)"
  shows "well_formed m (drop ((p + length (items_bits p A)) div 8) data) ((p + length (items_bits p A)) mod 8) (Coded c # B)"
proof -
  define q where qA: "q = p + length (items_bits p A)"
  from assms obtain rest where ok: "\<forall>i\<in>set (A @ Coded c # B). item_ok m i"
    and bits: "drop p (stream_bits data) = items_bits p (A @ Coded c # B) @ rest" and "file_end rest" and p: "p \<le> 8 * length data"
    and magics: "\<And>x. magic_at data x \<Longrightarrow> x \<in> set (coded_offsets p (A @ Coded c # B))"
    by (auto simp: well_formed_def)
  note at_q = items_bits_at [OF bits p, folded qA]
  let ?rest = "items_bits q (Coded c # B) @ rest"
  have q8: "8 * (q div 8) + q mod 8 = q" by simp
  have "drop (q mod 8) (stream_bits (drop (q div 8) data)) = ?rest" using at_q(1) by (simp add: stream_bits_drop add.commute)
  moreover have "?rest = items_bits (q mod 8) (Coded c # B) @ rest" using items_bits_shift [of "q div 8" "q mod 8" "Coded c # B"] by simp
  moreover have "x \<in> set (coded_offsets (q mod 8) (Coded c # B))" if x: "magic_at (drop (q div 8) data) x" for x
  proof -
    let ?x = "8 * (q div 8) + x"
    have "?x \<in> set (coded_offsets p A) \<or> ?x \<in> set (coded_offsets q (Coded c # B))"
      using magics [OF magic_at_drop [OF x]] unfolding coded_offsets_append qA [symmetric] set_append Un_iff .
    moreover have "q < ?x + 8" using q8 by simp
    then have "?x \<notin> set (coded_offsets p A)" using coded_offset_room [of ?x p A] qA by auto
    ultimately have "?x \<in> set (coded_offsets q (Coded c # B))" by simp
    then have "?x \<in> (+) (8 * (q div 8)) ` set (coded_offsets (q mod 8) (Coded c # B))"
      using coded_offsets_shift [of "q div 8" "q mod 8" "Coded c # B"] unfolding q8 by (simp only: set_map)
    then show ?thesis unfolding image_iff add_left_cancel by blast
  qed
  moreover have "q mod 8 \<le> 8 * length (drop (q div 8) data)"
    unfolding length_drop diff_mult_distrib2 using at_q(2) q8 by linarith
  ultimately have "well_formed m (drop (q div 8) data) (q mod 8) (Coded c # B)"
    using ok \<open>file_end rest\<close> unfolding well_formed_def by (cases c) auto
  then show ?thesis unfolding qA .
qed

text \<open>
  A chunk before the last: the segments give the data of the items before its last start, and the bytes that are carried over,
  with what follows the chunk in the file, are well-formed again.
\<close>

lemma chunk_step:
  assumes "well_formed m data p its" "split_chunk budget (take k data) n m False = Inr (Some cs)"
  obtains A its' ds where "its = A @ its'" "mapE (\<lambda>(s, e). decode_segment (take k data) s e m) (segment_ranges (take k data) cs) = Inr ds"
    "concat ds = items_data A" "consumed cs \<le> min k (length data)"
    "well_formed m (drop (consumed cs) data) ((p + length (items_bits p A)) mod 8) its'" "A \<noteq> []"
proof -
  have one: "1 < length (segment_starts cs)" using split_shape(1) [OF assms(2)] by simp
  have d: "decode_segments cs = length (segment_starts cs) - 1" using split_shape(2) [OF assms(2)] by simp
  obtain ss where ss: "map bit_offset (segment_starts cs) = p # ss" "sorted_wrt (<) (p # ss)" "set ss \<subseteq> set (coded_offsets p its)"
      "\<forall>x\<in>set ss. magic_at (take k data) x"
    by (rule chunk_starts [OF assms])
  have len: "length (segment_starts cs) = Suc (length ss)" using arg_cong [OF ss(1), of length] by simp
  with one have "ss \<noteq> []" by auto
  then obtain ts q where tq: "ss = ts @ [q]" by (cases ss rule: rev_cases) auto
  have ne: "segment_starts cs \<noteq> []" using one by auto
  have "bit_offset (last (segment_starts cs)) = last (p # ss)" unfolding ss(1) [symmetric] using ne by (simp add: last_map)
  then have last: "bit_offset (last (segment_starts cs)) = q" by (simp add: tq)
  then have used: "consumed cs = q div 8" using split_shape(3) [OF assms(2)] by (simp add: byte_offset_def)
  have "q \<in> set (coded_offsets p its)" using ss(3) tq by simp
  then obtain A c B where split: "its = A @ Coded c # B" and qA: "q = p + length (items_bits p A)" using coded_split by blast
  have "p < q" using ss(2) tq by (simp add: sorted_wrt_append)
  then have "A \<noteq> []" using qA by auto
  moreover from assms(1) obtain b its' rest where its: "its = Coded b # its'" and ok: "\<forall>i\<in>set its. item_ok m i"
    and bits: "drop p (stream_bits data) = items_bits p its @ rest" and "file_end rest" and p: "p \<le> 8 * length data"
    and magics: "\<And>x. magic_at data x \<Longrightarrow> x \<in> set (coded_offsets p its)"
    by (auto simp: well_formed_def)
  ultimately obtain A' where A: "A = Coded b # A'" using split its by (cases A) auto
  let ?chunk = "take k data" and ?rest = "items_bits q (Coded c # B) @ rest"
  have bitsq: "drop p (stream_bits data) = items_bits p (A @ Coded c # B) @ rest" using bits unfolding split .
  note at_q = items_bits_at [OF bitsq p, folded qA]
  have magic_q: "q + 48 \<le> 8 * min (length data) k" using ss(4) tq by (simp add: magic_at_take)
  have seg: "segment_ranges ?chunk cs = zip (p # ts) (ts @ [q])"
  proof -
    have "segment_ranges ?chunk cs = zip ((p # ts) @ [q]) ((ts @ [q]) @ [])"
      using segment_ranges_zip(2) [OF ne d, of ?chunk] unfolding map_tl ss(1) tq by simp
    also have "\<dots> = zip (p # ts) (ts @ [q]) @ zip [q] []" by (rule zip_append) simp
    finally show ?thesis by simp
  qed
  have decoded: "\<exists>ds. mapE (\<lambda>(s, e). decode_segment ?chunk s e m) (zip (p # ts) (ts @ [q])) = Inr ds \<and> concat ds = items_data (Coded b # A')"
  proof (rule segments_all)
    have "drop p (stream_bits ?chunk) = take (8 * k - p) (items_bits p A @ ?rest)"
      using bitsq by (simp add: stream_bits_take drop_take items_bits_append qA)
    also have "\<dots> = items_bits p A @ take (8 * k - q) ?rest" using magic_q qA by simp
    finally show "drop p (stream_bits ?chunk) = items_bits p (Coded b # A') @ take (8 * k - q) ?rest" unfolding A .
    show "p \<le> 8 * length ?chunk" using magic_q \<open>p < q\<close> by simp
    show "\<forall>i\<in>set (Coded b # A'). item_ok m i" using ok unfolding split A by simp
    show "sorted_wrt (<) (p # ts)" using ss(2) unfolding tq by (simp add: sorted_wrt_append)
    show "set ts \<subseteq> set (coded_offsets p (Coded b # A'))"
    proof
      fix x assume x: "x \<in> set ts"
      then have "x < q" using ss(2) unfolding tq by (simp add: sorted_wrt_append)
      moreover have "x \<in> set (coded_offsets p (A @ Coded c # B))" using x ss(3) unfolding tq split by auto
      ultimately show "x \<in> set (coded_offsets p (Coded b # A'))"
        using coded_offsets_range [of x q "Coded c # B"] unfolding coded_offsets_append A [symmetric] qA [symmetric] by auto
    qed
    show "q = p + length (items_bits p (Coded b # A')) \<or> file_end (take (8 * k - q) ?rest) \<and> q = 8 * length ?chunk"
      using qA unfolding A ..
  qed
  have wf: "well_formed m (drop (q div 8) data) (q mod 8) (Coded c # B)"
    using well_formed_suffix [OF assms(1) [unfolded split]] unfolding qA .
  from decoded obtain ds where "mapE (\<lambda>(s, e). decode_segment ?chunk s e m) (segment_ranges ?chunk cs) = Inr ds" "concat ds = items_data A"
    unfolding seg A by blast
  moreover have "consumed cs \<le> min k (length data)"
  proof -
    have "q \<le> 8 * min (length data) k" using magic_q by linarith
    from div_le_mono [OF this, of 8] show ?thesis by (simp add: used)
  qed
  ultimately show thesis using that [OF split] wf \<open>A \<noteq> []\<close> unfolding used qA by blast
qed

subsection \<open>Properties\<close>

text \<open>
  C37. Splitting a chunk: the starts are block magics in strictly increasing order, at least one and at most one per
  requested segment, the first of them the first block of the chunk; the ranges of the segments to decode follow each
  other without gap from the first start to the bits after the consumed bytes, or to the end of the last chunk; a chunk before
  the last keeps its last start undecoded, and there is no split exactly when no block is found
  or, before the last chunk, only one start.
\<close>

theorem split_chunk_spec:
  "(\<exists>cs. split_chunk budget data n m is_last = Inr (Some cs) \<and>
      sorted_wrt (<) (map bit_offset (segment_starts cs)) \<and> segment_starts cs \<noteq> [] \<and> length (segment_starts cs) \<le> max n 1 \<and>
      (\<forall>b\<in>set (segment_starts cs). magic_at data (bit_offset b)) \<and> find_next_block data 0 = Some (hd (segment_starts cs)) \<and>
      0 < decode_segments cs \<and> segment_ranges data cs = zip (map bit_offset (segment_starts cs))
        (map bit_offset (tl (segment_starts cs)) @ (if is_last then [8 * length data] else [])) \<and>
      consumed cs = (if is_last then length data else bit_offset (last (segment_starts cs)) div 8)) \<or>
   split_chunk budget data n m is_last = Inr None \<and>
     (find_next_block data 0 = None \<or> \<not> is_last \<and>
        (\<exists>first splits. find_next_block data 0 = Some first \<and> split_boundaries_parallel budget data n m = Inr splits \<and>
           push_splits [first] splits = [first]))"
proof (cases "find_next_block data 0")
  case None
  then show ?thesis by (simp add: split_chunk_def)
next
  case (Some first)
  obtain splits where sp: "split_boundaries_parallel budget data n m = Inr splits" using split_parallel_total by blast
  note starts = split_starts [OF Some sp]
  let ?s = "push_splits [first] splits"
  show ?thesis
  proof (cases "is_last \<or> 1 < length ?s")
    case False
    then have "length ?s = 1" using starts(4) by (cases ?s) auto
    then have "?s = [first]" using starts(2) by (cases ?s) auto
    then show ?thesis using False Some sp by (simp add: split_chunk_def Let_def)
  next
    case True
    then obtain cs where cs: "split_chunk budget data n m is_last = Inr (Some cs)" and s: "segment_starts cs = ?s"
      using Some sp starts(4) by (cases is_last) (auto simp: split_chunk_def Let_def)
    note shape = split_shape [OF cs]
    have ne: "segment_starts cs \<noteq> []" using starts(4) s by simp
    have "sorted_wrt (<) (map bit_offset (segment_starts cs))" using starts(1) s by simp
    moreover have "length (segment_starts cs) \<le> max n 1"
    proof -
      have "1 + (n - 1) = max n 1" by linarith
      then show ?thesis using starts(5) s by simp
    qed
    moreover have "\<forall>b\<in>set (segment_starts cs). magic_at data (bit_offset b)"
      using starts(3) s find_next_Some(1) [OF Some] split_parallel_spec(3) [OF sp] by auto
    moreover have "find_next_block data 0 = Some (hd (segment_starts cs))" using starts(2) s Some by simp
    moreover have "0 < decode_segments cs" using shape(1,2) ne by auto
    moreover have "segment_ranges data cs = zip (map bit_offset (segment_starts cs))
        (map bit_offset (tl (segment_starts cs)) @ (if is_last then [8 * length data] else []))"
      using segment_ranges_zip [OF ne, of data] shape(2) by (cases is_last) simp_all
    moreover have "consumed cs = (if is_last then length data else bit_offset (last (segment_starts cs)) div 8)"
      using shape(3) by (simp add: byte_offset_def)
    ultimately show ?thesis using cs ne by blast
  qed
qed

theorem split_chunk_spec_witness:
  "\<exists>cs. split_chunk 4 sample_cut 1 900000 True = Inr (Some cs) \<and> consumed cs = 12 \<and> segment_ranges sample_cut cs = [(32, 96)]"
proof -
  have found: "find_next_block sample_cut 0 \<noteq> None"
    using sample_cut_blocks by (cases "find_next_block sample_cut 0") (simp_all add: find_all_blocks_def find_all_from.simps)
  from split_chunk_spec [of 4 sample_cut 1 900000 True] found obtain cs where cs: "split_chunk 4 sample_cut 1 900000 True = Inr (Some cs)"
      "segment_starts cs \<noteq> []" "length (segment_starts cs) \<le> 1" "\<forall>b\<in>set (segment_starts cs). magic_at sample_cut (bit_offset b)"
      "segment_ranges sample_cut cs = zip (map bit_offset (segment_starts cs)) (map bit_offset (tl (segment_starts cs)) @ [8 * 12])"
      "consumed cs = 12" by auto
  from cs(2,3) obtain b where "segment_starts cs = [b]" by (cases "segment_starts cs") auto
  with cs show ?thesis by (simp add: sample_cut_magic)
qed

text \<open>
  C38. A file in one chunk, with any number of concatenated streams: the segments of the split, decoded on their own, give
  together the data of all its blocks, whatever the thread count and the number of segments asked for.
\<close>

theorem segments_decode_file:
  assumes "well_formed m data p its"
  shows "\<exists>cs ds. split_chunk budget data n m True = Inr (Some cs) \<and>
    mapE (\<lambda>(s, e). decode_segment data s e m) (segment_ranges data cs) = Inr ds \<and> concat ds = items_data its"
  by (rule chunk_last [OF assms, of budget n]) blast

lemma sample_items_ok: "\<forall>i\<in>set [Coded sample_block]. item_ok 900000 i"
proof -
  have "block_into_fits 900000 sample_block" using sample_fits by (simp add: block_into_fits_def block_fits_def sample_block_def)
  then show ?thesis by simp
qed

lemma sample_well_formed: "well_formed 900000 (header_bytes 9 @ sample_body) 32 [Coded sample_block]"
proof -
  have len: "length (stream_bits (header_bytes 9)) = 32" by (simp add: header_bytes_def)
  have "drop 32 (stream_bits (header_bytes 9 @ sample_body)) = items_bits 32 [Coded sample_block] @ magic_bits FINAL_MAGIC @ replicate 35 False"
    using len by (simp add: stream_bits_append sample_body_bits blocks_bits_def)
  moreover have "file_end (magic_bits FINAL_MAGIC @ replicate 35 False)" by (auto simp: file_end_def)
  moreover have "32 \<le> 8 * length (header_bytes 9 @ sample_body)" by (simp add: header_bytes_def)
  ultimately show ?thesis
    using sample_items_ok sample_magics(1) unfolding well_formed_def by (auto simp: sample_block_def)
qed

theorem segments_decode_file_witness:
  "\<exists>cs ds. split_chunk 4 (header_bytes 9 @ sample_body) 8 900000 True = Inr (Some cs) \<and>
    mapE (\<lambda>(s, e). decode_segment (header_bytes 9 @ sample_body) s e 900000) (segment_ranges (header_bytes 9 @ sample_body) cs) = Inr ds \<and>
    concat ds = [98, 97]"
  using segments_decode_file [OF sample_well_formed, of 4 8] by (simp add: sample_block_def block_data_def)

end
