(* ===== verification/Segment_Safety.thy ===== *)
theory Segment_Safety
  imports Chunk_Decode
begin

text \<open>
  The decoder of a segment on any bits: its result by the places of the blocks and stream boundaries it passes, and the damage it
  does not report.
\<close>

lemma magic_at_reader_room:
  assumes "reader_at data r" "bit_pos r + 48 \<le> 8 * length data"
  obtains v q where "\<And>v'. magic_is data (bit_pos r) v' \<longleftrightarrow> v' = v" "read_u64 48 r = Inr (Some v, q)" "reader_at data q"
    "bit_pos q = bit_pos r + 48" "length (bits_of q) < length (bits_of r)"
proof (cases rule: magic_at_reader [OF assms(1)])
  case 1
  with assms(2) show thesis by simp
next
  case (2 v q)
  from that [OF 2(2,4,5,6,7)] show thesis .
qed

subsection \<open>The header of a next stream, by its place\<close>

text \<open>The final magic at bit \<open>p\<close> is followed by a checksum, the padding to a byte, and a header that ends at bit \<open>q\<close>; its level is any byte.\<close>

definition next_header :: "u8 list \<Rightarrow> nat \<Rightarrow> nat \<Rightarrow> bool" where
  "next_header data p q \<longleftrightarrow>
     (let h = p + 80 + pad_length (p + 80)
      in h + 32 \<le> 8 * length data \<and> take 3 (drop (h div 8) data) = [0x42, 0x5A, 0x68] \<and> q = h + 32)"

lemma pad_length_dvd: "(p + pad_length p) mod 8 = 0"
proof -
  obtain k i where p: "p = 8 * k + i" "i < 8" by (rule that [of "p div 8" "p mod 8"]) simp_all
  show ?thesis
  proof (cases "i = 0")
    case True
    with p(1) show ?thesis by (simp add: pad_length_def)
  next
    case False
    with p have "p + pad_length p = 8 * (k + 1)" by (simp add: pad_length_def)
    then show ?thesis by (simp only: mod_mult_self1_is_0)
  qed
qed

lemma drop_stream_bits: "drop (8 * k) (stream_bits bs) = stream_bits (drop k bs)"
proof (cases "k \<le> length bs")
  case True
  have "stream_bits bs = stream_bits (take k bs) @ stream_bits (drop k bs)" by (simp flip: stream_bits_append)
  with True show ?thesis by simp
next
  case False
  then have "drop k bs = []" "drop (8 * k) (stream_bits bs) = []" by simp_all
  then show ?thesis by simp
qed

lemma four_bytes: "length xs = 4 \<Longrightarrow> \<exists>a b c d. xs = [a, b, c, d]"
  by (auto simp: numeral_eq_Suc length_Suc_conv)

lemma header_word:
  assumes "h mod 8 = 0" "h + 32 \<le> 8 * length data"
  shows "be_bytes32 (word_of_bits (take 32 (drop h (stream_bits data)))) = take 4 (drop (h div 8) data)"
proof -
  let ?d = "drop (h div 8) data"
  have "8 * (h div 8) = h" using assms(1) by presburger
  then have h: "drop h (stream_bits data) = stream_bits ?d" using drop_stream_bits [of "h div 8" data] by metis
  have "length (take 4 ?d) = 4" using assms by simp
  then obtain a b c d where four: "take 4 ?d = [a, b, c, d]" by (metis four_bytes)
  then obtain w where w: "?d = [a, b, c, d] @ w" by (metis append_take_drop_id)
  have "take 32 (stream_bits ?d) = stream_bits [a, b, c, d]" unfolding w stream_bits_append by simp
  then show ?thesis unfolding h four using be_bytes32_bits [of a b c d] by simp
qed

lemma next_stream_at:
  assumes "reader_at data r" "bit_pos r = p + 48"
  obtains r' where "next_stream r = Inr (True, r')" "reader_at data r'" "next_header data p (bit_pos r')" "length (bits_of r') < length (bits_of r)"
  | r' where "next_stream r = Inr (False, r')" "\<forall>q. \<not> next_header data p q"
proof (cases "32 \<le> length (bits_of r)")
  case False
  then obtain q where "read_bits 32 r = Inr (None, q)" using br.readn_short [OF assms(1), of 32] by auto
  then have "next_stream r = Inr (False, q)" by (simp add: next_stream_def bindR_def reading_simps read_u32_def read_uint_def)
  moreover have "8 * length data < p + 80" using False reader_at_pos [OF assms(1)] assms(2) by linarith
  then have "\<forall>q. \<not> next_header data p q" by (simp add: next_header_def Let_def)
  ultimately show thesis by (rule that(2))
next
  case True
  let ?h = "p + 80 + pad_length (p + 80)"
  obtain r1 where r1: "read_u32 32 r = Inr (Some (word_of_bits (take 32 (bits_of r))), r1)" "reader_at data r1" "bits_of r1 = drop 32 (bits_of r)"
    by (rule read_u32_enough [OF assms(1) _ _ True]) simp_all
  have p1: "bit_pos r1 = p + 80" using reader_at_moved [OF assms(1) r1(2,3) True] assms(2) by simp
  obtain r2 where r2: "skip_pad (bit_pos r1) r1 = Inr ((), r2)" "reader_at data r2" "bits_of r2 = drop (pad_length (bit_pos r1)) (bits_of r1)"
    by (rule skip_pad_at [OF r1(2)])
  have eq: "next_stream r = bindR (read_u32 32) (\<lambda>h. returnR (case h of None \<Rightarrow> False | Some h \<Rightarrow> take 3 (be_bytes32 h) = [0x42, 0x5A, 0x68])) r2"
    using r1(1) r2(1) position_at [OF r1(2)] by (simp add: next_stream_def bindR_def positionR_def reading_simps)
  show thesis
  proof (cases "32 \<le> length (bits_of r2)")
    case False
    then obtain q where "read_bits 32 r2 = Inr (None, q)" using br.readn_short [OF r2(2), of 32] by auto
    then have "next_stream r = Inr (False, q)" by (simp add: eq bindR_def reading_simps read_u32_def read_uint_def)
    moreover have "8 * length data < ?h + 32"
      using False p1 length_bits_of [of r1] r1(2) by (simp add: r2(3) reader_at_def)
    then have "\<forall>q. \<not> next_header data p q" by (simp add: next_header_def Let_def)
    ultimately show thesis by (rule that(2))
  next
    case enough: True
    obtain r3 where r3: "read_u32 32 r2 = Inr (Some (word_of_bits (take 32 (bits_of r2))), r3)" "reader_at data r3" "bits_of r3 = drop 32 (bits_of r2)"
      by (rule read_u32_enough [OF r2(2) _ _ enough]) simp_all
    have "pad_length (bit_pos r1) \<le> length (bits_of r1)" using enough unfolding r2(3) by simp
    from reader_at_moved [OF r1(2) r2(2,3) this] have p2: "bit_pos r2 = ?h" by (simp add: p1)
    have p3: "bit_pos r3 = ?h + 32" using reader_at_moved [OF r2(2) r3(2,3) enough] p2 by simp
    have bytes: "bytes r2 = data" using r2(2) by (simp add: reader_at_def)
    have "length (bits_of r2) = 8 * length data - ?h" using length_bits_of [of r2] bytes p2 by simp
    with enough have room: "?h + 32 \<le> 8 * length data" by linarith
    have b2: "bits_of r2 = drop ?h (stream_bits data)" by (simp add: bits_of_def p2 bytes)
    have "take 3 (be_bytes32 (word_of_bits (take 32 (bits_of r2)))) = take 3 (drop (?h div 8) data)"
      unfolding b2 header_word [OF pad_length_dvd room] by simp
    then have result: "next_stream r = Inr (take 3 (drop (?h div 8) data) = [0x42, 0x5A, 0x68], r3)"
      using r3(1) by (simp add: eq bindR_def reading_simps)
    have header: "next_header data p q \<longleftrightarrow> take 3 (drop (?h div 8) data) = [0x42, 0x5A, 0x68] \<and> q = bit_pos r3" for q
      using room by (auto simp: next_header_def Let_def p3)
    have "length (bits_of r3) < length (bits_of r)" using True by (simp add: r3(3) r2(3) r1(3))
    with result header r3(2) that show thesis by (cases "take 3 (drop (?h div 8) data) = [0x42, 0x5A, 0x68]") simp_all
  qed
qed

subsection \<open>A segment by the places of its blocks\<close>

text \<open>From bit \<open>p\<close> to bit \<open>q\<close> there are blocks that decode to \<open>outs\<close> and stream boundaries, all of which start before bit \<open>e\<close>.\<close>

inductive segment_at :: "nat \<Rightarrow> nat \<Rightarrow> u8 list \<Rightarrow> nat \<Rightarrow> nat \<Rightarrow> u8 list list \<Rightarrow> nat \<Rightarrow> bool" for m cap data e where
  stays: "segment_at m cap data e p [] p"
| passes_block: "p < e \<Longrightarrow> magic_is data p BLOCK_MAGIC \<Longrightarrow> at_bit (decode_block_into m cap) data (p + 48) = Inr (out, p') \<Longrightarrow>
    segment_at m cap data e p' outs q \<Longrightarrow> segment_at m cap data e p (out # outs) q"
| passes_boundary: "p < e \<Longrightarrow> magic_is data p FINAL_MAGIC \<Longrightarrow> next_header data p p' \<Longrightarrow>
    segment_at m cap data e p' outs q \<Longrightarrow> segment_at m cap data e p outs q"

text \<open>A block at bit \<open>p\<close> cannot be decoded: an error value is dropped and the output so far returned, a panic goes on.\<close>

definition block_stops :: "nat \<Rightarrow> nat \<Rightarrow> u8 list \<Rightarrow> nat \<Rightarrow> u8 list \<Rightarrow> u8 list result \<Rightarrow> bool" where
  "block_stops m cap data p out v \<longleftrightarrow>
     (\<exists>e. at_bit (decode_block_into m cap) data p = Inl e \<and> into_fails m cap data p e \<and>
        (case e of BlockError msg \<Rightarrow> v = Inr out | Panic msg \<Rightarrow> v = Inl e | Undefined msg \<Rightarrow> False))"

text \<open>What the result must be when \<open>out\<close> has been decoded up to bit \<open>p\<close>, where there is nothing more to pass.\<close>

definition segment_ends :: "nat \<Rightarrow> nat \<Rightarrow> u8 list \<Rightarrow> nat \<Rightarrow> nat \<Rightarrow> u8 list \<Rightarrow> u8 list result \<Rightarrow> bool" where
  "segment_ends m cap data e p out v \<longleftrightarrow>
     (8 * length data < p + 48 \<or> e \<le> p) \<and> v = Inr out \<or>
     p < e \<and> p + 48 \<le> 8 * length data \<and> \<not> magic_is data p BLOCK_MAGIC \<and> \<not> magic_is data p FINAL_MAGIC \<and> v = Inr out \<or>
     p < e \<and> magic_is data p FINAL_MAGIC \<and> (\<forall>q. \<not> next_header data p q) \<and> v = Inr out \<or>
     p < e \<and> magic_is data p BLOCK_MAGIC \<and> block_stops m cap data (p + 48) out v"

definition block_within :: "nat \<Rightarrow> nat \<Rightarrow> u8 list \<Rightarrow> bool" where
  "block_within m cap d \<longleftrightarrow> length d \<le> cap \<and> (\<exists>w. d = rle2_spec w \<and> length w \<le> m)"

lemma into_fails_kinds: "into_fails m cap data p e \<Longrightarrow> (\<exists>msg. e = BlockError msg) \<or> (\<exists>msg. e = Panic msg)"
  by (auto simp: into_fails_def table_panics_def)

lemma block_stops_data: "block_stops m cap data p out (Inr v) \<Longrightarrow> out = v"
  unfolding block_stops_def by (elim exE conjE, rename_tac e, case_tac e) simp_all

lemma segment_ends_data: "segment_ends m cap data e p out (Inr v) \<Longrightarrow> out = v"
  using block_stops_data by (auto simp: segment_ends_def)

text \<open>What the segment decoder makes of a block.\<close>

lemma into_vec_at:
  assumes "reader_at data r" "m \<le> 2 ^ 24"
  obtains v where "block_stops m cap data (bit_pos r) out v"
      "\<And>k. bindE (decode_block_into_vec out m cap r) (\<lambda>(out', next). case next of None \<Rightarrow> Inr out' | Some r2 \<Rightarrow> k out' r2) = v"
  | d r' where "decode_block_into_vec out m cap r = Inr (out @ d, Some r')" "at_bit (decode_block_into m cap) data (bit_pos r) = Inr (d, bit_pos r')"
      "block_within m cap d" "reader_at data r'" "length (bits_of r') \<le> length (bits_of r)"
proof (cases rule: into_at [OF assms, of cap])
  case (1 e)
  from into_fails_kinds [OF 1(3)] show thesis
  proof (elim disjE exE)
    fix msg assume e: "e = BlockError msg"
    with 1 have "block_stops m cap data (bit_pos r) out (Inr out)" by (simp add: block_stops_def)
    then show thesis by (rule that(1)) (use 1(1) e in \<open>simp add: decode_block_into_vec_def\<close>)
  next
    fix msg assume e: "e = Panic msg"
    with 1 have "block_stops m cap data (bit_pos r) out (Inl e)" by (simp add: block_stops_def)
    then show thesis by (rule that(1)) (use 1(1) e in \<open>simp add: decode_block_into_vec_def\<close>)
  qed
next
  case (2 w q)
  have "block_within m cap (rle2_spec w)" using 2(3,4) by (auto simp: block_within_def block_bytes_def)
  with 2 that(2) show thesis by (simp add: decode_block_into_vec_def)
qed

lemma segment_loop_places:
  assumes "reader_at data r" "m \<le> 2 ^ 24"
  shows "\<exists>outs q. segment_at m cap data e (bit_pos r) outs q \<and> segment_ends m cap data e q (out @ concat outs) (segment_loop data e m cap out r) \<and>
    (\<forall>d\<in>set outs. block_within m cap d)"
  using assms(1)
proof (induction "length (bits_of r)" arbitrary: out r rule: less_induct)
  case less
  let ?p = "bit_pos r"
  have here: ?case if "segment_ends m cap data e ?p out (segment_loop data e m cap out r)"
    using that by (intro exI [of _ "[]"] exI [of _ ?p]) (simp add: segment_at.stays)
  show ?case
  proof (cases "?p + 48 > 8 * length data \<or> ?p \<ge> e")
    case True
    then have "segment_loop data e m cap out r = Inr out" using position_at [OF less.prems] by (subst segment_loop.simps) auto
    with True show ?thesis by (intro here) (auto simp: segment_ends_def)
  next
    case False
    then have before: "?p < e" by simp
    then have room: "?p + 48 \<le> 8 * length data" using False by simp
    obtain v r1 where magic: "\<And>v'. magic_is data ?p v' \<longleftrightarrow> v' = v" and rd: "read_u64 48 r = Inr (Some v, r1)"
      and r1: "reader_at data r1" "bit_pos r1 = ?p + 48" "length (bits_of r1) < length (bits_of r)"
      by (rule magic_at_reader_room [OF less.prems room]) metis
    have eq: "segment_loop data e m cap out r =
        (if v = BLOCK_MAGIC
         then bindE (decode_block_into_vec out m cap r1) (\<lambda>(out', next).
              case next of None \<Rightarrow> Inr out' | Some r2 \<Rightarrow> segment_loop data e m cap out' r2)
         else if v = FINAL_MAGIC
         then bindE (next_stream r1) (\<lambda>(ok, r2). if ok then segment_loop data e m cap out r2 else Inr out)
         else Inr out)"
      using False position_at [OF less.prems] rd by (subst segment_loop.simps) simp
    consider "v = BLOCK_MAGIC" | "v = FINAL_MAGIC" | "v \<noteq> BLOCK_MAGIC" "v \<noteq> FINAL_MAGIC" by blast
    then show ?thesis
    proof cases
      case 1
      show ?thesis
      proof (cases rule: into_vec_at [OF r1(1) assms(2), of cap out])
        case (1 v')
        with \<open>v = BLOCK_MAGIC\<close> show ?thesis using before magic r1(2) by (intro here) (simp add: segment_ends_def eq)
      next
        case (2 d r2)
        have "length (bits_of r2) < length (bits_of r)" using 2(5) r1(3) by simp
        from less.hyps [OF this 2(4), of "out @ d"] obtain outs q where rest: "segment_at m cap data e (bit_pos r2) outs q"
          "segment_ends m cap data e q ((out @ d) @ concat outs) (segment_loop data e m cap (out @ d) r2)" "\<forall>d\<in>set outs. block_within m cap d" by blast
        have "segment_at m cap data e ?p (d # outs) q"
          using segment_at.passes_block [OF before _ _ rest(1)] magic 1 2(2) r1(2) by simp
        with rest(2,3) 2(1,3) 1 show ?thesis by (intro exI [of _ "d # outs"] exI [of _ q]) (simp add: eq)
      qed
    next
      case 2
      show ?thesis
      proof (cases rule: next_stream_at [OF r1(1,2)])
        case (1 r2)
        have "length (bits_of r2) < length (bits_of r)" using 1(4) r1(3) by simp
        from less.hyps [OF this 1(2), of out] obtain outs q where rest: "segment_at m cap data e (bit_pos r2) outs q"
          "segment_ends m cap data e q (out @ concat outs) (segment_loop data e m cap out r2)" "\<forall>d\<in>set outs. block_within m cap d" by blast
        have "segment_at m cap data e ?p outs q"
          using segment_at.passes_boundary [OF before _ 1(3) rest(1)] magic 2 by simp
        with rest(2,3) 1(1) 2 magics_differ show ?thesis by (intro exI [of _ outs] exI [of _ q]) (simp add: eq)
      next
        case (2 r2)
        with \<open>v = FINAL_MAGIC\<close> show ?thesis using before magic magics_differ by (intro here) (simp add: segment_ends_def eq)
      qed
    next
      case 3
      then show ?thesis using before room magic by (intro here) (auto simp: segment_ends_def eq)
    qed
  qed
qed

subsection \<open>Damage behind the blocks\<close>

lemma into_fits_le: "block_into_fits m c \<Longrightarrow> m \<le> 2 ^ 24"
  by (cases c) (simp add: block_into_fits_def encodable_def MAX_BLOCKSIZE_def)

lemma segment_hides:
  assumes "drop s (stream_bits data) = items_bits s (Coded c # its) @ rest" "s \<le> 8 * length data"
    and "\<forall>i\<in>set (Coded c # its). item_ok m i" "s + length (items_bits s (Coded c # its)) \<le> e"
    and "length rest < 48 \<or> word_of_bits (take 48 rest) \<notin> {BLOCK_MAGIC, FINAL_MAGIC} \<or>
      word_of_bits (take 48 rest) = BLOCK_MAGIC \<and>
        (\<exists>msg. at_bit (decode_block_into m (m + m div 4)) data (s + length (items_bits s (Coded c # its)) + 48) = Inl (BlockError msg))"
  shows "decode_segment data s e m = Inr (items_data (Coded c # its))"
proof -
  let ?p = "s + length (items_bits s (Coded c # its))"
  obtain r where r: "reader_at data r" "bits_of r = rest" "bit_pos r = ?p"
      "decode_segment data s e m = segment_loop data e m (m + m div 4) (items_data (Coded c # its)) r"
    by (rule decode_segment_run [OF assms(1-4)])
  have "block_into_fits m c" using assms(3) by simp
  then have m: "m \<le> 2 ^ 24" by (rule into_fits_le)
  have bytes: "bytes r = data" using r(1) by (simp add: reader_at_def)
  have place1: "drop ?p (stream_bits data) = rest" using r(2) unfolding bits_of_def bytes r(3) .
  have place2: "?p + length rest = 8 * length data" using reader_at_pos [OF r(1)] unfolding r(2,3) by simp
  note place = place1 place2
  note pos = position_at [OF r(1)]
  show ?thesis
  proof (cases "?p + 48 > 8 * length data \<or> ?p \<ge> e")
    case True
    then show ?thesis unfolding r(4) using pos r(3) by (subst segment_loop.simps) auto
  next
    case False
    then have room: "bit_pos r + 48 \<le> 8 * length data" using r(3) by simp
    obtain v q where q: "magic_is data ?p (word_of_bits (take 48 rest)) \<longleftrightarrow> word_of_bits (take 48 rest) = v"
        "read_u64 48 r = Inr (Some v, q)" "reader_at data q" "bit_pos q = ?p + 48"
      by (rule magic_at_reader_room [OF r(1) room]) (metis r(3))
    have v: "v = word_of_bits (take 48 rest)" using q(1) room r(3) by (simp only: magic_is_def place(1) simp_thms)
    show ?thesis
    proof (cases "v = BLOCK_MAGIC")
      case True
      then obtain msg where "at_bit (decode_block_into m (m + m div 4)) data (?p + 48) = Inl (BlockError msg)"
        using assms(5) False place(2) v by auto
      then have "decode_block_into m (m + m div 4) q = Inl (BlockError msg)"
        by (cases rule: into_at [OF q(3) m, of "m + m div 4"]) (auto simp: q(4))
      then show ?thesis unfolding r(4) using True False q(2) pos r(3)
        by (subst segment_loop.simps) (simp add: decode_block_into_vec_def)
    next
      case other: False
      then have "v \<noteq> FINAL_MAGIC" using assms(5) False place(2) v by auto
      with other show ?thesis unfolding r(4) using False q(2) pos r(3) by (subst segment_loop.simps) simp
    qed
  qed
qed

lemma length_items_bound:
  assumes "drop s (stream_bits data) = w @ rest" "s \<le> 8 * length data"
  shows "s + length w \<le> 8 * length data"
  using arg_cong [OF assms(1), of length] assms(2) by simp

subsection \<open>Properties\<close>

text \<open>
  C39. On any bits, with a start inside the slice, the decoder of a segment ends with the bytes of some blocks or with a panic, never
  with an error value, and its result is given by the places of the blocks. The first block is behind the start bit; when it cannot be
  decoded, its error value makes the result empty and its panic goes on. Otherwise blocks and stream boundaries that start before the end
  bit follow each other up to a bit where there is nothing more to pass: the end bit or the end of the data, no magic, a
  final magic without a further header, or a block that cannot be decoded. Then the result is the bytes of all blocks
  passed, in their order, each of at most \<open>max_blocksize\<close> bytes before its expansion and of at most the reserved
  capacity after it; unless that last block panics, which it does only on one of its own over-subscribed tables or when it expands beyond
  the capacity.
\<close>

theorem decode_segment_safe:
  assumes "start_bit + 48 \<le> 8 * length data" "m \<le> 2 ^ 24" "cap = m + m div 4"
  shows "block_stops m cap data (start_bit + 48) [] (decode_segment data start_bit e m) \<or>
    (\<exists>d p outs q. at_bit (decode_block_into m cap) data (start_bit + 48) = Inr (d, p) \<and> segment_at m cap data e p outs q \<and>
       segment_ends m cap data e q (concat (d # outs)) (decode_segment data start_bit e m) \<and> (\<forall>b\<in>set (d # outs). block_within m cap b))"
proof -
  obtain r where r: "from_bit_offset data (start_bit + 48) = Inr r" "reader_at data r" "bit_pos r = start_bit + 48"
    by (rule from_bit_offset_bits [of data "start_bit + 48"]) (use assms(1) in \<open>simp add: reader_at_def\<close>)
  have eq: "decode_segment data start_bit e m = bindE (decode_block_into_vec [] m cap r) (\<lambda>(out, next).
      case next of None \<Rightarrow> Inr out | Some r' \<Rightarrow> segment_loop data e m cap out r')"
    using r(1) by (simp add: decode_segment_def Let_def flip: assms(3))
  show ?thesis
  proof (cases rule: into_vec_at [OF r(2) assms(2), of cap "[]"])
    case (1 v)
    with r(3) show ?thesis by (simp add: eq)
  next
    case (2 d r')
    from segment_loop_places [OF 2(4) assms(2), of cap e d] obtain outs q where "segment_at m cap data e (bit_pos r') outs q"
      "segment_ends m cap data e q (d @ concat outs) (segment_loop data e m cap d r')" "\<forall>d\<in>set outs. block_within m cap d" by blast
    with 2(1-3) r(3) show ?thesis
      by (intro disjI2 exI [of _ d] exI [of _ "bit_pos r'"] exI [of _ outs] exI [of _ q]) (simp add: eq)
  qed
qed

lemma header_9_length: "32 \<le> 8 * length (header_bytes 9 @ w)"
  by (simp add: header_bytes_def)

lemma truncated_bits: "drop 32 (stream_bits (header_bytes 9 @ sample_truncated)) = items_bits 32 [Coded sample_block] @ replicate 3 False"
proof -
  have len: "length (stream_bits (header_bytes 9)) = 32" by (simp add: header_bytes_def)
  then show ?thesis by (simp add: stream_bits_append sample_truncated_bits blocks_bits_def)
qed

theorem decode_segment_safe_witness:
  "\<exists>d p outs q. at_bit (decode_block_into 900000 1125000) (header_bytes 9 @ sample_truncated) 80 = Inr (d, p) \<and>
     segment_at 900000 1125000 (header_bytes 9 @ sample_truncated) 1000 p outs q \<and> concat (d # outs) = [98, 97]"
proof -
  let ?data = "header_bytes 9 @ sample_truncated"
  have len: "length (items_bits 32 [Coded sample_block]) = 181" by (simp add: sample_block_bits magic_bits_def)
  have out: "decode_segment ?data 32 1000 900000 = Inr [98, 97]"
    using segment_hides [OF truncated_bits header_9_length sample_items_ok, of 1000] len by (simp add: sample_block_def block_data_def)
  have "(32 :: nat) + 48 \<le> 8 * length ?data" using length_items_bound [OF truncated_bits header_9_length] len by simp
  from decode_segment_safe [OF this, of 900000 1125000 1000]
  have "block_stops 900000 1125000 ?data 80 [] (Inr [98, 97]) \<or>
    (\<exists>d p outs q. at_bit (decode_block_into 900000 1125000) ?data 80 = Inr (d, p) \<and> segment_at 900000 1125000 ?data 1000 p outs q \<and>
       segment_ends 900000 1125000 ?data 1000 q (concat (d # outs)) (Inr [98, 97]))"
    unfolding out by auto
  moreover have "\<not> block_stops 900000 1125000 ?data 80 [] (Inr [98, 97])" by (auto simp: block_stops_def split: fault.splits)
  ultimately show ?thesis using segment_ends_data by metis
qed

text \<open>
  C40. Damage behind the blocks of a segment is not reported. When the items of a segment are followed by too few bits, by bits that are no
  magic, or by a block magic whose block decodes to an error value, whatever the error and wherever in the block it is found, for instance
  because the file is cut there, the decoder returns the data of the items as if the segment were complete.
\<close>

theorem decode_segment_hides_damage:
  assumes "drop s (stream_bits data) = items_bits s (Coded c # its) @ rest" "s \<le> 8 * length data"
    and "\<forall>i\<in>set (Coded c # its). item_ok m i" "s + length (items_bits s (Coded c # its)) \<le> e"
    and "length rest < 48 \<or> word_of_bits (take 48 rest) \<notin> {BLOCK_MAGIC, FINAL_MAGIC} \<or>
      word_of_bits (take 48 rest) = BLOCK_MAGIC \<and>
        (\<exists>msg. at_bit (decode_block_into m (m + m div 4)) data (s + length (items_bits s (Coded c # its)) + 48) = Inl (BlockError msg))"
  shows "decode_segment data s e m = Inr (items_data (Coded c # its))"
  by (rule segment_hides [OF assms])

text \<open>A file cut in the symbol bitmap of its second block.\<close>

definition damaged_bytes :: "u8 list" where
  "damaged_bytes =
     [49, 65, 89, 38, 83, 89, 0, 0, 0, 0, 0, 0, 0, 129, 0, 48, 0, 32, 0, 48, 128, 65, 89, 138, 10, 201, 50, 154, 200, 0, 0, 0, 0, 0, 0, 4, 8]"

lemma damaged_bits: "stream_bits damaged_bytes = magic_bits BLOCK_MAGIC @ sample_bits @ magic_bits BLOCK_MAGIC @ take 67 sample_bits"
  unfolding block_magic_bits by code_simp

lemma damaged_bitmap:
  "case from_bit_offset (header_bytes 9 @ damaged_bytes) 261 of Inl e \<Rightarrow> False
   | Inr r \<Rightarrow> (case bindR read_header (\<lambda>p. read_used_bytes) r of Inl (BlockError msg) \<Rightarrow> True | _ \<Rightarrow> False)"
  by code_simp

lemma damaged_error:
  obtains msg where "at_bit (decode_block_into m cap) (header_bytes 9 @ damaged_bytes) 261 = Inl (BlockError msg)"
proof -
  obtain r msg where r: "from_bit_offset (header_bytes 9 @ damaged_bytes) 261 = Inr r"
      "bindR read_header (\<lambda>p. read_used_bytes) r = Inl (BlockError msg)"
    using damaged_bitmap by (auto split: sum.split_asm fault.split_asm)
  then have "decode_block_common slot m r = Inl (BlockError msg)" for slot
    by (cases "read_header r") (auto simp: decode_block_common_def read_tables_def bindR_def)
  with r(1) have "at_bit (decode_block_into m cap) (header_bytes 9 @ damaged_bytes) 261 = Inl (BlockError msg)"
    by (simp add: at_bit_def decode_block_into_def decode_block_into_slot_def bindR_def)
  then show thesis by (rule that)
qed

theorem decode_segment_hides_damage_witness:
  "decode_segment (header_bytes 9 @ damaged_bytes) 32 312 900000 = Inr [98, 97]"
proof -
  have "length (stream_bits (header_bytes 9)) = 32" by (simp add: header_bytes_def)
  then have bits: "drop 32 (stream_bits (header_bytes 9 @ damaged_bytes)) = items_bits 32 [Coded sample_block] @ (magic_bits BLOCK_MAGIC @ take 67 sample_bits)"
    by (simp add: stream_bits_append damaged_bits sample_block_bits)
  have n: "32 + length (items_bits 32 [Coded sample_block]) = 213" by (simp add: sample_block_bits magic_bits_def)
  then have e: "32 + length (items_bits 32 [Coded sample_block]) \<le> 312" by simp
  obtain msg where error: "at_bit (decode_block_into 900000 1125000) (header_bytes 9 @ damaged_bytes) 261 = Inl (BlockError msg)"
    by (rule damaged_error)
  have magic: "word_of_bits (take 48 (magic_bits BLOCK_MAGIC @ take 67 sample_bits)) = BLOCK_MAGIC"
    using word_of_nat_bits [of "unat BLOCK_MAGIC" 48, where 'a = 64] by (simp add: magic_bits_def BLOCK_MAGIC_def)
  from error have "at_bit (decode_block_into 900000 (900000 + 900000 div 4)) (header_bytes 9 @ damaged_bytes)
      (32 + length (items_bits 32 [Coded sample_block]) + 48) = Inl (BlockError msg)" unfolding n by simp
  with magic have "decode_segment (header_bytes 9 @ damaged_bytes) 32 312 900000 = Inr (items_data [Coded sample_block])"
    by (intro decode_segment_hides_damage [OF bits header_9_length sample_items_ok e] disjI2) blast
  then show ?thesis by (simp add: sample_block_def block_data_def)
qed

end
