(* ===== verification/File_Items.thy ===== *)
theory File_Items
  imports Chunk_Decode
begin

text \<open>
  The items of a well-formed file, seen from the scanner: which blocks a chunk of the file shows, where they lie, how far
  apart they are, and which of them the split points of a chunk are.
\<close>

subsection \<open>The blocks found in a chunk\<close>

lemma covered_mono: "covered data a q' \<Longrightarrow> a \<le> q div 8 \<Longrightarrow> q \<le> q' \<Longrightarrow> covered data a q"
proof -
  assume "covered data a q'" "a \<le> q div 8" "q \<le> q'"
  moreover from this have "2 * ((q div 8 - a) div 2) \<le> 2 * ((q' div 8 - a) div 2)" by (intro mult_le_mono2 div_le_mono diff_le_mono)
  ultimately show ?thesis by (simp add: covered_def)
qed

text \<open>The scan finds the magics in order up to some point, which is past all those with a whole window.\<close>

lemma find_all_prefix:
  assumes "\<And>q. p \<le> q \<Longrightarrow> magic_at data q \<longleftrightarrow> q \<in> set offs \<and> q + 48 \<le> 8 * length data"
    and "sorted_wrt (\<lambda>a b. a + 48 \<le> b) offs" "\<forall>q\<in>set offs. p \<le> q"
  obtains j where "j \<le> length offs" "find_all_from data p = boundaries_at (take j offs)"
    "\<And>i. i < length offs \<Longrightarrow> offs ! i div 8 + 8 \<le> length data \<Longrightarrow> i < j"
  using assms
proof (induction offs arbitrary: p thesis)
  case Nil
  have "find_next_block data p = None"
    using Nil(2) find_next_Some [of data p] by (cases "find_next_block data p") auto
  then show ?case by (intro Nil(1) [of 0]) (simp_all add: find_all_from.simps boundaries_at_def)
next
  case (Cons q offs)
  show ?case
  proof (cases "find_next_block data p")
    case None
    have "\<not> (q' \<in> set (q # offs) \<and> q' div 8 + 8 \<le> length data)" for q'
    proof
      assume q': "q' \<in> set (q # offs) \<and> q' div 8 + 8 \<le> length data"
      then have "p \<le> q'" using Cons.prems(4) by auto
      moreover have "q' div 8 + 8 \<le> length data" using q' ..
      then have "q' + 48 \<le> 8 * length data" by presburger
      ultimately show False using Cons.prems(2) [of q'] find_next_None [OF None, of q'] covered_whole [of q' data p] q' by blast
    qed
    then have none: "\<not> (q # offs) ! i div 8 + 8 \<le> length data" if "i < length (q # offs)" for i
      using nth_mem [OF that] by blast
    have "find_all_from data p = boundaries_at (take 0 (q # offs))"
      by (subst find_all_from.simps) (simp add: None boundaries_at_def)
    then show ?thesis using none by (intro Cons.prems(1) [of 0]) blast+
  next
    case (Some b)
    note b = find_next_Some [OF Some]
    have mem: "bit_offset b \<in> set (q # offs)" "bit_offset b + 48 \<le> 8 * length data" using b(1,2) Cons.prems(2) by blast+
    then have le: "q \<le> bit_offset b" using Cons.prems(3) by auto
    have pq: "p \<le> q" using Cons.prems(4) by simp
    have "magic_at data q" using Cons.prems(2) [OF pq] mem(2) le by simp
    moreover have "covered data (p div 8) q" by (rule covered_mono [OF b(3) _ le]) (use pq in \<open>simp add: div_le_mono\<close>)
    ultimately have eq: "bit_offset b = q" using b(4) [OF pq] le by force
    then have bq: "b = \<lparr>bit_offset = q\<rparr>" by (intro block_boundary.equality) simp_all
    have "\<forall>q'\<in>set offs. q + 48 \<le> q'" "sorted_wrt (\<lambda>a b. a + 48 \<le> b) offs" using Cons.prems(3) by auto
    moreover have "magic_at data q' \<longleftrightarrow> q' \<in> set offs \<and> q' + 48 \<le> 8 * length data" if "q + 48 \<le> q'" for q'
      using Cons.prems(2) [of q'] pq that by auto
    ultimately obtain j where j: "j \<le> length offs" "find_all_from data (q + 48) = boundaries_at (take j offs)"
        "\<And>i. i < length offs \<Longrightarrow> offs ! i div 8 + 8 \<le> length data \<Longrightarrow> i < j"
      using Cons.IH [of "q + 48"] by blast
    have "find_all_from data p = boundaries_at (take (Suc j) (q # offs))"
      using Some eq j(2) by (subst find_all_from.simps) (simp add: boundaries_at_def bq)
    moreover have "i < Suc j" if "i < length (q # offs)" "(q # offs) ! i div 8 + 8 \<le> length data" for i
      using that j(3) by (cases i) auto
    ultimately show ?thesis using j(1) by (intro Cons.prems(1) [of "Suc j"]) auto
  qed
qed

lemma found_magic: "b \<in> set (find_all_blocks data) \<Longrightarrow> magic_at data (bit_offset b)"
  using find_all_from_spec [of data 0] by (auto simp: find_all_blocks_def)

subsection \<open>The blocks of the items\<close>

fun blocks_of :: "item list \<Rightarrow> coded_block list" where
  "blocks_of [] = []"
| "blocks_of (Coded b # is) = b # blocks_of is"
| "blocks_of (Boundary crc level # is) = blocks_of is"

lemma items_data_blocks: "items_data its = concat (map block_data (blocks_of its))"
  by (induction its rule: blocks_of.induct) simp_all

lemma blocks_of_append [simp]: "blocks_of (xs @ ys) = blocks_of xs @ blocks_of ys"
  by (induction xs rule: blocks_of.induct) simp_all

lemma in_blocks_of: "b \<in> set (blocks_of its) \<longleftrightarrow> Coded b \<in> set its"
  by (induction its rule: blocks_of.induct) auto

lemma length_coded_offsets [simp]: "length (coded_offsets p its) = length (blocks_of its)"
  by (induction p its rule: coded_offsets.induct) simp_all

lemma coded_nth:
  "i < length (blocks_of its) \<Longrightarrow> \<exists>A c B. its = A @ Coded c # B \<and> coded_offsets p its ! i = p + length (items_bits p A) \<and>
     length (blocks_of A) = i \<and> blocks_of its ! i = c"
proof (induction p its arbitrary: i rule: coded_offsets.induct)
  case (2 p b its)
  show ?case
  proof (cases i)
    case 0
    then show ?thesis by (intro exI [of _ "[]"] exI [of _ b] exI [of _ its]) simp
  next
    case (Suc k)
    then have "k < length (blocks_of its)" using 2(2) by simp
    from 2(1) [OF this] obtain A c B where "its = A @ Coded c # B" "length (blocks_of A) = k" "blocks_of its ! k = c"
      "coded_offsets (p + length (item_bits p (Coded b))) its ! k =
         p + length (item_bits p (Coded b)) + length (items_bits (p + length (item_bits p (Coded b))) A)" by blast
    with Suc show ?thesis by (intro exI [of _ "Coded b # A"] exI [of _ c] exI [of _ B]) simp
  qed
next
  case (3 p crc level its)
  have "i < length (blocks_of its)" using 3(2) by simp
  from 3(1) [OF this] obtain A c B where "its = A @ Coded c # B" "length (blocks_of A) = i" "blocks_of its ! i = c"
      "coded_offsets (p + length (item_bits p (Boundary crc level))) its ! i =
         p + length (item_bits p (Boundary crc level)) + length (items_bits (p + length (item_bits p (Boundary crc level))) A)" by blast
  then show ?case by (intro exI [of _ "Boundary crc level # A"] exI [of _ c] exI [of _ B]) simp
qed simp

lemma coded_offsets_sorted: "sorted_wrt (\<lambda>a b. a + 48 \<le> b) (coded_offsets p its)"
proof (induction p its rule: coded_offsets.induct)
  case (2 p b its)
  have "p + 48 \<le> q" if "q \<in> set (coded_offsets (p + length (item_bits p (Coded b))) its)" for q
    using coded_offsets_range [OF that] length_item_bits [of p "Coded b"] by linarith
  with 2 show ?case by simp
qed simp_all

lemma blocks_in_range:
  assumes "Suc i < length (blocks_of its)"
  shows "coded_offsets p its ! i + 48 + length (block_bits (blocks_of its ! i)) \<le> coded_offsets p its ! Suc i"
  using assms
proof (induction p its arbitrary: i rule: coded_offsets.induct)
  case (2 p b its)
  show ?case
  proof (cases i)
    case 0
    have "coded_offsets (p + length (item_bits p (Coded b))) its ! 0 \<in> set (coded_offsets (p + length (item_bits p (Coded b))) its)"
      using 2(2) 0 by (intro nth_mem) simp
    with 0 show ?thesis using coded_offsets_range by fastforce
  qed (use 2 in simp)
qed simp_all

text \<open>Every block of a well-formed file lies within it.\<close>

lemma item_room:
  assumes "well_formed m data p its" "i < length (blocks_of its)"
  shows "coded_offsets p its ! i + 48 + length (block_bits (blocks_of its ! i)) \<le> 8 * length data"
proof -
  from coded_nth [OF assms(2), of p] obtain A B where A: "its = A @ Coded (blocks_of its ! i) # B"
      "coded_offsets p its ! i = p + length (items_bits p A)" by auto
  let ?q = "coded_offsets p its ! i"
  from assms(1) obtain rest where "drop p (stream_bits data) = items_bits p (A @ Coded (blocks_of its ! i) # B) @ rest" "p \<le> 8 * length data"
    using A(1) by (auto simp: well_formed_def)
  note at = items_bits_at [OF this, folded A(2)]
  have "8 * length data - ?q = length (drop ?q (stream_bits data))" by simp
  also have "\<dots> \<ge> 48 + length (block_bits (blocks_of its ! i))" unfolding at(1) by simp
  finally show ?thesis using at(2) by linarith
qed

lemma item_window:
  assumes "well_formed m data p its" "i < length (blocks_of its)"
  shows "coded_offsets p its ! i div 8 + 8 \<le> length data"
proof -
  have "coded_offsets p its ! i + 8 * 8 \<le> 8 * length data"
    using item_room [OF assms] length_block_bits [of "blocks_of its ! i"] by linarith
  from div_le_mono [OF this, of 8] show ?thesis by simp
qed

subsection \<open>The distance between blocks\<close>

fun leading_boundaries :: "item list \<Rightarrow> item list" where
  "leading_boundaries (Boundary crc level # is) = Boundary crc level # leading_boundaries is"
| "leading_boundaries is = []"

text \<open>From the start of a block to the start of the next one, or to the end of the items, are at most \<open>gap\<close> bits.\<close>

definition spaced_by :: "nat \<Rightarrow> item list \<Rightarrow> bool" where
  "spaced_by gap its \<longleftrightarrow> (\<forall>A c B. its = A @ Coded c # B \<longrightarrow>
     48 + length (block_bits c) + 119 * length (leading_boundaries B) \<le> gap)"

lemma spaced_by_suffix: "spaced_by gap (A @ its) \<Longrightarrow> spaced_by gap its"
  unfolding spaced_by_def by (metis append.assoc)

lemma spaced_byD: "spaced_by gap (Coded c # B) \<Longrightarrow> 48 + length (block_bits c) + 119 * length (leading_boundaries B) \<le> gap"
  unfolding spaced_by_def by blast

lemma boundary_length: "length (item_bits p (Boundary crc level)) \<le> 119"
proof -
  have "pad_length (p + 80) \<le> 7" unfolding pad_length_def using mod_less_divisor [of 8 "8 - (p + 80) mod 8"] by simp
  then show ?thesis by (simp add: header_bytes_def)
qed

text \<open>The next block, or the end, follows the leading boundaries.\<close>

lemma after_boundaries:
  assumes "blocks_of B \<noteq> []"
  shows "coded_offsets p B ! 0 \<le> p + 119 * length (leading_boundaries B)"
  using assms
proof (induction p B rule: coded_offsets.induct)
  case (3 p crc level its)
  then show ?case using boundary_length [of p crc level] by simp
qed simp_all

lemma only_boundaries:
  assumes "blocks_of B = []"
  shows "length (items_bits p B) \<le> 119 * length (leading_boundaries B)"
  using assms
proof (induction p B rule: coded_offsets.induct)
  case (3 p crc level its)
  then show ?case using boundary_length [of p crc level] by simp
qed simp_all

text \<open>A block starts within a gap of any position that is not too close to the end.\<close>

lemma next_offset:
  assumes "spaced_by gap its" "s \<le> x" "p + 119 * length (leading_boundaries its) \<le> s + gap"
    and "x + gap < p + length (items_bits p its)"
  shows "\<exists>q\<in>set (coded_offsets p its). x \<le> q \<and> q \<le> x + gap"
  using assms
proof (induction p its arbitrary: s rule: coded_offsets.induct)
  case (2 p b its)
  let ?p = "p + length (item_bits p (Coded b))"
  show ?case
  proof (cases "x \<le> p")
    case True
    then show ?thesis using "2.prems"(2,3) by auto
  next
    case False
    have "spaced_by gap its" using spaced_by_suffix [of gap "[Coded b]" its] "2.prems"(1) by simp
    moreover have "?p + 119 * length (leading_boundaries its) \<le> p + gap" using spaced_byD [OF "2.prems"(1)] by simp
    ultimately have "\<exists>q\<in>set (coded_offsets ?p its). x \<le> q \<and> q \<le> x + gap"
      using "2.IH" [of p] False "2.prems"(4) by (simp add: add.assoc)
    then show ?thesis by auto
  qed
next
  case (3 p crc level its)
  let ?p = "p + length (item_bits p (Boundary crc level))"
  have "spaced_by gap its" using spaced_by_suffix [of gap "[Boundary crc level]" its] "3.prems"(1) by simp
  moreover have "?p + 119 * length (leading_boundaries its) \<le> s + gap"
    using "3.prems"(3) boundary_length [of p crc level] by simp
  moreover have "x + gap < ?p + length (items_bits ?p its)" using "3.prems"(4) by (simp add: add.assoc)
  ultimately show ?case using "3.IH" [of s] "3.prems"(2) by simp
qed simp

subsection \<open>Where the split points of a chunk are\<close>

lemma plausible_take: "q + 121 \<le> 8 * k \<Longrightarrow> header_plausible data q m \<Longrightarrow> header_plausible (take k data) q m"
  unfolding header_plausible_def stream_bits_take drop_take Let_def by (auto simp: min_def)

lemma plausible_item:
  assumes "well_formed m data p its" "q \<in> set (coded_offsets p its)"
  shows "header_plausible data q m"
proof -
  from coded_split [OF assms(2)] obtain A c B where A: "its = A @ Coded c # B" "q = p + length (items_bits p A)" by blast
  from assms(1) obtain rest where bits: "drop p (stream_bits data) = items_bits p (A @ Coded c # B) @ rest" "p \<le> 8 * length data"
      and fit: "block_into_fits m c"
    using A(1) by (auto simp: well_formed_def)
  note at = items_bits_at [OF bits, folded A(2)]
  have "8 * length data - q = length (items_bits q (Coded c # B) @ rest)" using arg_cong [OF at(1), of length] by simp
  then have room: "q + 48 \<le> 8 * length data" using at(2) by simp
  then obtain r where r: "from_bit_offset data (q + 48) = Inr r" "reader_at data r" "bits_of r = drop (q + 48) (stream_bits data)"
    by (rule reader_from)
  have "bits_of r = drop 48 (drop q (stream_bits data))" by (simp add: r(3) add.commute)
  then have br: "bits_of r = block_bits c @ (items_bits (q + (48 + length (block_bits c))) B @ rest)" unfolding at(1) by simp
  note reads = reads_block_into [OF fit]
  obtain r' where "decode_block_into m (m + m div 4) r = Inr (block_data c, r')"
    using r(2) br by (rule parsesD [OF reads])
  then obtain slot v r1 where "decode_block_common slot m r = Inr (v, r1)"
    by (auto simp: decode_block_into_def decode_block_into_slot_def bindR_def bindE_Inr_iff)
  moreover have "m \<le> 2 ^ 24" using fit by (cases c) (simp add: block_into_fits_def encodable_def MAX_BLOCKSIZE_def)
  ultimately show ?thesis by (rule decoded_plausible [OF room r(1)])
qed

lemma plausible_after:
  assumes "well_formed m data p its" "spaced_by gap its" "p \<le> x" "x + gap + 121 \<le> 8 * min k (length data)"
  shows "\<exists>q. x \<le> q \<and> q \<le> x + gap \<and> magic_at (take k data) q \<and> header_plausible (take k data) q m"
proof -
  from assms(1) obtain b its' rest where its: "its = Coded b # its'" and bits: "drop p (stream_bits data) = items_bits p its @ rest"
      and "file_end rest" and p: "p \<le> 8 * length data"
    by (auto simp: well_formed_def)
  have "8 * length data - p = length (items_bits p its) + length rest" using arg_cong [OF bits, of length] by simp
  moreover have "length rest < 112" using \<open>file_end rest\<close> by (auto simp: file_end_def)
  ultimately have "x + gap < p + length (items_bits p its)" using assms(4) p by linarith
  then obtain q where q: "q \<in> set (coded_offsets p its)" "x \<le> q" "q \<le> x + gap"
    using next_offset [OF assms(2,3), of p] its by auto
  from coded_split [OF q(1)] obtain A c B where A: "its = A @ Coded c # B" "q = p + length (items_bits p A)" by blast
  have "magic_at data q"
    using items_bits_at [OF bits [unfolded A(1)] p, folded A(2)] by (intro magic_at_block) simp_all
  then have "magic_at (take k data) q" using q(3) assms(4) by (simp add: magic_at_take)
  moreover have "header_plausible (take k data) q m"
    using plausible_take plausible_item [OF assms(1) q(1)] q(3) assms(4) by simp
  ultimately show ?thesis using q(2,3) by blast
qed

lemma split_point_exists:
  assumes "magic_at data q" "header_plausible data q m" "8 * length data * i div n \<le> q"
  obtains b where "split_point data n m i b" "bit_offset b \<le> q"
proof -
  let ?P = "\<lambda>p. magic_at data p \<and> 8 * length data * i div n \<le> p \<and> header_plausible data p m"
  have P: "?P q" using assms by simp
  define l where "l = (LEAST p. ?P p)"
  have l: "?P l" unfolding l_def by (rule LeastI [of ?P, OF P])
  have least: "\<not> ?P p" if "p < l" for p using that unfolding l_def by (rule not_less_Least)
  have "split_point data n m i \<lparr>bit_offset = l\<rparr>" using l least by (auto simp: split_point_def first_in_def)
  moreover have "l \<le> q" unfolding l_def by (rule Least_le [of ?P, OF P])
  ultimately show thesis by (intro that [of "\<lparr>bit_offset = l\<rparr>"]) simp_all
qed

lemma div_parts: "x * (n - 1) div n + x div n \<le> x" "0 < n \<Longrightarrow> x \<le> x * (n - 1) div n + x div n + 1" for x n :: nat
proof -
  show "x * (n - 1) div n + x div n \<le> x"
  proof (cases n)
    case (Suc k)
    have "n * (x * (n - 1) div n) \<le> x * (n - 1)" "n * (x div n) \<le> x" by simp_all
    moreover have "n * x = x * (n - 1) + x" using Suc by (simp add: algebra_simps)
    ultimately have le: "n * (x * (n - 1) div n + x div n) \<le> n * x" by (simp only: distrib_left add_mono)
    show ?thesis by (rule mult_left_le_imp_le [OF le]) (simp add: Suc)
  qed simp
  assume n: "0 < n"
  have "x * (n - 1) < n * (x * (n - 1) div n) + n" "x < n * (x div n) + n"
    using n mult_div_mod_eq [of n "x * (n - 1)"] mult_div_mod_eq [of n x] mod_less_divisor [OF n] by (metis add_less_cancel_left)+
  then have "x * (n - 1) + x < n * (x * (n - 1) div n) + n * (x div n) + (n + n)" by linarith
  moreover have "x * (n - 1) + x = n * x" using n by (cases n) (simp_all add: algebra_simps)
  moreover have "n * (x * (n - 1) div n) + n * (x div n) + (n + n) = n * (x * (n - 1) div n + x div n + 2)"
    by (simp only: distrib_left)
  ultimately have "n * x < n * (x * (n - 1) div n + x div n + 2)" by simp
  then have "x < x * (n - 1) div n + x div n + 2" by (simp only: nat_mult_less_cancel1 [OF n])
  then show "x \<le> x * (n - 1) div n + x div n + 1" by simp
qed

text \<open>
  A chunk in the middle of a file, with room for a block after the last nominal point: the chunk splits, and what is carried over is the
  last of its \<open>n\<close> parts, up to one block.
\<close>

lemma chunk_carry:
  assumes "well_formed m data p its" "spaced_by gap its" "p \<le> 32" "k \<le> length data" "2 \<le> n" "n * (gap + 200) \<le> 8 * k"
  obtains cs where "split_chunk budget (take k data) n m False = Inr (Some cs)" "consumed cs \<le> k"
    "k - consumed cs \<le> k div n + 1" "k div n \<le> k - consumed cs + gap div 8 + 1"
proof -
  let ?chunk = "take k data" and ?N = "\<lambda>i. 8 * k * i div n"
  have len: "length ?chunk = k" using assms(4) by simp
  have n: "0 < n" "1 < n" using assms(5) by simp_all
  have part: "gap + 200 \<le> 8 * k div n"
    using div_le_mono [OF assms(6), of n] n by simp
  have last_le: "?N (n - 1) + 8 * k div n \<le> 8 * k" by (rule div_parts(1))
  have last_ge: "8 * k \<le> ?N (n - 1) + 8 * k div n + 1" by (rule div_parts(2) [OF n(1)])
  have N_ge: "8 * k div n \<le> ?N i" if "0 < i" for i
  proof -
    have "8 * k * 1 \<le> 8 * k * i" using that by (intro mult_le_mono2) simp
    then show ?thesis using div_le_mono [of "8 * k" "8 * k * i" n] by simp
  qed
  have N_le: "?N i \<le> ?N (n - 1)" if "i < n" for i using that by (intro div_le_mono mult_le_mono2) simp
  have near: "\<exists>q. ?N i \<le> q \<and> q \<le> ?N i + gap \<and> magic_at ?chunk q \<and> header_plausible ?chunk q m" if i: "0 < i" "i < n" for i
  proof (rule plausible_after [OF assms(1,2)])
    show "p \<le> ?N i" using N_ge [OF i(1)] part assms(3) by linarith
    show "?N i + gap + 121 \<le> 8 * min k (length data)" using N_le [OF i(2)] last_le part assms(4) by simp
  qed
  obtain splits where sp: "split_boundaries_parallel budget ?chunk n m = Inr splits" using split_parallel_total by blast
  have ne: "?chunk \<noteq> []" using len part by (cases "k = 0") auto
  note set_sp = split_parallel_set [OF sp n(2) ne]
  have upper: "bit_offset b \<le> ?N (n - 1) + gap" if in_splits: "b \<in> set splits" for b
  proof -
    obtain i where i: "0 < i" "i < n" "split_point ?chunk n m i b" using in_splits set_sp(1) by auto
    obtain q where q: "?N i \<le> q" "q \<le> ?N i + gap" "magic_at ?chunk q" "header_plausible ?chunk q m" using near [OF i(1,2)] by blast
    have "\<not> q < bit_offset b" using i(3) q len by (auto simp: split_point_def first_in_def)
    then show ?thesis using q(2) N_le [OF i(2)] by linarith
  qed
  have i: "0 < n - 1" "n - 1 < n" using n by simp_all
  obtain q where q: "?N (n - 1) \<le> q" "magic_at ?chunk q" "header_plausible ?chunk q m" using near [OF i] by blast
  have "8 * length ?chunk * (n - 1) div n \<le> q" using q(1) len by simp
  from split_point_exists [OF q(2,3) this] obtain b where b: "split_point ?chunk n m (n - 1) b" by blast
  then have b_in: "b \<in> set splits" using set_sp(1) i by blast
  have b_ge: "?N (n - 1) \<le> bit_offset b" using b len by (simp add: split_point_def first_in_def)
  have "magic_at ?chunk (bit_offset b)" using b by (simp add: split_point_def first_in_def)
  moreover have "covered ?chunk (0 div 8) (bit_offset b)"
    using b plausible_whole [of ?chunk "bit_offset b" m] by (intro covered_whole) (simp_all add: split_point_def first_in_def)
  ultimately obtain first where f: "find_next_block ?chunk 0 = Some first"
    using find_next_None [of ?chunk 0 "bit_offset b"] by (cases "find_next_block ?chunk 0") auto
  note starts = split_starts [OF f sp]
  let ?s = "push_splits [first] splits"
  have "bit_offset first = p" by (rule first_block_found [OF assms(1) f])
  then have "first \<noteq> b" using b_ge N_ge [OF i(1)] part assms(3) by auto
  then have many: "1 < length ?s"
    using starts(3) b_in by (cases ?s; cases "tl ?s") auto
  then have "\<exists>cs. split_chunk budget ?chunk n m False = Inr (Some cs) \<and> segment_starts cs = ?s"
    using f sp starts(4) by (auto simp: split_chunk_def Let_def)
  then obtain cs where cs: "split_chunk budget ?chunk n m False = Inr (Some cs)" "segment_starts cs = ?s" by blast
  let ?q = "bit_offset (last ?s)"
  have used: "consumed cs = ?q div 8" using split_shape(3) [OF cs(1)] cs(2) by (simp add: byte_offset_def)
  have q_ge: "?N (n - 1) \<le> ?q"
  proof -
    have "b \<in> set (butlast ?s @ [last ?s])" using starts(3,4) b_in by simp
    moreover have "sorted_wrt (<) (map bit_offset (butlast ?s @ [last ?s]))" using starts(1,4) by simp
    ultimately have "bit_offset b \<le> ?q" by (auto simp: sorted_wrt_append)
    with b_ge show ?thesis by linarith
  qed
  have q_le: "?q \<le> ?N (n - 1) + gap"
  proof -
    have "last ?s \<in> insert first (set splits)" using starts(3,4) last_in_set by blast
    moreover have "bit_offset first \<le> ?N (n - 1) + gap"
      using \<open>bit_offset first = p\<close> N_ge [OF i(1)] part assms(3) by linarith
    ultimately show ?thesis using upper by auto
  qed
  have eight: "8 * (k div n) \<le> 8 * k div n" "8 * k div n \<le> 8 * (k div n) + 7"
  proof -
    show "8 * (k div n) \<le> 8 * k div n" by (simp add: less_eq_div_iff_mult_less_eq [OF n(1)])
    have "k < (k div n + 1) * n" using n(1) by (simp add: dividend_less_div_times)
    moreover have "(8 * (k div n) + 8) * n = 8 * ((k div n + 1) * n)" by (simp add: algebra_simps)
    ultimately have "8 * k < (8 * (k div n) + 8) * n" by simp
    then have "8 * k div n < 8 * (k div n) + 8" by (simp only: div_less_iff_less_mult [OF n(1)])
    then show "8 * k div n \<le> 8 * (k div n) + 7" by simp
  qed
  have dk: "k div n \<le> k" by simp
  show thesis
  proof (rule that [OF cs(1)])
    have "?q \<le> 8 * k" using q_le last_le part by linarith
    from div_le_mono [OF this, of 8] show "consumed cs \<le> k" by (simp add: used)
    have "8 * (k - k div n - 1) \<le> ?q" using q_ge last_ge eight(2) dk by linarith
    from div_le_mono [OF this, of 8] show "k - consumed cs \<le> k div n + 1" by (simp add: used)
    have "?q \<le> gap + 8 * (k - k div n)" using q_le last_le eight(1) dk by linarith
    from div_le_mono [OF this, of 8] have "?q div 8 \<le> gap div 8 + (k - k div n)" by (simp add: div_mult_self2)
    then show "k div n \<le> k - consumed cs + gap div 8 + 1" using dk unfolding used by linarith
  qed
qed

subsection \<open>The sample file\<close>

lemma sample_blocks_fit: "\<forall>b\<in>set (blocks_of [Coded sample_block]). block_fits (100000 * 9) b"
  using sample_fits by simp

lemma sample_well_formed_9: "well_formed (100000 * 9) (header_bytes 9 @ sample_body) 32 [Coded sample_block]"
  using sample_well_formed by simp

lemma sample_data: "items_data [Coded sample_block] = [98, 97]"
  by (simp add: sample_block_def block_data_def)

lemma fits_data: "block_fits m b \<Longrightarrow> block_data b \<noteq> []"
  by (cases b) (auto simp: block_fits_def encodable_def block_data_def)

end
