(* ===== verification/Byte_Source.thy ===== *)
theory Byte_Source
  imports Bz_Prelude
begin

text \<open>
  The \<open>Read\<close> interface of the standard library, which the readers take their input from and
  which they implement themselves: what a call returns, the loops over it, and the contracts as locales.
\<close>

subsection \<open>Results of input and output\<close>

datatype io_error = Interrupted | InvalidData string | OtherError string

type_synonym 'a io = "io_error + 'a"

text \<open>
  A call with a buffer of \<open>n\<close> bytes: \<open>None\<close> if it does not return, a panic, or \<open>Err\<close> or
  the bytes written to the buffer, with the state of the reader after the call.
\<close>

type_synonym 's read_fn = "nat \<Rightarrow> 's \<Rightarrow> (u8 list io \<times> 's) result option"

definition bindO :: "'a result option \<Rightarrow> ('a \<Rightarrow> 'b result option) \<Rightarrow> 'b result option" where
  "bindO m f = Option.bind m (\<lambda>v. case v of Inl e \<Rightarrow> Some (Inl e) | Inr x \<Rightarrow> f x)"

lemma bindO_simps [simp]:
  "bindO None f = None" "bindO (Some (Inl e)) f = Some (Inl e)" "bindO (Some (Inr x)) f = f x"
  by (simp_all add: bindO_def)

lemma bindO_mono [partial_function_mono]:
  assumes "mono_option B" "\<And>y. mono_option (\<lambda>f. C y f)"
  shows "mono_option (\<lambda>f. bindO (B f) (\<lambda>y. C y f))"
  unfolding bindO_def
proof (rule bind_mono [OF assms(1)])
  fix y
  show "mono_option (\<lambda>f. case y of Inl e \<Rightarrow> Some (Inl e) | Inr x \<Rightarrow> C x f)"
    by (cases y) (simp_all add: assms(2) option.const_mono)
qed

subsection \<open>Loops over a reader\<close>

text \<open>\<open>Read::read_exact\<close> of the standard library.\<close>

partial_function (option) read_exact ::
    "'s read_fn \<Rightarrow> nat \<Rightarrow> u8 list \<Rightarrow> 's \<Rightarrow> (u8 list io \<times> 's) result option" where
  "read_exact rd n got s =
     (if length got < n
      then bindO (rd (n - length got) s) (\<lambda>(v, s1).
        case v of
          Inr bs \<Rightarrow> if bs = [] then Some (Inr (Inl (OtherError ''failed to fill whole buffer''), s1))
                   else read_exact rd n (got @ bs) s1
        | Inl e \<Rightarrow> if e = Interrupted then read_exact rd n got s1 else Some (Inr (Inl e, s1)))
      else Some (Inr (Inr got, s)))"

text \<open>A client that makes the calls of a list of buffer sizes and tries again when interrupted.\<close>

fun read_calls :: "'s read_fn \<Rightarrow> nat list \<Rightarrow> 's \<Rightarrow> (u8 list io \<times> 's) result option" where
  "read_calls rd [] s = Some (Inr (Inr [], s))"
| "read_calls rd (n # ns) s =
     bindO (rd n s) (\<lambda>(v, s1).
       case v of
         Inr bs \<Rightarrow> bindO (read_calls rd ns s1) (\<lambda>(v', s2). Some (Inr (map_sum id ((@) bs) v', s2)))
       | Inl e \<Rightarrow> if e = Interrupted then read_calls rd ns s1 else Some (Inr (Inl e, s1)))"

subsection \<open>The contracts\<close>

text \<open>
  \<open>owes s k w\<close>: the reader in state \<open>s\<close> still has to deliver the bytes \<open>w\<close>, with at most \<open>k\<close>
  interruptions. Every call returns the next bytes, at most as many as asked for and possibly none, or is interrupted.
\<close>

locale byte_source =
  fixes rd :: "'s read_fn" and owes :: "'s \<Rightarrow> nat \<Rightarrow> u8 list \<Rightarrow> bool"
  assumes step: "owes s k w \<Longrightarrow>
    (\<exists>bs w' k' s'. rd n s = Some (Inr (Inr bs, s')) \<and> w = bs @ w' \<and> length bs \<le> n \<and> k' \<le> k \<and> owes s' k' w') \<or>
    (\<exists>k' s'. rd n s = Some (Inr (Inl Interrupted, s')) \<and> k' < k \<and> owes s' k' w)"
begin

lemma call_cases:
  assumes "owes s k w"
  obtains bs w' k' s' where "rd n s = Some (Inr (Inr bs, s'))" "w = bs @ w'" "length bs \<le> n" "k' \<le> k" "owes s' k' w'"
  | k' s' where "rd n s = Some (Inr (Inl Interrupted, s'))" "k' < k" "owes s' k' w"
  using step [OF assms, of n] by blast

text \<open>Whatever the calls, the bytes come in order, none lost and none twice.\<close>

lemma calls_in_order:
  assumes "owes s k w"
  obtains out w' k' s' where "read_calls rd ns s = Some (Inr (Inr out, s'))" "w = out @ w'" "k' \<le> k" "owes s' k' w'"
  using assms
proof (induction ns arbitrary: s k w thesis)
  case Nil
  then show ?case by (intro Nil(1) [of "[]" s w k]) simp_all
next
  case (Cons n ns)
  show ?case
  proof (cases rule: call_cases [OF Cons.prems(2), of n])
    case (1 bs w1 k1 s1)
    obtain out w' k' s' where "read_calls rd ns s1 = Some (Inr (Inr out, s'))" "w1 = out @ w'" "k' \<le> k1" "owes s' k' w'"
      by (rule Cons.IH [OF _ 1(5)])
    with 1 show ?thesis by (intro Cons.prems(1) [of "bs @ out" s' w' k']) simp_all
  next
    case (2 k1 s1)
    obtain out w' k' s' where "read_calls rd ns s1 = Some (Inr (Inr out, s'))" "w = out @ w'" "k' \<le> k1" "owes s' k' w'"
      by (rule Cons.IH [OF _ 2(3)])
    with 2 show ?thesis by (intro Cons.prems(1) [of out s' w' k']) simp_all
  qed
qed

end

text \<open>A reader that returns no bytes only at the end.\<close>

locale complete_source = byte_source +
  assumes end_only: "owes s k w \<Longrightarrow> rd n s = Some (Inr (Inr [], s')) \<Longrightarrow> n = 0 \<or> w = []"
begin

lemma calls_complete:
  assumes "owes s k w" "\<forall>n\<in>set ns. 0 < n" "k + length w \<le> length ns"
  obtains k' s' where "read_calls rd ns s = Some (Inr (Inr w, s'))" "owes s' k' []"
  using assms
proof (induction ns arbitrary: s k w thesis)
  case Nil
  then show ?case by (intro Nil(1) [of s k]) simp_all
next
  case (Cons n ns)
  have n: "0 < n" and ns: "\<forall>n\<in>set ns. 0 < n" using Cons.prems(3) by simp_all
  show ?case
  proof (cases rule: call_cases [OF Cons.prems(2), of n])
    case (1 bs w1 k1 s1)
    show ?thesis
    proof (cases "bs = []")
      case True
      then have w: "w = []" "w1 = []" using end_only [OF Cons.prems(2)] 1(1,2) n by auto
      obtain out w' k' s' where "read_calls rd ns s1 = Some (Inr (Inr out, s'))" "w1 = out @ w'" "k' \<le> k1" "owes s' k' w'"
        by (rule calls_in_order [OF 1(5)])
      with 1(1) True w show ?thesis by (intro Cons.prems(1) [of s' k']) simp_all
    next
      case False
      then have "length w1 < length w" using 1(2) by simp
      then have len: "k1 + length w1 \<le> length ns" using 1(4) Cons.prems(4) by simp
      obtain k' s' where "read_calls rd ns s1 = Some (Inr (Inr w1, s'))" "owes s' k' []"
        by (rule Cons.IH [OF _ 1(5) ns len])
      with 1 show ?thesis by (intro Cons.prems(1) [of s' k']) simp_all
    qed
  next
    case (2 k1 s1)
    have len: "k1 + length w \<le> length ns" using 2(2) Cons.prems(4) by simp
    obtain k' s' where "read_calls rd ns s1 = Some (Inr (Inr w, s'))" "owes s' k' []"
      by (rule Cons.IH [OF _ 2(3) ns len])
    with 2 show ?thesis by (intro Cons.prems(1) [of s' k']) simp_all
  qed
qed

end

text \<open>\<open>read_exact\<close> over such a reader, when the bytes are there and when they are not.\<close>

context complete_source
begin

lemma exact_enough:
  assumes "owes s k w" "n \<le> length got + length w" "length got \<le> n"
  obtains k' s' where "read_exact rd n got s = Some (Inr (Inr (got @ take (n - length got) w), s'))"
    "k' \<le> k" "owes s' k' (drop (n - length got) w)"
  using assms
proof (induction "k + length w" arbitrary: got s k w thesis rule: less_induct)
  case less
  show ?case
  proof (cases "length got < n")
    case False
    with less.prems show ?thesis by (intro less.prems(1) [of s k]) (simp_all add: read_exact.simps)
  next
    case True
    show ?thesis
    proof (cases rule: call_cases [OF less.prems(2), of "n - length got"])
      case (1 bs w1 k1 s1)
      have "w \<noteq> []" using True less.prems(3) by auto
      then have bs: "bs \<noteq> []" using end_only [OF less.prems(2), of "n - length got" s1] 1(1) True by auto
      then have "k1 + length w1 < k + length w" using 1(2,4) by (cases bs) simp_all
      moreover have "n \<le> length (got @ bs) + length w1" "length (got @ bs) \<le> n" using 1(2,3) True less.prems(3) by simp_all
      ultimately obtain k' s' where "read_exact rd n (got @ bs) s1 = Some (Inr (Inr ((got @ bs) @ take (n - length (got @ bs)) w1), s'))"
          "k' \<le> k1" "owes s' k' (drop (n - length (got @ bs)) w1)"
        using less.hyps [OF _ _ 1(5)] by blast
      with 1 True bs show ?thesis
        by (intro less.prems(1) [of s' k']) (subst read_exact.simps, simp_all add: diff_diff_left)
    next
      case (2 k1 s1)
      then obtain k' s' where "read_exact rd n got s1 = Some (Inr (Inr (got @ take (n - length got) w), s'))"
          "k' \<le> k1" "owes s' k' (drop (n - length got) w)"
        using less.hyps [OF _ _ 2(3) less.prems(3,4)] by (metis add_less_mono1)
      with 2 True show ?thesis
        by (intro less.prems(1) [of s' k']) (subst read_exact.simps, simp_all)
    qed
  qed
qed

lemma exact_short:
  assumes "owes s k w" "length got + length w < n"
  obtains s' where "read_exact rd n got s = Some (Inr (Inl (OtherError ''failed to fill whole buffer''), s'))"
  using assms
proof (induction "k + length w" arbitrary: got s k w thesis rule: less_induct)
  case less
  then have got: "length got < n" by simp
  show ?case
  proof (cases rule: call_cases [OF less.prems(2), of "n - length got"])
    case (1 bs w1 k1 s1)
    show ?thesis
    proof (cases "bs = []")
      case True
      with 1(1) got show ?thesis by (intro less.prems(1) [of s1]) (subst read_exact.simps, simp)
    next
      case False
      then have "k1 + length w1 < k + length w" "length (got @ bs) + length w1 < n" using 1(2,4) less.prems(3) by (cases bs; simp)+
      then obtain s' where "read_exact rd n (got @ bs) s1 = Some (Inr (Inl (OtherError ''failed to fill whole buffer''), s'))"
        using less.hyps [OF _ _ 1(5)] by blast
      with 1(1) got False show ?thesis by (intro less.prems(1) [of s']) (subst read_exact.simps, simp)
    qed
  next
    case (2 k1 s1)
    then obtain s' where "read_exact rd n got s1 = Some (Inr (Inl (OtherError ''failed to fill whole buffer''), s'))"
      using less.hyps [OF _ _ 2(3) less.prems(3)] by (metis add_less_mono1)
    with 2 got show ?thesis by (intro less.prems(1) [of s']) (subst read_exact.simps, simp)
  qed
qed

end

subsection \<open>The reader over a byte slice\<close>

text \<open>\<open>impl Read for &[u8]\<close> of the standard library.\<close>

definition slice_read :: "u8 list read_fn" where
  "slice_read n s = Some (Inr (Inr (take n s), drop n s))"

interpretation slice: complete_source slice_read "\<lambda>s k w. s = w"
proof
  fix s w :: "u8 list" and k n :: nat
  assume "s = w"
  then show "(\<exists>bs w' k' s'. slice_read n s = Some (Inr (Inr bs, s')) \<and> w = bs @ w' \<and> length bs \<le> n \<and> k' \<le> k \<and> s' = w') \<or>
    (\<exists>k' s'. slice_read n s = Some (Inr (Inl Interrupted, s')) \<and> k' < k \<and> s' = w)"
    by (intro disjI1 exI [of _ "take n s"] exI [of _ "drop n s"] exI [of _ k]) (simp add: slice_read_def)
next
  fix s w s' :: "u8 list" and k n :: nat
  assume "s = w" "slice_read n s = Some (Inr (Inr [], s'))"
  then show "n = 0 \<or> w = []" by (simp add: slice_read_def)
qed

end
