(* ===== verification/Bz2_Readers.thy ===== *)
theory Bz2_Readers
  imports File_Items Byte_Source
begin

text \<open>
  The two readers of \<open>reader.rs\<close>: \<open>StreamingBz2Read\<close> over any source and \<open>ParallelBz2Read\<close> over a byte
  slice. Both implement \<open>Read\<close>; the lemmas show that they keep its contract (the locales of \<open>Byte_Source\<close>) for the data of
  the compressed file.
\<close>

subsection \<open>What both readers share\<close>

definition check_header :: "u8 list \<Rightarrow> nat result" where
  "check_header header =
     bindE (guard (take 2 header = [0x42, 0x5A]) (BlockError ''bad bzip2 signature'')) (\<lambda>_.
     bindE (index header 2) (\<lambda>h.
     bindE (guard (h = 0x68) (BlockError ''only huffman bzip2 supported'')) (\<lambda>_.
     bindE (index header 3) (\<lambda>level.
     bindE (guard (0x31 \<le> level \<and> level \<le> 0x39) (BlockError ''invalid bzip2 block size level'')) (\<lambda>_.
     Inr (100000 * unat (level - 0x30)))))))"

definition decode_batch :: "nat \<Rightarrow> u8 list \<Rightarrow> nat \<Rightarrow> block_boundary list \<Rightarrow> (string + u8 list) list result" where
  "decode_batch budget data max_blocksize batch =
     par_map budget (length batch) (\<lambda>bi.
       bindE (index batch bi) (\<lambda>boundary. caught (decode_at data max_blocksize boundary)))"

text \<open>Appending the results to a buffer, up to the first error.\<close>

fun extend_out :: "u8 list \<Rightarrow> (string + u8 list) list \<Rightarrow> unit io \<times> u8 list" where
  "extend_out out [] = (Inr (), out)"
| "extend_out out (Inr decoded # rs) = extend_out (out @ decoded) rs"
| "extend_out out (Inl e # rs) = (Inl (InvalidData e), out)"

subsection \<open>The streaming reader\<close>

definition CHUNK_BYTES :: nat where
  "CHUNK_BYTES = 100 * 1024 * 1024"

record 's stream_reader =
  source :: 's
  blocksize :: nat
  comp_buf :: "u8 list"
  out_buf :: "u8 list"
  out_pos :: nat
  source_eof :: bool

definition stream_new :: "'s read_fn \<Rightarrow> 's \<Rightarrow> 's stream_reader result option" where
  "stream_new rd src =
     bindO (read_exact rd 4 [] src) (\<lambda>(v, s1).
       Some (case v of
         Inl e \<Rightarrow> Inl (BlockError ''failed to read bzip2 header'')
       | Inr header \<Rightarrow> bindE (check_header header) (\<lambda>m.
           Inr \<lparr>source = s1, blocksize = m, comp_buf = header, out_buf = [], out_pos = 0, source_eof = False\<rparr>)))"

text \<open>
  The loop that fills the tail of \<open>comp_buf\<close>: whether the source has ended, or its error, with the bytes read so far.
\<close>

partial_function (option) fill_loop ::
    "'s read_fn \<Rightarrow> nat \<Rightarrow> u8 list \<Rightarrow> 's \<Rightarrow> (bool io \<times> u8 list \<times> 's) result option" where
  "fill_loop rd chunk got s =
     (if length got < chunk
      then bindO (rd (chunk - length got) s) (\<lambda>(v, s1).
        case v of
          Inr bs \<Rightarrow> if bs = [] then Some (Inr (Inr True, got, s1)) else fill_loop rd chunk (got @ bs) s1
        | Inl e \<Rightarrow> if e = Interrupted then fill_loop rd chunk got s1 else Some (Inr (Inl e, got, s1)))
      else Some (Inr (Inr False, got, s)))"

text \<open>On an error \<open>comp_buf\<close> keeps its new length, zeros included.\<close>

definition read_more :: "'s read_fn \<Rightarrow> 's stream_reader \<Rightarrow> (unit io \<times> 's stream_reader) result option" where
  "read_more rd st =
     bindO (fill_loop rd CHUNK_BYTES [] (source st)) (\<lambda>(v, got, s1).
       Some (Inr (case v of
         Inl e \<Rightarrow> (Inl e, st\<lparr>source := s1, comp_buf := comp_buf st @ got @ replicate (CHUNK_BYTES - length got) 0\<rparr>)
       | Inr eof \<Rightarrow> (Inr (), st\<lparr>source := s1, comp_buf := comp_buf st @ got, source_eof := eof\<rparr>))))"

definition decode_buffered :: "nat \<Rightarrow> 's stream_reader \<Rightarrow> (unit io \<times> 's stream_reader) result" where
  "decode_buffered budget st =
     (let bs = find_all_blocks (comp_buf st) in
      if bs = []
      then Inr (Inr (), if source_eof st then st\<lparr>comp_buf := [], out_buf := [], out_pos := 0\<rparr> else st)
      else if \<not> source_eof st \<and> \<not> length bs > 1 then Inr (Inr (), st)
      else let count = (if source_eof st then length bs else length bs - 1) in
        bindE (decode_batch budget (comp_buf st) (blocksize st) (take count bs)) (\<lambda>results.
        case extend_out [] results of
          (Inl e, out) \<Rightarrow> Inr (Inl e, st\<lparr>out_buf := out, out_pos := 0\<rparr>)
        | (Inr _, out) \<Rightarrow>
            bindE (if count < length bs
                   then bindE (index bs count) (\<lambda>b. Inr (drop (byte_offset b) (comp_buf st)))
                   else Inr []) (\<lambda>keep.
            Inr (Inr (), st\<lparr>comp_buf := keep, out_buf := out, out_pos := 0\<rparr>))))"

definition fill :: "'s read_fn \<Rightarrow> nat \<Rightarrow> 's stream_reader \<Rightarrow> (unit io \<times> 's stream_reader) result option" where
  "fill rd budget st =
     (if source_eof st \<and> length (comp_buf st) \<le> 4 then Some (Inr (Inr (), st\<lparr>out_buf := [], out_pos := 0\<rparr>))
      else if \<not> source_eof st
      then bindO (read_more rd st) (\<lambda>(v, st1).
        case v of Inl e \<Rightarrow> Some (Inr (Inl e, st1)) | Inr _ \<Rightarrow> Some (decode_buffered budget st1))
      else Some (decode_buffered budget st))"

definition serve :: "nat \<Rightarrow> 's stream_reader \<Rightarrow> (u8 list io \<times> 's stream_reader) result" where
  "serve n st =
     bindE (guard (out_pos st \<le> length (out_buf st)) (Panic ''slice start past its end'')) (\<lambda>_.
     let available = drop (out_pos st) (out_buf st); k = min n (length available)
     in Inr (Inr (take k available), st\<lparr>out_pos := out_pos st + k\<rparr>))"

definition stream_read :: "'s read_fn \<Rightarrow> nat \<Rightarrow> 's stream_reader read_fn" where
  "stream_read rd budget n st =
     (if out_pos st < length (out_buf st) then Some (serve n st)
      else bindO (fill rd budget st) (\<lambda>(v, st1).
        case v of
          Inl e \<Rightarrow> Some (Inr (Inl e, st1))
        | Inr _ \<Rightarrow> if out_buf st1 = [] then Some (Inr (Inr [], st1)) else Some (serve n st1)))"

subsection \<open>The reader over a slice\<close>

record slice_reader =
  slice_data :: "u8 list"
  slice_blocksize :: nat
  boundaries :: "block_boundary list"
  next_block :: nat
  batch_buf :: "u8 list"
  batch_pos :: nat

definition BATCH_SIZE :: nat where
  "BATCH_SIZE = 64"

definition slice_new :: "u8 list \<Rightarrow> slice_reader result" where
  "slice_new data =
     bindE (guard (4 \<le> length data) (BlockError ''input too short for bzip2 header'')) (\<lambda>_.
     bindE (check_header data) (\<lambda>m.
     Inr \<lparr>slice_data = data, slice_blocksize = m, boundaries = find_all_blocks data, next_block = 0, batch_buf = [], batch_pos = 0\<rparr>))"

definition block_count :: "slice_reader \<Rightarrow> nat" where
  "block_count st = length (boundaries st)"

fun batch_total :: "nat \<Rightarrow> (string + u8 list) list \<Rightarrow> nat io" where
  "batch_total n [] = Inr n"
| "batch_total n (Inr v # rs) = batch_total (n + length v) rs"
| "batch_total n (Inl e # rs) = Inl (InvalidData e)"

definition fill_batch :: "nat \<Rightarrow> slice_reader \<Rightarrow> (unit io \<times> slice_reader) result" where
  "fill_batch budget st =
     bindE (guard (next_block st \<le> length (boundaries st)) (Panic ''attempt to subtract with overflow'')) (\<lambda>_.
     let remaining = length (boundaries st) - next_block st in
     if remaining = 0 then Inr (Inr (), st\<lparr>batch_buf := [], batch_pos := 0\<rparr>)
     else let batch_end = next_block st + min remaining BATCH_SIZE in
       bindE (decode_batch budget (slice_data st) (slice_blocksize st)
                (drop (next_block st) (take batch_end (boundaries st)))) (\<lambda>results.
       case batch_total 0 results of
         Inl e \<Rightarrow> Inr (Inl e, st)
       | Inr n_bytes \<Rightarrow>
           (case extend_out [] results of
              (Inl e, out) \<Rightarrow> Inr (Inl e, st\<lparr>batch_buf := out\<rparr>)
            | (Inr _, out) \<Rightarrow> Inr (Inr (), st\<lparr>batch_buf := out, batch_pos := 0, next_block := batch_end\<rparr>))))"

definition slice_reader_read :: "nat \<Rightarrow> slice_reader read_fn" where
  "slice_reader_read budget n st =
     Some (bindE (if length (batch_buf st) \<le> batch_pos st then fill_batch budget st else Inr (Inr (), st)) (\<lambda>(v, st1).
       case v of
         Inl e \<Rightarrow> Inr (Inl e, st1)
       | Inr _ \<Rightarrow>
           if length (batch_buf st) \<le> batch_pos st \<and> batch_buf st1 = [] then Inr (Inr [], st1)
           else bindE (guard (batch_pos st1 \<le> length (batch_buf st1)) (Panic ''slice start past its end'')) (\<lambda>_.
             let available = drop (batch_pos st1) (batch_buf st1); k = min n (length available)
             in Inr (Inr (take k available), st1\<lparr>batch_pos := batch_pos st1 + k\<rparr>))))"

subsection \<open>A chunk of a well-formed file\<close>

definition chunk_of :: "nat \<Rightarrow> u8 list \<Rightarrow> u8 list \<Rightarrow> nat \<Rightarrow> item list \<Rightarrow> bool" where
  "chunk_of m piece later p its \<longleftrightarrow>
     p \<le> 32 \<and> well_formed m (piece @ later) p its \<and> (\<forall>b\<in>set (blocks_of its). block_fits m b)"

lemma chunk_ofD:
  assumes "chunk_of m piece later p its"
  shows "well_formed m (piece @ later) p its" "b \<in> set (blocks_of its) \<Longrightarrow> block_fits m b" "p \<le> 32"
  using assms by (auto simp: chunk_of_def)

definition found :: "u8 list \<Rightarrow> nat" where
  "found piece = length (find_all_blocks piece)"

lemma magics_in_chunk:
  assumes "chunk_of m piece later p its"
  shows "magic_at piece q \<longleftrightarrow> q \<in> set (coded_offsets p its) \<and> q + 48 \<le> 8 * length piece"
proof -
  have "magic_at (take (length piece) (piece @ later)) q \<longleftrightarrow> magic_at (piece @ later) q \<and> q + 48 \<le> 8 * min (length (piece @ later)) (length piece)"
    by (rule magic_at_take)
  then have take: "magic_at piece q \<longleftrightarrow> magic_at (piece @ later) q \<and> q + 48 \<le> 8 * length piece" by simp
  have "magic_at (piece @ later) q" if "q \<in> set (coded_offsets p its)"
  proof -
    from coded_split [OF that] obtain A c B where A: "its = A @ Coded c # B" "q = p + length (items_bits p A)" by blast
    from chunk_ofD(1) [OF assms(1)] obtain rest where "drop p (stream_bits (piece @ later)) = items_bits p (A @ Coded c # B) @ rest" "p \<le> 8 * length (piece @ later)"
      unfolding A by (auto simp: well_formed_def)
    from items_bits_at [OF this, folded A(2)] show ?thesis by (intro magic_at_block) simp_all
  qed
  then show ?thesis using take chunk_ofD(1) [OF assms(1)] by (auto simp: well_formed_def)
qed

lemma found_prefix:
  assumes "chunk_of m piece later p its"
  shows "found piece \<le> length (blocks_of its)" "find_all_blocks piece = boundaries_at (take (found piece) (coded_offsets p its))"
    "i < length (blocks_of its) \<Longrightarrow> coded_offsets p its ! i div 8 + 8 \<le> length piece \<Longrightarrow> i < found piece"
proof -
  obtain j where j: "j \<le> length (coded_offsets p its)" "find_all_from piece 0 = boundaries_at (take j (coded_offsets p its))"
      "\<And>i. i < length (coded_offsets p its) \<Longrightarrow> coded_offsets p its ! i div 8 + 8 \<le> length piece \<Longrightarrow> i < j"
    by (rule find_all_prefix [OF _ coded_offsets_sorted, of 0 piece p its]) (simp_all add: magics_in_chunk [OF assms])
  then have "found piece = j" by (simp add: found_def find_all_blocks_def boundaries_at_def)
  with j show "found piece \<le> length (blocks_of its)" "find_all_blocks piece = boundaries_at (take (found piece) (coded_offsets p its))"
    "i < length (blocks_of its) \<Longrightarrow> coded_offsets p its ! i div 8 + 8 \<le> length piece \<Longrightarrow> i < found piece"
    by (simp_all add: find_all_blocks_def)
qed

text \<open>A block that lies within the chunk decodes to its data.\<close>

lemma decode_at_item:
  assumes "chunk_of m piece later p its" "i < length (blocks_of its)" "coded_offsets p its ! i + 48 + length (block_bits (blocks_of its ! i)) \<le> 8 * length piece"
  shows "decode_at piece m \<lparr>bit_offset = coded_offsets p its ! i\<rparr> = Inr (block_data (blocks_of its ! i))"
proof -
  let ?q = "coded_offsets p its ! i" and ?b = "blocks_of its ! i"
  from coded_nth [OF assms(2), of p] obtain A B where A: "its = A @ Coded ?b # B" "?q = p + length (items_bits p A)" by auto
  from chunk_ofD(1) [OF assms(1)] obtain rest where "drop p (stream_bits (piece @ later)) = items_bits p (A @ Coded ?b # B) @ rest" "p \<le> 8 * length (piece @ later)"
    using A(1) by (auto simp: well_formed_def)
  from items_bits_at(1) [OF this, folded A(2)]
  have all: "drop ?q (stream_bits (piece @ later)) = magic_bits BLOCK_MAGIC @ block_bits ?b @ (items_bits (?q + (48 + length (block_bits ?b))) B @ rest)" by simp
  have q: "?q \<le> 8 * length piece" using assms(3) by simp
  have "take (8 * length piece - ?q) (drop ?q (stream_bits (piece @ later))) = drop ?q (stream_bits piece)"
    using q by (simp add: stream_bits_append)
  then have "drop ?q (stream_bits piece) = magic_bits BLOCK_MAGIC @ block_bits ?b @
      take (8 * length piece - ?q - 48 - length (block_bits ?b)) (items_bits (?q + (48 + length (block_bits ?b))) B @ rest)"
    unfolding all using assms(3) by simp
  then show ?thesis by (rule decode_at_bits [OF q]) (use chunk_ofD(2) [OF assms(1)] assms(2) in simp)
qed

lemma decode_items:
  assumes "chunk_of m piece later p its" "n \<le> found piece" "n < found piece \<or> later = []"
  shows "mapE (decode_at piece m) (take n (find_all_blocks piece)) = Inr (map block_data (take n (blocks_of its)))"
  unfolding found_prefix(2) [OF assms(1)] mapE_Inr_iff
proof (intro conjI allI impI)
  show len: "length (map block_data (take n (blocks_of its))) = length (take n (boundaries_at (take (found piece) (coded_offsets p its))))"
    using assms(2) found_prefix(1) [OF assms(1)] by (simp add: boundaries_at_def)
  fix i assume "i < length (take n (boundaries_at (take (found piece) (coded_offsets p its))))"
  then have i: "i < n" "i < found piece" "i < length (blocks_of its)" using found_prefix(1) [OF assms(1)] by (simp_all add: boundaries_at_def)
  have room: "coded_offsets p its ! i + 48 + length (block_bits (blocks_of its ! i)) \<le> 8 * length piece"
  proof (cases "later = []")
    case True
    then show ?thesis using item_room [OF chunk_ofD(1) [OF assms(1)] i(3)] by simp
  next
    case False
    then have Suc: "Suc i < found piece" using assms(3) i(1) by simp
    have "find_all_blocks piece ! Suc i = \<lparr>bit_offset = coded_offsets p its ! Suc i\<rparr>"
      unfolding found_prefix(2) [OF assms(1)] boundaries_at_def using Suc found_prefix(1) [OF assms(1)] by simp
    moreover have "find_all_blocks piece ! Suc i \<in> set (find_all_blocks piece)" using Suc by (intro nth_mem) (simp add: found_def)
    ultimately have "\<lparr>bit_offset = coded_offsets p its ! Suc i\<rparr> \<in> set (find_all_blocks piece)" by simp
    then have "magic_at piece (coded_offsets p its ! Suc i)"
      using found_magic by fastforce
    then have "coded_offsets p its ! Suc i + 48 \<le> 8 * length piece" by (simp add: magic_at_def)
    then show ?thesis using blocks_in_range [of i its p] Suc found_prefix(1) [OF assms(1)] by linarith
  qed
  then show "decode_at piece m (take n (boundaries_at (take (found piece) (coded_offsets p its))) ! i) = Inr (map block_data (take n (blocks_of its)) ! i)"
    using decode_at_item [OF assms(1) i(3) room] i by (simp add: boundaries_at_def)
qed

lemma decode_batch_items:
  assumes "chunk_of m piece later p its" "n \<le> found piece" "n < found piece \<or> later = []"
  shows "decode_batch budget piece m (take n (find_all_blocks piece)) = Inr (map Inr (map block_data (take n (blocks_of its))))"
  using mapE_caught [OF decode_items [OF assms]] unfolding decode_batch_def by (simp only: pm.over_list)

lemma found_all:
  assumes "chunk_of m piece [] p its"
  shows "found piece = length (blocks_of its)"
proof (rule ccontr)
  assume "found piece \<noteq> length (blocks_of its)"
  then have lt: "found piece < length (blocks_of its)" using found_prefix(1) [OF assms] by simp
  then have "coded_offsets p its ! found piece div 8 + 8 \<le> length piece"
    using item_window [OF chunk_ofD(1) [OF assms]] by simp
  from found_prefix(3) [OF assms lt this] show False by simp
qed

subsection \<open>The streaming reader keeps the contract\<close>

text \<open>What is left to decode: the items that start in \<open>comp_buf\<close>, whose bytes go on with those the source still owes.\<close>

definition undecoded :: "nat \<Rightarrow> bool \<Rightarrow> u8 list \<Rightarrow> u8 list \<Rightarrow> item list \<Rightarrow> bool" where
  "undecoded m eof piece later its \<longleftrightarrow>
     (eof \<longrightarrow> later = []) \<and> (its = [] \<and> piece = [] \<and> eof \<or> (\<exists>p. chunk_of m piece later p its))"

definition stream_state :: "('s \<Rightarrow> nat \<Rightarrow> u8 list \<Rightarrow> bool) \<Rightarrow> 's stream_reader \<Rightarrow> nat \<Rightarrow> item list \<Rightarrow> bool" where
  "stream_state owes st k its \<longleftrightarrow> out_pos st \<le> length (out_buf st) \<and>
     (\<exists>later. owes (source st) k later \<and> undecoded (blocksize st) (source_eof st) (comp_buf st) later its)"

definition undelivered :: "'s stream_reader \<Rightarrow> u8 list" where
  "undelivered st = drop (out_pos st) (out_buf st)"

text \<open>The reader owes the decoded bytes not yet delivered and the data of the items not yet decoded.\<close>

definition stream_owes :: "('s \<Rightarrow> nat \<Rightarrow> u8 list \<Rightarrow> bool) \<Rightarrow> 's stream_reader \<Rightarrow> nat \<Rightarrow> u8 list \<Rightarrow> bool" where
  "stream_owes owes st k w \<longleftrightarrow> (\<exists>its. stream_state owes st k its \<and> w = undelivered st @ items_data its)"

lemma extend_out_all: "extend_out out (map Inr vs) = (Inr (), out @ concat vs)"
  by (induction vs arbitrary: out) simp_all

lemma chunk_of_long: "chunk_of m piece [] p its \<Longrightarrow> 4 < length piece"
proof -
  assume ch: "chunk_of m piece [] p its"
  then obtain b its' rest where "drop p (stream_bits piece) = items_bits p (Coded b # its') @ rest"
    by (auto simp: chunk_of_def well_formed_def)
  from arg_cong [OF this, of length] length_block_bits [of b] show ?thesis by simp
qed

text \<open>One round of decoding: nothing, or the data of the first items, and the chunk goes on with the others.\<close>

lemma decode_buffered_chunk:
  assumes ch: "chunk_of (blocksize st) (comp_buf st) later p its" and eof: "source_eof st \<longrightarrow> later = []"
  obtains "decode_buffered budget st = Inr (Inr (), st)" "\<not> source_eof st" "found (comp_buf st) \<le> 1"
  | A c B q where "its = A @ Coded c # B" "\<not> source_eof st" "q = p + length (items_bits p A)" "A \<noteq> []"
      "decode_buffered budget st = Inr (Inr (), st\<lparr>comp_buf := drop (q div 8) (comp_buf st), out_buf := items_data A, out_pos := 0\<rparr>)"
      "chunk_of (blocksize st) (drop (q div 8) (comp_buf st)) later (q mod 8) (Coded c # B)"
  | "source_eof st"
      "decode_buffered budget st = Inr (Inr (), st\<lparr>comp_buf := [], out_buf := items_data its, out_pos := 0\<rparr>)"
proof -
  let ?piece = "comp_buf st" and ?m = "blocksize st" and ?bs = "find_all_blocks (comp_buf st)"
  note found = found_prefix [OF ch]
  have len: "length ?bs = found ?piece" by (simp add: found_def)
  show thesis
  proof (cases "source_eof st")
    case False
    show thesis
    proof (cases "found ?piece \<le> 1")
      case True
      then have "decode_buffered budget st = Inr (Inr (), st)" using False len by (auto simp: decode_buffered_def Let_def)
      with that(1) False True show thesis by blast
    next
      case many: False
      let ?n = "found ?piece - 1"
      have n: "?n < length (blocks_of its)" "?n < found ?piece" using many found(1) by simp_all
      from coded_nth [OF n(1), of p] obtain A c B where A: "its = A @ Coded c # B"
          "coded_offsets p its ! ?n = p + length (items_bits p A)" "length (blocks_of A) = ?n" by blast
      have batch: "decode_batch budget ?piece ?m (take ?n ?bs) = Inr (map Inr (map block_data (take ?n (blocks_of its))))"
        by (rule decode_batch_items [OF ch]) (use n in simp_all)
      have takeA: "take ?n (blocks_of its) = blocks_of A" unfolding A(1) using A(3) by simp
      have nth: "?bs ! ?n = \<lparr>bit_offset = p + length (items_bits p A)\<rparr>"
        unfolding found(2) boundaries_at_def using n A(2) by simp
      have ne: "?bs \<noteq> []" using many len by auto
      have dec: "decode_buffered budget st = Inr (Inr (), st\<lparr>comp_buf := drop ((p + length (items_bits p A)) div 8) ?piece,
          out_buf := items_data A, out_pos := 0\<rparr>)"
        using False many ne n(2) len batch takeA nth
        by (simp add: decode_buffered_def Let_def extend_out_all items_data_blocks byte_offset_def index_def del: map_map)
      have inside: "(p + length (items_bits p A)) div 8 \<le> length ?piece"
      proof -
        have "?bs ! ?n \<in> set ?bs" using n(2) len by (intro nth_mem) simp
        from found_magic [OF this] have "magic_at ?piece (p + length (items_bits p A))" unfolding nth by simp
        then have "p + length (items_bits p A) \<le> 8 * length ?piece" by (simp add: magic_at_def)
        from div_le_mono [OF this, of 8] show ?thesis by simp
      qed
      have next_chunk: "chunk_of ?m (drop ((p + length (items_bits p A)) div 8) ?piece) later ((p + length (items_bits p A)) mod 8) (Coded c # B)"
        using well_formed_suffix [OF chunk_ofD(1) [OF ch, unfolded A(1)]] chunk_ofD(2) [OF ch] inside
        by (simp add: chunk_of_def A(1) order_trans [OF less_imp_le_nat [OF mod_less_divisor]])
      have "A \<noteq> []" using A(3) many by auto
      then show thesis by (rule that(2) [OF A(1) False refl _ dec next_chunk])
    qed
  next
    case True
    then have later: "later = []" using eof by simp
    then have all: "found ?piece = length (blocks_of its)" using found_all ch by blast
    from ch obtain b its' where "its = Coded b # its'" by (auto simp: chunk_of_def well_formed_def)
    then have ne: "?bs \<noteq> []" using all len by auto
    have batch: "decode_batch budget ?piece ?m ?bs = Inr (map Inr (map block_data (blocks_of its)))"
      using decode_batch_items [OF ch order_refl, of budget] later all len by simp
    have "decode_buffered budget st = Inr (Inr (), st\<lparr>comp_buf := [], out_buf := items_data its, out_pos := 0\<rparr>)"
      using True ne batch by (simp add: decode_buffered_def Let_def extend_out_all items_data_blocks del: map_map)
    with that(3) True show thesis by blast
  qed
qed

lemma serve_next:
  assumes "stream_state owes st k its"
  obtains bs st' where "serve n st = Inr (Inr bs, st')" "undelivered st = bs @ undelivered st'" "length bs \<le> n"
    "stream_state owes st' k its" "bs = [] \<longrightarrow> n = 0 \<or> undelivered st = []"
proof -
  let ?j = "min n (length (out_buf st) - out_pos st)"
  let ?st = "st\<lparr>out_pos := out_pos st + ?j\<rparr>"
  have "undelivered st = take ?j (undelivered st) @ undelivered ?st"
    using append_take_drop_id [of ?j "undelivered st"] by (simp add: undelivered_def add.commute)
  moreover have "serve n st = Inr (Inr (take ?j (undelivered st)), ?st)"
    using assms by (simp add: serve_def stream_state_def Let_def guard_def undelivered_def)
  moreover have "stream_state owes ?st k its" using assms by (auto simp: stream_state_def)
  ultimately show thesis by (intro that) (auto simp: undelivered_def)
qed

context complete_source
begin

lemma fill_loop_next:
  assumes "owes s k w"
  obtains eof bs w' k' s' where "fill_loop rd chunk got s = Some (Inr (Inr eof, got @ bs, s'))" "w = bs @ w'" "k' \<le> k" "owes s' k' w'"
    "eof \<longrightarrow> w' = []" "\<not> eof \<longrightarrow> chunk \<le> length (got @ bs)"
  using assms
proof (induction "k + length w" arbitrary: got s k w thesis rule: less_induct)
  case less
  show ?case
  proof (cases "length got < chunk")
    case False
    then show ?thesis by (intro less.prems(1) [of False "[]" s w k]) (simp_all add: less.prems(2) fill_loop.simps)
  next
    case True
    show ?thesis
    proof (cases rule: call_cases [OF less.prems(2), of "chunk - length got"])
      case (1 bs w1 k1 s1)
      show ?thesis
      proof (cases "bs = []")
        case empty: True
        have "w = []" using end_only [OF less.prems(2)] 1(1) empty True by fastforce
        with 1 True empty show ?thesis
          by (intro less.prems(1) [of True "[]" s1 "[]" k1]) (subst fill_loop.simps, simp_all)
      next
        case False
        then have smaller: "k1 + length w1 < k + length w" using 1(2,4) by (cases bs) simp_all
        obtain eof bs' w' k' s' where r: "fill_loop rd chunk (got @ bs) s1 = Some (Inr (Inr eof, (got @ bs) @ bs', s'))"
            "w1 = bs' @ w'" "k' \<le> k1" "owes s' k' w'" "eof \<longrightarrow> w' = []" "\<not> eof \<longrightarrow> chunk \<le> length ((got @ bs) @ bs')"
          using less.hyps [OF smaller _ 1(5)] by blast
        show ?thesis
        proof (rule less.prems(1) [of eof "bs @ bs'" s' w' k'])
          show "fill_loop rd chunk got s = Some (Inr (Inr eof, got @ (bs @ bs'), s'))"
            using True False 1(1) r(1) by (subst fill_loop.simps) simp
        qed (use 1 r in simp_all)
      qed
    next
      case (2 k1 s1)
      then obtain eof bs' w' k' s' where r: "fill_loop rd chunk got s1 = Some (Inr (Inr eof, got @ bs', s'))"
          "w = bs' @ w'" "k' \<le> k1" "owes s' k' w'" "eof \<longrightarrow> w' = []" "\<not> eof \<longrightarrow> chunk \<le> length (got @ bs')"
        using less.hyps [OF add_less_mono1 [OF 2(2)] _ 2(3)] by blast
      show ?thesis
      proof (rule less.prems(1) [of eof bs' s' w' k'])
        show "fill_loop rd chunk got s = Some (Inr (Inr eof, got @ bs', s'))"
          using True 2(1) r(1) by (subst fill_loop.simps) simp
      qed (use 2 r in simp_all)
    qed
  qed
qed

text \<open>A call of \<open>fill\<close> when everything decoded has been delivered.\<close>

lemma fill_next:
  assumes "stream_state owes st k its" "out_pos st = length (out_buf st)"
  obtains st' k' A its' where "fill rd budget st = Some (Inr (Inr (), st'))" "its = A @ its'" "stream_state owes st' k' its'"
    "undelivered st' = items_data A" "k' \<le> k"
    "A = [] \<longrightarrow> its = [] \<or> \<not> source_eof st' \<and> found (comp_buf st') \<le> 1 \<and> CHUNK_BYTES \<le> length (comp_buf st')"
proof -
  from assms(1) obtain later where src: "owes (source st) k later" and und: "undecoded (blocksize st) (source_eof st) (comp_buf st) later its"
    by (auto simp: stream_state_def)
  show thesis
  proof (cases "its = [] \<and> comp_buf st = [] \<and> source_eof st")
    case True
    let ?st = "st\<lparr>out_buf := [], out_pos := 0\<rparr>"
    have "stream_state owes ?st k []" using src und True by (auto simp: stream_state_def)
    moreover have "fill rd budget st = Some (Inr (Inr (), ?st))" using True by (simp add: fill_def)
    ultimately show thesis using True by (intro that [of ?st "[]" "[]" k]) (simp_all add: undelivered_def)
  next
    case False
    then obtain p where ch: "chunk_of (blocksize st) (comp_buf st) later p its" and eof: "source_eof st \<longrightarrow> later = []"
      using und by (auto simp: undecoded_def)
    text \<open>The state after reading more.\<close>
    obtain st1 k1 later1 where st1: "chunk_of (blocksize st1) (comp_buf st1) later1 p its" "source_eof st1 \<longrightarrow> later1 = []"
        "owes (source st1) k1 later1" "k1 \<le> k" "fill rd budget st = Some (decode_buffered budget st1)"
        "undelivered st1 = []" "out_pos st1 \<le> length (out_buf st1)"
        "\<not> source_eof st1 \<longrightarrow> CHUNK_BYTES \<le> length (comp_buf st1)"
    proof (cases "source_eof st")
      case True
      then have "4 < length (comp_buf st)" using chunk_of_long ch eof by blast
      then have "fill rd budget st = Some (decode_buffered budget st)" using True by (simp add: fill_def)
      with that [OF ch eof src] True assms(2) show thesis by (simp add: undelivered_def)
    next
      case reading: False
      obtain e bs w' k' s' where r: "fill_loop rd CHUNK_BYTES [] (source st) = Some (Inr (Inr e, [] @ bs, s'))" "later = bs @ w'" "k' \<le> k"
          "owes s' k' w'" "e \<longrightarrow> w' = []" "\<not> e \<longrightarrow> CHUNK_BYTES \<le> length ([] @ bs)"
        by (rule fill_loop_next [OF src, of CHUNK_BYTES "[]"])
      let ?st = "st\<lparr>source := s', comp_buf := comp_buf st @ bs, source_eof := e\<rparr>"
      have "fill rd budget st = Some (decode_buffered budget ?st)"
        using reading r(1) by (simp add: fill_def read_more_def)
      moreover have "chunk_of (blocksize ?st) (comp_buf ?st) w' p its" using ch by (simp add: r(2) chunk_of_def)
      moreover have "\<not> e \<longrightarrow> CHUNK_BYTES \<le> length (comp_buf st @ bs)" using r(6) by auto
      ultimately show thesis using that [of ?st w' k'] r(3-5) assms(2) by (simp add: undelivered_def)
    qed
    show thesis
    proof (rule decode_buffered_chunk [OF st1(1,2), of budget])
      assume "decode_buffered budget st1 = Inr (Inr (), st1)" "\<not> source_eof st1" "found (comp_buf st1) \<le> 1"
      moreover have "stream_state owes st1 k1 its" using st1 by (auto simp: stream_state_def undecoded_def)
      ultimately show thesis using st1 by (intro that [of st1 "[]" its k1]) simp_all
    next
      fix A c B q
      let ?st = "st1\<lparr>comp_buf := drop (q div 8) (comp_buf st1), out_buf := items_data A, out_pos := 0\<rparr>"
      assume r: "its = A @ Coded c # B" "\<not> source_eof st1" "A \<noteq> []" "decode_buffered budget st1 = Inr (Inr (), ?st)"
        "chunk_of (blocksize st1) (drop (q div 8) (comp_buf st1)) later1 (q mod 8) (Coded c # B)"
      have "stream_state owes ?st k1 (Coded c # B)" using r(2,5) st1(3) by (auto simp: stream_state_def undecoded_def)
      with r st1(4,5) show thesis by (intro that [of ?st A "Coded c # B" k1]) (simp_all add: undelivered_def)
    next
      let ?st = "st1\<lparr>comp_buf := [], out_buf := items_data its, out_pos := 0\<rparr>"
      assume r: "source_eof st1" "decode_buffered budget st1 = Inr (Inr (), ?st)"
      have "stream_state owes ?st k1 []" using r(1) st1(2,3) by (auto simp: stream_state_def undecoded_def)
      with r(2) st1(4,5) show thesis by (intro that [of ?st its "[]" k1]) (simp_all add: undelivered_def)
    qed
  qed
qed

text \<open>One call of \<open>read\<close>.\<close>

lemma stream_read_next:
  assumes "stream_state owes st k its"
  obtains bs st' k' A its' where "stream_read rd budget n st = Some (Inr (Inr bs, st'))" "its = A @ its'" "stream_state owes st' k' its'"
    "undelivered st @ items_data A = bs @ undelivered st'" "length bs \<le> n" "k' \<le> k"
    "bs = [] \<longrightarrow> n = 0 \<or> undelivered st = [] \<and> (its = [] \<or> A \<noteq> [] \<and> items_data A = [] \<or>
       \<not> source_eof st' \<and> found (comp_buf st') \<le> 1 \<and> CHUNK_BYTES \<le> length (comp_buf st'))"
proof (cases "out_pos st < length (out_buf st)")
  case True
  obtain bs st' where s: "serve n st = Inr (Inr bs, st')" "undelivered st = bs @ undelivered st'" "length bs \<le> n"
    "stream_state owes st' k its" "bs = [] \<longrightarrow> n = 0 \<or> undelivered st = []"
    by (rule serve_next [OF assms, of n])
  moreover have "undelivered st \<noteq> []" using True by (simp add: undelivered_def)
  ultimately show thesis using True by (intro that [of bs st' "[]" its k]) (auto simp: stream_read_def)
next
  case False
  then have all: "out_pos st = length (out_buf st)" using assms by (auto simp: stream_state_def)
  then have none: "undelivered st = []" by (simp add: undelivered_def)
  obtain st1 k1 A its' where f: "fill rd budget st = Some (Inr (Inr (), st1))" "its = A @ its'" "stream_state owes st1 k1 its'"
    "undelivered st1 = items_data A" "k1 \<le> k"
    "A = [] \<longrightarrow> its = [] \<or> \<not> source_eof st1 \<and> found (comp_buf st1) \<le> 1 \<and> CHUNK_BYTES \<le> length (comp_buf st1)"
    by (rule fill_next [OF assms all, of budget])
  show thesis
  proof (cases "out_buf st1 = []")
    case True
    then have "undelivered st1 = []" by (simp add: undelivered_def)
    then show thesis using True False f none by (intro that [of "[]" st1 A its' k1]) (auto simp: stream_read_def)
  next
    case nonempty: False
    obtain bs st' where s: "serve n st1 = Inr (Inr bs, st')" "undelivered st1 = bs @ undelivered st'" "length bs \<le> n"
      "stream_state owes st' k1 its'" "bs = [] \<longrightarrow> n = 0 \<or> undelivered st1 = []"
      by (rule serve_next [OF f(3), of n])
    have same: "source_eof st' = source_eof st1 \<and> comp_buf st' = comp_buf st1"
      using s(1) by (auto simp: serve_def Let_def bindE_Inr_iff)
    show thesis using nonempty False f none s same by (intro that [of bs st' A its' k1]) (auto simp: stream_read_def)
  qed
qed

lemma streaming_source: "byte_source (stream_read rd budget) (stream_owes owes)"
proof
  fix st k n w
  assume "stream_owes owes st k w"
  then obtain its where its: "stream_state owes st k its" "w = undelivered st @ items_data its" by (auto simp: stream_owes_def)
  from stream_read_next [OF its(1), of budget n] obtain bs st' k' A its' where r:
    "stream_read rd budget n st = Some (Inr (Inr bs, st'))" "its = A @ its'" "stream_state owes st' k' its'"
    "undelivered st @ items_data A = bs @ undelivered st'" "length bs \<le> n" "k' \<le> k" by metis
  have "w = bs @ (undelivered st' @ items_data its')" using its(2) r(2,4) by (metis append.assoc items_data_simps(3))
  moreover have "stream_owes owes st' k' (undelivered st' @ items_data its')" using r(3) by (auto simp: stream_owes_def)
  ultimately show "(\<exists>bs w' k' s'. stream_read rd budget n st = Some (Inr (Inr bs, s')) \<and> w = bs @ w' \<and> length bs \<le> n \<and> k' \<le> k \<and>
      stream_owes owes s' k' w') \<or> (\<exists>k' s'. stream_read rd budget n st = Some (Inr (Inl Interrupted, s')) \<and> k' < k \<and> stream_owes owes s' k' w)"
    using r(1,5,6) by blast
qed

end

subsection \<open>The streaming reader to the end\<close>

text \<open>
  Every chunk holds the start of a second block, or the end of the file: blocks, with the stream boundaries after
  them, are not longer than a chunk.
\<close>

definition spaced :: "item list \<Rightarrow> bool" where
  "spaced its \<longleftrightarrow> spaced_by (8 * CHUNK_BYTES - 1000) its"

definition steady_owes :: "('s \<Rightarrow> nat \<Rightarrow> u8 list \<Rightarrow> bool) \<Rightarrow> 's stream_reader \<Rightarrow> nat \<Rightarrow> u8 list \<Rightarrow> bool" where
  "steady_owes owes st k w \<longleftrightarrow> (\<exists>its. stream_state owes st k its \<and> spaced its \<and> w = undelivered st @ items_data its)"

lemma spaced_suffix: "spaced (A @ its) \<Longrightarrow> spaced its"
  unfolding spaced_def by (rule spaced_by_suffix)

lemma full_chunk_found:
  assumes "chunk_of m piece later p its" "spaced its" "CHUNK_BYTES \<le> length piece"
  shows "1 < found piece"
proof -
  from assms(1) obtain c B where its: "its = Coded c # B" by (auto simp: chunk_of_def well_formed_def)
  have p: "p \<le> 32" using assms(1) by (simp add: chunk_of_def)
  let ?q = "p + (48 + length (block_bits c))"
  have L: "48 + length (block_bits c) + 119 * length (leading_boundaries B) + 1000 \<le> 8 * CHUNK_BYTES"
    using spaced_byD [OF assms(2) [unfolded spaced_def its]] by (simp add: CHUNK_BYTES_def)
  have "blocks_of B \<noteq> []"
  proof
    assume none: "blocks_of B = []"
    from chunk_ofD(1) [OF assms(1)] obtain rest where "drop p (stream_bits (piece @ later)) = items_bits p its @ rest" "file_end rest"
      by (auto simp: well_formed_def)
    then have "8 * length (piece @ later) \<le> p + length (items_bits p its) + 112"
      using length_drop [of p "stream_bits (piece @ later)"] by (auto simp: file_end_def)
    also have "\<dots> \<le> 32 + (48 + length (block_bits c) + 119 * length (leading_boundaries B)) + 112"
      using only_boundaries [OF none, of ?q] p by (simp add: its)
    finally show False using L assms(3) by simp
  qed
  then have two: "1 < length (blocks_of its)" by (simp add: its)
  have "coded_offsets p its ! 1 \<le> ?q + 119 * length (leading_boundaries B)"
    using after_boundaries [OF \<open>blocks_of B \<noteq> []\<close>, of ?q] by (simp add: its)
  then have "coded_offsets p its ! 1 + 8 * 8 \<le> 8 * length piece" using L p assms(3) by linarith
  from div_le_mono [OF this, of 8] have "coded_offsets p its ! 1 div 8 + 8 \<le> length piece" by simp
  then show ?thesis by (rule found_prefix(3) [OF assms(1) two])
qed

context complete_source
begin

lemma streaming_complete: "complete_source (stream_read rd budget) (steady_owes owes)"
proof
  fix st k n w
  assume "steady_owes owes st k w"
  then obtain its where its: "stream_state owes st k its" "spaced its" "w = undelivered st @ items_data its" by (auto simp: steady_owes_def)
  from stream_read_next [OF its(1), of budget n] obtain bs st' k' A its' where r:
    "stream_read rd budget n st = Some (Inr (Inr bs, st'))" "its = A @ its'" "stream_state owes st' k' its'"
    "undelivered st @ items_data A = bs @ undelivered st'" "length bs \<le> n" "k' \<le> k" by metis
  have "w = bs @ (undelivered st' @ items_data its')" using its(3) r(2,4) by (metis append.assoc items_data_simps(3))
  moreover have "steady_owes owes st' k' (undelivered st' @ items_data its')"
    using r(3) spaced_suffix its(2) unfolding r(2) steady_owes_def by blast
  ultimately show "(\<exists>bs w' k' s'. stream_read rd budget n st = Some (Inr (Inr bs, s')) \<and> w = bs @ w' \<and> length bs \<le> n \<and> k' \<le> k \<and>
      steady_owes owes s' k' w') \<or> (\<exists>k' s'. stream_read rd budget n st = Some (Inr (Inl Interrupted, s')) \<and> k' < k \<and> steady_owes owes s' k' w)"
    using r(1,5,6) by blast
next
  fix st k n w st1
  assume "steady_owes owes st k w" and none: "stream_read rd budget n st = Some (Inr (Inr [], st1))"
  then obtain its where its: "stream_state owes st k its" "spaced its" "w = undelivered st @ items_data its" by (auto simp: steady_owes_def)
  from its(1) obtain later where "undecoded (blocksize st) (source_eof st) (comp_buf st) later its" by (auto simp: stream_state_def)
  then have start: "its \<noteq> [] \<Longrightarrow> \<exists>c B. its = Coded c # B \<and> block_fits (blocksize st) c"
    by (fastforce simp: undecoded_def chunk_of_def well_formed_def)
  obtain bs st' k' A its' where r: "stream_read rd budget n st = Some (Inr (Inr bs, st'))" "its = A @ its'" "stream_state owes st' k' its'"
    "bs = [] \<longrightarrow> n = 0 \<or> undelivered st = [] \<and> (its = [] \<or> A \<noteq> [] \<and> items_data A = [] \<or>
       \<not> source_eof st' \<and> found (comp_buf st') \<le> 1 \<and> CHUNK_BYTES \<le> length (comp_buf st'))"
    by (rule stream_read_next [OF its(1), of budget n])
  have "\<not> (A \<noteq> [] \<and> items_data A = [])"
  proof
    assume A: "A \<noteq> [] \<and> items_data A = []"
    then obtain c B where "A = Coded c # B" "block_fits (blocksize st) c" using start r(2) by (cases A) auto
    then show False using fits_data A by simp
  qed
  moreover have "\<not> (\<not> source_eof st' \<and> found (comp_buf st') \<le> 1 \<and> CHUNK_BYTES \<le> length (comp_buf st'))"
  proof
    assume stuck: "\<not> source_eof st' \<and> found (comp_buf st') \<le> 1 \<and> CHUNK_BYTES \<le> length (comp_buf st')"
    then obtain later p where "chunk_of (blocksize st') (comp_buf st') later p its'"
      using r(3) by (auto simp: stream_state_def undecoded_def)
    from full_chunk_found [OF this] spaced_suffix its(2) stuck show False unfolding r(2) by fastforce
  qed
  ultimately show "n = 0 \<or> w = []" using r(1,4) none its(3) by auto
qed

end

subsection \<open>The slice reader keeps the contract\<close>

definition slice_owes :: "slice_reader \<Rightarrow> nat \<Rightarrow> u8 list \<Rightarrow> bool" where
  "slice_owes st k w \<longleftrightarrow> next_block st \<le> length (boundaries st) \<and> batch_pos st \<le> length (batch_buf st) \<and>
     (\<exists>ds. mapE (decode_at (slice_data st) (slice_blocksize st)) (boundaries st) = Inr ds \<and> (\<forall>d\<in>set ds. d \<noteq> []) \<and>
        w = drop (batch_pos st) (batch_buf st) @ concat (drop (next_block st) ds))"

lemma batch_total_all: "batch_total n (map Inr vs) = Inr (n + length (concat vs))"
  by (induction vs arbitrary: n) simp_all

lemma batch_total_sound: "batch_total n rs = Inr t \<Longrightarrow> extend_out out rs = (Inr (), out @ concat (map projr rs))"
  by (induction n rs arbitrary: out rule: batch_total.induct) simp_all

lemma batch_total_error: "batch_total n rs = Inl e \<Longrightarrow> \<exists>msg. e = InvalidData msg"
  by (induction n rs rule: batch_total.induct) auto

lemma fill_batch_next:
  assumes "slice_owes st k w" "batch_pos st = length (batch_buf st)"
  obtains st' where "fill_batch budget st = Inr (Inr (), st')" "slice_owes st' k w" "batch_buf st' = [] \<longrightarrow> w = []" "batch_pos st' = 0"
proof -
  from assms obtain ds where ds: "mapE (decode_at (slice_data st) (slice_blocksize st)) (boundaries st) = Inr ds" "\<forall>d\<in>set ds. d \<noteq> []"
      and w: "w = concat (drop (next_block st) ds)" and le: "next_block st \<le> length (boundaries st)"
    by (auto simp: slice_owes_def)
  have len: "length ds = length (boundaries st)" using ds(1) by (simp add: mapE_Inr_iff)
  show thesis
  proof (cases "length (boundaries st) - next_block st = 0")
    case True
    then show thesis using ds w le len
      by (intro that [of "st\<lparr>batch_buf := [], batch_pos := 0\<rparr>"]) (auto simp: fill_batch_def slice_owes_def guard_def)
  next
    case False
    let ?e = "next_block st + min (length (boundaries st) - next_block st) BATCH_SIZE"
    let ?batch = "drop (next_block st) (take ?e (boundaries st))" and ?ds = "drop (next_block st) (take ?e ds)"
    have e: "next_block st < ?e" "?e \<le> length (boundaries st)" using False by (simp_all add: BATCH_SIZE_def)
    have "mapE (decode_at (slice_data st) (slice_blocksize st)) ?batch = Inr ?ds"
      using ds(1) e len by (auto simp: mapE_Inr_iff)
    from mapE_caught [OF this] have batch: "decode_batch budget (slice_data st) (slice_blocksize st) ?batch = Inr (map Inr ?ds)"
      unfolding decode_batch_def by (simp only: pm.over_list)
    let ?st = "st\<lparr>batch_buf := concat ?ds, batch_pos := 0, next_block := ?e\<rparr>"
    have fill: "fill_batch budget st = Inr (Inr (), ?st)"
      using False le batch_total_all [of 0 ?ds] extend_out_all [of "[]" ?ds] unfolding fill_batch_def
      by (simp add: guard_def Let_def batch del: map_map batch_total.simps)
    have "drop (next_block st) ds = ?ds @ drop ?e ds"
      using append_take_drop_id [of ?e ds] e by (metis drop_append drop_take diff_is_0_eq drop_0 length_take less_imp_le_nat min.absorb2 len)
    then have "w = concat ?ds @ concat (drop ?e ds)" using w by (metis concat_append)
    then have owes: "slice_owes ?st k w" using ds e(2) by (auto simp: slice_owes_def)
    have "concat ?ds \<noteq> []"
    proof -
      have "?ds ! 0 \<in> set ?ds" using e len by (intro nth_mem) simp
      moreover have "set ?ds \<subseteq> set ds" by (meson set_drop_subset set_take_subset subset_trans)
      ultimately show ?thesis using ds(2) by auto
    qed
    moreover have st: "batch_buf ?st = concat ?ds" by simp
    ultimately have "batch_buf ?st = [] \<longrightarrow> w = []" unfolding st by blast
    then show thesis by (rule that [OF fill owes]) simp
  qed
qed

lemma slice_read_next:
  assumes "slice_owes st k w"
  obtains bs w' st' where "slice_reader_read budget n st = Some (Inr (Inr bs, st'))" "w = bs @ w'" "length bs \<le> n" "slice_owes st' k w'"
    "bs = [] \<longrightarrow> n = 0 \<or> w = []"
proof -
  text \<open>Serving from a state with something to deliver, or with nothing left.\<close>
  have serve: "\<exists>bs w' st'. bindE (guard (batch_pos st1 \<le> length (batch_buf st1)) (Panic ''slice start past its end'')) (\<lambda>_.
         let available = drop (batch_pos st1) (batch_buf st1); j = min n (length available)
         in Inr (Inr (take j available), st1\<lparr>batch_pos := batch_pos st1 + j\<rparr>)) = Inr (Inr bs, st') \<and>
       w = bs @ w' \<and> length bs \<le> n \<and> slice_owes st' k w' \<and> (bs = [] \<longrightarrow> n = 0)"
    if owes: "slice_owes st1 k w" and more: "batch_pos st1 < length (batch_buf st1)" for st1
  proof -
    let ?a = "drop (batch_pos st1) (batch_buf st1)" and ?j = "min n (length (batch_buf st1) - batch_pos st1)"
    let ?st = "st1\<lparr>batch_pos := batch_pos st1 + ?j\<rparr>"
    from owes obtain ds where ds: "mapE (decode_at (slice_data st1) (slice_blocksize st1)) (boundaries st1) = Inr ds" "\<forall>d\<in>set ds. d \<noteq> []"
        "w = ?a @ concat (drop (next_block st1) ds)" "next_block st1 \<le> length (boundaries st1)" by (auto simp: slice_owes_def)
    have "?a = take ?j ?a @ drop (batch_pos st1 + ?j) (batch_buf st1)"
      using append_take_drop_id [of ?j ?a] by (simp add: add.commute)
    then have "w = take ?j ?a @ (drop (batch_pos st1 + ?j) (batch_buf st1) @ concat (drop (next_block st1) ds))"
      using ds(3) by (metis append.assoc)
    moreover have "slice_owes ?st k (drop (batch_pos st1 + ?j) (batch_buf st1) @ concat (drop (next_block st1) ds))"
      unfolding slice_owes_def using ds more by auto
    ultimately show ?thesis using more
      by - (rule exI [of _ "take ?j ?a"], rule exI [of _ "drop (batch_pos st1 + ?j) (batch_buf st1) @ concat (drop (next_block st1) ds)"],
          rule exI [of _ ?st], auto simp: guard_def Let_def)
  qed
  show thesis
  proof (cases "length (batch_buf st) \<le> batch_pos st")
    case False
    then show thesis using serve [OF assms] that by (auto simp: slice_reader_read_def)
  next
    case True
    then have "batch_pos st = length (batch_buf st)" using assms by (auto simp: slice_owes_def)
    from fill_batch_next [OF assms this, of budget] obtain st1 where f: "fill_batch budget st = Inr (Inr (), st1)" "slice_owes st1 k w"
      "batch_buf st1 = [] \<longrightarrow> w = []" "batch_pos st1 = 0" by blast
    show thesis
    proof (cases "batch_buf st1 = []")
      case empty: True
      then show thesis using f True by (intro that [of "[]" st1 w]) (simp_all add: slice_reader_read_def)
    next
      case nonempty: False
      then show thesis using serve [OF f(2)] f(1,4) True that by (auto simp: slice_reader_read_def)
    qed
  qed
qed

interpretation slice_reader: complete_source "slice_reader_read budget" slice_owes for budget
proof
  fix st k n w
  assume "slice_owes st k w"
  from slice_read_next [OF this, of budget n] obtain bs w' st' where
    "slice_reader_read budget n st = Some (Inr (Inr bs, st'))" "w = bs @ w'" "length bs \<le> n" "slice_owes st' k w'" by metis
  then show "(\<exists>bs w' k' s'. slice_reader_read budget n st = Some (Inr (Inr bs, s')) \<and> w = bs @ w' \<and> length bs \<le> n \<and> k' \<le> k \<and>
      slice_owes s' k' w') \<or> (\<exists>k' s'. slice_reader_read budget n st = Some (Inr (Inl Interrupted, s')) \<and> k' < k \<and> slice_owes s' k' w)"
    by blast
next
  fix st k n w st1
  assume "slice_owes st k w" "slice_reader_read budget n st = Some (Inr (Inr [], st1))"
  then show "n = 0 \<or> w = []" by (auto elim: slice_read_next [of st k w budget n])
qed

subsection \<open>Opening a file\<close>

lemma check_header_bytes:
  assumes "1 \<le> level" "level \<le> 9"
  shows "check_header (header_bytes level @ rest) = Inr (100000 * level)"
proof -
  have "level \<in> {1, 2, 3, 4, 5, 6, 7, 8, 9}" using assms by auto
  then show ?thesis by (auto simp: check_header_def header_bytes_def Let_def index_def guard_def)
qed

context complete_source
begin

lemma stream_new_opens:
  assumes "1 \<le> level" "level \<le> 9" "owes src k (header_bytes level @ body)"
    and "well_formed (100000 * level) (header_bytes level @ body) 32 its" "\<forall>b\<in>set (blocks_of its). block_fits (100000 * level) b"
  obtains st k' where "stream_new rd src = Some (Inr st)" "stream_state owes st k' its" "undelivered st = []" "k' \<le> k"
proof -
  have len: "length (header_bytes level) = 4" by (simp add: header_bytes_def)
  obtain k' s' where r: "read_exact rd 4 [] src = Some (Inr (Inr ([] @ take (4 - length ([] :: u8 list)) (header_bytes level @ body)), s'))"
      "k' \<le> k" "owes s' k' (drop (4 - length ([] :: u8 list)) (header_bytes level @ body))"
    by (rule exact_enough [OF assms(3), of 4 "[]"]) (simp_all add: len)
  then have "read_exact rd 4 [] src = Some (Inr (Inr (header_bytes level), s'))" "owes s' k' body" using len by simp_all
  moreover have "check_header (header_bytes level) = Inr (100000 * level)"
    using check_header_bytes [OF assms(1,2), of "[]"] by simp
  ultimately show thesis using assms(4,5) r(2)
    by (intro that [of "\<lparr>source = s', blocksize = 100000 * level, comp_buf = header_bytes level, out_buf = [], out_pos = 0, source_eof = False\<rparr>" k'])
      (auto simp: stream_new_def stream_state_def undecoded_def chunk_of_def undelivered_def)
qed

end

subsection \<open>Properties\<close>

text \<open>
  C33. The streaming reader over any source that keeps the contract of \<open>Read\<close>, however the source cuts its bytes up and
  however often it is interrupted: the file opens, and every sequence of calls returns bytes that are, in order, the
  first of the data of all blocks of all streams of the file. None is lost, repeated or moved, across chunks too.
\<close>

theorem streaming_reads_in_order:
  assumes "complete_source rd owes" "owes src k (header_bytes level @ body)" "1 \<le> level" "level \<le> 9"
    and "well_formed (100000 * level) (header_bytes level @ body) 32 its" "\<forall>b\<in>set (blocks_of its). block_fits (100000 * level) b"
  shows "\<exists>st. stream_new rd src = Some (Inr st) \<and>
    (\<forall>ns. \<exists>out rest st'. read_calls (stream_read rd budget) ns st = Some (Inr (Inr out, st')) \<and> items_data its = out @ rest)"
proof -
  obtain st k' where st: "stream_new rd src = Some (Inr st)" "stream_state owes st k' its" "undelivered st = []"
    by (rule complete_source.stream_new_opens [OF assms(1,3,4,2,5,6)])
  then have "stream_owes owes st k' (items_data its)" by (auto simp: stream_owes_def)
  from byte_source.calls_in_order [OF complete_source.streaming_source [OF assms(1)] this, of budget]
  have "\<exists>out rest st'. read_calls (stream_read rd budget) ns st = Some (Inr (Inr out, st')) \<and> items_data its = out @ rest" for ns
    by metis
  with st(1) show ?thesis by blast
qed

text \<open>
  C34. When no block, with the stream boundaries after it, is longer than a chunk, the streaming reader ends: enough calls with room
  for at least a byte return the data of the whole file, and it never reports the end before.
\<close>

theorem streaming_reads_all:
  assumes "complete_source rd owes" "owes src k (header_bytes level @ body)" "1 \<le> level" "level \<le> 9"
    and "well_formed (100000 * level) (header_bytes level @ body) 32 its" "\<forall>b\<in>set (blocks_of its). block_fits (100000 * level) b"
    and "spaced its" "\<forall>n\<in>set ns. 0 < n" "k + length (items_data its) \<le> length ns"
  shows "\<exists>st st'. stream_new rd src = Some (Inr st) \<and>
    read_calls (stream_read rd budget) ns st = Some (Inr (Inr (items_data its), st'))"
proof -
  obtain st k' where st: "stream_new rd src = Some (Inr st)" "stream_state owes st k' its" "undelivered st = []" "k' \<le> k"
    by (rule complete_source.stream_new_opens [OF assms(1,3,4,2,5,6)])
  then have owes: "steady_owes owes st k' (items_data its)" using assms(7) by (auto simp: steady_owes_def)
  have "k' + length (items_data its) \<le> length ns" using st(4) assms(9) by simp
  from complete_source.calls_complete [OF complete_source.streaming_complete [OF assms(1)] owes assms(8) this, of budget]
  obtain st' where "read_calls (stream_read rd budget) ns st = Some (Inr (Inr (items_data its), st'))" by metis
  with st(1) show ?thesis by blast
qed

lemma sample_spaced: "spaced [Coded sample_block]"
  by (auto simp: spaced_def spaced_by_def Cons_eq_append_conv sample_block_bits CHUNK_BYTES_def)

theorem streaming_reads_in_order_witness:
  "\<exists>st out rest st'. stream_new slice_read (header_bytes 9 @ sample_body) = Some (Inr st) \<and>
     read_calls (stream_read slice_read 4) [1] st = Some (Inr (Inr out, st')) \<and> [98, 97] = out @ rest"
proof -
  have "(1 :: nat) \<le> 9" "(9 :: nat) \<le> 9" by simp_all
  from streaming_reads_in_order [OF slice.complete_source_axioms refl this sample_well_formed_9 sample_blocks_fit, of 4]
  show ?thesis unfolding sample_data by blast
qed

theorem streaming_reads_all_witness:
  "\<exists>st st'. stream_new slice_read (header_bytes 9 @ sample_body) = Some (Inr st) \<and>
     read_calls (stream_read slice_read 4) [1, 5, 1] st = Some (Inr (Inr [98, 97], st'))"
  using streaming_reads_all [OF slice.complete_source_axioms refl _ _ sample_well_formed_9 sample_blocks_fit sample_spaced, of "[1, 5, 1]" 0 4]
  by (simp add: sample_data del: items_data_simps)

text \<open>
  C35. A full chunk with fewer than two block starts: \<open>read\<close> returns no bytes, which a caller takes for the end of the
  file, although the source has not ended and nothing of the chunk has been decoded.
\<close>

theorem streaming_premature_end:
  assumes "\<not> source_eof st" "out_pos st = length (out_buf st)"
    and "fill_loop rd CHUNK_BYTES [] (source st) = Some (Inr (Inr False, got, s1))" "length (find_all_blocks (comp_buf st @ got)) \<le> 1"
  shows "stream_read rd budget n st = Some (Inr (Inr [], st\<lparr>source := s1, comp_buf := comp_buf st @ got, source_eof := False\<rparr>))"
proof -
  let ?st = "st\<lparr>source := s1, comp_buf := comp_buf st @ got, source_eof := False\<rparr>"
  have "decode_buffered budget ?st = Inr (Inr (), ?st)" using assms(4) by (simp add: decode_buffered_def Let_def)
  then have "fill rd budget st = Some (Inr (Inr (), ?st))" using assms(1,3) by (simp add: fill_def read_more_def)
  then show ?thesis using assms(2) by (simp add: stream_read_def serve_def guard_def Let_def)
qed

theorem streaming_premature_end_witness:
  "\<exists>st. stream_read slice_read 4 10 \<lparr>source = lone_magic 0 (2 * CHUNK_BYTES), blocksize = 900000, comp_buf = [], out_buf = [],
       out_pos = 0, source_eof = False\<rparr> = Some (Inr (Inr [], st)) \<and> source st \<noteq> []"
proof -
  let ?src = "lone_magic 0 (2 * CHUNK_BYTES)"
  have c: "0 < CHUNK_BYTES" "8 \<le> CHUNK_BYTES" by (simp_all add: CHUNK_BYTES_def)
  have got: "take CHUNK_BYTES ?src = lone_magic 0 (CHUNK_BYTES - 6)"
  proof -
    have "take (6 + k) (lone_magic 0 b) = lone_magic 0 k" if "k \<le> b" for k b
      using that by (simp add: lone_magic_def min_def numeral_eq_Suc)
    from this [of "CHUNK_BYTES - 6" "2 * CHUNK_BYTES"] show ?thesis using c(2) by simp
  qed
  have "fill_loop slice_read CHUNK_BYTES [] ?src = Some (Inr (Inr False, take CHUNK_BYTES ?src, drop CHUNK_BYTES ?src))"
  proof -
    have "take CHUNK_BYTES ?src \<noteq> []" using c by (simp add: lone_magic_def)
    moreover have "\<not> length (take CHUNK_BYTES ?src) < CHUNK_BYTES" using c by simp
    then have "fill_loop slice_read CHUNK_BYTES (take CHUNK_BYTES ?src) (drop CHUNK_BYTES ?src) =
        Some (Inr (Inr False, take CHUNK_BYTES ?src, drop CHUNK_BYTES ?src))"
      by (subst fill_loop.simps) simp
    ultimately show ?thesis using c by (subst fill_loop.simps) (simp add: slice_read_def)
  qed
  moreover have "length (find_all_blocks (lone_magic 0 (CHUNK_BYTES - 6))) \<le> 1"
  proof -
    have "sorted_wrt (\<lambda>a b. bit_offset a + 48 \<le> bit_offset b) (find_all_blocks (lone_magic 0 (CHUNK_BYTES - 6)))"
      using find_all_from_spec [of "lone_magic 0 (CHUNK_BYTES - 6)" 0] by (simp add: find_all_blocks_def)
    moreover have "\<forall>b\<in>set (find_all_blocks (lone_magic 0 (CHUNK_BYTES - 6))). bit_offset b = 0"
      using found_magic [of _ "lone_magic 0 (CHUNK_BYTES - 6)"] by (auto simp: lone_magic_at)
    moreover have "length bs \<le> 1" if "sorted_wrt (\<lambda>a b. bit_offset a + 48 \<le> bit_offset b) bs" "\<forall>b\<in>set bs. bit_offset b = 0" for bs
      using that by (cases bs rule: list.exhaust; cases "tl bs") auto
    ultimately show ?thesis by blast
  qed
  ultimately show ?thesis using c
    by (subst streaming_premature_end [where got = "take CHUNK_BYTES ?src" and ?s1.0 = "drop CHUNK_BYTES ?src"]) (simp_all add: got)
qed

text \<open>
  C36. The slice reader on any well-formed file: it finds one boundary per block, and enough calls with room for at least a byte
  return the data of the whole file; after any calls the bytes returned are the first ones of the data.
\<close>

theorem slice_reader_reads_all:
  assumes "1 \<le> level" "level \<le> 9" "well_formed (100000 * level) (header_bytes level @ body) 32 its"
    and "\<forall>b\<in>set (blocks_of its). block_fits (100000 * level) b"
  shows "\<exists>st. slice_new (header_bytes level @ body) = Inr st \<and> block_count st = length (blocks_of its) \<and>
    (\<forall>ns. \<exists>out rest st'. read_calls (slice_reader_read budget) ns st = Some (Inr (Inr out, st')) \<and> items_data its = out @ rest \<and>
       ((\<forall>n\<in>set ns. 0 < n) \<and> length (items_data its) \<le> length ns \<longrightarrow> rest = []))"
proof -
  let ?data = "header_bytes level @ body" and ?m = "100000 * level"
  have ch: "chunk_of ?m ?data [] 32 its" using assms(3,4) by (simp add: chunk_of_def)
  let ?st = "\<lparr>slice_data = ?data, slice_blocksize = ?m, boundaries = find_all_blocks ?data, next_block = 0, batch_buf = [], batch_pos = 0\<rparr>"
  have st: "slice_new ?data = Inr ?st"
    using check_header_bytes [OF assms(1,2), of body] by (simp add: slice_new_def guard_def) (simp add: header_bytes_def)
  have all: "length (find_all_blocks ?data) = length (blocks_of its)" using found_all [OF ch] by (simp add: found_def)
  have "mapE (decode_at ?data ?m) (find_all_blocks ?data) = Inr (map block_data (blocks_of its))"
    using decode_items [OF ch order_refl] found_all [OF ch] all by simp
  moreover have "\<forall>d\<in>set (map block_data (blocks_of its)). d \<noteq> []" using assms(4) fits_data by auto
  ultimately have owes: "slice_owes ?st 0 (items_data its)" by (simp add: slice_owes_def items_data_blocks)
  have "\<exists>out rest st'. read_calls (slice_reader_read budget) ns ?st = Some (Inr (Inr out, st')) \<and> items_data its = out @ rest \<and>
       ((\<forall>n\<in>set ns. 0 < n) \<and> length (items_data its) \<le> length ns \<longrightarrow> rest = [])" for ns
  proof (cases "(\<forall>n\<in>set ns. 0 < n) \<and> length (items_data its) \<le> length ns")
    case True
    then have "\<forall>n\<in>set ns. 0 < n" "0 + length (items_data its) \<le> length ns" by simp_all
    from slice_reader.calls_complete [OF owes this, of budget] show ?thesis by (metis append_Nil2)
  next
    case False
    from slice_reader.calls_in_order [OF owes, of budget ns] show ?thesis using False by metis
  qed
  moreover have "block_count ?st = length (blocks_of its)" using all by (simp add: block_count_def)
  ultimately show ?thesis using st by blast
qed

theorem slice_reader_reads_all_witness:
  "\<exists>st out st'. slice_new (header_bytes 9 @ sample_body) = Inr st \<and> block_count st = 1 \<and>
     read_calls (slice_reader_read 4) [3, 1] st = Some (Inr (Inr [98, 97], st'))"
proof -
  have "(1 :: nat) \<le> 9" "(9 :: nat) \<le> 9" by simp_all
  from slice_reader_reads_all [OF this sample_well_formed_9 sample_blocks_fit, of 4] obtain st where
    st: "slice_new (header_bytes 9 @ sample_body) = Inr st" "block_count st = length (blocks_of [Coded sample_block])"
      "\<forall>ns. \<exists>out rest st'. read_calls (slice_reader_read 4) ns st = Some (Inr (Inr out, st')) \<and> [98, 97] = out @ rest \<and>
       ((\<forall>n\<in>set ns. 0 < n) \<and> length [98 :: u8, 97] \<le> length ns \<longrightarrow> rest = [])"
    unfolding sample_data by blast
  from st(3) [THEN spec, of "[3, 1]"] obtain out rest st' where
    "read_calls (slice_reader_read 4) [3, 1] st = Some (Inr (Inr out, st'))" "[98, 97] = out @ rest" "rest = []" by auto
  with st(1,2) show ?thesis by auto
qed

lemma fill_batch_error:
  assumes "fill_batch budget st = Inr (Inl e, st')"
  shows "st' = st \<and> (\<exists>msg. e = InvalidData msg)"
proof -
  let ?e = "next_block st + min (length (boundaries st) - next_block st) BATCH_SIZE"
  have le: "next_block st \<le> length (boundaries st)" and more: "length (boundaries st) - next_block st \<noteq> 0"
    using assms by (auto simp: fill_batch_def guard_def Let_def split: if_splits)
  obtain results where r: "decode_batch budget (slice_data st) (slice_blocksize st) (drop (next_block st) (take ?e (boundaries st))) = Inr results"
    using assms le more by (cases "decode_batch budget (slice_data st) (slice_blocksize st) (drop (next_block st) (take ?e (boundaries st)))")
      (simp_all add: fill_batch_def guard_def Let_def)
  show ?thesis
  proof (cases "batch_total 0 results")
    case (Inr t)
    then show ?thesis using assms le more r batch_total_sound [OF Inr, of "[]"] by (simp add: fill_batch_def guard_def Let_def)
  next
    case (Inl e')
    then have "\<exists>msg. e' = InvalidData msg" by (rule batch_total_error)
    then show ?thesis using assms le more r Inl by (auto simp: fill_batch_def guard_def Let_def)
  qed
qed

text \<open>
  An error of the slice reader is final: it leaves the reader as it was, so that every later call, with any buffer, reports the
  same error again and no byte is skipped.
\<close>

theorem slice_reader_error_repeats:
  assumes "slice_reader_read budget n st = Some (Inr (Inl e, st'))"
  shows "st' = st \<and> (\<exists>msg. e = InvalidData msg) \<and> (\<forall>n'. slice_reader_read budget n' st = Some (Inr (Inl e, st)))"
proof -
  have empty: "length (batch_buf st) \<le> batch_pos st"
    using assms by (rule contrapos_pp) (auto simp: slice_reader_read_def Let_def guard_def split: if_splits)
  then have fill: "fill_batch budget st = Inr (Inl e, st')"
    using assms by (cases "fill_batch budget st")
      (auto simp: slice_reader_read_def Let_def guard_def split: sum.splits if_splits)
  then have "st' = st \<and> (\<exists>msg. e = InvalidData msg)" by (rule fill_batch_error)
  with fill empty show ?thesis by (simp add: slice_reader_read_def)
qed

theorem slice_reader_error_repeats_witness:
  "\<exists>st msg. slice_new sample_cut = Inr st \<and> (\<forall>n'. slice_reader_read 4 n' st = Some (Inr (Inl (InvalidData msg), st)))"
proof -
  let ?st = "\<lparr>slice_data = sample_cut, slice_blocksize = 100000 * 9, boundaries = find_all_blocks sample_cut, next_block = 0,
    batch_buf = [], batch_pos = 0\<rparr>"
  have "check_header sample_cut = Inr (100000 * 9)" unfolding sample_cut_def by (rule check_header_bytes) simp_all
  then have st: "slice_new sample_cut = Inr ?st" by (simp add: slice_new_def guard_def)
  have "decode_batch 4 sample_cut (100000 * 9) [\<lparr>bit_offset = 32\<rparr>] = Inr [Inl ''block CRC truncated'']"
    by (simp add: decode_batch_def par_map_def decode_at_short index_def)
  then have "fill_batch 4 ?st = Inr (Inl (InvalidData ''block CRC truncated''), ?st)"
    using sample_cut_blocks by (simp add: fill_batch_def guard_def Let_def BATCH_SIZE_def)
  then have "slice_reader_read 4 1 ?st = Some (Inr (Inl (InvalidData ''block CRC truncated''), ?st))"
    by (simp add: slice_reader_read_def)
  from slice_reader_error_repeats [OF this] st show ?thesis by blast
qed

end
