(* ===== verification/Core_Count.thy ===== *)
theory Core_Count
  imports Par_Map
begin

text \<open>
  The arguments of \<open>bin/lbunzip2.rs\<close>, and how many workers it starts: the value of \<open>LBZIP2_THREADS\<close>, or the physical cores listed under
  \<open>/sys/devices/system/cpu\<close>. The directory is an argument: its entries, each with the contents of its two topology files,
  where they can be read. The contents are ASCII.
\<close>

record cpu_entry =
  entry_name :: "string option"
  package_file :: "string option"
  core_file :: "string option"

definition is_space :: "char \<Rightarrow> bool" where
  "is_space c \<longleftrightarrow> c = CHR '' '' \<or> (9 \<le> (of_char c :: nat) \<and> (of_char c :: nat) \<le> 13)"

definition trim :: "string \<Rightarrow> string" where
  "trim s = rev (dropWhile is_space (rev (dropWhile is_space s)))"

definition parse_u32 :: "string \<Rightarrow> nat option" where
  "parse_u32 s = (case parse_usize s of Some n \<Rightarrow> if n < 2 ^ 32 then Some n else None | None \<Rightarrow> None)"

definition is_digit :: "char \<Rightarrow> bool" where
  "is_digit c \<longleftrightarrow> 48 \<le> (of_char c :: nat) \<and> (of_char c :: nat) \<le> 57"

definition package_of :: "cpu_entry \<Rightarrow> nat" where
  "package_of e = (case Option.bind (package_file e) (\<lambda>s. parse_u32 (trim s)) of Some p \<Rightarrow> p | None \<Rightarrow> 0)"

definition core_of :: "cpu_entry \<Rightarrow> nat option" where
  "core_of e = Option.bind (core_file e) (\<lambda>s. parse_u32 (trim s))"

text \<open>The loop over the entries; an entry that cannot be read, a name that is not Unicode and the name \<open>cpu\<close> end the function.\<close>

fun core_ids :: "cpu_entry option list \<Rightarrow> (nat \<times> nat) list \<Rightarrow> (nat \<times> nat) list option" where
  "core_ids [] ids = Some ids"
| "core_ids (None # es) ids = None"
| "core_ids (Some e # es) ids =
     (case entry_name e of
        None \<Rightarrow> None
      | Some name \<Rightarrow>
          if take 3 name \<noteq> ''cpu'' then core_ids es ids
          else if drop 3 name = [] then None
          else if \<not> is_digit (name ! 3) then core_ids es ids
          else core_ids es (case core_of e of Some core \<Rightarrow> List.insert (package_of e, core) ids | None \<Rightarrow> ids))"

definition physical_cores :: "cpu_entry option list option \<Rightarrow> nat option \<Rightarrow> nat option" where
  "physical_cores dir avail =
     Option.bind (Option.bind dir (\<lambda>es. core_ids es [])) (\<lambda>ids. if ids \<noteq> [] then Some (length ids) else avail)"

definition main_workers :: "string option \<Rightarrow> cpu_entry option list option \<Rightarrow> nat option \<Rightarrow> nat" where
  "main_workers env dir avail =
     (case Option.bind env parse_usize of
        Some n \<Rightarrow> n
      | None \<Rightarrow> (case physical_cores dir avail of Some n \<Rightarrow> n | None \<Rightarrow> 4))"

subsection \<open>The arguments of the program\<close>

text \<open>\<open>None\<close> is the exit with the usage message.\<close>

definition main_args :: "string list \<Rightarrow> (string \<times> string) option" where
  "main_args args =
     (if length args < 2 then None
      else let input_path = args ! 1 in
        Some (input_path,
          if length args > 2 then args ! 2
          else if 4 \<le> length input_path \<and> drop (length input_path - 4) input_path = ''.bz2'' then take (length input_path - 4) input_path
          else input_path @ ''.out''))"

lemma main_args_strip: "main_args [prog, name @ ''.bz2''] = Some (name @ ''.bz2'', name)"
  by (simp add: main_args_def)

subsection \<open>Each core counts once\<close>

definition is_cpu :: "cpu_entry \<Rightarrow> bool" where
  "is_cpu e \<longleftrightarrow> (\<exists>name. entry_name e = Some name \<and> take 3 name = ''cpu'' \<and> drop 3 name \<noteq> [] \<and> is_digit (name ! 3))"

definition listed_cores :: "cpu_entry option list \<Rightarrow> (nat \<times> nat) set" where
  "listed_cores es = {(package_of e, core) | e core. Some e \<in> set es \<and> is_cpu e \<and> core_of e = Some core}"

lemma listed_cores_Cons:
  "listed_cores (Some e # es) = (case core_of e of Some core \<Rightarrow> if is_cpu e then {(package_of e, core)} else {} | None \<Rightarrow> {}) \<union> listed_cores es"
  by (auto simp: listed_cores_def split: option.splits)

lemma core_ids_set:
  assumes "core_ids es ids = Some out" "distinct ids"
  shows "distinct out \<and> set out = set ids \<union> listed_cores es"
  using assms
proof (induction es ids rule: core_ids.induct)
  case (3 e es ids)
  then show ?case
    by (auto simp: listed_cores_Cons is_cpu_def split: option.splits if_splits)
qed (simp_all add: listed_cores_def)

lemma physical_cores_count:
  assumes "physical_cores (Some es) avail = Some n" "listed_cores es \<noteq> {}"
  shows "n = card (listed_cores es)"
proof -
  obtain ids where ids: "core_ids es [] = Some ids" "n = (if ids \<noteq> [] then length ids else the avail)"
    using assms(1) by (auto simp: physical_cores_def bind_eq_Some_conv split: if_splits)
  have set: "distinct ids" "set ids = listed_cores es" using core_ids_set [OF ids(1)] by simp_all
  with assms(2) have "ids \<noteq> []" by auto
  with ids(2) distinct_card [OF set(1)] set(2) show ?thesis by simp
qed

end
