(* ===== verification/Long_File.thy ===== *)
theory Long_File
  imports File_Items
begin

text \<open>
  Files as long as one likes: the sample stream any number of times. They are well-formed and their blocks are close together,
  so the theorems about files of more than one chunk apply to them.
\<close>

definition sample_stream :: "u8 list" where "sample_stream = header_bytes 9 @ sample_body"

primrec long_file :: "nat \<Rightarrow> u8 list" where
  "long_file 0 = sample_stream"
| "long_file (Suc n) = sample_stream @ long_file n"

primrec long_items :: "nat \<Rightarrow> item list" where
  "long_items 0 = [Coded sample_block]"
| "long_items (Suc n) = Coded sample_block # Boundary 0 9 # long_items n"

lemma stream_bits_sample: "stream_bits sample_stream =
    stream_bits (header_bytes 9) @ magic_bits BLOCK_MAGIC @ sample_bits @ magic_bits FINAL_MAGIC @ replicate 35 False"
  by (simp add: sample_stream_def stream_bits_append sample_body_bits blocks_bits_def sample_block_bits)

lemma length_sample_stream: "length sample_stream = 37"
proof -
  have "length (stream_bits sample_stream) = 296" unfolding stream_bits_sample by (simp add: magic_bits_def header_9_bits)
  then show ?thesis by simp
qed

lemma length_long_file: "length (long_file n) = 37 * (n + 1)"
  by (induction n) (simp_all add: length_sample_stream)

lemma long_file_starts: "take 37 (long_file n) = sample_stream"
  by (cases n) (simp_all add: length_sample_stream)

subsection \<open>The items are the bits of the file\<close>

lemma long_items_bits: "drop 32 (stream_bits (long_file n)) = items_bits 32 (long_items n) @ magic_bits FINAL_MAGIC @ replicate 35 False"
proof (induction n)
  case 0
  show ?case by (simp add: stream_bits_sample sample_block_bits header_9_bits)
next
  case (Suc n)
  have "stream_bits (long_file n) = stream_bits (header_bytes 9) @ drop 32 (stream_bits (long_file n))"
    by (cases n) (simp_all add: stream_bits_append stream_bits_sample header_9_bits)
  then have bits: "stream_bits (long_file n) = stream_bits (header_bytes 9) @ items_bits 32 (long_items n) @ magic_bits FINAL_MAGIC @ replicate 35 False"
    using Suc by simp
  have "items_bits 328 (long_items n) = items_bits 32 (long_items n)" using items_bits_shift [of 37 32 "long_items n"] by simp
  moreover have "replicate 32 False @ replicate 3 False @ w = replicate 35 False @ w" for w
    by (simp flip: append_assoc replicate_add)
  ultimately show ?case
    by (simp add: stream_bits_append stream_bits_sample bits sample_block_bits header_9_bits pad_length_def nat_bits_0)
qed

subsection \<open>The magics of the file\<close>

lemma sample_twice_magics:
  "occurrences (magic_bits BLOCK_MAGIC) (stream_bits (header_bytes 9) @ magic_bits BLOCK_MAGIC @ sample_bits @
     magic_bits FINAL_MAGIC @ replicate 35 False @ stream_bits (header_bytes 9) @ take 16 (magic_bits BLOCK_MAGIC)) 0 = [32]"
  unfolding block_magic_bits final_magic_bits header_9_bits by code_simp

lemma magic_at_later: "magic_at data (8 * k + q) \<Longrightarrow> magic_at (drop k data) q"
  by (auto simp: magic_at_def stream_bits_drop add.commute)

lemma sample_twice_at:
  assumes "magic_at (sample_stream @ take 6 sample_stream) q"
  shows "q = 32"
proof -
  have "stream_bits (take 6 sample_stream) = stream_bits (header_bytes 9) @ take 16 (magic_bits BLOCK_MAGIC)"
    unfolding stream_bits_take stream_bits_sample by (simp add: header_9_bits)
  then have "stream_bits (sample_stream @ take 6 sample_stream) = stream_bits (header_bytes 9) @ magic_bits BLOCK_MAGIC @ sample_bits @
     magic_bits FINAL_MAGIC @ replicate 35 False @ stream_bits (header_bytes 9) @ take 16 (magic_bits BLOCK_MAGIC)"
    by (simp only: stream_bits_append stream_bits_sample append_assoc)
  with magic_at_occurs [OF assms] show ?thesis by (simp only: sample_twice_magics) simp
qed

lemma long_file_magics: "magic_at (long_file n) q \<Longrightarrow> q \<in> set (coded_offsets 32 (long_items n))"
proof (induction n arbitrary: q)
  case 0
  then show ?case using sample_magics(1) [of q] by (simp add: sample_stream_def)
next
  case (Suc n)
  have len: "length (item_bits 32 (Coded sample_block)) = 181" by (simp add: sample_block_bits magic_bits_def)
  have offsets: "coded_offsets 32 (long_items (Suc n)) = 32 # map ((+) 296) (coded_offsets 32 (long_items n))"
    using coded_offsets_shift [of 37 32 "long_items n"] by (simp add: sample_block_bits magic_bits_def pad_length_def header_bytes_def)
  show ?case
  proof (cases "q < 296")
    case True
    have "take 6 (long_file n) = take 6 sample_stream" using arg_cong [OF long_file_starts [of n], of "take 6"] by simp
    then have "take 43 (long_file (Suc n)) = sample_stream @ take 6 sample_stream" by (simp add: length_sample_stream)
    moreover have "magic_at (take 43 (long_file (Suc n))) q"
      using Suc.prems True by (simp add: magic_at_take length_long_file del: long_file.simps)
    ultimately have "q = 32" using sample_twice_at by simp
    then show ?thesis unfolding offsets by simp
  next
    case False
    then have "magic_at (long_file (Suc n)) (8 * 37 + (q - 296))" using Suc.prems by (simp del: long_file.simps)
    from magic_at_later [OF this] have "magic_at (long_file n) (q - 296)" by (simp add: length_sample_stream)
    from Suc.IH [OF this] False have "q \<in> (+) 296 ` set (coded_offsets 32 (long_items n))" by (intro image_eqI [of _ _ "q - 296"]) simp_all
    then show ?thesis unfolding offsets by simp
  qed
qed

subsection \<open>The file is well-formed\<close>

lemma long_items_ok: "i \<in> set (long_items n) \<Longrightarrow> item_ok 900000 i"
  using sample_items_ok by (induction n) auto

lemma long_items_start: "\<exists>its. long_items n = Coded sample_block # its"
  by (cases n) auto

lemma long_well_formed: "well_formed 900000 (long_file n) 32 (long_items n)"
proof -
  have "file_end (magic_bits FINAL_MAGIC @ replicate 35 False)" by (auto simp: file_end_def)
  then have "\<exists>rest. drop 32 (stream_bits (long_file n)) = items_bits 32 (long_items n) @ rest \<and> file_end rest"
    using long_items_bits by blast
  moreover have "32 \<le> 8 * length (long_file n)" by (simp add: length_long_file)
  moreover have "\<exists>b its. long_items n = Coded b # its" using long_items_start [of n] by blast
  ultimately show ?thesis using long_items_ok long_file_magics unfolding well_formed_def by blast
qed

lemma long_leading: "leading_boundaries (long_items n) = []"
  by (cases n) simp_all

lemma long_spaced: "spaced_by 300 (long_items n)"
proof -
  have "length (block_bits c) = 133 \<and> length (leading_boundaries B) \<le> 1" if "long_items n = A @ Coded c # B" for A c B
    using that
  proof (induction n arbitrary: A)
    case (Suc n)
    show ?case
    proof (cases A)
      case Nil
      with Suc.prems show ?thesis by (auto simp: sample_block_bits long_leading)
    next
      case (Cons a A')
      with Suc.prems obtain A'' where "long_items n = A'' @ Coded c # B" by (cases A') auto
      with Suc.IH show ?thesis by blast
    qed
  qed (auto simp: Cons_eq_append_conv sample_block_bits)
  then show ?thesis unfolding spaced_by_def by fastforce
qed

lemma long_data: "items_data (long_items n) = concat (replicate (n + 1) [98, 97])"
  by (induction n) (simp_all add: sample_block_def block_data_def)

text \<open>A file without its header, as the program sees it.\<close>

lemma long_file_split: "header_bytes 9 @ drop 4 (long_file n) = long_file n"
  by (cases n) (simp_all add: sample_stream_def header_bytes_def)

end
