(* ===== verification/Lbunzip2_Main.thy ===== *)
theory Lbunzip2_Main
  imports Long_File Byte_Source
begin

text \<open>
  The command line program (\<open>bin/lbunzip2.rs\<close>), one thread at a time: the reader that fills slots, the body of the main
  loop that puts the carried bytes in front of a slot's data, splits it and posts the segments, and the work of a worker. The
  lemmas follow a file through the main loop, chunk by chunk. The threads together are in \<open>Lbunzip2_Pipeline\<close>.
\<close>

subsection \<open>Constants and header\<close>

definition CHUNK_SIZE :: nat where "CHUNK_SIZE = 200 * 1024 * 1024"

definition RING_SLOTS :: nat where "RING_SLOTS = 6"

definition CARRY_HEADROOM :: nat where "CARRY_HEADROOM = 32 * 1024 * 1024"

definition SLOT_SIZE :: nat where "SLOT_SIZE = CARRY_HEADROOM + CHUNK_SIZE"

text \<open>\<open>None\<close> is the exit with \<open>invalid bzip2 header\<close>.\<close>

definition main_header :: "u8 list \<Rightarrow> nat option" where
  "main_header header =
     (let level = header ! 3 in
      if take 2 header \<noteq> [0x42, 0x5A] \<or> header ! 2 \<noteq> 0x68 \<or> \<not> (0x31 \<le> level \<and> level \<le> 0x39) then None
      else Some (100000 * unat (level - 0x30)))"

subsection \<open>The reader thread\<close>

partial_function (option) read_chunk :: "'s read_fn \<Rightarrow> nat \<Rightarrow> u8 list \<Rightarrow> 's \<Rightarrow> (u8 list \<times> 's) result option" where
  "read_chunk rd n got s =
     (if length got < n
      then bindO (rd (n - length got) s) (\<lambda>(v, s1).
        case v of
          Inr bs \<Rightarrow> if bs = [] then Some (Inr (got, s1)) else read_chunk rd n (got @ bs) s1
        | Inl e \<Rightarrow> if e = Interrupted then read_chunk rd n got s1 else Some (Inr (got, s1)))
      else Some (Inr (got, s)))"

text \<open>A slot filled behind the headroom: its bytes, how many were read, and whether they are the last.\<close>

definition fill_slot :: "'s read_fn \<Rightarrow> u8 list \<Rightarrow> 's \<Rightarrow> ((u8 list \<times> nat \<times> bool) \<times> 's) result option" where
  "fill_slot rd slot s =
     bindO (read_chunk rd (length slot - CARRY_HEADROOM) [] s) (\<lambda>(got, s1).
       Some (Inr ((take CARRY_HEADROOM slot @ got @ drop (CARRY_HEADROOM + length got) slot, length got, length got < CHUNK_SIZE), s1)))"

text \<open>The thread over the slots it receives, until a short chunk or the end of the channel.\<close>

fun reader_loop :: "'s read_fn \<Rightarrow> u8 list list \<Rightarrow> 's \<Rightarrow> ((u8 list \<times> nat \<times> bool) list \<times> 's) result option" where
  "reader_loop rd [] s = Some (Inr ([], s))"
| "reader_loop rd (slot # free) s =
     bindO (fill_slot rd slot s) (\<lambda>((content, got, is_last), s1).
       if is_last then Some (Inr ([(content, got, is_last)], s1))
       else bindO (reader_loop rd free s1) (\<lambda>(fs, s2). Some (Inr ((content, got, is_last) # fs, s2))))"

subsection \<open>Messages between the threads\<close>

text \<open>A slot is known by its number; \<open>data_ptr\<close> points \<open>item_start\<close> bytes into it.\<close>

record work_item =
  item_chunk :: nat
  item_segment :: nat
  item_slot :: nat
  item_start :: nat
  item_len :: nat
  start_bit :: nat
  end_bit :: nat
  item_blocksize :: nat

record segment_result =
  result_chunk :: nat
  result_segment :: nat
  result_output :: "u8 list"

record in_flight_slot =
  flight_chunk :: nat
  flight_slot :: nat
  flight_segments :: nat
  flight_results :: "u8 list option list"
  done_count :: nat
  flight_last :: bool

datatype collector_msg = NewSlot in_flight_slot | Result segment_result

subsection \<open>A worker\<close>

definition run_item :: "u8 list \<Rightarrow> work_item \<Rightarrow> segment_result result" where
  "run_item slot item =
     bindE (decode_segment (take (item_len item) (drop (item_start item) slot)) (start_bit item) (end_bit item) (item_blocksize item)) (\<lambda>out.
     Inr \<lparr>result_chunk = item_chunk item, result_segment = item_segment item, result_output = out\<rparr>)"

subsection \<open>The main loop\<close>

text \<open>What the main thread sends: a slot back to the reader, a slot to the collector, an item to the workers.\<close>

datatype main_action = ReturnSlot nat | Register in_flight_slot | Post work_item

record main_state =
  carry :: "u8 list"
  chunk_id :: nat

definition copy_carry :: "u8 list \<Rightarrow> u8 list \<Rightarrow> (u8 list \<times> nat) result" where
  "copy_carry slot c =
     bindE (guard (length c \<le> CARRY_HEADROOM) (Panic ''carry > headroom'')) (\<lambda>_.
     let data_start = CARRY_HEADROOM - length c
     in Inr (take data_start slot @ c @ drop CARRY_HEADROOM slot, data_start))"

definition work_items :: "main_state \<Rightarrow> nat \<Rightarrow> nat \<Rightarrow> u8 list \<Rightarrow> nat \<Rightarrow> chunk_split \<Rightarrow> work_item list" where
  "work_items st slot data_start data max_blocksize cs =
     map (\<lambda>i. \<lparr>item_chunk = chunk_id st, item_segment = i, item_slot = slot, item_start = data_start, item_len = length data,
         start_bit = bit_offset (segment_starts cs ! i), end_bit = segment_end data cs i, item_blocksize = max_blocksize\<rparr>)
       [0..<decode_segments cs]"

text \<open>
  One turn of the loop for a filled slot: the next state, the slot with the carried bytes, what is sent, and whether the loop ends.
\<close>

definition main_body ::
    "nat \<Rightarrow> nat \<Rightarrow> nat \<Rightarrow> main_state \<Rightarrow> nat \<Rightarrow> u8 list \<times> nat \<times> bool \<Rightarrow> (main_state \<times> u8 list \<times> main_action list \<times> bool) result" where
  "main_body budget n_workers max_blocksize st slot = (\<lambda>(content, read_len, is_last).
     if read_len = 0 \<and> length (carry st) \<le> 4 then Inr (st, content, [ReturnSlot slot], True)
     else bindE (copy_carry content (carry st)) (\<lambda>(content', data_start).
       let data_end = CARRY_HEADROOM + read_len in
       bindE (guard (data_start \<le> data_end \<and> data_end \<le> length content') (Panic ''range out of bounds'')) (\<lambda>_.
       let data = drop data_start (take data_end content') in
       bindE (split_chunk budget data n_workers max_blocksize is_last) (\<lambda>split.
       case split of
         None \<Rightarrow> Inr (st, content', [ReturnSlot slot], is_last)
       | Some cs \<Rightarrow>
           bindE (guard (consumed cs \<le> length data) (Panic ''range start out of bounds'')) (\<lambda>_.
           Inr (\<lparr>carry = drop (consumed cs) data, chunk_id = chunk_id st + 1\<rparr>, content',
             Register \<lparr>flight_chunk = chunk_id st, flight_slot = slot, flight_segments = decode_segments cs,
                 flight_results = replicate (decode_segments cs) None, done_count = 0, flight_last = is_last\<rparr>
             # map Post (work_items st slot data_start data max_blocksize cs), is_last))))))"

text \<open>The loop over the filled slots: the slots with what was sent for them.\<close>

fun main_loop ::
    "nat \<Rightarrow> nat \<Rightarrow> nat \<Rightarrow> main_state \<Rightarrow> (nat \<times> u8 list \<times> nat \<times> bool) list \<Rightarrow> (u8 list \<times> main_action list) list result" where
  "main_loop budget n m st [] = Inr []"
| "main_loop budget n m st ((slot, f) # fs) =
     bindE (main_body budget n m st slot f) (\<lambda>(st', content, acts, stop).
     if stop then Inr [(content, acts)]
     else bindE (main_loop budget n m st' fs) (\<lambda>rs. Inr ((content, acts) # rs)))"

subsection \<open>What a filled slot holds\<close>

definition holds_data :: "u8 list \<Rightarrow> u8 list \<Rightarrow> nat \<Rightarrow> bool" where
  "holds_data slot bs len \<longleftrightarrow> length slot = SLOT_SIZE \<and> len = length bs \<and> len \<le> CHUNK_SIZE \<and> take len (drop CARRY_HEADROOM slot) = bs"

text \<open>The slots of a file whose bytes after the header are \<open>body\<close>: full chunks, then a shorter last one.\<close>

fun filled_with :: "u8 list \<Rightarrow> (u8 list \<times> nat \<times> bool) list \<Rightarrow> bool" where
  "filled_with body [] = False"
| "filled_with body ((slot, len, is_last) # fs) \<longleftrightarrow> holds_data slot (take CHUNK_SIZE body) len \<and> is_last = (len < CHUNK_SIZE) \<and>
     (if is_last then fs = [] else filled_with (drop CHUNK_SIZE body) fs)"

lemma holds_filled:
  assumes "length slot = SLOT_SIZE" "length got \<le> CHUNK_SIZE"
  shows "holds_data (take CARRY_HEADROOM slot @ got @ drop (CARRY_HEADROOM + length got) slot) got (length got)"
proof -
  have "CARRY_HEADROOM \<le> length slot" using assms(1) by (simp add: SLOT_SIZE_def)
  then show ?thesis using assms by (simp add: holds_data_def SLOT_SIZE_def)
qed

context complete_source
begin

lemma read_chunk_next:
  assumes "owes s k w" "length got \<le> n"
  obtains k' s' where "read_chunk rd n got s = Some (Inr (got @ take (n - length got) w, s'))" "k' \<le> k" "owes s' k' (drop (n - length got) w)"
  using assms
proof (induction "k + length w" arbitrary: got s k w thesis rule: less_induct)
  case less
  show ?case
  proof (cases "length got < n")
    case False
    with less.prems show ?thesis by (intro less.prems(1) [of s k]) (simp_all add: read_chunk.simps)
  next
    case True
    show ?thesis
    proof (cases rule: call_cases [OF less.prems(2), of "n - length got"])
      case (1 bs w1 k1 s1)
      show ?thesis
      proof (cases "bs = []")
        case empty: True
        have "w = []" using end_only [OF less.prems(2)] 1(1) empty True by fastforce
        with 1 True empty show ?thesis
          by (intro less.prems(1) [of s1 k1]) (subst read_chunk.simps, simp_all)
      next
        case False
        then have smaller: "k1 + length w1 < k + length w" using 1(2,4) by (cases bs) simp_all
        have "length (got @ bs) \<le> n" using 1(3) True by simp
        then obtain k' s' where "read_chunk rd n (got @ bs) s1 = Some (Inr ((got @ bs) @ take (n - length (got @ bs)) w1, s'))"
            "k' \<le> k1" "owes s' k' (drop (n - length (got @ bs)) w1)"
          using less.hyps [OF smaller _ 1(5)] by blast
        with 1 True False show ?thesis
          by (intro less.prems(1) [of s' k']) (subst read_chunk.simps, simp_all add: diff_diff_left)
      qed
    next
      case (2 k1 s1)
      obtain k' s' where "read_chunk rd n got s1 = Some (Inr (got @ take (n - length got) w, s'))"
          "k' \<le> k1" "owes s' k' (drop (n - length got) w)"
        using less.hyps [OF add_less_mono1 [OF 2(2)] _ 2(3) less.prems(3)] by blast
      with 2 True show ?thesis by (intro less.prems(1) [of s' k']) (subst read_chunk.simps, simp_all)
    qed
  qed
qed

lemma fill_slot_next:
  assumes "owes s k body" "length slot = SLOT_SIZE"
  obtains slot' k' s' where "fill_slot rd slot s = Some (Inr ((slot', length (take CHUNK_SIZE body), length (take CHUNK_SIZE body) < CHUNK_SIZE), s'))"
    "holds_data slot' (take CHUNK_SIZE body) (length (take CHUNK_SIZE body))" "k' \<le> k" "owes s' k' (drop CHUNK_SIZE body)"
proof -
  have len: "length slot - CARRY_HEADROOM = CHUNK_SIZE" "CARRY_HEADROOM \<le> length slot" using assms(2) by (simp_all add: SLOT_SIZE_def)
  obtain k' s' where r: "read_chunk rd CHUNK_SIZE [] s = Some (Inr (take CHUNK_SIZE body, s'))" "k' \<le> k" "owes s' k' (drop CHUNK_SIZE body)"
  proof (rule read_chunk_next [OF assms(1), of "[]" CHUNK_SIZE])
    fix k' s' assume "read_chunk rd CHUNK_SIZE [] s = Some (Inr ([] @ take (CHUNK_SIZE - length ([] :: u8 list)) body, s'))"
      "k' \<le> k" "owes s' k' (drop (CHUNK_SIZE - length ([] :: u8 list)) body)"
    then show thesis by (intro that) simp_all
  qed simp
  let ?got = "take CHUNK_SIZE body"
  let ?slot = "take CARRY_HEADROOM slot @ ?got @ drop (CARRY_HEADROOM + length ?got) slot"
  have "holds_data ?slot ?got (length ?got)" by (rule holds_filled [OF assms(2)]) simp
  with r len(1) show thesis by (intro that [of ?slot s' k']) (simp_all add: fill_slot_def)
qed

lemma reader_loop_fills:
  assumes "owes s k body" "\<forall>slot\<in>set free. length slot = SLOT_SIZE" "length body div CHUNK_SIZE < length free"
  shows "\<exists>fs s'. reader_loop rd free s = Some (Inr (fs, s')) \<and> filled_with body fs"
  using assms
proof (induction free arbitrary: s k body)
  case (Cons slot free)
  obtain slot' k' s' where one: "fill_slot rd slot s = Some (Inr ((slot', length (take CHUNK_SIZE body), length (take CHUNK_SIZE body) < CHUNK_SIZE), s'))"
    "holds_data slot' (take CHUNK_SIZE body) (length (take CHUNK_SIZE body))" "owes s' k' (drop CHUNK_SIZE body)"
    by (rule fill_slot_next [OF Cons.prems(1)]) (use Cons.prems(2) in auto)
  show ?case
  proof (cases "length body < CHUNK_SIZE")
    case True
    with one(1,2) show ?thesis by simp
  next
    case False
    have "length (drop CHUNK_SIZE body) div CHUNK_SIZE < length free"
      using Cons.prems(3) False by (simp add: le_div_geq CHUNK_SIZE_def)
    then obtain fs s'' where "reader_loop rd free s' = Some (Inr (fs, s''))" "filled_with (drop CHUNK_SIZE body) fs"
      using Cons.IH [OF one(3)] Cons.prems(2) by auto
    with one(1,2) False show ?thesis by simp
  qed
qed simp

end

subsection \<open>One turn of the main loop\<close>

definition posted :: "main_action list \<Rightarrow> work_item list" where
  "posted acts = concat (map (\<lambda>a. case a of Post w \<Rightarrow> [w] | _ \<Rightarrow> []) acts)"

lemma posted_simps [simp]:
  "posted [] = []" "posted (Post w # acts) = w # posted acts" "posted (Register f # acts) = posted acts"
  "posted (ReturnSlot s # acts) = posted acts" "posted (map Post ws) = ws"
  by (simp_all add: posted_def comp_def)

lemma copy_carry_data:
  assumes "holds_data slot bs len" "length c \<le> CARRY_HEADROOM"
  obtains slot' where "copy_carry slot c = Inr (slot', CARRY_HEADROOM - length c)" "length slot' = SLOT_SIZE"
    "drop (CARRY_HEADROOM - length c) (take (CARRY_HEADROOM + len) slot') = c @ bs"
    "take (length (c @ bs)) (drop (CARRY_HEADROOM - length c) slot') = c @ bs"
proof -
  let ?start = "CARRY_HEADROOM - length c"
  let ?slot = "take ?start slot @ c @ drop CARRY_HEADROOM slot"
  have l: "length slot = SLOT_SIZE" "len = length bs" "take len (drop CARRY_HEADROOM slot) = bs"
    using assms(1) unfolding holds_data_def by blast+
  have start: "length (take ?start slot) = ?start" unfolding length_take l(1) SLOT_SIZE_def by arith
  have d: "drop ?start ?slot = c @ drop CARRY_HEADROOM slot" using start by simp
  have t: "take (length (c @ bs)) (drop ?start ?slot) = c @ bs" unfolding d using l(2,3) by simp
  have "CARRY_HEADROOM + len = ?start + length (c @ bs)" using assms(2) l(2) by simp
  then have r: "drop ?start (take (CARRY_HEADROOM + len) ?slot) = c @ bs" unfolding drop_take using t by simp
  have lslot: "length ?slot = SLOT_SIZE" unfolding length_append start using l(1) assms(2) by (simp add: SLOT_SIZE_def)
  have "copy_carry slot c = Inr (?slot, ?start)" using assms(2) by (simp add: copy_carry_def guard_def Let_def)
  then show thesis by (rule that [OF _ lslot r t])
qed

lemma run_work_items:
  assumes "take (length data) (drop data_start slot') = data" "mapE (\<lambda>(s, e). decode_segment data s e m) (segment_ranges data cs) = Inr ds"
  shows "\<exists>rs. mapE (run_item slot') (work_items st slot data_start data m cs) = Inr rs \<and> map result_output rs = ds \<and>
    map result_chunk rs = replicate (decode_segments cs) (chunk_id st) \<and> map result_segment rs = [0..<decode_segments cs]"
proof -
  let ?rs = "map (\<lambda>i. \<lparr>result_chunk = chunk_id st, result_segment = i, result_output = ds ! i\<rparr>) [0..<decode_segments cs]"
  have ds: "length ds = decode_segments cs" "\<And>i. i < decode_segments cs \<Longrightarrow>
      decode_segment data (bit_offset (segment_starts cs ! i)) (segment_end data cs i) m = Inr (ds ! i)"
    using assms(2) by (auto simp: mapE_Inr_iff segment_ranges_def)
  have "mapE (run_item slot') (work_items st slot data_start data m cs) = Inr ?rs"
    using ds assms(1) by (simp add: mapE_Inr_iff work_items_def run_item_def)
  moreover have "map result_output ?rs = ds" using ds(1) by (simp add: comp_def) (metis map_nth)
  ultimately show ?thesis by (intro exI [of _ ?rs]) (simp add: comp_def map_replicate_trivial)
qed

lemma main_body_split:
  assumes "holds_data slot bs len" "length (carry st) \<le> CARRY_HEADROOM" "\<not> (len = 0 \<and> length (carry st) \<le> 4)"
    and "split_chunk budget (carry st @ bs) n m is_last = Inr (Some cs)" "consumed cs \<le> length (carry st @ bs)"
  obtains slot' where "main_body budget n m st s (slot, len, is_last) = Inr (\<lparr>carry = drop (consumed cs) (carry st @ bs), chunk_id = chunk_id st + 1\<rparr>, slot',
      Register \<lparr>flight_chunk = chunk_id st, flight_slot = s, flight_segments = decode_segments cs,
        flight_results = replicate (decode_segments cs) None, done_count = 0, flight_last = is_last\<rparr>
      # map Post (work_items st s (CARRY_HEADROOM - length (carry st)) (carry st @ bs) m cs), is_last)"
    "take (length (carry st @ bs)) (drop (CARRY_HEADROOM - length (carry st)) slot') = carry st @ bs" "length slot' = SLOT_SIZE"
proof -
  obtain slot' where s: "copy_carry slot (carry st) = Inr (slot', CARRY_HEADROOM - length (carry st))" "length slot' = SLOT_SIZE"
    "drop (CARRY_HEADROOM - length (carry st)) (take (CARRY_HEADROOM + len) slot') = carry st @ bs"
    "take (length (carry st @ bs)) (drop (CARRY_HEADROOM - length (carry st)) slot') = carry st @ bs"
    by (rule copy_carry_data [OF assms(1,2)])
  have range: "CARRY_HEADROOM - length (carry st) \<le> CARRY_HEADROOM + len" "CARRY_HEADROOM + len \<le> length slot'"
    using assms(1) s(2) by (auto simp: holds_data_def SLOT_SIZE_def)
  have "main_body budget n m st s (slot, len, is_last) = Inr (\<lparr>carry = drop (consumed cs) (carry st @ bs), chunk_id = chunk_id st + 1\<rparr>, slot',
      Register \<lparr>flight_chunk = chunk_id st, flight_slot = s, flight_segments = decode_segments cs,
        flight_results = replicate (decode_segments cs) None, done_count = 0, flight_last = is_last\<rparr>
      # map Post (work_items st s (CARRY_HEADROOM - length (carry st)) (carry st @ bs) m cs), is_last)"
    using assms(3) unfolding main_body_def prod.case
    by (simp only: if_False s(1) bindE.simps prod.case Let_def guard_def range simp_thms if_True s(3) assms(4,5) option.case)
  then show thesis by (rule that [OF _ s(4,2)])
qed

lemma main_body_no_split:
  assumes "holds_data slot bs len" "length (carry st) \<le> CARRY_HEADROOM" "\<not> (len = 0 \<and> length (carry st) \<le> 4)"
    and "split_chunk budget (carry st @ bs) n m is_last = Inr None"
  obtains slot' where "main_body budget n m st s (slot, len, is_last) = Inr (st, slot', [ReturnSlot s], is_last)"
proof -
  obtain slot' where s: "copy_carry slot (carry st) = Inr (slot', CARRY_HEADROOM - length (carry st))" "length slot' = SLOT_SIZE"
    "drop (CARRY_HEADROOM - length (carry st)) (take (CARRY_HEADROOM + len) slot') = carry st @ bs"
    by (rule copy_carry_data [OF assms(1,2)])
  have range: "CARRY_HEADROOM - length (carry st) \<le> CARRY_HEADROOM + len" "CARRY_HEADROOM + len \<le> length slot'"
    using assms(1) s(2) by (auto simp: holds_data_def SLOT_SIZE_def)
  have "main_body budget n m st s (slot, len, is_last) = Inr (st, slot', [ReturnSlot s], is_last)"
    using assms(3) unfolding main_body_def prod.case
    by (simp only: if_False s(1) bindE.simps prod.case Let_def guard_def range simp_thms if_True s(3) assms(4) option.case)
  then show thesis by (rule that)
qed

subsection \<open>A whole file through the main loop\<close>

text \<open>What the workers and the collector make of the slots when the threads take turns: the outputs of the items in order.\<close>

definition slot_output :: "u8 list \<times> main_action list \<Rightarrow> u8 list result" where
  "slot_output = (\<lambda>(content, acts). bindE (mapE (run_item content) (posted acts)) (\<lambda>rs. Inr (concat (map result_output rs))))"

definition loop_output :: "nat \<Rightarrow> nat \<Rightarrow> nat \<Rightarrow> main_state \<Rightarrow> (nat \<times> u8 list \<times> nat \<times> bool) list \<Rightarrow> u8 list result" where
  "loop_output budget n m st fs = bindE (main_loop budget n m st fs) (\<lambda>rs. bindE (mapE slot_output rs) (\<lambda>outs. Inr (concat outs)))"

lemma loop_output_step:
  assumes "main_body budget n m st s f = Inr (st', content, acts, False)" "slot_output (content, acts) = Inr out"
    and "loop_output budget n m st' fs = Inr rest"
  shows "loop_output budget n m st ((s, f) # fs) = Inr (out @ rest)"
proof -
  obtain rs outs where "main_loop budget n m st' fs = Inr rs" "mapE slot_output rs = Inr outs" "rest = concat outs"
    using assms(3) by (auto simp: loop_output_def bindE_Inr_iff)
  with assms(1,2) show ?thesis by (simp add: loop_output_def)
qed

lemma loop_output_stop:
  assumes "main_body budget n m st s f = Inr (st', content, acts, True)" "slot_output (content, acts) = Inr out"
  shows "loop_output budget n m st ((s, f) # fs) = Inr out"
  using assms by (simp add: loop_output_def)

lemma items_output:
  assumes "take (length data) (drop data_start slot') = data" "mapE (\<lambda>(s, e). decode_segment data s e m) (segment_ranges data cs) = Inr ds"
  shows "slot_output (slot', Register f # map Post (work_items st slot data_start data m cs)) = Inr (concat ds)"
  using run_work_items [OF assms, of st slot] by (auto simp: slot_output_def)

lemma carry_bound: "k \<le> SLOT_SIZE \<Longrightarrow> 8 \<le> n \<Longrightarrow> k div n + 1 \<le> CARRY_HEADROOM"
proof -
  assume "k \<le> SLOT_SIZE" "8 \<le> n"
  then have "k div n \<le> SLOT_SIZE div 8" by (meson div_le_mono div_le_mono2 le_trans zero_less_numeral)
  then show ?thesis by (simp add: SLOT_SIZE_def CHUNK_SIZE_def CARRY_HEADROOM_def)
qed

lemma drop_inside: "n \<le> length xs \<Longrightarrow> drop n (xs @ ys) = drop n xs @ ys"
  by simp

lemma well_formed_room: "well_formed m data p its \<Longrightarrow> 105 \<le> 8 * length data - p"
proof -
  assume "well_formed m data p its"
  then obtain b its' rest where "drop p (stream_bits data) = items_bits p (Coded b # its') @ rest" by (auto simp: well_formed_def)
  from arg_cong [OF this, of length] show ?thesis using length_block_bits [of b] by simp
qed

text \<open>A turn of a full chunk, for any number of workers: what it puts out, how much it carries, and what is left of the file.\<close>

lemma full_turn:
  assumes "holds_data slot (take CHUNK_SIZE body) CHUNK_SIZE" "well_formed m (carry st @ body) p its" "spaced_by gap its" "p \<le> 32"
    and "length (carry st) \<le> CARRY_HEADROOM" "2 \<le> n" "n * (gap + 200) \<le> 8 * CHUNK_SIZE"
  obtains st' slot' acts A its' p' where "main_body budget n m st s (slot, CHUNK_SIZE, False) = Inr (st', slot', acts, False)"
    "slot_output (slot', acts) = Inr (items_data A)" "its = A @ its'" "length slot' = SLOT_SIZE"
    "length (carry st') \<le> (length (carry st) + CHUNK_SIZE) div n + 1"
    "(length (carry st) + CHUNK_SIZE) div n \<le> length (carry st') + gap div 8 + 1"
    "spaced_by gap its'" "p' \<le> 32" "well_formed m (carry st' @ drop CHUNK_SIZE body) p' its'"
    "p' = (p + length (items_bits p A)) mod 8" "posted acts \<noteq> []"
proof -
  let ?data = "carry st @ body"
  let ?k = "length (carry st) + CHUNK_SIZE"
  have "CHUNK_SIZE = length (take CHUNK_SIZE body)" using assms(1) unfolding holds_data_def by blast
  then have full: "CHUNK_SIZE \<le> length body" by simp
  have ne: "\<not> (CHUNK_SIZE = 0 \<and> length (carry st) \<le> 4)" by (simp add: CHUNK_SIZE_def)
  have data: "carry st @ take CHUNK_SIZE body = take ?k ?data" by simp
  have k: "?k \<le> length ?data" "n * (gap + 200) \<le> 8 * ?k" using full assms(7) by simp_all
  obtain cs where cs: "split_chunk budget (take ?k ?data) n m False = Inr (Some cs)" "consumed cs \<le> ?k" "?k - consumed cs \<le> ?k div n + 1"
      "?k div n \<le> ?k - consumed cs + gap div 8 + 1"
    by (rule chunk_carry [OF assms(2,3,4) k(1) assms(6) k(2)])
  obtain A its' ds where step: "its = A @ its'" "mapE (\<lambda>(s, e). decode_segment (take ?k ?data) s e m) (segment_ranges (take ?k ?data) cs) = Inr ds"
    "concat ds = items_data A" "well_formed m (drop (consumed cs) ?data) ((p + length (items_bits p A)) mod 8) its'"
    by (rule chunk_step [OF assms(2) cs(1)])
  have lk: "length (take ?k ?data) = ?k" using full by simp
  let ?st = "\<lparr>carry = drop (consumed cs) (take ?k ?data), chunk_id = chunk_id st + 1\<rparr>"
  obtain slot' where body: "main_body budget n m st s (slot, CHUNK_SIZE, False) = Inr (?st, slot',
        Register \<lparr>flight_chunk = chunk_id st, flight_slot = s, flight_segments = decode_segments cs,
          flight_results = replicate (decode_segments cs) None, done_count = 0, flight_last = False\<rparr>
        # map Post (work_items st s (CARRY_HEADROOM - length (carry st)) (take ?k ?data) m cs), False)"
    "take (length (take ?k ?data)) (drop (CARRY_HEADROOM - length (carry st)) slot') = take ?k ?data" "length slot' = SLOT_SIZE"
    by (rule main_body_split [OF assms(1,5) ne, of budget n m False cs s, unfolded data, OF cs(1)]) (use cs(2) lk in auto)
  have "drop (consumed cs) (take ?k ?data @ drop CHUNK_SIZE body) = drop (consumed cs) (take ?k ?data) @ drop CHUNK_SIZE body"
    by (rule drop_inside) (simp only: lk cs(2))
  then have after: "drop (consumed cs) ?data = carry ?st @ drop CHUNK_SIZE body" by simp
  have bounds: "length (carry ?st) \<le> ?k div n + 1" "?k div n \<le> length (carry ?st) + gap div 8 + 1" using cs(3,4) lk by simp_all
  have spaced: "spaced_by gap its'" using spaced_by_suffix assms(3) step(1) by blast
  have offset: "(p + length (items_bits p A)) mod 8 \<le> 32" by (rule order_trans [OF less_imp_le [OF mod_less_divisor]]) simp_all
  note out = items_output [OF body(2) step(2), unfolded step(3)]
  have "0 < decode_segments cs" using split_shape(1,2) [OF cs(1)] by simp
  then have posts: "posted (Register \<lparr>flight_chunk = chunk_id st, flight_slot = s, flight_segments = decode_segments cs,
          flight_results = replicate (decode_segments cs) None, done_count = 0, flight_last = False\<rparr>
        # map Post (work_items st s (CARRY_HEADROOM - length (carry st)) (take ?k ?data) m cs)) \<noteq> []"
    by (simp only: posted_simps) (simp add: work_items_def)
  from that [OF body(1) out step(1) body(3) bounds spaced offset step(4) [unfolded after] refl posts] show thesis .
qed

text \<open>
  A turn of the loop on a file that is well-formed from the carried bytes on: the items whose segments are posted, and, unless the
  slot is the last, what is well-formed after it.
\<close>

lemma main_turn:
  assumes "holds_data slot (take CHUNK_SIZE body) len" "well_formed m (carry st @ body) p its" "spaced_by gap its" "p \<le> 32"
    and "length (carry st) \<le> CARRY_HEADROOM" "8 \<le> n" "n * (gap + 200) \<le> 8 * CHUNK_SIZE"
  obtains st' slot' acts A its' where "main_body budget n m st s (slot, len, len < CHUNK_SIZE) = Inr (st', slot', acts, len < CHUNK_SIZE)"
    "slot_output (slot', acts) = Inr (items_data A)" "its = A @ its'" "length slot' = SLOT_SIZE"
    "len < CHUNK_SIZE \<longrightarrow> its' = []"
    "\<not> len < CHUNK_SIZE \<longrightarrow> length (carry st') \<le> CARRY_HEADROOM \<and> spaced_by gap its' \<and> (\<exists>p'\<le>32. well_formed m (carry st' @ drop CHUNK_SIZE body) p' its')"
proof -
  let ?data = "carry st @ body"
  let ?k = "length (carry st) + CHUNK_SIZE"
  have len: "len = length (take CHUNK_SIZE body)" using assms(1) unfolding holds_data_def by blast
  have "105 \<le> 8 * length ?data - p" using assms(2) by (rule well_formed_room)
  then have ne: "\<not> (len = 0 \<and> length (carry st) \<le> 4)" unfolding len by (auto simp: CHUNK_SIZE_def)
  show thesis
  proof (cases "len < CHUNK_SIZE")
    case True
    then have data: "carry st @ take CHUNK_SIZE body = ?data" using len by simp
    obtain cs ds where cs: "split_chunk budget ?data n m True = Inr (Some cs)" "consumed cs = length ?data"
      "mapE (\<lambda>(s, e). decode_segment ?data s e m) (segment_ranges ?data cs) = Inr ds" "concat ds = items_data its"
      by (rule chunk_last [OF assms(2)])
    obtain slot' where body: "main_body budget n m st s (slot, len, True) =
        Inr (\<lparr>carry = drop (consumed cs) ?data, chunk_id = chunk_id st + 1\<rparr>, slot',
          Register \<lparr>flight_chunk = chunk_id st, flight_slot = s, flight_segments = decode_segments cs,
            flight_results = replicate (decode_segments cs) None, done_count = 0, flight_last = True\<rparr>
          # map Post (work_items st s (CARRY_HEADROOM - length (carry st)) ?data m cs), True)"
      "take (length ?data) (drop (CARRY_HEADROOM - length (carry st)) slot') = ?data" "length slot' = SLOT_SIZE"
      by (rule main_body_split [OF assms(1,5) ne, of budget n m True cs s, unfolded data, OF cs(1)]) (use cs(2) in auto)
    show thesis
    proof (rule that)
      show "its = its @ []" by simp
      show "main_body budget n m st s (slot, len, len < CHUNK_SIZE) = Inr (\<lparr>carry = drop (consumed cs) ?data, chunk_id = chunk_id st + 1\<rparr>, slot',
          Register \<lparr>flight_chunk = chunk_id st, flight_slot = s, flight_segments = decode_segments cs,
            flight_results = replicate (decode_segments cs) None, done_count = 0, flight_last = True\<rparr>
          # map Post (work_items st s (CARRY_HEADROOM - length (carry st)) ?data m cs), len < CHUNK_SIZE)"
        using body(1) True by simp
      show "slot_output (slot', Register \<lparr>flight_chunk = chunk_id st, flight_slot = s, flight_segments = decode_segments cs,
            flight_results = replicate (decode_segments cs) None, done_count = 0, flight_last = True\<rparr>
          # map Post (work_items st s (CARRY_HEADROOM - length (carry st)) ?data m cs)) = Inr (items_data its)"
        unfolding cs(4) [symmetric] by (rule items_output [OF body(2) cs(3)])
    qed (use True body(3) in simp_all)
  next
    case False
    have "len \<le> CHUNK_SIZE" using len by simp
    with False have full: "len = CHUNK_SIZE" by simp
    then have n: "holds_data slot (take CHUNK_SIZE body) CHUNK_SIZE" "2 \<le> n" using assms(1,6) by simp_all
    obtain st' slot' acts A its' p' where turn: "main_body budget n m st s (slot, CHUNK_SIZE, False) = Inr (st', slot', acts, False)"
      "slot_output (slot', acts) = Inr (items_data A)" "its = A @ its'" "length slot' = SLOT_SIZE" "length (carry st') \<le> ?k div n + 1"
      "spaced_by gap its'" "p' \<le> 32" "well_formed m (carry st' @ drop CHUNK_SIZE body) p' its'"
      by (rule full_turn [OF n(1) assms(2-5) n(2) assms(7)])
    have "?k \<le> SLOT_SIZE" using assms(5) by (simp add: SLOT_SIZE_def)
    from order_trans [OF turn(5) carry_bound [OF this assms(6)]] have "length (carry st') \<le> CARRY_HEADROOM" .
    with turn full show thesis by (intro that [of st' slot' acts A its']) auto
  qed
qed

lemma loop_output_file:
  assumes "filled_with body (map snd fs)" "well_formed m (carry st @ body) p its" "spaced_by gap its" "p \<le> 32"
    and "length (carry st) \<le> CARRY_HEADROOM" "8 \<le> n" "n * (gap + 200) \<le> 8 * CHUNK_SIZE"
  shows "loop_output budget n m st fs = Inr (items_data its)"
  using assms(1-5)
proof (induction fs arbitrary: body st p its)
  case (Cons f fs)
  obtain s slot len is_last where f: "f = (s, slot, len, is_last)" by (cases f) auto
  have filled: "holds_data slot (take CHUNK_SIZE body) len" "is_last = (len < CHUNK_SIZE)" using Cons.prems(1) by (simp_all add: f)
  obtain st' slot' acts A its' where turn: "main_body budget n m st s (slot, len, len < CHUNK_SIZE) = Inr (st', slot', acts, len < CHUNK_SIZE)"
    "slot_output (slot', acts) = Inr (items_data A)" "its = A @ its'" "len < CHUNK_SIZE \<longrightarrow> its' = []"
    "\<not> len < CHUNK_SIZE \<longrightarrow> length (carry st') \<le> CARRY_HEADROOM \<and> spaced_by gap its' \<and> (\<exists>p'\<le>32. well_formed m (carry st' @ drop CHUNK_SIZE body) p' its')"
    by (rule main_turn [OF filled(1) Cons.prems(2-5) assms(6,7)])
  show ?case
  proof (cases is_last)
    case True
    then have "main_body budget n m st s (slot, len, True) = Inr (st', slot', acts, True)" using turn(1) filled(2) by simp
    from loop_output_stop [OF this turn(2)] show ?thesis using True turn(3,4) filled(2) by (simp add: f)
  next
    case False
    then have body: "main_body budget n m st s (slot, len, False) = Inr (st', slot', acts, False)" using turn(1) filled(2) by simp
    have "filled_with (drop CHUNK_SIZE body) (map snd fs)" using Cons.prems(1) False by (simp add: f)
    with Cons.IH turn(5) False filled(2) have "loop_output budget n m st' fs = Inr (items_data its')" by blast
    from loop_output_step [OF body turn(2) this] show ?thesis using False turn(3) by (simp add: f)
  qed
qed simp

text \<open>What a turn sends, for any file: the slot alone, or its announcement and at most one item for each worker.\<close>

lemma few_segments:
  assumes "split_chunk budget data n m is_last = Inr (Some cs)"
  shows "decode_segments cs \<le> max 1 n"
proof -
  obtain first splits where "find_next_block data 0 = Some first" "split_boundaries_parallel budget data n m = Inr splits"
    "segment_starts cs = push_splits [first] splits"
    by (rule split_chunk_Some [OF assms])
  with split_starts(5) [of data first budget n m splits] split_shape(2) [OF assms] show ?thesis by auto
qed

lemma main_body_sends:
  assumes "main_body budget n m st s f = Inr (st', content', acts, stop)"
  shows "(acts = [ReturnSlot s] \<and> st' = st) \<or>
    (\<exists>ws is_last. acts = Register \<lparr>flight_chunk = chunk_id st, flight_slot = s, flight_segments = length ws,
        flight_results = replicate (length ws) None, done_count = 0, flight_last = is_last\<rparr> # map Post ws \<and>
      chunk_id st' = Suc (chunk_id st) \<and> length ws \<le> max 1 n \<and>
      (\<forall>i<length ws. item_chunk (ws ! i) = chunk_id st \<and> item_segment (ws ! i) = i \<and> item_slot (ws ! i) = s))"
proof -
  obtain content len is_last where f: "f = (content, len, is_last)" by (cases f)
  have post: "length (work_items st s start data m cs) = decode_segments cs"
    "\<forall>i<decode_segments cs. item_chunk (work_items st s start data m cs ! i) = chunk_id st \<and>
       item_segment (work_items st s start data m cs ! i) = i \<and> item_slot (work_items st s start data m cs ! i) = s" for start data cs
    by (simp_all add: work_items_def)
  show ?thesis
  proof (cases "len = 0 \<and> length (carry st) \<le> 4")
    case True
    with assms show ?thesis by (simp add: main_body_def f)
  next
    case False
    then obtain slot' start where copied: "copy_carry content (carry st) = Inr (slot', start)"
      using assms unfolding main_body_def f prod.case if_not_P [OF False] bindE_Inr_iff by force
    obtain data split where turn: "split_chunk budget data n m is_last = Inr split"
      "(case split of None \<Rightarrow> Inr (st, slot', [ReturnSlot s], is_last)
        | Some cs \<Rightarrow> bindE (guard (consumed cs \<le> length data) (Panic ''range start out of bounds'')) (\<lambda>_.
           Inr (\<lparr>carry = drop (consumed cs) data, chunk_id = chunk_id st + 1\<rparr>, slot',
             Register \<lparr>flight_chunk = chunk_id st, flight_slot = s, flight_segments = decode_segments cs,
                 flight_results = replicate (decode_segments cs) None, done_count = 0, flight_last = is_last\<rparr>
             # map Post (work_items st s start data m cs), is_last))) = Inr (st', content', acts, stop)"
      using assms unfolding main_body_def f prod.case if_not_P [OF False] copied bindE.simps bindE_Inr_iff Let_def by blast
    show ?thesis
    proof (cases split)
      case None
      with turn(2) show ?thesis by simp
    next
      case (Some cs)
      with turn(2) have "acts = Register \<lparr>flight_chunk = chunk_id st, flight_slot = s, flight_segments = decode_segments cs,
          flight_results = replicate (decode_segments cs) None, done_count = 0, flight_last = is_last\<rparr> # map Post (work_items st s start data m cs)"
        "chunk_id st' = Suc (chunk_id st)" by (auto simp: bindE_Inr_iff)
      with post few_segments [of budget data n m is_last cs] turn(1) Some show ?thesis by (intro disjI2 exI [of _ "work_items st s start data m cs"] exI [of _ is_last]) simp
    qed
  qed
qed

lemma filled_slots:
  assumes "filled_with body (map snd fs)" "CHUNK_SIZE \<le> length body"
  obtains s slot f fs' where "fs = (s, slot, CHUNK_SIZE, False) # f # fs'" "holds_data slot (take CHUNK_SIZE body) CHUNK_SIZE"
    "filled_with (drop CHUNK_SIZE body) (map snd (f # fs'))"
proof -
  obtain s slot len l fs1 where fs: "fs = (s, slot, len, l) # fs1" using assms(1) by (cases fs) auto
  then have h: "holds_data slot (take CHUNK_SIZE body) len" "l = (len < CHUNK_SIZE)" using assms(1) by simp_all
  then have len: "len = CHUNK_SIZE" using assms(2) unfolding holds_data_def by simp
  then have "filled_with (drop CHUNK_SIZE body) (map snd fs1)" using assms(1) fs h(2) by simp
  moreover from this obtain f fs' where "fs1 = f # fs'" by (cases fs1) auto
  ultimately show thesis using that fs h len by simp
qed

lemma main_body_overflow:
  assumes "CARRY_HEADROOM < length (carry st)"
  shows "main_body budget n m st s f = Inl (Panic ''carry > headroom'')"
  using assms by (cases f) (simp add: main_body_def copy_carry_def CARRY_HEADROOM_def)

subsection \<open>Properties\<close>

lemma main_header_bytes:
  assumes "1 \<le> level" "level \<le> 9"
  shows "main_header (header_bytes level) = Some (100000 * level)"
proof -
  have "level \<in> {1, 2, 3, 4, 5, 6, 7, 8, 9}" using assms by auto
  then show ?thesis by (auto simp: main_header_def header_bytes_def)
qed

text \<open>No other four bytes are accepted.\<close>

lemma main_header_accepts:
  assumes "length header = 4"
  shows "main_header header = Some m \<longleftrightarrow> (\<exists>level. 1 \<le> level \<and> level \<le> 9 \<and> header = header_bytes level \<and> m = 100000 * level)"
proof
  assume accepted: "main_header header = Some m"
  let ?level = "unat (header ! 3 - 0x30)"
  have head: "take 2 header = [0x42, 0x5A]" "header ! 2 = 0x68" "0x31 \<le> header ! 3" "header ! 3 \<le> 0x39" "m = 100000 * ?level"
    using accepted by (auto simp: main_header_def Let_def split: if_splits)
  have "0x30 \<le> header ! 3" using head(3) by (rule order_trans [rotated]) simp
  then have level: "?level = unat (header ! 3) - 48" by (simp add: unat_sub)
  have digit: "49 \<le> unat (header ! 3)" "unat (header ! 3) \<le> 57" using head(3,4) by (simp_all add: word_le_nat_alt)
  have "header ! 0 = 0x42" "header ! 1 = 0x5A" using arg_cong [OF head(1), of "\<lambda>h. h ! 0"] arg_cong [OF head(1), of "\<lambda>h. h ! 1"] by simp_all
  then have "[header ! 0, header ! 1, header ! 2, header ! 3] = header_bytes ?level" using head(2) by (simp add: header_bytes_def)
  moreover have "header = [header ! 0, header ! 1, header ! 2, header ! 3]"
    using assms by (auto simp: list_eq_iff_nth_eq less_Suc_eq numeral_eq_Suc)
  ultimately have "header = header_bytes ?level" by (rule trans [rotated])
  moreover have "1 \<le> ?level" "?level \<le> 9" unfolding level using digit by linarith+
  ultimately show "\<exists>level. 1 \<le> level \<and> level \<le> 9 \<and> header = header_bytes level \<and> m = 100000 * level"
    using head(5) by blast
qed (use main_header_bytes in blast)

text \<open>
  With at least 8 workers the program decompresses: the reader splits what follows the header into chunks, the main loop puts the
  carried bytes in front of each, and what the workers make of the segments, in order, is the data of every block of every
  concatenated stream. No turn panics, whatever the slots held before and however the chunks cut blocks. The blocks must start
  close enough together for every segment of a chunk to hold one.
\<close>

theorem lbunzip2_decompresses:
  assumes "1 \<le> level" "level \<le> 9" "well_formed (100000 * level) (header_bytes level @ body) 32 its"
    and "spaced_by gap its" "8 \<le> n" "n * (gap + 200) \<le> 8 * CHUNK_SIZE"
    and "\<forall>slot\<in>set free. length slot = SLOT_SIZE" "length body div CHUNK_SIZE < length free"
  shows "main_header (header_bytes level) = Some (100000 * level) \<and>
    (\<exists>fs rest. reader_loop slice_read free body = Some (Inr (fs, rest)) \<and>
      (\<forall>ids. length ids = length fs \<longrightarrow>
        loop_output budget n (100000 * level) \<lparr>carry = header_bytes level, chunk_id = 0\<rparr> (zip ids fs) = Inr (items_data its)))"
proof
  show "main_header (header_bytes level) = Some (100000 * level)" using assms(1,2) by (rule main_header_bytes)
  obtain fs rest where fs: "reader_loop slice_read free body = Some (Inr (fs, rest))" "filled_with body fs"
    using slice.reader_loop_fills [OF refl assms(7,8)] by blast
  have head: "length (carry \<lparr>carry = header_bytes level, chunk_id = 0\<rparr>) \<le> CARRY_HEADROOM" by (simp add: header_bytes_def CARRY_HEADROOM_def)
  have "loop_output budget n (100000 * level) \<lparr>carry = header_bytes level, chunk_id = 0\<rparr> (zip ids fs) = Inr (items_data its)"
    if ids: "length ids = length fs" for ids
  proof (rule loop_output_file [OF _ _ assms(4) order_refl head assms(5,6)])
    show "filled_with body (map snd (zip ids fs))" using fs(2) ids by simp
  qed (use assms(3) in simp)
  with fs(1) show "\<exists>fs rest. reader_loop slice_read free body = Some (Inr (fs, rest)) \<and>
      (\<forall>ids. length ids = length fs \<longrightarrow>
        loop_output budget n (100000 * level) \<lparr>carry = header_bytes level, chunk_id = 0\<rparr> (zip ids fs) = Inr (items_data its))"
    by blast
qed

theorem lbunzip2_decompresses_witness:
  "main_header (header_bytes 9) = Some 900000 \<and>
    (\<exists>fs rest. reader_loop slice_read (replicate 6 (replicate SLOT_SIZE 0)) (drop 4 (long_file 20000000)) = Some (Inr (fs, rest)) \<and>
      (\<forall>ids. length ids = length fs \<longrightarrow>
        loop_output 4 16 900000 \<lparr>carry = header_bytes 9, chunk_id = 0\<rparr> (zip ids fs) = Inr (concat (replicate 20000001 [98, 97]))))"
proof -
  have "well_formed (100000 * 9) (header_bytes 9 @ drop 4 (long_file 20000000)) 32 (long_items 20000000)"
    unfolding long_file_split using long_well_formed by simp
  from lbunzip2_decompresses [OF _ _ this long_spaced, of 16 "replicate 6 (replicate SLOT_SIZE 0)" 4]
  show ?thesis by (simp add: CHUNK_SIZE_def length_long_file long_data)
qed

text \<open>
  C8. With one worker, a chunk before the last is lost: \<open>split_chunk\<close> finds no second segment, the main loop sends the slot back
  to the reader and goes on with the same carry, so the bytes of the chunk reach no worker and the output goes on after them.
\<close>

theorem one_worker_drops_chunk:
  assumes "holds_data slot bs len" "length (carry st) \<le> CARRY_HEADROOM" "0 < len" "n \<le> 1"
  shows "(\<exists>slot'. main_body budget n m st s (slot, len, False) = Inr (st, slot', [ReturnSlot s], False)) \<and>
    loop_output budget n m st ((s, slot, len, False) # fs) = loop_output budget n m st fs"
proof -
  have "split_chunk budget (carry st @ bs) n m False = Inr None"
    unfolding split_chunk_None using assms(4) by (simp add: split_boundaries_parallel_def)
  then obtain slot' where body: "main_body budget n m st s (slot, len, False) = Inr (st, slot', [ReturnSlot s], False)"
    using main_body_no_split [OF assms(1,2), of budget n m False s] assms(3) by auto
  have "slot_output (slot', [ReturnSlot s]) = Inr []" by (simp add: slot_output_def)
  then have "loop_output budget n m st ((s, slot, len, False) # fs) = loop_output budget n m st fs"
    using body by (cases "main_loop budget n m st fs"; cases "loop_output budget n m st fs") (auto simp: loop_output_def bindE_Inr_iff bindE_Inl_iff)
  with body show ?thesis by blast
qed

text \<open>A full slot that holds the first bytes of a long file behind its headroom.\<close>

lemma full_slot: "CHUNK_SIZE \<le> length body \<Longrightarrow> holds_data (replicate CARRY_HEADROOM 0 @ take CHUNK_SIZE body) (take CHUNK_SIZE body) CHUNK_SIZE"
  by (simp add: holds_data_def SLOT_SIZE_def)

theorem one_worker_drops_chunk_witness:
  "loop_output 4 1 900000 \<lparr>carry = header_bytes 9, chunk_id = 0\<rparr>
     [(0, replicate CARRY_HEADROOM 0 @ take CHUNK_SIZE (drop 4 (long_file 6000000)), CHUNK_SIZE, False)] = Inr []"
proof -
  have "CHUNK_SIZE \<le> length (drop 4 (long_file 6000000))" by (simp add: length_long_file CHUNK_SIZE_def)
  from one_worker_drops_chunk [OF full_slot [OF this], of "\<lparr>carry = header_bytes 9, chunk_id = 0\<rparr>" 1 4 900000 0 "[]"]
  have "loop_output 4 1 900000 \<lparr>carry = header_bytes 9, chunk_id = 0\<rparr>
      [(0, replicate CARRY_HEADROOM 0 @ take CHUNK_SIZE (drop 4 (long_file 6000000)), CHUNK_SIZE, False)]
    = loop_output 4 1 900000 \<lparr>carry = header_bytes 9, chunk_id = 0\<rparr> []"
    by (simp add: header_bytes_def CARRY_HEADROOM_def CHUNK_SIZE_def)
  then show ?thesis by (simp add: loop_output_def)
qed

text \<open>How long the carried parts are: a sixth of a chunk, and a seventh of a chunk with a seventh in front of it, exceed the headroom.\<close>

lemma sixth_exceeds_headroom:
  assumes "(4 + CHUNK_SIZE) div n \<le> c + gap div 8 + 1" "2 \<le> n" "n \<le> 6" "gap \<le> 2 ^ 23"
  shows "CARRY_HEADROOM < c"
proof -
  have "(4 + CHUNK_SIZE) div 6 \<le> (4 + CHUNK_SIZE) div n" using assms(2,3) by (intro div_le_mono2) simp_all
  moreover have "gap div 8 \<le> 2 ^ 20" using div_le_mono [OF assms(4), of 8] by simp
  ultimately show ?thesis using assms(1) by (simp add: CHUNK_SIZE_def CARRY_HEADROOM_def)
qed

lemma second_seventh_exceeds_headroom:
  assumes "(4 + CHUNK_SIZE) div 7 \<le> c + gap div 8 + 1" "(c + CHUNK_SIZE) div 7 \<le> c' + gap div 8 + 1" "gap \<le> 2 ^ 22"
  shows "CARRY_HEADROOM < c'"
proof -
  have gap: "gap div 8 \<le> 2 ^ 19" using div_le_mono [OF assms(3), of 8] by simp
  then have "(4 + CHUNK_SIZE) div 7 - 2 ^ 19 - 1 + CHUNK_SIZE \<le> c + CHUNK_SIZE" using assms(1) by simp
  from div_le_mono [OF this, of 7] show ?thesis using assms(2) gap by (simp add: CHUNK_SIZE_def CARRY_HEADROOM_def)
qed

text \<open>
  C9. With fewer workers the program panics. Let the file be well formed and its block starts be at most \<open>gap\<close> bits apart. The last of
  the \<open>n\<close> parts of a chunk is carried over, and with 2 to 6 workers, and gaps of at most \<open>2 ^ 23\<close> bits, it is longer than the headroom of a slot, so the
  second chunk of a file of at least a full one fails the assertion. With 7 workers, and gaps of at most \<open>2 ^ 22\<close> bits, it just fits, but the next one,
  carry included, does not: the third chunk of a file of at least two full ones fails.
\<close>

theorem few_workers_panic:
  assumes "filled_with body (map snd fs)" "well_formed m (header @ body) 32 its" "length header = 4" "spaced_by gap its"
    and "2 \<le> n \<and> n \<le> 6 \<and> gap \<le> 2 ^ 23 \<and> CHUNK_SIZE \<le> length body \<or> n = 7 \<and> gap \<le> 2 ^ 22 \<and> 2 * CHUNK_SIZE \<le> length body"
  shows "main_loop budget n m \<lparr>carry = header, chunk_id = 0\<rparr> fs = Inl (Panic ''carry > headroom'')"
proof -
  let ?st = "\<lparr>carry = header, chunk_id = 0\<rparr>"
  have full: "CHUNK_SIZE \<le> length body" and n: "2 \<le> n" "n \<le> 7" "gap \<le> 2 ^ 23" using assms(5) by auto
  have "n * (gap + 200) \<le> 7 * (2 ^ 23 + 200)" using n by (intro mult_le_mono) simp_all
  then have parts: "n * (gap + 200) \<le> 8 * CHUNK_SIZE" by (simp add: CHUNK_SIZE_def)
  have head: "length (carry ?st) \<le> CARRY_HEADROOM" using assms(3) by (simp add: CARRY_HEADROOM_def)
  have wf: "well_formed m (carry ?st @ body) 32 its" using assms(2) by simp
  obtain s slot f fs' where fs: "fs = (s, slot, CHUNK_SIZE, False) # f # fs'" "holds_data slot (take CHUNK_SIZE body) CHUNK_SIZE"
      "filled_with (drop CHUNK_SIZE body) (map snd (f # fs'))"
    by (rule filled_slots [OF assms(1) full])
  obtain st1 slot1 acts1 A its1 p1 where first: "main_body budget n m ?st s (slot, CHUNK_SIZE, False) = Inr (st1, slot1, acts1, False)"
      "length (carry st1) \<le> (4 + CHUNK_SIZE) div n + 1" "(4 + CHUNK_SIZE) div n \<le> length (carry st1) + gap div 8 + 1"
      "spaced_by gap its1" "p1 \<le> 32" "well_formed m (carry st1 @ drop CHUNK_SIZE body) p1 its1"
    by (rule full_turn [OF fs(2) wf assms(4) order_refl head n(1) parts]) (use assms(3) in auto)
  show ?thesis
  proof (cases "CARRY_HEADROOM < length (carry st1)")
    case True
    from main_body_overflow [OF this] first(1) fs(1) show ?thesis by (cases f) simp
  next
    case False
    then have "n = 7" using sixth_exceeds_headroom [OF first(3) n(1) _ n(3)] n(2) by linarith
    then have seven: "n = 7" "gap \<le> 2 ^ 22" "2 * CHUNK_SIZE \<le> length body" using assms(5) by simp_all
    have fits: "length (carry st1) \<le> CARRY_HEADROOM" using False by simp
    obtain s2 slot2 f2 fs2 where rest: "f # fs' = (s2, slot2, CHUNK_SIZE, False) # f2 # fs2"
        "holds_data slot2 (take CHUNK_SIZE (drop CHUNK_SIZE body)) CHUNK_SIZE"
      by (rule filled_slots [OF fs(3)]) (use seven(3) in simp)
    obtain st2 slot2' acts2 where second: "main_body budget n m st1 s2 (slot2, CHUNK_SIZE, False) = Inr (st2, slot2', acts2, False)"
        "(length (carry st1) + CHUNK_SIZE) div n \<le> length (carry st2) + gap div 8 + 1"
      by (rule full_turn [OF rest(2) first(6,4,5) fits n(1) parts])
    have "CARRY_HEADROOM < length (carry st2)"
      using second_seventh_exceeds_headroom [OF _ _ seven(2)] first(3) second(2) unfolding seven(1) by blast
    from main_body_overflow [OF this] first(1) second(1) fs(1) rest(1) show ?thesis by (cases f2) simp
  qed
qed

theorem few_workers_panic_witness:
  "\<exists>fs. filled_with (drop 4 (long_file 20000000)) (map snd fs) \<and>
     main_loop 4 4 900000 \<lparr>carry = header_bytes 9, chunk_id = 0\<rparr> fs = Inl (Panic ''carry > headroom'') \<and>
     main_loop 4 7 900000 \<lparr>carry = header_bytes 9, chunk_id = 0\<rparr> fs = Inl (Panic ''carry > headroom'')"
proof -
  let ?body = "drop 4 (long_file 20000000)"
  obtain fs rest where fs: "reader_loop slice_read (replicate 6 (replicate SLOT_SIZE 0)) ?body = Some (Inr (fs, rest))" "filled_with ?body fs"
    using slice.reader_loop_fills [OF refl [of ?body], of "replicate 6 (replicate SLOT_SIZE 0)"] by (auto simp: length_long_file CHUNK_SIZE_def)
  have full: "2 * CHUNK_SIZE \<le> length ?body" by (simp add: length_long_file CHUNK_SIZE_def)
  have wf: "well_formed 900000 (header_bytes 9 @ ?body) 32 (long_items 20000000)" unfolding long_file_split by (rule long_well_formed)
  have filled: "filled_with ?body (map snd (map (Pair 0) fs))" using fs(2) by (simp add: comp_def)
  have "main_loop 4 n 900000 \<lparr>carry = header_bytes 9, chunk_id = 0\<rparr> (map (Pair 0) fs) = Inl (Panic ''carry > headroom'')"
    if "n = 4 \<or> n = 7" for n
    by (rule few_workers_panic [OF filled wf _ long_spaced]) (use that full in \<open>auto simp: header_bytes_def\<close>)
  with filled show ?thesis by blast
qed

end
