(* ===== verification/Lbunzip2_Collector.thy ===== *)
theory Lbunzip2_Collector
  imports Lbunzip2_Main
begin

text \<open>
  The collector thread of \<open>bin/lbunzip2.rs\<close>: the slots whose segments are being decoded, the results put into them, and the
  completed slots flushed in the order of their chunks. What it sends, the data to the writer and the slot back to the reader,
  is a list of effects.
\<close>

datatype collector_effect = Write "u8 list" | Recycle nat

fun apply_result :: "in_flight_slot list \<Rightarrow> segment_result \<Rightarrow> in_flight_slot list result" where
  "apply_result [] r = Inr []"
| "apply_result (f # fs) r =
     (if flight_chunk f = result_chunk r
      then bindE (store (flight_results f) (result_segment r) (Some (result_output r))) (\<lambda>rs.
        Inr (f\<lparr>flight_results := rs, done_count := done_count f + 1\<rparr> # fs))
      else bindE (apply_result fs r) (\<lambda>fs'. Inr (f # fs')))"

fun find_chunk :: "in_flight_slot list \<Rightarrow> nat \<Rightarrow> nat option" where
  "find_chunk [] c = None"
| "find_chunk (f # fs) c = (if flight_chunk f = c then Some 0 else map_option Suc (find_chunk fs c))"

lemma find_chunk_less: "find_chunk fs c = Some i \<Longrightarrow> i < length fs"
  by (induction fs arbitrary: i) (auto split: if_splits)

definition segment_writes :: "u8 list option list \<Rightarrow> collector_effect list" where
  "segment_writes results = concat (map (\<lambda>seg. case seg of Some data \<Rightarrow> if data \<noteq> [] then [Write data] else [] | None \<Rightarrow> []) results)"

function flush_completed :: "in_flight_slot list \<Rightarrow> nat \<Rightarrow> in_flight_slot list \<times> nat \<times> collector_effect list" where
  "flush_completed in_flight next_write_id =
     (case find_chunk in_flight next_write_id of
        None \<Rightarrow> (in_flight, next_write_id, [])
      | Some idx \<Rightarrow>
          let completed = in_flight ! idx in
          if done_count completed < flight_segments completed then (in_flight, next_write_id, [])
          else let (fs, next', effects) = flush_completed (take idx in_flight @ drop (Suc idx) in_flight) (Suc next_write_id)
            in (fs, next', segment_writes (flight_results completed) @ [Recycle (flight_slot completed)] @ effects))"
  by pat_completeness auto
termination
  by (relation "measure (\<lambda>(fs, c). length fs)") (auto dest: find_chunk_less)

declare flush_completed.simps [simp del]

text \<open>One turn of the thread.\<close>

definition collector_step :: "in_flight_slot list \<times> nat \<Rightarrow> collector_msg \<Rightarrow> (in_flight_slot list \<times> nat \<times> collector_effect list) result" where
  "collector_step = (\<lambda>(in_flight, next_write_id) msg.
     bindE (case msg of NewSlot slot_info \<Rightarrow> Inr (in_flight @ [slot_info]) | Result result \<Rightarrow> apply_result in_flight result) (\<lambda>fs.
     Inr (flush_completed fs next_write_id)))"

text \<open>The thread over the messages of its channel, with the flush after the channel is closed.\<close>

fun collector_loop :: "in_flight_slot list \<times> nat \<Rightarrow> collector_msg list \<Rightarrow> collector_effect list result" where
  "collector_loop (in_flight, next_write_id) [] = Inr (snd (snd (flush_completed in_flight next_write_id)))"
| "collector_loop st (msg # msgs) =
     bindE (collector_step st msg) (\<lambda>(fs, next', effects).
     bindE (collector_loop (fs, next') msgs) (\<lambda>later. Inr (effects @ later)))"

subsection \<open>The invariant of the thread\<close>

text \<open>
  The chunks as the collector is to write them: the slot of each and the outputs of its segments. \<open>tracks\<close> is what an
  entry of the list says of its chunk; \<open>flushed\<close> that the chunk to be written next is not complete.
\<close>

definition results_in :: "u8 list option list \<Rightarrow> nat" where
  "results_in xs = length (filter (\<lambda>x. x \<noteq> None) xs)"

type_synonym chunk_plan = "(nat \<times> u8 list list) list"

definition tracks :: "chunk_plan \<Rightarrow> in_flight_slot \<Rightarrow> bool" where
  "tracks J f \<longleftrightarrow> flight_chunk f < length J \<and> flight_slot f = fst (J ! flight_chunk f) \<and>
     flight_segments f = length (snd (J ! flight_chunk f)) \<and> length (flight_results f) = length (snd (J ! flight_chunk f)) \<and>
     done_count f = results_in (flight_results f) \<and>
     (\<forall>i<length (flight_results f). flight_results f ! i \<noteq> None \<longrightarrow> flight_results f ! i = Some (snd (J ! flight_chunk f) ! i))"

definition collector_inv :: "chunk_plan \<Rightarrow> in_flight_slot list \<times> nat \<Rightarrow> bool" where
  "collector_inv J = (\<lambda>(fs, c). c \<le> length J \<and> distinct (map flight_chunk fs) \<and> (\<forall>f\<in>set fs. c \<le> flight_chunk f \<and> tracks J f))"

definition flushed :: "in_flight_slot list \<times> nat \<Rightarrow> bool" where
  "flushed = (\<lambda>(fs, c). \<forall>f\<in>set fs. flight_chunk f = c \<longrightarrow> done_count f < flight_segments f)"

text \<open>The segments whose results are still to come, and the chunks the thread has been told of.\<close>

definition outstanding :: "chunk_plan \<Rightarrow> in_flight_slot list \<times> nat \<Rightarrow> (nat \<times> nat) set" where
  "outstanding J = (\<lambda>(fs, c). {(k, i). c \<le> k \<and> k < length J \<and> i < length (snd (J ! k)) \<and>
     (\<forall>f\<in>set fs. flight_chunk f = k \<longrightarrow> flight_results f ! i = None)})"

definition registered :: "in_flight_slot list \<times> nat \<Rightarrow> nat set" where
  "registered = (\<lambda>(fs, c). {..<c} \<union> flight_chunk ` set fs)"

definition chunk_effects :: "chunk_plan \<Rightarrow> nat \<Rightarrow> collector_effect list" where
  "chunk_effects J c = segment_writes (map Some (snd (J ! c))) @ [Recycle (fst (J ! c))]"

fun effect_slots :: "collector_effect \<Rightarrow> nat list" where
  "effect_slots (Write data) = []"
| "effect_slots (Recycle s) = [s]"

fun effect_data :: "collector_effect \<Rightarrow> u8 list" where
  "effect_data (Write data) = data"
| "effect_data (Recycle s) = []"

lemma find_chunk_None: "find_chunk fs c = None \<longleftrightarrow> c \<notin> flight_chunk ` set fs"
  by (induction fs) auto

lemma find_chunk_Some: "find_chunk fs c = Some i \<Longrightarrow> flight_chunk (fs ! i) = c"
  by (induction fs arbitrary: i) (auto split: if_splits)

lemma all_Some:
  assumes "tracks J f" "flight_segments f \<le> done_count f"
  shows "flight_results f = map Some (snd (J ! flight_chunk f))"
proof (rule nth_equalityI)
  have t: "flight_segments f = length (snd (J ! flight_chunk f))" "length (flight_results f) = length (snd (J ! flight_chunk f))"
    "done_count f = results_in (flight_results f)"
    using assms(1) by (simp_all add: tracks_def)
  then show "length (flight_results f) = length (map Some (snd (J ! flight_chunk f)))" by simp
  have "length (flight_results f) \<le> length (filter (\<lambda>x. x \<noteq> None) (flight_results f))" using t assms(2) by (simp add: results_in_def)
  then have "filter (\<lambda>x. x \<noteq> None) (flight_results f) = flight_results f"
    by (metis filter_True length_filter_less linorder_not_le)
  then have "\<forall>x\<in>set (flight_results f). x \<noteq> None" by (simp add: filter_id_conv)
  then show "flight_results f ! i = map Some (snd (J ! flight_chunk f)) ! i" if "i < length (flight_results f)" for i
    using that assms(1) nth_mem [of i "flight_results f"] by (simp add: tracks_def del: nth_mem)
qed

lemma set_without: "i < length xs \<Longrightarrow> set xs = insert (xs ! i) (set (take i xs @ drop (Suc i) xs))"
  using arg_cong [OF id_take_nth_drop [of i xs], of set] by simp

lemma mset_without: "i < length xs \<Longrightarrow> mset xs = add_mset (xs ! i) (mset (take i xs @ drop (Suc i) xs))"
  using arg_cong [OF id_take_nth_drop [of i xs], of mset] by simp

lemma distinct_without:
  assumes "i < length xs" "distinct (map h xs)"
  shows "distinct (map h (take i xs @ drop (Suc i) xs))" "h (xs ! i) \<notin> h ` set (take i xs @ drop (Suc i) xs)"
proof -
  have "distinct (map h (take i xs @ xs ! i # drop (Suc i) xs))" using assms id_take_nth_drop [of i xs] by simp
  then show "distinct (map h (take i xs @ drop (Suc i) xs))" "h (xs ! i) \<notin> h ` set (take i xs @ drop (Suc i) xs)" by auto
qed

lemma no_slots_written: "concat (map effect_slots (segment_writes results)) = []"
  by (induction results) (auto simp: segment_writes_def split: option.splits)

definition flush_ok :: "chunk_plan \<Rightarrow> in_flight_slot list \<times> nat \<Rightarrow> in_flight_slot list \<times> nat \<times> collector_effect list \<Rightarrow> bool" where
  "flush_ok J = (\<lambda>(fs, c) (fs', c', effects).
     collector_inv J (fs', c') \<and> flushed (fs', c') \<and> c \<le> c' \<and> effects = concat (map (chunk_effects J) [c..<c']) \<and>
     registered (fs', c') = registered (fs, c) \<and> outstanding J (fs', c') = outstanding J (fs, c) \<and>
     mset (map flight_slot fs) = mset (map flight_slot fs') + mset (concat (map effect_slots effects)))"

lemma flush_one:
  assumes "collector_inv J (fs, c)" "find_chunk fs c = Some i" "flight_segments (fs ! i) \<le> done_count (fs ! i)"
    and "flush_ok J (take i fs @ drop (Suc i) fs, Suc c) (fs', c', effects)"
  shows "flush_ok J (fs, c) (fs', c', segment_writes (flight_results (fs ! i)) @ [Recycle (flight_slot (fs ! i))] @ effects)"
proof -
  let ?f = "fs ! i" and ?rest = "take i fs @ drop (Suc i) fs"
  have i: "i < length fs" "flight_chunk ?f = c" using assms(2) find_chunk_less find_chunk_Some by blast+
  have t: "tracks J ?f" using assms(1) i(1) by (simp add: collector_inv_def)
  note full = all_Some [OF t assms(3), unfolded i(2)]
  note one = set_without [OF i(1)]
  have "distinct (map flight_chunk fs)" using assms(1) by (simp add: collector_inv_def)
  then have others: "c \<notin> flight_chunk ` set ?rest" using distinct_without(2) [OF i(1)] i(2) by blast
  have c: "c < length J" "flight_slot ?f = fst (J ! c)" using t i(2) by (auto simp: tracks_def)
  have ok: "collector_inv J (fs', c')" "flushed (fs', c')" "Suc c \<le> c'" "effects = concat (map (chunk_effects J) [Suc c..<c'])"
    "registered (fs', c') = registered (?rest, Suc c)" "outstanding J (fs', c') = outstanding J (?rest, Suc c)"
    "mset (map flight_slot ?rest) = mset (map flight_slot fs') + mset (concat (map effect_slots effects))"
    using assms(4) by (simp_all add: flush_ok_def)
  have "[c..<c'] = c # [Suc c..<c']" using ok(3) by (simp add: upt_conv_Cons)
  then have "segment_writes (flight_results ?f) @ [Recycle (flight_slot ?f)] @ effects = concat (map (chunk_effects J) [c..<c'])"
    using ok(4) full c(2) by (simp add: chunk_effects_def)
  moreover have "registered (?rest, Suc c) = registered (fs, c)"
    unfolding registered_def prod.case one using i(2) by auto
  moreover have "outstanding J (?rest, Suc c) = outstanding J (fs, c)"
  proof -
    have "(k, x) \<in> outstanding J (?rest, Suc c) \<longleftrightarrow> (k, x) \<in> outstanding J (fs, c)" for k x
      using others i(2) full unfolding outstanding_def prod.case one by (cases "k = c") (auto simp: le_less Suc_le_eq)
    then show ?thesis by auto
  qed
  moreover have "mset (map flight_slot fs) = add_mset (flight_slot ?f) (mset (map flight_slot ?rest))"
    using mset_without [OF i(1)] by (metis image_mset_add_mset mset_map)
  then have "mset (map flight_slot fs) = mset (map flight_slot fs') +
      mset (concat (map effect_slots (segment_writes (flight_results ?f) @ [Recycle (flight_slot ?f)] @ effects)))"
    using ok(7) unfolding map_append concat_append no_slots_written by simp
  ultimately show ?thesis using ok(1-3,5,6) unfolding flush_ok_def prod.case by simp
qed

lemma flush_spec: "collector_inv J (fs, c) \<Longrightarrow> flush_ok J (fs, c) (flush_completed fs c)"
proof (induction fs c rule: flush_completed.induct)
  case (1 fs c)
  show ?case
  proof (cases "find_chunk fs c")
    case None
    then have "\<forall>f\<in>set fs. flight_chunk f \<noteq> c" by (auto simp: find_chunk_None)
    then have "flush_ok J (fs, c) (fs, c, [])" using "1.prems" by (simp add: flush_ok_def flushed_def)
    with None show ?thesis by (simp add: flush_completed.simps [of fs c])
  next
    case (Some i)
    let ?rest = "take i fs @ drop (Suc i) fs"
    have i: "i < length fs" "flight_chunk (fs ! i) = c" using Some find_chunk_less find_chunk_Some by blast+
    have d: "distinct (map flight_chunk fs)" using "1.prems" by (simp add: collector_inv_def)
    show ?thesis
    proof (cases "done_count (fs ! i) < flight_segments (fs ! i)")
      case True
      have "f = fs ! i" if "f \<in> set fs" "flight_chunk f = c" for f
        using that d i by (metis distinct_map inj_onD nth_mem)
      then have "flush_ok J (fs, c) (fs, c, [])" using "1.prems" True by (auto simp: flush_ok_def flushed_def)
      with Some True show ?thesis by (simp add: flush_completed.simps [of fs c])
    next
      case False
      have "collector_inv J (?rest, Suc c)"
      proof -
        have "f \<in> set fs \<and> flight_chunk f \<noteq> c" if "f \<in> set ?rest" for f
          using that set_without [OF i(1)] distinct_without(2) [OF i(1) d] unfolding i(2) by blast
        moreover have "c < length J" using "1.prems" i by (force simp: collector_inv_def tracks_def)
        ultimately show ?thesis
          using "1.prems" distinct_without(1) [OF i(1) d] by (fastforce simp: collector_inv_def)
      qed
      from "1.IH" [OF Some refl False this]
      obtain fs' c' effects where rest: "flush_completed ?rest (Suc c) = (fs', c', effects)" "flush_ok J (?rest, Suc c) (fs', c', effects)"
        by (metis prod_cases3)
      have "flush_completed fs c = (fs', c', segment_writes (flight_results (fs ! i)) @ [Recycle (flight_slot (fs ! i))] @ effects)"
        using Some False rest(1) by (simp add: flush_completed.simps [of fs c] Let_def)
      with flush_one [OF "1.prems" Some _ rest(2)] False show ?thesis by simp
    qed
  qed
qed

subsection \<open>What a message changes\<close>

lemma filled_count:
  assumes "i < length xs" "xs ! i = None"
  shows "results_in (xs[i := Some y]) = Suc (results_in xs)"
  using assms
proof (induction xs arbitrary: i)
  case (Cons x xs)
  then show ?case by (cases i) (auto simp: results_in_def)
qed simp

lemma apply_result_in:
  assumes "f \<in> set fs" "flight_chunk f = result_chunk r" "distinct (map flight_chunk fs)" "result_segment r < length (flight_results f)"
  shows "apply_result fs r = Inr (map (\<lambda>g. if flight_chunk g = result_chunk r
    then g\<lparr>flight_results := (flight_results g)[result_segment r := Some (result_output r)], done_count := done_count g + 1\<rparr> else g) fs)"
  using assms
proof (induction fs)
  case (Cons g fs)
  show ?case
  proof (cases "flight_chunk g = result_chunk r")
    case True
    then have "g = f" using Cons.prems(1-3) by (metis distinct_map inj_onD list.set_intros(1))
    moreover have "flight_chunk h \<noteq> result_chunk r" if "h \<in> set fs" for h using Cons.prems(3) True imageI [OF that, of flight_chunk] by auto
    then have "map (\<lambda>g. if flight_chunk g = result_chunk r
        then g\<lparr>flight_results := (flight_results g)[result_segment r := Some (result_output r)], done_count := done_count g + 1\<rparr> else g) fs = fs"
      by (simp add: map_idI)
    ultimately show ?thesis using True Cons.prems(4) by simp
  next
    case False
    with Cons show ?thesis by auto
  qed
qed simp

lemma collect_result:
  assumes "collector_inv J (fs, c)" "(k, i) \<in> outstanding J (fs, c)" "k \<in> registered (fs, c)"
    and "result_chunk r = k" "result_segment r = i" "result_output r = snd (J ! k) ! i"
  obtains fs' where "apply_result fs r = Inr fs'" "collector_inv J (fs', c)" "outstanding J (fs', c) = outstanding J (fs, c) - {(k, i)}"
    "registered (fs', c) = registered (fs, c)" "map flight_slot fs' = map flight_slot fs"
proof -
  let ?up = "\<lambda>g. if flight_chunk g = k
    then g\<lparr>flight_results := (flight_results g)[i := Some (result_output r)], done_count := done_count g + 1\<rparr> else g"
  have inv: "c \<le> length J" "distinct (map flight_chunk fs)" "\<And>f. f \<in> set fs \<Longrightarrow> c \<le> flight_chunk f \<and> tracks J f"
    using assms(1) by (auto simp: collector_inv_def)
  have out: "c \<le> k" "k < length J" "i < length (snd (J ! k))" "\<And>f. f \<in> set fs \<Longrightarrow> flight_chunk f = k \<Longrightarrow> flight_results f ! i = None"
    using assms(2) by (auto simp: outstanding_def)
  obtain f where f: "f \<in> set fs" "flight_chunk f = k" using assms(3) out(1) by (auto simp: registered_def)
  have i: "i < length (flight_results g)" if "g \<in> set fs" "flight_chunk g = k" for g using inv(3) [OF that(1)] that(2) out(3) by (auto simp: tracks_def)
  have up: "flight_chunk (?up g) = flight_chunk g" "flight_slot (?up g) = flight_slot g" for g by simp_all
  show thesis
  proof
    show "apply_result fs r = Inr (map ?up fs)"
      using apply_result_in [OF f(1) _ inv(2), of r] f(2) assms(4,5) i [OF f] by simp
    have "tracks J (?up g)" if g: "g \<in> set fs" for g
      using inv(3) [OF g] i [OF g] out(4) [OF g] assms(6)
      by (auto simp: tracks_def filled_count nth_list_update)
    then have "c \<le> flight_chunk (?up g) \<and> tracks J (?up g)" if "g \<in> set fs" for g unfolding up using inv(3) [OF that] that by blast
    then have "\<forall>h\<in>set (map ?up fs). c \<le> flight_chunk h \<and> tracks J h" unfolding set_map by blast
    moreover have chunks: "map flight_chunk (map ?up fs) = map flight_chunk fs" by simp
    ultimately show "collector_inv J (map ?up fs, c)" using inv(1,2) unfolding collector_inv_def prod.case by presburger
    show "registered (map ?up fs, c) = registered (fs, c)"
      by (simp only: registered_def prod.case list.set_map [symmetric] chunks)
    show "map flight_slot (map ?up fs) = map flight_slot fs" by simp
    show "outstanding J (map ?up fs, c) = outstanding J (fs, c) - {(k, i)}"
    proof -
      have up_res: "flight_results (?up g) ! x = None \<longleftrightarrow> flight_results g ! x = None \<and> \<not> (flight_chunk g = k \<and> x = i)" if "g \<in> set fs" for g x
        using i [OF that] by (auto simp: nth_list_update)
      have "(\<forall>h\<in>set (map ?up fs). flight_chunk h = l \<longrightarrow> flight_results h ! x = None) \<longleftrightarrow>
          (\<forall>g\<in>set fs. flight_chunk g = l \<longrightarrow> flight_results g ! x = None \<and> \<not> (l = k \<and> x = i))" for l x
        unfolding set_map ball_simps up using up_res by blast
      then have "(l, x) \<in> outstanding J (map ?up fs, c) \<longleftrightarrow> (l, x) \<in> outstanding J (fs, c) - {(k, i)}" for l x
        unfolding outstanding_def prod.case mem_Collect_eq Diff_iff singleton_iff prod.inject using f by blast
      then show ?thesis by auto
    qed
  qed
qed

lemma register_slot:
  assumes "collector_inv J (fs, c)" "tracks J f" "flight_results f = replicate (flight_segments f) None" "flight_chunk f \<notin> registered (fs, c)"
  shows "collector_inv J (fs @ [f], c)" "outstanding J (fs @ [f], c) = outstanding J (fs, c)"
    "registered (fs @ [f], c) = insert (flight_chunk f) (registered (fs, c))"
proof -
  show "registered (fs @ [f], c) = insert (flight_chunk f) (registered (fs, c))" by (auto simp: registered_def)
  show "collector_inv J (fs @ [f], c)" using assms by (auto simp: collector_inv_def registered_def)
  show "outstanding J (fs @ [f], c) = outstanding J (fs, c)"
    using assms(2,3) by (auto simp: outstanding_def tracks_def)
qed

subsection \<open>A turn of the thread\<close>

text \<open>A turn with its effects: the next state, what is outstanding and registered in it, and the slots given back.\<close>

definition turn_ok ::
    "chunk_plan \<Rightarrow> in_flight_slot list \<times> nat \<Rightarrow> (nat \<times> nat) set \<Rightarrow> nat set \<Rightarrow> nat list \<Rightarrow> in_flight_slot list \<times> nat \<times> collector_effect list \<Rightarrow> bool" where
  "turn_ok J = (\<lambda>(fs, c) T R ss (fs', c', effects).
     collector_inv J (fs', c') \<and> flushed (fs', c') \<and> c \<le> c' \<and> effects = concat (map (chunk_effects J) [c..<c']) \<and>
     registered (fs', c') = R \<and> outstanding J (fs', c') = T \<and>
     mset (map flight_slot fs @ ss) = mset (map flight_slot fs') + mset (concat (map effect_slots effects)))"

lemma turn_new_slot:
  assumes "collector_inv J (fs, c)" "tracks J f" "flight_results f = replicate (flight_segments f) None" "flight_chunk f \<notin> registered (fs, c)"
  obtains turn where "collector_step (fs, c) (NewSlot f) = Inr turn"
    "turn_ok J (fs, c) (outstanding J (fs, c)) (insert (flight_chunk f) (registered (fs, c))) [flight_slot f] turn"
proof -
  note new = register_slot [OF assms]
  obtain fs' c' effects where fl: "flush_completed (fs @ [f]) c = (fs', c', effects)" using prod_cases3 by blast
  from flush_spec [OF new(1)] fl new(2,3) have "turn_ok J (fs, c) (outstanding J (fs, c)) (insert (flight_chunk f) (registered (fs, c))) [flight_slot f] (fs', c', effects)"
    by (simp add: flush_ok_def turn_ok_def)
  with fl show thesis by (intro that) (simp_all add: collector_step_def)
qed

lemma turn_result:
  assumes "collector_inv J (fs, c)" "(result_chunk r, result_segment r) \<in> outstanding J (fs, c)" "result_chunk r \<in> registered (fs, c)"
    and "result_output r = snd (J ! result_chunk r) ! result_segment r"
  obtains turn where "collector_step (fs, c) (Result r) = Inr turn"
    "turn_ok J (fs, c) (outstanding J (fs, c) - {(result_chunk r, result_segment r)}) (registered (fs, c)) [] turn"
proof -
  obtain fs1 where new: "apply_result fs r = Inr fs1" "collector_inv J (fs1, c)" "outstanding J (fs1, c) = outstanding J (fs, c) - {(result_chunk r, result_segment r)}"
    "registered (fs1, c) = registered (fs, c)" "map flight_slot fs1 = map flight_slot fs"
    by (rule collect_result [OF assms(1-3) refl refl assms(4)])
  obtain fs' c' effects where fl: "flush_completed fs1 c = (fs', c', effects)" using prod_cases3 by blast
  from flush_spec [OF new(2)] fl new(3-5) have "turn_ok J (fs, c) (outstanding J (fs, c) - {(result_chunk r, result_segment r)}) (registered (fs, c)) [] (fs', c', effects)"
    by (simp add: flush_ok_def turn_ok_def mset_map [symmetric] del: mset_map)
  with fl new(1) show thesis by (intro that) (simp_all add: collector_step_def)
qed

text \<open>With every chunk registered and nothing outstanding, everything is written.\<close>

lemma none_missing: "\<forall>x\<in>set xs. x \<noteq> None \<Longrightarrow> results_in xs = length xs"
  by (simp add: results_in_def)

lemma drained:
  assumes "collector_inv J (fs, c)" "flushed (fs, c)" "registered (fs, c) = {..<length J}" "outstanding J (fs, c) = {}"
  shows "c = length J" "fs = []"
proof -
  have inv: "c \<le> length J" "\<And>f. f \<in> set fs \<Longrightarrow> c \<le> flight_chunk f \<and> tracks J f" using assms(1) by (auto simp: collector_inv_def)
  show c: "c = length J"
  proof (rule ccontr)
    assume "c \<noteq> length J"
    then have "c \<in> registered (fs, c)" using inv(1) assms(3) by simp
    then obtain f where f: "f \<in> set fs" "flight_chunk f = c" by (auto simp: registered_def)
    have t: "length (flight_results f) = length (snd (J ! c))" "flight_segments f = length (snd (J ! c))" "done_count f = results_in (flight_results f)" "c < length J"
      using inv(2) [OF f(1)] f(2) by (auto simp: tracks_def)
    have "flight_results f ! i \<noteq> None" if i: "i < length (flight_results f)" for i
    proof -
      have "(c, i) \<notin> outstanding J (fs, c)" using assms(4) by simp
      then obtain g where "g \<in> set fs" "flight_chunk g = c" "flight_results g ! i \<noteq> None" using i t(1,4) by (auto simp: outstanding_def)
      moreover from this have "g = f" using f assms(1) by (auto simp: collector_inv_def distinct_map dest: inj_onD)
      ultimately show ?thesis by simp
    qed
    then have "results_in (flight_results f) = length (flight_results f)" by (intro none_missing) (auto simp: in_set_conv_nth)
    with assms(2) f t show False by (auto simp: flushed_def)
  qed
  show "fs = []"
  proof (rule ccontr)
    assume "fs \<noteq> []"
    then obtain f where "f \<in> set fs" by (cases fs) auto
    then have "length J \<le> flight_chunk f" "flight_chunk f < length J" using inv(2) c by (auto simp: tracks_def)
    then show False by simp
  qed
qed

subsection \<open>Any order of the messages\<close>

text \<open>
  The messages of all threads, in any order in which every slot is announced once and before its results, and every segment has
  one result. \<open>R\<close> and \<open>T\<close> are the chunks already announced and the segments still to come.
\<close>

fun any_order :: "chunk_plan \<Rightarrow> nat set \<Rightarrow> (nat \<times> nat) set \<Rightarrow> collector_msg list \<Rightarrow> bool" where
  "any_order J R T [] \<longleftrightarrow> R = {..<length J} \<and> T = {}"
| "any_order J R T (NewSlot f # msgs) \<longleftrightarrow> flight_chunk f \<notin> R \<and> tracks J f \<and> flight_results f = replicate (flight_segments f) None \<and>
     any_order J (insert (flight_chunk f) R) T msgs"
| "any_order J R T (Result r # msgs) \<longleftrightarrow> (result_chunk r, result_segment r) \<in> T \<and> result_chunk r \<in> R \<and>
     result_output r = snd (J ! result_chunk r) ! result_segment r \<and> any_order J R (T - {(result_chunk r, result_segment r)}) msgs"

definition segments_of :: "chunk_plan \<Rightarrow> (nat \<times> nat) set" where
  "segments_of J = (SIGMA c:{..<length J}. {..<length (snd (J ! c))})"

lemma collector_loop_order:
  assumes "collector_inv J st" "flushed st" "any_order J (registered st) (outstanding J st) msgs"
  shows "collector_loop st msgs = Inr (concat (map (chunk_effects J) [snd st..<length J]))"
  using assms
proof (induction msgs arbitrary: st)
  case Nil
  obtain fs c where st: "st = (fs, c)" by (cases st)
  have "c = length J" "fs = []" using drained [of J fs c] Nil by (simp_all add: st)
  then show ?case by (simp add: st flush_completed.simps)
next
  case (Cons msg msgs)
  obtain fs c where st: "st = (fs, c)" by (cases st)
  have "\<exists>fs' c' effects T R ss. collector_step (fs, c) msg = Inr (fs', c', effects) \<and> turn_ok J (fs, c) T R ss (fs', c', effects) \<and> any_order J R T msgs"
  proof (cases msg)
    case (NewSlot f)
    then have "flight_chunk f \<notin> registered (fs, c)" "tracks J f" "flight_results f = replicate (flight_segments f) None"
      "any_order J (insert (flight_chunk f) (registered (fs, c))) (outstanding J (fs, c)) msgs" using Cons.prems(3) by (simp_all add: st)
    with turn_new_slot [of J fs c f] Cons.prems(1) NewSlot show ?thesis unfolding st by (metis prod_cases3)
  next
    case (Result r)
    then have "(result_chunk r, result_segment r) \<in> outstanding J (fs, c)" "result_chunk r \<in> registered (fs, c)"
      "result_output r = snd (J ! result_chunk r) ! result_segment r"
      "any_order J (registered (fs, c)) (outstanding J (fs, c) - {(result_chunk r, result_segment r)}) msgs" using Cons.prems(3) by (simp_all add: st)
    with turn_result [of J fs c r] Cons.prems(1) Result show ?thesis unfolding st by (metis prod_cases3)
  qed
  then obtain fs' c' effects T R ss where step: "collector_step (fs, c) msg = Inr (fs', c', effects)"
    "turn_ok J (fs, c) T R ss (fs', c', effects)" "any_order J R T msgs" by blast
  then have next_state: "collector_inv J (fs', c')" "flushed (fs', c')" "c \<le> c'" "effects = concat (map (chunk_effects J) [c..<c'])"
    "any_order J (registered (fs', c')) (outstanding J (fs', c')) msgs" by (auto simp: turn_ok_def)
  have "c' \<le> length J" using next_state(1) by (simp add: collector_inv_def)
  then have "[c..<length J] = [c..<c'] @ [c'..<length J]" using next_state(3) upt_add_eq_append [of c c' "length J - c'"] by simp
  with Cons.IH [OF next_state(1,2,5)] step(1) next_state(4) show ?case by (simp add: st)
qed

text \<open>
  C7. The collector is a reorder buffer. Whatever the order in which the workers finish, as long as a slot is announced before its
  results and no result comes twice, it sends the writer the output of the segments of chunk 0, then of chunk 1, and so on, leaving
  out empty ones, gives each slot back exactly once, right after the last segment of its chunk, and ends with nothing left over.
\<close>

theorem collector_reorders:
  assumes "any_order J {} (segments_of J) msgs"
  shows "collector_loop ([], 0) msgs = Inr (concat (map (chunk_effects J) [0..<length J]))"
proof -
  have "registered ([], 0) = {}" "outstanding J ([], 0) = segments_of J"
    by (auto simp: registered_def outstanding_def segments_of_def)
  with collector_loop_order [of J "([], 0)" msgs] assms show ?thesis by (simp add: collector_inv_def flushed_def)
qed

definition sample_plan :: chunk_plan where "sample_plan = [(5, [[1], []]), (2, [[3]])]"

lemma sample_tracks:
  "tracks sample_plan \<lparr>flight_chunk = 0, flight_slot = 5, flight_segments = Suc (Suc 0), flight_results = [None, None], done_count = 0, flight_last = False\<rparr>"
  "tracks sample_plan \<lparr>flight_chunk = Suc 0, flight_slot = Suc (Suc 0), flight_segments = Suc 0, flight_results = [None], done_count = 0, flight_last = True\<rparr>"
  by (simp_all add: tracks_def sample_plan_def results_in_def All_less_Suc)

theorem collector_reorders_witness:
  "collector_loop ([], 0)
     [NewSlot \<lparr>flight_chunk = 0, flight_slot = 5, flight_segments = 2, flight_results = [None, None], done_count = 0, flight_last = False\<rparr>,
      NewSlot \<lparr>flight_chunk = 1, flight_slot = 2, flight_segments = 1, flight_results = [None], done_count = 0, flight_last = True\<rparr>,
      Result \<lparr>result_chunk = 1, result_segment = 0, result_output = [3]\<rparr>,
      Result \<lparr>result_chunk = 0, result_segment = 1, result_output = []\<rparr>,
      Result \<lparr>result_chunk = 0, result_segment = 0, result_output = [1]\<rparr>]
   = Inr [Write [1], Recycle 5, Write [3], Recycle 2]"
proof -
  have "segments_of sample_plan = {(0, 0), (0, 1), (1, 0)}"
    by (auto simp: segments_of_def sample_plan_def less_Suc_eq)
  then have "any_order sample_plan {} (segments_of sample_plan)
     [NewSlot \<lparr>flight_chunk = 0, flight_slot = 5, flight_segments = 2, flight_results = [None, None], done_count = 0, flight_last = False\<rparr>,
      NewSlot \<lparr>flight_chunk = 1, flight_slot = 2, flight_segments = 1, flight_results = [None], done_count = 0, flight_last = True\<rparr>,
      Result \<lparr>result_chunk = 1, result_segment = 0, result_output = [3]\<rparr>,
      Result \<lparr>result_chunk = 0, result_segment = 1, result_output = []\<rparr>,
      Result \<lparr>result_chunk = 0, result_segment = 0, result_output = [1]\<rparr>]"
    using sample_tracks by (simp add: numeral_2_eq_2 insert_Diff_if lessThan_Suc insert_commute) (auto simp: sample_plan_def lessThan_Suc)
  from collector_reorders [OF this] show ?thesis
    by (simp add: sample_plan_def chunk_effects_def segment_writes_def upt_rec)
qed

end
