(* ===== verification/Lbunzip2_Pipeline.thy ===== *)
theory Lbunzip2_Pipeline
  imports Lbunzip2_Collector
begin

text \<open>
  The threads of \<open>bin/lbunzip2.rs\<close> together, as a step relation: the reader, the main thread, \<open>n\<close> workers, the collector and the
  writer, joined by bounded channels. The slots are shared memory: a worker reads a slot through a raw pointer while the slot is
  owned by an entry of the collector. The invariants say where every slot, every item and every result is.
\<close>

subsection \<open>Threads and channels\<close>

datatype 's reader_thread = Reading 's | Filled nat nat bool 's | ReaderDone

text \<open>The main thread leaves its loop once what it has to send is sent; a panic keeps the slot it held.\<close>

datatype main_thread = Receiving | MainDone | Panicked nat

datatype worker_thread = Idle | Decoding work_item | Decoded segment_result | Died work_item

text \<open>What was posted for a chunk, for the statements only: the slot, its content at that time and the items.\<close>

record job =
  job_slot :: nat
  job_content :: "u8 list"
  job_items :: "work_item list"

record 's pipeline =
  memory :: "nat \<Rightarrow> u8 list"
  returned :: "nat list"
  reader :: "'s reader_thread"
  filled :: "(nat \<times> nat \<times> bool) list"
  main :: main_thread
  main_vars :: main_state
  to_send :: "main_action list"
  work :: "work_item list"
  worker_threads :: "worker_thread list"
  inbox :: "collector_msg list"
  collector :: "in_flight_slot list \<times> nat"
  to_perform :: "collector_effect list"
  write_queue :: "u8 list list"
  out_file :: "u8 list"
  jobs :: "job list"

definition new_jobs :: "nat \<Rightarrow> u8 list \<Rightarrow> main_action list \<Rightarrow> job list" where
  "new_jobs s content acts = (case acts of Register f # _ \<Rightarrow> [\<lparr>job_slot = s, job_content = content, job_items = posted acts\<rparr>] | _ \<Rightarrow> [])"

definition pipeline_start :: "nat \<Rightarrow> u8 list \<Rightarrow> 's \<Rightarrow> 's pipeline" where
  "pipeline_start n header src =
     \<lparr>memory = \<lambda>_. replicate SLOT_SIZE 0, returned = [0..<RING_SLOTS], reader = Reading src, filled = [],
      main = Receiving, main_vars = \<lparr>carry = header, chunk_id = 0\<rparr>, to_send = [],
      work = [], worker_threads = replicate n Idle, inbox = [], collector = ([], 0), to_perform = [],
      write_queue = [], out_file = [], jobs = []\<rparr>"

text \<open>
  One step of one thread. A send waits for room in its channel, a receive for a message. The slots go round a channel with room
  for all of them.
\<close>

inductive pipeline_step :: "'s read_fn \<Rightarrow> nat \<Rightarrow> nat \<Rightarrow> nat \<Rightarrow> 's pipeline \<Rightarrow> 's pipeline \<Rightarrow> bool" for rd budget n m where
  reader_fills: "reader st = Reading src \<Longrightarrow> returned st = s # ss \<Longrightarrow>
    fill_slot rd (memory st s) src = Some (Inr ((content, got, is_last), src')) \<Longrightarrow>
    pipeline_step rd budget n m st
      (st\<lparr>returned := ss, memory := (memory st)(s := content), reader := Filled s got is_last src'\<rparr>)"
| reader_sends: "reader st = Filled s got is_last src \<Longrightarrow> length (filled st) < RING_SLOTS \<Longrightarrow>
    pipeline_step rd budget n m st
      (st\<lparr>filled := filled st @ [(s, got, is_last)], reader := if is_last then ReaderDone else Reading src\<rparr>)"
| main_turns: "main st = Receiving \<Longrightarrow> to_send st = [] \<Longrightarrow> filled st = (s, got, is_last) # fs \<Longrightarrow>
    main_body budget n m (main_vars st) s (memory st s, got, is_last) = Inr (vars, content, acts, stop) \<Longrightarrow>
    pipeline_step rd budget n m st
      (st\<lparr>filled := fs, memory := (memory st)(s := content), main_vars := vars, to_send := acts,
        main := if stop then MainDone else Receiving, jobs := jobs st @ new_jobs s content acts\<rparr>)"
| main_panics: "main st = Receiving \<Longrightarrow> to_send st = [] \<Longrightarrow> filled st = (s, got, is_last) # fs \<Longrightarrow>
    main_body budget n m (main_vars st) s (memory st s, got, is_last) = Inl e \<Longrightarrow>
    pipeline_step rd budget n m st (st\<lparr>filled := fs, main := Panicked s\<rparr>)"
| main_returns: "to_send st = ReturnSlot s # acts \<Longrightarrow> length (returned st) < RING_SLOTS \<Longrightarrow>
    pipeline_step rd budget n m st (st\<lparr>to_send := acts, returned := returned st @ [s]\<rparr>)"
| main_registers: "to_send st = Register f # acts \<Longrightarrow> length (inbox st) < 4 * n \<Longrightarrow>
    pipeline_step rd budget n m st (st\<lparr>to_send := acts, inbox := inbox st @ [NewSlot f]\<rparr>)"
| main_posts: "to_send st = Post w # acts \<Longrightarrow> length (work st) < 2 * n \<Longrightarrow>
    pipeline_step rd budget n m st (st\<lparr>to_send := acts, work := work st @ [w]\<rparr>)"
| worker_takes: "worker_threads st = us @ Idle # vs \<Longrightarrow> work st = w # ws \<Longrightarrow>
    pipeline_step rd budget n m st (st\<lparr>worker_threads := us @ Decoding w # vs, work := ws\<rparr>)"
| worker_decodes: "worker_threads st = us @ Decoding w # vs \<Longrightarrow> run_item (memory st (item_slot w)) w = Inr r \<Longrightarrow>
    pipeline_step rd budget n m st (st\<lparr>worker_threads := us @ Decoded r # vs\<rparr>)"
| worker_dies: "worker_threads st = us @ Decoding w # vs \<Longrightarrow> run_item (memory st (item_slot w)) w = Inl e \<Longrightarrow>
    pipeline_step rd budget n m st (st\<lparr>worker_threads := us @ Died w # vs\<rparr>)"
| worker_reports: "worker_threads st = us @ Decoded r # vs \<Longrightarrow> length (inbox st) < 4 * n \<Longrightarrow>
    pipeline_step rd budget n m st (st\<lparr>worker_threads := us @ Idle # vs, inbox := inbox st @ [Result r]\<rparr>)"
| collector_turns: "to_perform st = [] \<Longrightarrow> inbox st = msg # msgs \<Longrightarrow>
    collector_step (collector st) msg = Inr (fs, c, effects) \<Longrightarrow>
    pipeline_step rd budget n m st (st\<lparr>inbox := msgs, collector := (fs, c), to_perform := effects\<rparr>)"
| collector_writes: "to_perform st = Write data # es \<Longrightarrow> length (write_queue st) < RING_SLOTS \<Longrightarrow>
    pipeline_step rd budget n m st (st\<lparr>to_perform := es, write_queue := write_queue st @ [data]\<rparr>)"
| collector_recycles: "to_perform st = Recycle s # es \<Longrightarrow> length (returned st) < RING_SLOTS \<Longrightarrow>
    pipeline_step rd budget n m st (st\<lparr>to_perform := es, returned := returned st @ [s]\<rparr>)"
| writer_writes: "write_queue st = data # ds \<Longrightarrow>
    pipeline_step rd budget n m st (st\<lparr>write_queue := ds, out_file := out_file st @ data\<rparr>)"

subsection \<open>Where the slots are\<close>

fun reader_slots :: "'s reader_thread \<Rightarrow> nat list" where
  "reader_slots (Filled s got is_last src) = [s]"
| "reader_slots _ = []"

fun main_slots :: "main_thread \<Rightarrow> nat list" where
  "main_slots (Panicked s) = [s]"
| "main_slots _ = []"

fun action_slots :: "main_action \<Rightarrow> nat list" where
  "action_slots (ReturnSlot s) = [s]"
| "action_slots (Register f) = [flight_slot f]"
| "action_slots (Post w) = []"

fun message_slots :: "collector_msg \<Rightarrow> nat list" where
  "message_slots (NewSlot f) = [flight_slot f]"
| "message_slots (Result r) = []"

definition owned_slots :: "'s pipeline \<Rightarrow> nat list" where
  "owned_slots st = concat (map action_slots (to_send st)) @ concat (map message_slots (inbox st)) @ map flight_slot (fst (collector st))"

definition slots_of :: "'s pipeline \<Rightarrow> nat list" where
  "slots_of st = returned st @ reader_slots (reader st) @ map fst (filled st) @ main_slots (main st) @
     concat (map effect_slots (to_perform st)) @ owned_slots st"

subsection \<open>Where the items and results are\<close>

fun worker_items :: "worker_thread \<Rightarrow> work_item list" where
  "worker_items (Decoding w) = [w]"
| "worker_items (Died w) = [w]"
| "worker_items _ = []"

fun worker_results :: "worker_thread \<Rightarrow> segment_result list" where
  "worker_results (Decoded r) = [r]"
| "worker_results _ = []"

fun message_results :: "collector_msg \<Rightarrow> segment_result list" where
  "message_results (Result r) = [r]"
| "message_results (NewSlot f) = []"

definition sent_items :: "'s pipeline \<Rightarrow> work_item list" where
  "sent_items st = work st @ concat (map worker_items (worker_threads st))"

definition held_results :: "'s pipeline \<Rightarrow> segment_result list" where
  "held_results st = concat (map worker_results (worker_threads st))"

definition tasks_of :: "'s pipeline \<Rightarrow> (nat \<times> nat) list" where
  "tasks_of st = map (\<lambda>w. (item_chunk w, item_segment w)) (posted (to_send st) @ sent_items st) @
     map (\<lambda>r. (result_chunk r, result_segment r)) (held_results st @ concat (map message_results (inbox st)))"

text \<open>What the collector is to write, by the jobs posted so far.\<close>

definition item_output :: "job \<Rightarrow> work_item \<Rightarrow> u8 list" where
  "item_output j w = (case run_item (job_content j) w of Inr r \<Rightarrow> result_output r | Inl e \<Rightarrow> [])"

definition plan_of :: "job list \<Rightarrow> chunk_plan" where
  "plan_of js = map (\<lambda>j. (job_slot j, map (item_output j) (job_items j))) js"

definition chunk_output :: "job \<Rightarrow> u8 list" where
  "chunk_output j = concat (map (item_output j) (job_items j))"

subsection \<open>The invariants\<close>

definition fresh :: "chunk_plan \<Rightarrow> in_flight_slot \<Rightarrow> bool" where
  "fresh J f \<longleftrightarrow> tracks J f \<and> flight_results f = replicate (flight_segments f) None"

definition valid_item :: "job list \<Rightarrow> work_item \<Rightarrow> bool" where
  "valid_item js w \<longleftrightarrow> item_chunk w < length js \<and> item_segment w < length (job_items (js ! item_chunk w)) \<and>
     w = job_items (js ! item_chunk w) ! item_segment w \<and> item_slot w = job_slot (js ! item_chunk w)"

definition valid_result :: "job list \<Rightarrow> segment_result \<Rightarrow> bool" where
  "valid_result js r \<longleftrightarrow> result_chunk r < length js \<and> result_segment r < length (job_items (js ! result_chunk r)) \<and>
     result_output r = snd (plan_of js ! result_chunk r) ! result_segment r"

text \<open>The slots are announced in the order of the chunks, each before anything that concerns its items.\<close>

fun announced :: "collector_msg list \<Rightarrow> nat" where
  "announced [] = 0"
| "announced (NewSlot f # msgs) = Suc (announced msgs)"
| "announced (Result r # msgs) = announced msgs"

fun inbox_ok :: "chunk_plan \<Rightarrow> nat \<Rightarrow> collector_msg list \<Rightarrow> bool" where
  "inbox_ok J k [] = True"
| "inbox_ok J k (NewSlot f # msgs) \<longleftrightarrow> flight_chunk f = k \<and> fresh J f \<and> inbox_ok J (Suc k) msgs"
| "inbox_ok J k (Result r # msgs) \<longleftrightarrow> result_chunk r < k \<and> inbox_ok J k msgs"

fun to_announce :: "main_action list \<Rightarrow> nat" where
  "to_announce [] = 0"
| "to_announce (Register f # acts) = Suc (to_announce acts)"
| "to_announce (a # acts) = to_announce acts"

fun actions_ok :: "chunk_plan \<Rightarrow> nat \<Rightarrow> main_action list \<Rightarrow> bool" where
  "actions_ok J k [] = True"
| "actions_ok J k (Register f # acts) \<longleftrightarrow> flight_chunk f = k \<and> fresh J f \<and> actions_ok J (Suc k) acts"
| "actions_ok J k (Post w # acts) \<longleftrightarrow> item_chunk w < k \<and> actions_ok J k acts"
| "actions_ok J k (ReturnSlot s # acts) = actions_ok J k acts"

definition slots_inv :: "'s pipeline \<Rightarrow> bool" where
  "slots_inv st \<longleftrightarrow> mset (slots_of st) = mset [0..<RING_SLOTS]"

definition items_inv :: "'s pipeline \<Rightarrow> bool" where
  "items_inv st \<longleftrightarrow> (\<forall>w\<in>set (posted (to_send st) @ sent_items st). valid_item (jobs st) w) \<and>
     (\<forall>r\<in>set (held_results st @ concat (map message_results (inbox st))). valid_result (jobs st) r)"

definition tasks_inv :: "'s pipeline \<Rightarrow> bool" where
  "tasks_inv st \<longleftrightarrow> mset (tasks_of st) = mset_set (outstanding (plan_of (jobs st)) (collector st))"

definition announced_to :: "nat \<Rightarrow> 's pipeline \<Rightarrow> bool" where
  "announced_to k st \<longleftrightarrow> registered (collector st) = {..<k} \<and> inbox_ok (plan_of (jobs st)) k (inbox st) \<and>
     (\<forall>w\<in>set (sent_items st). item_chunk w < k + announced (inbox st)) \<and>
     (\<forall>r\<in>set (held_results st). result_chunk r < k + announced (inbox st)) \<and>
     actions_ok (plan_of (jobs st)) (k + announced (inbox st)) (to_send st) \<and>
     k + announced (inbox st) + to_announce (to_send st) = length (jobs st)"

definition order_inv :: "'s pipeline \<Rightarrow> bool" where
  "order_inv st \<longleftrightarrow> (\<exists>k. announced_to k st)"

definition collector_ok :: "'s pipeline \<Rightarrow> bool" where
  "collector_ok st \<longleftrightarrow> collector_inv (plan_of (jobs st)) (collector st) \<and> flushed (collector st)"

text \<open>The slot of a chunk that is not written yet still holds what was posted.\<close>

definition memory_inv :: "'s pipeline \<Rightarrow> bool" where
  "memory_inv st \<longleftrightarrow> (\<forall>c<length (jobs st). snd (collector st) \<le> c \<longrightarrow> memory st (job_slot (jobs st ! c)) = job_content (jobs st ! c))"

definition output_inv :: "'s pipeline \<Rightarrow> bool" where
  "output_inv st \<longleftrightarrow> out_file st @ concat (write_queue st) @ concat (map effect_data (to_perform st)) =
     concat (map chunk_output (take (snd (collector st)) (jobs st)))"

definition main_inv :: "'s pipeline \<Rightarrow> bool" where
  "main_inv st \<longleftrightarrow> chunk_id (main_vars st) = length (jobs st)"

definition pipeline_inv :: "'s pipeline \<Rightarrow> bool" where
  "pipeline_inv st \<longleftrightarrow> slots_inv st \<and> items_inv st \<and> tasks_inv st \<and> order_inv st \<and> collector_ok st \<and> memory_inv st \<and>
     output_inv st \<and> main_inv st"

lemmas invariant_defs = slots_inv_def slots_of_def owned_slots_def items_inv_def tasks_inv_def tasks_of_def sent_items_def held_results_def
  announced_to_def collector_ok_def memory_inv_def output_inv_def main_inv_def

lemma pipeline_inv_start: "pipeline_inv (pipeline_start n header src)"
proof -
  have no_workers: "concat (map worker_items (replicate n Idle)) = []" "concat (map worker_results (replicate n Idle)) = []"
    by (induction n) simp_all
  have "outstanding (plan_of []) ([], 0) = {}" by (auto simp: outstanding_def plan_of_def)
  moreover have "announced_to 0 (pipeline_start n header src)"
    using no_workers by (simp add: announced_to_def pipeline_start_def registered_def sent_items_def held_results_def)
  ultimately show ?thesis
    using no_workers by (auto simp: pipeline_inv_def order_inv_def pipeline_start_def slots_inv_def slots_of_def owned_slots_def items_inv_def tasks_inv_def
        tasks_of_def sent_items_def held_results_def collector_ok_def collector_inv_def flushed_def memory_inv_def output_inv_def main_inv_def)
qed

subsection \<open>Appending to the jobs, to the inbox, to the channels\<close>

lemma plan_of_append: "plan_of (js @ ks) = plan_of js @ plan_of ks"
  by (simp add: plan_of_def)

lemma length_plan [simp]: "length (plan_of js) = length js"
  by (simp add: plan_of_def)

lemma plan_nth [simp]: "c < length js \<Longrightarrow> plan_of js ! c = (job_slot (js ! c), map (item_output (js ! c)) (job_items (js ! c)))"
  by (simp add: plan_of_def)

lemma valid_item_append: "valid_item js w \<Longrightarrow> valid_item (js @ ks) w"
  by (simp add: valid_item_def nth_append)

lemma valid_result_append: "valid_result js r \<Longrightarrow> valid_result (js @ ks) r"
  by (simp add: valid_result_def nth_append plan_of_append)

lemma tracks_append: "tracks J f \<Longrightarrow> tracks (J @ K) f"
  by (simp add: tracks_def nth_append)

lemma fresh_append: "fresh J f \<Longrightarrow> fresh (J @ K) f"
  by (simp add: fresh_def tracks_append)

lemma inbox_ok_plan: "inbox_ok J k msgs \<Longrightarrow> inbox_ok (J @ K) k msgs"
  by (induction J k msgs rule: inbox_ok.induct) (simp_all add: fresh_append)

lemma collector_inv_plan: "collector_inv J st \<Longrightarrow> collector_inv (J @ K) st"
  by (auto simp: collector_inv_def tracks_append)

lemma outstanding_append:
  assumes "collector_inv J st"
  shows "outstanding (J @ [x]) st = outstanding J st \<union> Pair (length J) ` {..<length (snd x)}"
proof -
  obtain fs c where st: "st = (fs, c)" by (cases st)
  have "c \<le> length J" "\<forall>f\<in>set fs. flight_chunk f < length J" using assms by (auto simp: collector_inv_def tracks_def st)
  then have "(k, i) \<in> outstanding (J @ [x]) st \<longleftrightarrow> (k, i) \<in> outstanding J st \<union> Pair (length J) ` {..<length (snd x)}" for k i
    by (cases "k = length J") (auto simp: outstanding_def st nth_append less_Suc_eq)
  then show ?thesis by auto
qed

lemma finite_outstanding [simp]: "finite (outstanding J st)"
proof -
  obtain fs c where st: "st = (fs, c)" by (cases st)
  have "outstanding J st \<subseteq> segments_of J" by (auto simp: outstanding_def segments_of_def st)
  moreover have "finite (segments_of J)" by (simp add: segments_of_def)
  ultimately show ?thesis by (rule finite_subset)
qed

lemma announced_append [simp]: "announced (xs @ ys) = announced xs + announced ys"
  by (induction xs rule: announced.induct) simp_all

lemma inbox_ok_append: "inbox_ok J k (xs @ ys) \<longleftrightarrow> inbox_ok J k xs \<and> inbox_ok J (k + announced xs) ys"
  by (induction J k xs rule: inbox_ok.induct) auto

lemma actions_ok_posts: "actions_ok J k (map Post ws) \<longleftrightarrow> (\<forall>w\<in>set ws. item_chunk w < k)"
  by (induction ws) auto

lemma to_announce_posts [simp]: "to_announce (map Post ws) = 0"
  by (induction ws) auto

subsection \<open>The slot of an unwritten chunk is owned by the collector\<close>

lemma inbox_announces:
  "inbox_ok J k msgs \<Longrightarrow> k \<le> c \<Longrightarrow> c < k + announced msgs \<Longrightarrow> \<exists>f. NewSlot f \<in> set msgs \<and> flight_chunk f = c \<and> tracks J f"
proof (induction J k msgs rule: inbox_ok.induct)
  case (2 J k f msgs)
  then show ?case by (cases "k = c") (auto simp: fresh_def)
qed auto

lemma actions_announce:
  "actions_ok J k acts \<Longrightarrow> k \<le> c \<Longrightarrow> c < k + to_announce acts \<Longrightarrow> \<exists>f. Register f \<in> set acts \<and> flight_chunk f = c \<and> tracks J f"
proof (induction J k acts rule: actions_ok.induct)
  case (2 J k f acts)
  then show ?case by (cases "k = c") (auto simp: fresh_def)
qed auto

lemma live_slot:
  assumes "order_inv st" "collector_ok st" "c < length (jobs st)" "snd (collector st) \<le> c"
  shows "job_slot (jobs st ! c) \<in> set (owned_slots st)"
proof -
  let ?J = "plan_of (jobs st)"
  obtain k where k: "registered (collector st) = {..<k}" "inbox_ok ?J k (inbox st)" "actions_ok ?J (k + announced (inbox st)) (to_send st)"
    "k + announced (inbox st) + to_announce (to_send st) = length (jobs st)"
    using assms(1) by (auto simp: order_inv_def announced_to_def)
  have slot: "flight_slot f = job_slot (jobs st ! c)" if "tracks ?J f" "flight_chunk f = c" for f
    using that assms(3) by (simp add: tracks_def)
  consider "c < k" | "k \<le> c" "c < k + announced (inbox st)" | "k + announced (inbox st) \<le> c" by linarith
  then show ?thesis
  proof cases
    case 1
    then have "c \<in> registered (collector st)" using k(1) by simp
    then obtain f where "f \<in> set (fst (collector st))" "flight_chunk f = c" using assms(4) by (auto simp: registered_def split: prod.splits)
    moreover from this have "tracks ?J f" using assms(2) by (auto simp: collector_ok_def collector_inv_def split: prod.splits)
    ultimately show ?thesis using slot by (force simp: owned_slots_def)
  next
    case 2
    from inbox_announces [OF k(2) this] slot show ?thesis by (force simp: owned_slots_def)
  next
    case 3
    from actions_announce [OF k(3) 3] k(4) assms(3) slot show ?thesis by (force simp: owned_slots_def)
  qed
qed

lemma distinct_slots: "slots_inv st \<Longrightarrow> distinct (slots_of st)"
  unfolding slots_inv_def by (metis distinct_upt mset_eq_imp_distinct_iff)

lemma free_slot:
  assumes "pipeline_inv st" "c < length (jobs st)" "snd (collector st) \<le> c"
    and "s \<in> set (returned st) \<or> s \<in> set (reader_slots (reader st)) \<or> s \<in> set (map fst (filled st))"
  shows "job_slot (jobs st ! c) \<noteq> s"
proof -
  have "order_inv st" "collector_ok st" using assms(1) by (simp_all add: pipeline_inv_def)
  then have "job_slot (jobs st ! c) \<in> set (owned_slots st)" by (rule live_slot [OF _ _ assms(2,3)])
  moreover have "distinct (slots_of st)" using assms(1) by (simp add: pipeline_inv_def distinct_slots)
  ultimately show ?thesis using assms(4) unfolding slots_of_def by (auto simp del: set_map)
qed

subsection \<open>A task that is somewhere is outstanding\<close>

lemma task_outstanding:
  assumes "tasks_inv st" "t \<in> set (tasks_of st)"
  shows "t \<in> outstanding (plan_of (jobs st)) (collector st)"
proof -
  have "set (tasks_of st) = set_mset (mset_set (outstanding (plan_of (jobs st)) (collector st)))"
    using assms(1) unfolding tasks_inv_def by (metis set_mset_mset)
  then show ?thesis using assms(2) by simp
qed

lemma item_outstanding:
  assumes "tasks_inv st" "w \<in> set (posted (to_send st) @ sent_items st)"
  shows "(item_chunk w, item_segment w) \<in> outstanding (plan_of (jobs st)) (collector st)" "snd (collector st) \<le> item_chunk w"
proof -
  have "(item_chunk w, item_segment w) \<in> set (tasks_of st)" using assms(2) unfolding tasks_of_def by auto
  from task_outstanding [OF assms(1) this]
  show "(item_chunk w, item_segment w) \<in> outstanding (plan_of (jobs st)) (collector st)" "snd (collector st) \<le> item_chunk w"
    by (auto simp: outstanding_def split: prod.splits)
qed

text \<open>What a worker reads through its pointer is what was posted.\<close>

lemma item_memory:
  assumes "pipeline_inv st" "w \<in> set (sent_items st)"
  shows "memory st (item_slot w) = job_content (jobs st ! item_chunk w)" "w = job_items (jobs st ! item_chunk w) ! item_segment w"
proof -
  have v: "valid_item (jobs st) w" using assms by (auto simp: pipeline_inv_def items_inv_def)
  then show "w = job_items (jobs st ! item_chunk w) ! item_segment w" by (simp add: valid_item_def)
  have "snd (collector st) \<le> item_chunk w" using item_outstanding(2) [of st w] assms by (simp add: pipeline_inv_def)
  with v assms(1) show "memory st (item_slot w) = job_content (jobs st ! item_chunk w)"
    by (auto simp: pipeline_inv_def memory_inv_def valid_item_def)
qed

subsection \<open>A turn of the collector\<close>

lemma collector_turn:
  assumes "pipeline_inv st" "inbox st = msg # msgs"
  obtains T R ss fs c effects where "collector_step (collector st) msg = Inr (fs, c, effects)"
    "turn_ok (plan_of (jobs st)) (collector st) T R ss (fs, c, effects)"
    "\<And>f. msg = NewSlot f \<Longrightarrow> T = outstanding (plan_of (jobs st)) (collector st) \<and> R = insert (flight_chunk f) (registered (collector st)) \<and> ss = [flight_slot f]"
    "\<And>r. msg = Result r \<Longrightarrow> T = outstanding (plan_of (jobs st)) (collector st) - {(result_chunk r, result_segment r)} \<and>
       (result_chunk r, result_segment r) \<in> outstanding (plan_of (jobs st)) (collector st) \<and> R = registered (collector st) \<and> ss = []"
proof -
  let ?J = "plan_of (jobs st)"
  obtain gs b where col: "collector st = (gs, b)" by (cases "collector st")
  have inv: "collector_inv ?J (gs, b)" using assms(1) col by (simp add: pipeline_inv_def collector_ok_def)
  obtain k where k: "registered (gs, b) = {..<k}" "inbox_ok ?J k (msg # msgs)"
    using assms col by (auto simp: pipeline_inv_def order_inv_def announced_to_def)
  show thesis
  proof (cases msg)
    case (NewSlot f)
    with k have f: "tracks ?J f" "flight_results f = replicate (flight_segments f) None" "flight_chunk f \<notin> registered (gs, b)"
      by (simp_all add: fresh_def)
    obtain turn where "collector_step (gs, b) (NewSlot f) = Inr turn"
      "turn_ok ?J (gs, b) (outstanding ?J (gs, b)) (insert (flight_chunk f) (registered (gs, b))) [flight_slot f] turn"
      by (rule turn_new_slot [OF inv f])
    with that NewSlot col show thesis by (cases turn) auto
  next
    case (Result r)
    have "valid_result (jobs st) r" using assms Result by (auto simp: pipeline_inv_def items_inv_def)
    then have out: "result_output r = snd (?J ! result_chunk r) ! result_segment r" by (simp add: valid_result_def)
    have "(result_chunk r, result_segment r) \<in> set (tasks_of st)" using assms(2) Result by (simp add: tasks_of_def)
    then have task: "(result_chunk r, result_segment r) \<in> outstanding ?J (gs, b)"
      using task_outstanding [of st "(result_chunk r, result_segment r)"] assms(1) unfolding col pipeline_inv_def by blast
    have "result_chunk r \<in> registered (gs, b)" using k Result by simp
    then obtain turn where "collector_step (gs, b) (Result r) = Inr turn"
      "turn_ok ?J (gs, b) (outstanding ?J (gs, b) - {(result_chunk r, result_segment r)}) (registered (gs, b)) [] turn"
      by (rule turn_result [OF inv task _ out])
    with that Result col task show thesis by (cases turn) auto
  qed
qed

subsection \<open>Every step keeps the invariants\<close>

lemma main_slots_sent:
  assumes "main_body budget n m vars s f = Inr (vars', content, acts, stop)"
  shows "concat (map action_slots acts) = [s]"
proof -
  have "concat (map action_slots (map Post ws)) = []" for ws by (induction ws) simp_all
  with main_body_sends [OF assms] show ?thesis by auto
qed

lemma slots_inv_step:
  assumes "pipeline_inv st" "pipeline_step rd budget n m st st'"
  shows "slots_inv st'"
proof -
  have inv: "slots_inv st" using assms(1) by (simp add: pipeline_inv_def)
  from assms(2) show ?thesis
  proof cases
    case (main_turns s got is_last fs vars content acts stop)
    with inv main_slots_sent [OF main_turns(5)] show ?thesis by (auto simp: slots_inv_def slots_of_def owned_slots_def)
  next
    case (collector_turns msg msgs fs c effects)
    obtain T R ss fs' c' effects' where turn: "collector_step (collector st) msg = Inr (fs', c', effects')"
      "turn_ok (plan_of (jobs st)) (collector st) T R ss (fs', c', effects')"
      "\<And>f. msg = NewSlot f \<Longrightarrow> ss = [flight_slot f]" "\<And>r. msg = Result r \<Longrightarrow> ss = []"
      by (rule collector_turn [OF assms(1) collector_turns(3)]) blast
    have "message_slots msg = ss" using turn(3,4) by (cases msg) simp_all
    moreover have "mset (map flight_slot (fst (collector st)) @ ss) = mset (map flight_slot fs') + mset (concat (map effect_slots effects'))"
      using turn(2) by (simp add: turn_ok_def split: prod.splits)
    moreover define rest where "rest = mset (returned st) + mset (reader_slots (reader st)) + mset (map fst (filled st)) +
      mset (main_slots (main st)) + mset (concat (map action_slots (to_send st))) + mset (concat (map message_slots msgs))"
    moreover have "mset (slots_of st') = rest + (mset (map flight_slot fs') + mset (concat (map effect_slots effects')))"
      using collector_turns turn(1) by (simp add: slots_of_def owned_slots_def rest_def ac_simps)
    ultimately have "mset (slots_of st') = rest + (mset (map flight_slot (fst (collector st))) + mset (message_slots msg))" by simp
    moreover have "mset (slots_of st) = rest + (mset (map flight_slot (fst (collector st))) + mset (message_slots msg))"
      using collector_turns by (simp add: slots_of_def owned_slots_def rest_def ac_simps)
    ultimately show ?thesis using inv by (simp add: slots_inv_def)
  qed (use inv in \<open>auto simp: slots_inv_def slots_of_def owned_slots_def\<close>)
qed

lemma items_inv_step:
  assumes "pipeline_inv st" "pipeline_step rd budget n m st st'"
  shows "items_inv st'"
proof -
  have inv: "items_inv st" using assms(1) by (simp add: pipeline_inv_def)
  from assms(2) show ?thesis
  proof cases
    case (main_turns s got is_last fs vars content acts stop)
    have c: "chunk_id (main_vars st) = length (jobs st)" using assms(1) by (simp add: pipeline_inv_def main_inv_def)
    have "\<forall>w\<in>set (posted acts). valid_item (jobs st @ new_jobs s content acts) w"
      using main_body_sends [OF main_turns(5)] c by (auto simp: valid_item_def new_jobs_def in_set_conv_nth)
    with inv main_turns show ?thesis
      by (auto simp: items_inv_def sent_items_def held_results_def intro: valid_item_append valid_result_append)
  next
    case (worker_decodes us w vs r)
    then have w: "w \<in> set (sent_items st)" by (simp add: sent_items_def)
    note mem = item_memory [OF assms(1) w]
    have v: "valid_item (jobs st) w" using inv w by (auto simp: items_inv_def)
    have "result_chunk r = item_chunk w" "result_segment r = item_segment w" "result_output r = item_output (jobs st ! item_chunk w) w"
      using worker_decodes(3) unfolding mem(1) by (auto simp: run_item_def bindE_Inr_iff item_output_def)
    with v mem(2) have "valid_result (jobs st) r" by (simp add: valid_result_def valid_item_def)
    with inv worker_decodes show ?thesis by (auto simp: items_inv_def sent_items_def held_results_def)
  next
    case (collector_turns msg msgs fs c effects)
    with inv show ?thesis by (cases msg) (auto simp: items_inv_def sent_items_def held_results_def)
  qed (use inv in \<open>auto simp: items_inv_def sent_items_def held_results_def\<close>)
qed

lemma output_inv_step:
  assumes "pipeline_inv st" "pipeline_step rd budget n m st st'"
  shows "output_inv st'"
proof -
  have inv: "output_inv st" and c: "snd (collector st) \<le> length (jobs st)"
    using assms(1) by (auto simp: pipeline_inv_def collector_ok_def collector_inv_def split: prod.splits)
  from assms(2) show ?thesis
  proof cases
    case (main_turns s got is_last fs vars content acts stop)
    with inv c show ?thesis by (simp add: output_inv_def)
  next
    case (collector_turns msg msgs fs k effects)
    obtain T R ss fs' k' effects' where turn: "collector_step (collector st) msg = Inr (fs', k', effects')"
      "turn_ok (plan_of (jobs st)) (collector st) T R ss (fs', k', effects')"
      by (rule collector_turn [OF assms(1) collector_turns(3)]) blast
    have k: "k' = k" "effects' = effects" using turn(1) collector_turns(4) by simp_all
    have t: "snd (collector st) \<le> k" "effects = concat (map (chunk_effects (plan_of (jobs st))) [snd (collector st)..<k])" "k \<le> length (jobs st)"
      using turn(2) k by (auto simp: turn_ok_def collector_inv_def split: prod.splits)
    have data: "concat (map effect_data (segment_writes (map (Some \<circ> g) ws))) = concat (map g ws)" for g and ws :: "work_item list"
      by (induction ws) (simp_all add: segment_writes_def)
    have "concat (map effect_data (concat (map (chunk_effects (plan_of (jobs st))) [a..<b]))) = concat (map chunk_output (drop a (take b (jobs st))))"
      if "a \<le> b" "b \<le> length (jobs st)" for a b
      using that
    proof (induction b rule: dec_induct)
      case (step b)
      then show ?case
        by (simp add: chunk_effects_def chunk_output_def data take_Suc_conv_app_nth)
    qed simp
    from this [OF t(1,3)] t(2) have "concat (map effect_data effects) = concat (map chunk_output (drop (snd (collector st)) (take k (jobs st))))" by simp
    moreover have "take (snd (collector st)) (jobs st) @ drop (snd (collector st)) (take k (jobs st)) = take k (jobs st)"
      using t(1) by (metis append_take_drop_id min.absorb1 take_take)
    ultimately show ?thesis using inv collector_turns
      by (simp add: output_inv_def) (metis concat_append map_append append.assoc)
  qed (use inv in \<open>auto simp: output_inv_def\<close>)
qed

lemma main_inv_step:
  assumes "pipeline_inv st" "pipeline_step rd budget n m st st'"
  shows "main_inv st'"
proof -
  have inv: "main_inv st" using assms(1) by (simp add: pipeline_inv_def)
  from assms(2) show ?thesis
  proof cases
    case (main_turns s got is_last fs vars content acts stop)
    with inv main_body_sends [OF main_turns(5)] show ?thesis by (auto simp: main_inv_def new_jobs_def)
  qed (use inv in \<open>auto simp: main_inv_def\<close>)
qed

text \<open>A turn of the main loop posts no job, or the job of the next chunk.\<close>

lemma turn_posts:
  assumes "pipeline_inv st" "main_body budget n m (main_vars st) s f = Inr (vars, content, acts, stop)"
  obtains "acts = [ReturnSlot s]" "new_jobs s content acts = []"
  | ws is_last where "acts = Register \<lparr>flight_chunk = length (jobs st), flight_slot = s, flight_segments = length ws,
        flight_results = replicate (length ws) None, done_count = 0, flight_last = is_last\<rparr> # map Post ws"
      "new_jobs s content acts = [\<lparr>job_slot = s, job_content = content, job_items = ws\<rparr>]"
      "map (\<lambda>w. (item_chunk w, item_segment w)) ws = map (Pair (length (jobs st))) [0..<length ws]"
proof -
  have c: "chunk_id (main_vars st) = length (jobs st)" using assms(1) by (simp add: pipeline_inv_def main_inv_def)
  consider "acts = [ReturnSlot s]"
    | ws is_last where "acts = Register \<lparr>flight_chunk = length (jobs st), flight_slot = s, flight_segments = length ws,
        flight_results = replicate (length ws) None, done_count = 0, flight_last = is_last\<rparr> # map Post ws"
      "\<forall>i<length ws. item_chunk (ws ! i) = length (jobs st) \<and> item_segment (ws ! i) = i"
    using main_body_sends [OF assms(2), unfolded c] by blast
  then show thesis
  proof cases
    case 1
    with that(1) show thesis by (simp add: new_jobs_def)
  next
    case (2 ws is_last)
    from 2(2) have "map (\<lambda>w. (item_chunk w, item_segment w)) ws = map (Pair (length (jobs st))) [0..<length ws]"
      by (intro nth_equalityI) simp_all
    with that(2) [OF 2(1)] show thesis unfolding 2(1) by (simp add: new_jobs_def)
  qed
qed

lemma run_item_task: "run_item content w = Inr r \<Longrightarrow> result_chunk r = item_chunk w \<and> result_segment r = item_segment w"
  by (auto simp: run_item_def bindE_Inr_iff)

lemma tasks_inv_step:
  assumes "pipeline_inv st" "pipeline_step rd budget n m st st'"
  shows "tasks_inv st'"
proof -
  have inv: "tasks_inv st" and ok: "collector_inv (plan_of (jobs st)) (collector st)"
    using assms(1) by (simp_all add: pipeline_inv_def collector_ok_def)
  from assms(2) show ?thesis
  proof cases
    case (main_turns s got is_last fs vars content acts stop)
    let ?J = "plan_of (jobs st)" and ?k = "length (jobs st)"
    from assms(1) main_turns(5) show ?thesis
    proof (cases rule: turn_posts)
      case 1
      with inv main_turns show ?thesis by (simp add: tasks_inv_def tasks_of_def sent_items_def held_results_def)
    next
      case (2 ws l)
      let ?new = "Pair ?k ` {..<length ws}"
      have "outstanding (plan_of (jobs st @ new_jobs s content acts)) (collector st) = outstanding ?J (collector st) \<union> ?new"
        unfolding 2(2) plan_of_append using outstanding_append [OF ok] by (simp add: plan_of_def)
      moreover have "outstanding ?J (collector st) \<inter> ?new = {}" by (auto simp: outstanding_def split: prod.splits)
      ultimately have "mset_set (outstanding (plan_of (jobs st @ new_jobs s content acts)) (collector st)) =
          mset_set (outstanding ?J (collector st)) + mset_set ?new" by (simp add: mset_set_Union)
      moreover have "mset_set ?new = mset (map (Pair ?k) [0..<length ws])"
        by (subst image_mset_mset_set [symmetric]) (auto simp: inj_on_def atLeast0LessThan)
      moreover have "tasks_of st' = map (Pair ?k) [0..<length ws] @ tasks_of st"
        using main_turns 2(1,3) by (simp add: tasks_of_def sent_items_def held_results_def)
      ultimately show ?thesis using inv main_turns(1) by (simp add: tasks_inv_def)
    qed
  next
    case (collector_turns msg msgs fs k effects)
    obtain T R ss fs' k' effects' where turn: "collector_step (collector st) msg = Inr (fs', k', effects')"
      "turn_ok (plan_of (jobs st)) (collector st) T R ss (fs', k', effects')"
      "\<And>f. msg = NewSlot f \<Longrightarrow> T = outstanding (plan_of (jobs st)) (collector st)"
      "\<And>r. msg = Result r \<Longrightarrow> T = outstanding (plan_of (jobs st)) (collector st) - {(result_chunk r, result_segment r)} \<and>
         (result_chunk r, result_segment r) \<in> outstanding (plan_of (jobs st)) (collector st)"
      by (rule collector_turn [OF assms(1) collector_turns(3)]) blast
    have out: "outstanding (plan_of (jobs st)) (fs, k) = T" using turn(1,2) collector_turns(4) by (simp add: turn_ok_def split: prod.splits)
    show ?thesis
    proof (cases msg)
      case (NewSlot f)
      with inv collector_turns out turn(3) show ?thesis by (simp add: tasks_inv_def tasks_of_def sent_items_def held_results_def)
    next
      case (Result r)
      let ?t = "(result_chunk r, result_segment r)"
      have "mset (tasks_of st) = add_mset ?t (mset (tasks_of st'))"
        using collector_turns Result by (simp add: tasks_of_def sent_items_def held_results_def)
      then have "mset (tasks_of st') = mset (tasks_of st) - {#?t#}" by simp
      moreover have "mset_set T = mset_set (outstanding (plan_of (jobs st)) (collector st)) - {#?t#}"
        using turn(4) [OF Result] by (simp add: mset_set_Diff)
      ultimately show ?thesis using inv collector_turns(1) out by (simp add: tasks_inv_def)
    qed
  qed (use inv run_item_task in \<open>auto simp: tasks_inv_def tasks_of_def sent_items_def held_results_def\<close>)
qed

lemma collector_ok_step:
  assumes "pipeline_inv st" "pipeline_step rd budget n m st st'"
  shows "collector_ok st'"
proof -
  have inv: "collector_ok st" using assms(1) by (simp add: pipeline_inv_def)
  from assms(2) show ?thesis
  proof cases
    case (main_turns s got is_last fs vars content acts stop)
    with inv show ?thesis by (simp add: collector_ok_def plan_of_append collector_inv_plan)
  next
    case (collector_turns msg msgs fs k effects)
    obtain T R ss fs' k' effects' where turn: "collector_step (collector st) msg = Inr (fs', k', effects')"
      "turn_ok (plan_of (jobs st)) (collector st) T R ss (fs', k', effects')"
      by (rule collector_turn [OF assms(1) collector_turns(3)]) blast
    with collector_turns show ?thesis by (simp add: collector_ok_def turn_ok_def split: prod.splits)
  qed (use inv in \<open>auto simp: collector_ok_def\<close>)
qed

lemma memory_inv_step:
  assumes "pipeline_inv st" "pipeline_step rd budget n m st st'"
  shows "memory_inv st'"
proof -
  have inv: "memory_inv st" and c: "snd (collector st) \<le> length (jobs st)"
    using assms(1) by (auto simp: pipeline_inv_def collector_ok_def collector_inv_def split: prod.splits)
  from assms(2) show ?thesis
  proof cases
    case (reader_fills src s ss content got is_last src')
    have "job_slot (jobs st ! c) \<noteq> s" if "c < length (jobs st)" "snd (collector st) \<le> c" for c
      using free_slot [OF assms(1) that, of s] reader_fills(3) by simp
    with inv reader_fills(1) show ?thesis by (simp add: memory_inv_def)
  next
    case (main_turns s got is_last fs vars content acts stop)
    have other: "job_slot (jobs st ! c) \<noteq> s" if "c < length (jobs st)" "snd (collector st) \<le> c" for c
      using free_slot [OF assms(1) that, of s] main_turns(4) by simp
    from assms(1) main_turns(5) show ?thesis
    proof (cases rule: turn_posts)
      case 1
      with inv other main_turns(1) show ?thesis by (simp add: memory_inv_def)
    next
      case (2 ws l)
      with inv other main_turns(1) show ?thesis by (auto simp: memory_inv_def nth_append less_Suc_eq)
    qed
  next
    case (collector_turns msg msgs fs k effects)
    obtain T R ss fs' k' effects' where turn: "collector_step (collector st) msg = Inr (fs', k', effects')"
      "turn_ok (plan_of (jobs st)) (collector st) T R ss (fs', k', effects')"
      by (rule collector_turn [OF assms(1) collector_turns(3)]) blast
    then have "snd (collector st) \<le> k" using collector_turns(4) by (simp add: turn_ok_def split: prod.splits)
    with inv collector_turns(1) show ?thesis by (simp add: memory_inv_def)
  qed (use inv in \<open>auto simp: memory_inv_def\<close>)
qed

lemma order_inv_step:
  assumes "pipeline_inv st" "pipeline_step rd budget n m st st'"
  shows "order_inv st'"
proof -
  obtain k where inv: "announced_to k st" using assms(1) by (auto simp: pipeline_inv_def order_inv_def)
  note defs = announced_to_def sent_items_def held_results_def
  show ?thesis
  proof (cases "\<exists>msg msgs fs c effects. inbox st = msg # msgs \<and> collector_step (collector st) msg = Inr (fs, c, effects) \<and>
      st' = st\<lparr>inbox := msgs, collector := (fs, c), to_perform := effects\<rparr>")
    case True
    then obtain msg msgs fs c effects where col: "inbox st = msg # msgs" "collector_step (collector st) msg = Inr (fs, c, effects)"
      "st' = st\<lparr>inbox := msgs, collector := (fs, c), to_perform := effects\<rparr>" by blast
    obtain T R ss fs' c' effects' where turn: "collector_step (collector st) msg = Inr (fs', c', effects')"
      "turn_ok (plan_of (jobs st)) (collector st) T R ss (fs', c', effects')"
      "\<And>f. msg = NewSlot f \<Longrightarrow> R = insert (flight_chunk f) (registered (collector st))" "\<And>r. msg = Result r \<Longrightarrow> R = registered (collector st)"
      by (rule collector_turn [OF assms(1) col(1)]) blast
    have R: "registered (fs, c) = R" using turn(1,2) col(2) by (simp add: turn_ok_def split: prod.splits)
    show ?thesis
    proof (cases msg)
      case (NewSlot f)
      then have "announced_to (Suc k) st'" using inv col R turn(3) by (simp add: defs lessThan_Suc)
      then show ?thesis unfolding order_inv_def by blast
    next
      case (Result r)
      then have "announced_to k st'" using inv col R turn(4) by (simp add: defs)
      then show ?thesis unfolding order_inv_def by blast
    qed
  next
    case False
    from assms(2) have "announced_to k st'"
    proof cases
      case (main_turns s got is_last fs vars content acts stop)
      from assms(1) main_turns(5) show ?thesis
      proof (cases rule: turn_posts)
        case 1
        with inv main_turns show ?thesis by (auto simp: defs)
      next
        case (2 ws l)
        have "fresh (plan_of (jobs st @ new_jobs s content acts)) \<lparr>flight_chunk = length (jobs st), flight_slot = s, flight_segments = length ws,
            flight_results = replicate (length ws) None, done_count = 0, flight_last = l\<rparr>"
          unfolding 2(2) by (simp add: fresh_def tracks_def results_in_def)
        moreover have "\<forall>w\<in>set ws. item_chunk w = length (jobs st)"
        proof
          fix w assume "w \<in> set ws"
          then have "(item_chunk w, item_segment w) \<in> set (map (Pair (length (jobs st))) [0..<length ws])" unfolding 2(3) [symmetric] by force
          then show "item_chunk w = length (jobs st)" by auto
        qed
        ultimately show ?thesis using inv main_turns 2(1,2) by (auto simp: defs plan_of_append inbox_ok_plan actions_ok_posts)
      qed
    next
      case (collector_turns msg msgs fs c effects)
      with False show ?thesis by blast
    next
      case (main_registers f acts)
      with inv show ?thesis by (auto simp: defs inbox_ok_append intro!: less_SucI)
    qed (use inv run_item_task in \<open>auto simp: defs inbox_ok_append\<close>)
    then show ?thesis unfolding order_inv_def by blast
  qed
qed

lemma pipeline_inv_step: "pipeline_inv st \<Longrightarrow> pipeline_step rd budget n m st st' \<Longrightarrow> pipeline_inv st'"
  unfolding pipeline_inv_def [of st']
  by (intro conjI slots_inv_step items_inv_step tasks_inv_step order_inv_step collector_ok_step memory_inv_step output_inv_step main_inv_step)

text \<open>So every item that is queued or being decoded finds its slot owned by the collector's side, with the bytes it was posted with.\<close>

lemma slots_shared:
  assumes "pipeline_inv st"
  shows "mset (slots_of st) = mset [0..<RING_SLOTS]"
    "\<forall>w\<in>set (sent_items st). item_slot w \<in> set (owned_slots st) \<and> memory st (item_slot w) = job_content (jobs st ! item_chunk w) \<and>
       w = job_items (jobs st ! item_chunk w) ! item_segment w"
proof -
  show "mset (slots_of st) = mset [0..<RING_SLOTS]" using assms by (simp add: pipeline_inv_def slots_inv_def)
  have "item_slot w \<in> set (owned_slots st)" if w: "w \<in> set (sent_items st)" for w
  proof -
    have "valid_item (jobs st) w" using assms w by (auto simp: pipeline_inv_def items_inv_def)
    moreover have "snd (collector st) \<le> item_chunk w" using item_outstanding(2) [of st w] assms w by (simp add: pipeline_inv_def)
    ultimately show ?thesis using live_slot [of st "item_chunk w"] assms unfolding pipeline_inv_def valid_item_def by metis
  qed
  with item_memory [OF assms] show "\<forall>w\<in>set (sent_items st). item_slot w \<in> set (owned_slots st) \<and>
      memory st (item_slot w) = job_content (jobs st ! item_chunk w) \<and> w = job_items (jobs st ! item_chunk w) ! item_segment w" by blast
qed

end
