(* ===== verification/Lbunzip2_Runs.thy ===== *)
theory Lbunzip2_Runs
  imports Lbunzip2_Pipeline
begin

text \<open>
  The runs of the whole program on a well-formed file: what is still to come from the source, the channel of filled slots and the
  carried bytes is well-formed and, after the jobs already posted, holds the rest of the data; no thread panics; every run ends, and
  it ends with the data in the output file.
\<close>

subsection \<open>What is still to be read\<close>

text \<open>The chunks of \<open>body\<close>, in the filled slots, in the slot the reader holds, and in the source.\<close>

fun upcoming :: "('s \<Rightarrow> nat \<Rightarrow> u8 list \<Rightarrow> bool) \<Rightarrow> (nat \<Rightarrow> u8 list) \<Rightarrow> u8 list \<Rightarrow> (nat \<times> nat \<times> bool) list \<Rightarrow> 's reader_thread \<Rightarrow> bool" where
  "upcoming owes mem body [] (Reading src) \<longleftrightarrow> (\<exists>k. owes src k body)"
| "upcoming owes mem body [] (Filled s len is_last src) \<longleftrightarrow> holds_data (mem s) (take CHUNK_SIZE body) len \<and> is_last = (len < CHUNK_SIZE) \<and>
     (\<not> is_last \<longrightarrow> (\<exists>k. owes src k (drop CHUNK_SIZE body)))"
| "upcoming owes mem body [] ReaderDone \<longleftrightarrow> False"
| "upcoming owes mem body ((s, len, is_last) # fs) r \<longleftrightarrow> holds_data (mem s) (take CHUNK_SIZE body) len \<and> is_last = (len < CHUNK_SIZE) \<and>
     (if is_last then fs = [] \<and> r = ReaderDone else upcoming owes mem (drop CHUNK_SIZE body) fs r)"

lemma upcoming_fill:
  assumes "upcoming owes mem body fs (Reading src)" "s \<notin> set (map fst fs)"
    and "\<And>k rest. owes src k rest \<Longrightarrow> holds_data content (take CHUNK_SIZE rest) len \<and> is_last = (len < CHUNK_SIZE) \<and> (\<exists>k. owes src' k (drop CHUNK_SIZE rest))"
  shows "upcoming owes (mem(s := content)) body fs (Filled s len is_last src')"
  using assms(1,2)
proof (induction fs arbitrary: body)
  case Nil
  with assms(3) show ?case by auto
next
  case (Cons f fs)
  then show ?case by (cases f) (auto split: if_splits)
qed

lemma upcoming_send:
  assumes "upcoming owes mem body fs (Filled s len is_last src)"
  shows "upcoming owes mem body (fs @ [(s, len, is_last)]) (if is_last then ReaderDone else Reading src)"
  using assms
proof (induction fs arbitrary: body)
  case (Cons f fs)
  then show ?case by (cases f) (auto split: if_splits)
qed simp

lemma upcoming_memory:
  assumes "upcoming owes mem body fs r" "s \<notin> set (map fst fs)" "s \<notin> set (reader_slots r)"
  shows "upcoming owes (mem(s := content)) body fs r"
  using assms
proof (induction fs arbitrary: body)
  case Nil
  then show ?case by (cases r) auto
next
  case (Cons f fs)
  then show ?case by (cases f) (auto split: if_splits)
qed

subsection \<open>The file, while it goes through the threads\<close>

definition decodes :: "job \<Rightarrow> bool" where
  "decodes j \<longleftrightarrow> (\<forall>w\<in>set (job_items j). \<exists>r. run_item (job_content j) w = Inr r)"

text \<open>The data of the items left, unless the main thread has left its loop.\<close>

definition file_left :: "('s \<Rightarrow> nat \<Rightarrow> u8 list \<Rightarrow> bool) \<Rightarrow> nat \<Rightarrow> nat \<Rightarrow> 's pipeline \<Rightarrow> u8 list \<Rightarrow> bool" where
  "file_left owes m gap st rest =
     (case main st of
        Receiving \<Rightarrow> (\<exists>body p its. upcoming owes (memory st) body (filled st) (reader st) \<and> well_formed m (carry (main_vars st) @ body) p its \<and>
          spaced_by gap its \<and> p \<le> 32 \<and> length (carry (main_vars st)) \<le> CARRY_HEADROOM \<and> rest = items_data its)
      | MainDone \<Rightarrow> rest = [] \<and> reader st = ReaderDone
      | Panicked s \<Rightarrow> False)"

definition file_inv :: "('s \<Rightarrow> nat \<Rightarrow> u8 list \<Rightarrow> bool) \<Rightarrow> nat \<Rightarrow> nat \<Rightarrow> u8 list \<Rightarrow> 's pipeline \<Rightarrow> bool" where
  "file_inv owes m gap data st \<longleftrightarrow> (\<forall>s<RING_SLOTS. length (memory st s) = SLOT_SIZE) \<and> (\<forall>j\<in>set (jobs st). decodes j) \<and>
     (\<forall>t\<in>set (worker_threads st). \<forall>w. t \<noteq> Died w) \<and>
     (\<exists>rest. file_left owes m gap st rest \<and> concat (map chunk_output (jobs st)) @ rest = data)"

lemma slot_output_job:
  assumes "slot_output (content, acts) = Inr d" "job_content j = content" "job_items j = posted acts"
  shows "decodes j" "chunk_output j = d"
proof -
  obtain rs where rs: "mapE (run_item content) (posted acts) = Inr rs" "d = concat (map result_output rs)"
    using assms(1) by (auto simp: slot_output_def bindE_Inr_iff)
  then have run: "length rs = length (posted acts)" "\<And>i. i < length (posted acts) \<Longrightarrow> run_item content (posted acts ! i) = Inr (rs ! i)"
    by (auto simp: mapE_Inr_iff)
  then show "decodes j" using assms(2,3) by (auto simp: decodes_def in_set_conv_nth)
  have "map (item_output j) (posted acts) = map result_output rs"
    using run assms(2) by (intro nth_equalityI) (simp_all add: item_output_def)
  then show "chunk_output j = d" using rs(2) assms(3) by (simp add: chunk_output_def)
qed

lemma new_jobs_output:
  assumes "pipeline_inv st" "main_body budget n m (main_vars st) s f = Inr (vars, content, acts, stop)" "slot_output (content, acts) = Inr d"
  shows "\<forall>j\<in>set (new_jobs s content acts). decodes j" "concat (map chunk_output (new_jobs s content acts)) = d"
proof -
  show "\<forall>j\<in>set (new_jobs s content acts). decodes j"
    using slot_output_job(1) [OF assms(3)] by (auto simp: new_jobs_def split: list.splits main_action.splits)
  from assms(1,2) show "concat (map chunk_output (new_jobs s content acts)) = d"
  proof (cases rule: turn_posts)
    case 1
    with assms(3) show ?thesis by (simp add: slot_output_def)
  next
    case (2 ws l)
    then show ?thesis using slot_output_job(2) [OF assms(3)] by simp
  qed
qed

lemma file_inv_start:
  assumes "owes src k body" "well_formed m (header @ body) 32 its" "spaced_by gap its" "length header = 4"
  shows "file_inv owes m gap (items_data its) (pipeline_start n header src)"
proof -
  have "file_left owes m gap (pipeline_start n header src) (items_data its)"
    using assms unfolding file_left_def pipeline_start_def by (auto simp: CARRY_HEADROOM_def)
  then show ?thesis by (auto simp: file_inv_def pipeline_start_def)
qed

subsection \<open>Every step keeps the file\<close>

lemma upcoming_owes: "upcoming owes mem body fs (Reading src) \<Longrightarrow> \<exists>k rest. owes src k rest"
proof (induction fs arbitrary: body)
  case (Cons f fs)
  then show ?case by (cases f) (auto split: if_splits)
qed auto

lemma turn_of_file:
  assumes "file_left owes m gap st rest" "main st = Receiving" "filled st = (s, got, is_last) # fs" "8 \<le> n" "n * (gap + 200) \<le> 8 * CHUNK_SIZE"
  obtains vars content acts stop d rest' where "main_body budget n m (main_vars st) s (memory st s, got, is_last) = Inr (vars, content, acts, stop)"
    "slot_output (content, acts) = Inr d" "rest = d @ rest'" "length content = SLOT_SIZE"
    "\<And>js. s \<notin> set (map fst fs) \<Longrightarrow> s \<notin> set (reader_slots (reader st)) \<Longrightarrow>
       file_left owes m gap (st\<lparr>filled := fs, memory := (memory st)(s := content), main_vars := vars, to_send := acts,
         main := if stop then MainDone else Receiving, jobs := js\<rparr>) rest'"
proof -
  obtain body p its where f: "upcoming owes (memory st) body (filled st) (reader st)" "well_formed m (carry (main_vars st) @ body) p its"
    "spaced_by gap its" "p \<le> 32" "length (carry (main_vars st)) \<le> CARRY_HEADROOM" "rest = items_data its"
    using assms(1,2) by (auto simp: file_left_def)
  have slot: "holds_data (memory st s) (take CHUNK_SIZE body) got" "is_last = (got < CHUNK_SIZE)"
    "if is_last then fs = [] \<and> reader st = ReaderDone else upcoming owes (memory st) (drop CHUNK_SIZE body) fs (reader st)"
    using f(1) assms(3) by simp_all
  obtain vars content acts A its' where turn: "main_body budget n m (main_vars st) s (memory st s, got, got < CHUNK_SIZE) = Inr (vars, content, acts, got < CHUNK_SIZE)"
    "slot_output (content, acts) = Inr (items_data A)" "its = A @ its'" "length content = SLOT_SIZE" "got < CHUNK_SIZE \<longrightarrow> its' = []"
    "\<not> got < CHUNK_SIZE \<longrightarrow> length (carry vars) \<le> CARRY_HEADROOM \<and> spaced_by gap its' \<and>
       (\<exists>p'\<le>32. well_formed m (carry vars @ drop CHUNK_SIZE body) p' its')"
    by (rule main_turn [OF slot(1) f(2-5) assms(4,5)])
  show thesis
  proof (rule that [OF turn(1) [folded slot(2)] turn(2) _ turn(4)])
    show "rest = items_data A @ items_data its'" using f(6) turn(3) by simp
    fix js assume s: "s \<notin> set (map fst fs)" "s \<notin> set (reader_slots (reader st))"
    show "file_left owes m gap (st\<lparr>filled := fs, memory := (memory st)(s := content), main_vars := vars, to_send := acts,
         main := if is_last then MainDone else Receiving, jobs := js\<rparr>) (items_data its')"
    proof (cases is_last)
      case True
      with slot turn(5) show ?thesis by (simp add: file_left_def)
    next
      case False
      then have "upcoming owes ((memory st)(s := content)) (drop CHUNK_SIZE body) fs (reader st)" using slot(3) upcoming_memory s by simp
      with False turn(6) slot(2) show ?thesis by (auto simp: file_left_def)
    qed
  qed
qed

context complete_source
begin

lemma fill_slot_result:
  assumes "owes src k rest" "length slot = SLOT_SIZE" "fill_slot rd slot src = Some (Inr ((content, got, is_last), src'))"
  shows "holds_data content (take CHUNK_SIZE rest) got" "is_last = (got < CHUNK_SIZE)" "\<exists>k. owes src' k (drop CHUNK_SIZE rest)"
proof -
  obtain slot' k' s' where r: "fill_slot rd slot src = Some (Inr ((slot', length (take CHUNK_SIZE rest), length (take CHUNK_SIZE rest) < CHUNK_SIZE), s'))"
    "holds_data slot' (take CHUNK_SIZE rest) (length (take CHUNK_SIZE rest))" "owes s' k' (drop CHUNK_SIZE rest)"
    by (rule fill_slot_next [OF assms(1,2)])
  with assms(3) show "holds_data content (take CHUNK_SIZE rest) got" "is_last = (got < CHUNK_SIZE)" "\<exists>k. owes src' k (drop CHUNK_SIZE rest)"
    by auto
qed

lemma file_inv_step:
  assumes "pipeline_inv st" "file_inv owes m gap data st" "pipeline_step rd budget n m st st'" "8 \<le> n" "n * (gap + 200) \<le> 8 * CHUNK_SIZE"
  shows "file_inv owes m gap data st'"
proof -
  obtain rest where inv: "\<forall>s<RING_SLOTS. length (memory st s) = SLOT_SIZE" "\<forall>j\<in>set (jobs st). decodes j"
    "\<forall>t\<in>set (worker_threads st). \<forall>w. t \<noteq> Died w" and left: "file_left owes m gap st rest" "concat (map chunk_output (jobs st)) @ rest = data"
    using assms(2) by (auto simp: file_inv_def)
  have d: "distinct (slots_of st)" and slots: "set (slots_of st) = {0..<RING_SLOTS}"
    using assms(1) distinct_slots [of st] unfolding pipeline_inv_def slots_inv_def by (metis set_mset_mset set_upt)+
  from assms(3) show ?thesis
  proof cases
    case (reader_fills src s ss content got is_last src')
    have s: "s < RING_SLOTS" "s \<notin> set (map fst (filled st))"
      using d slots reader_fills(3) by (auto simp: slots_of_def simp del: set_map)
    obtain body p its where f: "main st = Receiving" "upcoming owes (memory st) body (filled st) (Reading src)"
        "well_formed m (carry (main_vars st) @ body) p its" "spaced_by gap its" "p \<le> 32" "length (carry (main_vars st)) \<le> CARRY_HEADROOM" "rest = items_data its"
      using left(1) reader_fills(2) by (auto simp: file_left_def split: main_thread.splits)
    have slot: "length (memory st s) = SLOT_SIZE" using inv(1) s(1) by simp
    obtain k w where "owes src k w" using upcoming_owes [OF f(2)] by blast
    from fill_slot_result(1) [OF this slot reader_fills(4)] have "length content = SLOT_SIZE" by (simp add: holds_data_def)
    moreover have "upcoming owes ((memory st)(s := content)) body (filled st) (Filled s got is_last src')"
    proof (rule upcoming_fill [OF f(2) s(2)])
      fix k w assume "owes src k w"
      from fill_slot_result [OF this slot reader_fills(4)]
      show "holds_data content (take CHUNK_SIZE w) got \<and> is_last = (got < CHUNK_SIZE) \<and> (\<exists>k. owes src' k (drop CHUNK_SIZE w))" by blast
    qed
    then have "file_left owes m gap st' rest" using f reader_fills(1) by (auto simp: file_left_def)
    ultimately show ?thesis using inv left(2) reader_fills(1) by (auto simp: file_inv_def)
  next
    case (reader_sends s got is_last src)
    then have "file_left owes m gap st' rest" using left(1) upcoming_send by (fastforce simp: file_left_def split: main_thread.splits)
    with inv left(2) reader_sends(1) show ?thesis by (auto simp: file_inv_def)
  next
    case (main_turns s got is_last fs vars content acts stop)
    have s: "s < RING_SLOTS" "s \<notin> set (map fst fs)" "s \<notin> set (reader_slots (reader st))"
      using d slots main_turns(4) by (auto simp: slots_of_def simp del: set_map)
    obtain vars' content' acts' stop' d' rest' where turn: "main_body budget n m (main_vars st) s (memory st s, got, is_last) = Inr (vars', content', acts', stop')"
      "slot_output (content', acts') = Inr d'" "rest = d' @ rest'" "length content' = SLOT_SIZE"
      "\<And>js. file_left owes m gap (st\<lparr>filled := fs, memory := (memory st)(s := content'), main_vars := vars', to_send := acts',
         main := if stop' then MainDone else Receiving, jobs := js\<rparr>) rest'"
      by (rule turn_of_file [OF left(1) main_turns(2,4) assms(4,5)]) (use s in blast)
    then have eq: "vars' = vars" "content' = content" "acts' = acts" "stop' = stop" using main_turns(5) by simp_all
    note new = new_jobs_output [OF assms(1) main_turns(5) turn(2) [unfolded eq]]
    have "file_left owes m gap st' rest'" unfolding main_turns(1) using turn(5) by (simp only: eq)
    moreover have "concat (map chunk_output (jobs st')) @ rest' = data" using left(2) turn(3) new(2) main_turns(1) by simp
    ultimately show ?thesis using inv turn(4) new(1) main_turns(1) eq by (auto simp: file_inv_def)
  next
    case (main_panics s got is_last fs e)
    obtain v where "main_body budget n m (main_vars st) s (memory st s, got, is_last) = Inr v"
      by (rule turn_of_file [OF left(1) main_panics(2,4) assms(4,5)]) blast
    with main_panics(5) show ?thesis by simp
  next
    case (worker_dies us w vs e)
    have w: "w \<in> set (sent_items st)" using worker_dies(2) by (simp add: sent_items_def)
    have "valid_item (jobs st) w" using assms(1) w by (auto simp: pipeline_inv_def items_inv_def)
    then have "\<exists>r. run_item (job_content (jobs st ! item_chunk w)) w = Inr r"
      using inv(2) by (metis decodes_def nth_mem valid_item_def)
    with worker_dies(3) item_memory(1) [OF assms(1) w] show ?thesis by simp
  qed (use inv left in \<open>auto simp: file_inv_def file_left_def split: main_thread.splits\<close>)
qed

end

subsection \<open>No deadlock\<close>

text \<open>Everything is received and performed; the channels close and the threads end.\<close>

definition finished :: "'s pipeline \<Rightarrow> bool" where
  "finished st \<longleftrightarrow> main st = MainDone \<and> to_send st = [] \<and> work st = [] \<and> (\<forall>t\<in>set (worker_threads st). t = Idle) \<and>
     inbox st = [] \<and> to_perform st = [] \<and> write_queue st = []"

lemma slots_length: "slots_inv st \<Longrightarrow> length (slots_of st) = RING_SLOTS"
  unfolding slots_inv_def by (metis length_upt minus_nat.diff_0 size_mset)

lemma no_tasks:
  assumes "\<forall>t\<in>set ts. t = Idle"
  shows "concat (map worker_items ts) = []" "concat (map worker_results ts) = []"
  using assms by (induction ts) simp_all

text \<open>When no item or result is anywhere and every slot is announced, every chunk is written.\<close>

lemma all_written:
  assumes "pipeline_inv st" "to_send st = []" "work st = []" "\<forall>t\<in>set (worker_threads st). t = Idle" "inbox st = []"
  shows "snd (collector st) = length (jobs st)" "fst (collector st) = []"
proof -
  obtain fs c where col: "collector st = (fs, c)" by (cases "collector st")
  have "tasks_of st = []" using assms(2-5) no_tasks [OF assms(4)] by (simp add: tasks_of_def sent_items_def held_results_def)
  then have "mset_set (outstanding (plan_of (jobs st)) (fs, c)) = {#}"
    using assms(1) col by (simp add: pipeline_inv_def tasks_inv_def)
  then have out: "outstanding (plan_of (jobs st)) (fs, c) = {}" by (simp add: mset_set_empty_iff)
  have reg: "registered (fs, c) = {..<length (plan_of (jobs st))}"
    using assms(1,2,5) col by (auto simp: pipeline_inv_def order_inv_def announced_to_def)
  have "collector_inv (plan_of (jobs st)) (fs, c)" "flushed (fs, c)" using assms(1) col by (simp_all add: pipeline_inv_def collector_ok_def)
  from drained [OF this reg out] col show "snd (collector st) = length (jobs st)" "fst (collector st) = []" by simp_all
qed

context complete_source
begin

lemma worker_progress:
  assumes "pipeline_inv st" "file_inv owes m gap data st" "t \<in> set (worker_threads st)" "t \<noteq> Idle" "inbox st = []" "0 < n"
  shows "\<exists>st'. pipeline_step rd budget n m st st'"
proof -
  obtain us vs where ts: "worker_threads st = us @ t # vs" using assms(3) by (meson split_list)
  have room: "length (inbox st) < 4 * n" using assms(5,6) by simp
  show ?thesis
  proof (cases t)
    case (Decoding w)
    then show ?thesis using ts worker_decodes [of st us w vs] worker_dies [of st us w vs]
      by (cases "run_item (memory st (item_slot w)) w") blast+
  next
    case (Decoded r)
    then show ?thesis using worker_reports [of st us r vs n] ts room by blast
  next
    case (Died w)
    then show ?thesis using assms(2,3) by (auto simp: file_inv_def)
  qed (use assms(4) in simp)
qed

lemma reader_progress:
  assumes "pipeline_inv st" "file_inv owes m gap data st" "main st = Receiving" "filled st = []" "to_send st = []" "work st = []"
    "\<forall>t\<in>set (worker_threads st). t = Idle" "inbox st = []" "to_perform st = []"
  shows "\<exists>st'. pipeline_step rd budget n m st st'"
proof -
  obtain rest where "file_left owes m gap st rest" using assms(2) by (auto simp: file_inv_def)
  then obtain body where up: "upcoming owes (memory st) body [] (reader st)" using assms(3,4) by (auto simp: file_left_def)
  show ?thesis
  proof (cases "reader st")
    case (Reading src)
    have col: "fst (collector st) = []" by (rule all_written(2) [OF assms(1,5,6,7,8)])
    have "length (slots_of st) = RING_SLOTS" using assms(1) slots_length by (auto simp: pipeline_inv_def)
    then have "length (returned st) = RING_SLOTS" using assms(3-9) Reading col by (simp add: slots_of_def owned_slots_def)
    then obtain s ss where ret: "returned st = s # ss" by (cases "returned st") (auto simp: RING_SLOTS_def)
    have "s \<in> set (slots_of st)" using ret by (simp add: slots_of_def)
    moreover have "set (slots_of st) = {0..<RING_SLOTS}" using assms(1) unfolding pipeline_inv_def slots_inv_def by (metis set_mset_mset set_upt)
    ultimately have len: "length (memory st s) = SLOT_SIZE" using assms(2) by (simp add: file_inv_def)
    obtain k where "owes src k body" using up Reading by auto
    then obtain slot' got l s' where "fill_slot rd (memory st s) src = Some (Inr ((slot', got, l), s'))"
      by (rule fill_slot_next [OF _ len]) blast
    from reader_fills [OF Reading ret this] show ?thesis by blast
  next
    case (Filled s got l src)
    have "length (filled st) < RING_SLOTS" using assms(4) by (simp add: RING_SLOTS_def)
    from reader_sends [OF Filled this] show ?thesis by blast
  qed (use up in simp)
qed

lemma progress:
  assumes "pipeline_inv st" "file_inv owes m gap data st" "worker_threads st \<noteq> []" "8 \<le> n" "n * (gap + 200) \<le> 8 * CHUNK_SIZE" "\<not> finished st"
  shows "\<exists>st'. pipeline_step rd budget n m st st'"
proof -
  have full: "length (slots_of st) = RING_SLOTS" using assms(1) slots_length by (auto simp: pipeline_inv_def)
  consider "write_queue st \<noteq> []" | "write_queue st = []" "to_perform st \<noteq> []" | "to_perform st = []" "inbox st \<noteq> []"
    | t where "inbox st = []" "t \<in> set (worker_threads st)" "t \<noteq> Idle" | "\<forall>t\<in>set (worker_threads st). t = Idle" "work st \<noteq> []"
    | "inbox st = []" "work st = []" "to_send st \<noteq> []"
    | "to_send st = []" "main st = Receiving" "filled st \<noteq> []"
    | "write_queue st = []" "to_perform st = []" "inbox st = []" "\<forall>t\<in>set (worker_threads st). t = Idle" "work st = []" "to_send st = []" "main st \<noteq> Receiving \<or> filled st = []"
    by blast
  then show ?thesis
  proof cases
    case 1
    then show ?thesis using writer_writes [of st] by (cases "write_queue st") blast+
  next
    case 2
    then obtain e es where e: "to_perform st = e # es" by (cases "to_perform st") auto
    show ?thesis
    proof (cases e)
      case (Write d)
      have "length (write_queue st) < RING_SLOTS" using 2(1) by (simp add: RING_SLOTS_def)
      from collector_writes [OF e [unfolded Write] this] show ?thesis by blast
    next
      case (Recycle s)
      have "length (returned st) < RING_SLOTS" using full e Recycle by (simp add: slots_of_def)
      from collector_recycles [OF e [unfolded Recycle] this] show ?thesis by blast
    qed
  next
    case 3
    then obtain msg msgs where i: "inbox st = msg # msgs" by (cases "inbox st") auto
    obtain fs c effects where "collector_step (collector st) msg = Inr (fs, c, effects)" by (rule collector_turn [OF assms(1) i]) blast
    from collector_turns [OF 3(1) i this] show ?thesis by blast
  next
    case (4 t)
    show ?thesis by (rule worker_progress [OF assms(1,2) 4(2,3,1)]) (use assms(4) in simp)
  next
    case 5
    obtain t vs where ts: "worker_threads st = t # vs" using assms(3) by (cases "worker_threads st") auto
    with 5(1) have ts': "worker_threads st = [] @ Idle # vs" by simp
    obtain w ws where "work st = w # ws" using 5(2) by (cases "work st") auto
    from worker_takes [OF ts' this] show ?thesis by blast
  next
    case 6
    then obtain a acts where a: "to_send st = a # acts" by (cases "to_send st") auto
    show ?thesis
    proof (cases a)
      case (ReturnSlot s)
      have "length (returned st) < RING_SLOTS" using full a ReturnSlot by (simp add: slots_of_def owned_slots_def)
      from main_returns [OF a [unfolded ReturnSlot] this] show ?thesis by blast
    next
      case (Register f)
      have "length (inbox st) < 4 * n" using 6(1) assms(4) by simp
      from main_registers [OF a [unfolded Register] this] show ?thesis by blast
    next
      case (Post w)
      have "length (work st) < 2 * n" using 6(2) assms(4) by simp
      from main_posts [OF a [unfolded Post] this] show ?thesis by blast
    qed
  next
    case 7
    then obtain s got l fs where f: "filled st = (s, got, l) # fs" by (cases "filled st") auto
    obtain rest where "file_left owes m gap st rest" using assms(2) by (auto simp: file_inv_def)
    then obtain vars content acts stop where "main_body budget n m (main_vars st) s (memory st s, got, l) = Inr (vars, content, acts, stop)"
      by (rule turn_of_file [OF _ 7(2) f assms(4,5)]) blast
    from main_turns [OF 7(2,1) f this] show ?thesis by blast
  next
    case 8
    show ?thesis
    proof (cases "main st")
      case Receiving
      with 8 show ?thesis by (intro reader_progress [OF assms(1,2)]) auto
    next
      case MainDone
      with 8 assms(6) show ?thesis by (simp add: finished_def)
    next
      case (Panicked s)
      with assms(2) show ?thesis by (simp add: file_inv_def file_left_def)
    qed
  qed
qed

end

subsection \<open>Every run ends\<close>

text \<open>What is left to do: every step takes something of it, and a turn of the main loop posts at most one item for each worker.\<close>

definition stored :: "in_flight_slot list \<Rightarrow> nat" where
  "stored fs = sum_list (map (\<lambda>f. 2 + 2 * results_in (flight_results f)) fs)"

fun effect_weight :: "collector_effect \<Rightarrow> nat" where
  "effect_weight (Write data) = 2"
| "effect_weight (Recycle s) = 1"

fun action_weight :: "main_action \<Rightarrow> nat" where
  "action_weight (ReturnSlot s) = 1"
| "action_weight (Register f) = 4 + 2 * results_in (flight_results f)"
| "action_weight (Post w) = 7"

fun worker_weight :: "worker_thread \<Rightarrow> nat" where
  "worker_weight (Decoding w) = 5"
| "worker_weight (Decoded r) = 4"
| "worker_weight _ = 0"

fun message_weight :: "collector_msg \<Rightarrow> nat" where
  "message_weight (NewSlot f) = 3 + 2 * results_in (flight_results f)"
| "message_weight (Result r) = 3"

definition turn_weight :: "nat \<Rightarrow> nat" where
  "turn_weight n = 5 + 7 * max 1 n"

fun reader_weight :: "nat \<Rightarrow> 's reader_thread \<Rightarrow> nat" where
  "reader_weight n (Filled s got is_last src) = turn_weight n + 1"
| "reader_weight n _ = 0"

definition to_do :: "nat \<Rightarrow> 's pipeline \<Rightarrow> nat" where
  "to_do n st = reader_weight n (reader st) + turn_weight n * length (filled st) + sum_list (map action_weight (to_send st)) +
     6 * length (work st) + sum_list (map worker_weight (worker_threads st)) + sum_list (map message_weight (inbox st)) +
     stored (fst (collector st)) + sum_list (map effect_weight (to_perform st)) + length (write_queue st)"

lemma stored_simps [simp]: "stored [] = 0" "stored (f # fs) = 2 + 2 * results_in (flight_results f) + stored fs" "stored (fs @ gs) = stored fs + stored gs"
  by (simp_all add: stored_def)

lemma results_in_none [simp]: "results_in (replicate k None) = 0"
  by (simp add: results_in_def)

lemma writes_weight: "sum_list (map effect_weight (segment_writes xs)) \<le> 2 * results_in xs"
  by (induction xs) (auto simp: segment_writes_def results_in_def split: option.splits)

lemma flush_weight:
  "flush_completed fs c = (fs', c', effects) \<Longrightarrow> stored fs' + sum_list (map effect_weight effects) \<le> stored fs"
proof (induction fs c arbitrary: fs' c' effects rule: flush_completed.induct)
  case (1 fs c)
  show ?case
  proof (cases "find_chunk fs c")
    case None
    with "1.prems" show ?thesis by (simp add: flush_completed.simps [of fs c])
  next
    case (Some i)
    let ?f = "fs ! i"
    show ?thesis
    proof (cases "done_count ?f < flight_segments ?f")
      case True
      with Some "1.prems" show ?thesis by (simp add: flush_completed.simps [of fs c])
    next
      case False
      obtain gs d es where rest: "flush_completed (take i fs @ drop (Suc i) fs) (Suc c) = (gs, d, es)" using prod_cases3 by blast
      then have all: "fs' = gs" "effects = segment_writes (flight_results ?f) @ [Recycle (flight_slot ?f)] @ es"
        using Some False "1.prems" by (simp_all add: flush_completed.simps [of fs c] Let_def)
      have "stored gs + sum_list (map effect_weight es) \<le> stored (take i fs @ drop (Suc i) fs)"
        by (rule "1.IH" [OF Some refl False rest])
      moreover have "stored fs = stored (take i fs @ ?f # drop (Suc i) fs)" using id_take_nth_drop [OF find_chunk_less [OF Some]] by simp
      ultimately show ?thesis using all writes_weight [of "flight_results ?f"] by simp
    qed
  qed
qed

lemma results_in_update: "results_in (xs[i := Some y]) \<le> Suc (results_in xs)"
proof (induction xs arbitrary: i)
  case (Cons x xs)
  show ?case
  proof (cases i)
    case (Suc j)
    with Cons [of j] show ?thesis by (auto simp: results_in_def)
  qed (auto simp: results_in_def)
qed (simp add: results_in_def)

lemma apply_weight: "apply_result fs r = Inr fs' \<Longrightarrow> stored fs' \<le> stored fs + 2"
proof (induction fs arbitrary: fs')
  case (Cons f fs)
  then show ?case
    using results_in_update [of "flight_results f" "result_segment r" "result_output r"]
    by (auto simp: bindE_Inr_iff store_Inr_iff split: if_splits)
qed simp

lemma collector_weight:
  assumes "collector_step (fs, c) msg = Inr (fs', c', effects)"
  shows "stored fs' + sum_list (map effect_weight effects) < stored fs + message_weight msg"
proof (cases msg)
  case (NewSlot f)
  with assms flush_weight [of "fs @ [f]" c fs' c' effects] show ?thesis by (simp add: collector_step_def)
next
  case (Result r)
  then obtain gs where "apply_result fs r = Inr gs" "flush_completed gs c = (fs', c', effects)"
    using assms by (auto simp: collector_step_def bindE_Inr_iff)
  with apply_weight [of fs r gs] flush_weight [of gs c fs' c' effects] Result show ?thesis by simp
qed

lemma turn_sends_weight:
  assumes "main_body budget n m vars s f = Inr (vars', content, acts, stop)"
  shows "sum_list (map action_weight acts) < turn_weight n"
proof -
  have posts: "sum_list (map action_weight (map Post ws)) = 7 * length ws" for ws by (induction ws) simp_all
  from main_body_sends [OF assms] show ?thesis
  proof (elim disjE exE conjE)
    fix ws is_last assume a: "acts = Register \<lparr>flight_chunk = chunk_id vars, flight_slot = s, flight_segments = length ws,
        flight_results = replicate (length ws) None, done_count = 0, flight_last = is_last\<rparr> # map Post ws" "length ws \<le> max 1 n"
    have "sum_list (map action_weight acts) = 4 + 7 * length ws" unfolding a(1) using posts by simp
    with a(2) show ?thesis by (simp add: turn_weight_def)
  qed (simp add: turn_weight_def)
qed

text \<open>The chunks the reader has still to read, the last, shorter one included.\<close>

fun chunks_left :: "('s \<Rightarrow> nat \<Rightarrow> u8 list \<Rightarrow> bool) \<Rightarrow> 's reader_thread \<Rightarrow> nat \<Rightarrow> bool" where
  "chunks_left owes (Reading src) c \<longleftrightarrow> (\<exists>k w. owes src k w \<and> c = length w div CHUNK_SIZE + 1)"
| "chunks_left owes (Filled s got is_last src) c \<longleftrightarrow> (if is_last then c = 0 else \<exists>k w. owes src k w \<and> c = length w div CHUNK_SIZE + 1)"
| "chunks_left owes ReaderDone c \<longleftrightarrow> c = 0"

definition run_weight :: "nat \<Rightarrow> nat \<Rightarrow> 's pipeline \<Rightarrow> nat" where
  "run_weight n c st = c * (turn_weight n + 2) + to_do n st"

context complete_source
begin

lemma step_weight:
  assumes "pipeline_inv st" "file_inv owes m gap data st" "pipeline_step rd budget n m st st'" "chunks_left owes (reader st) c"
  shows "\<exists>c'. chunks_left owes (reader st') c' \<and> run_weight n c' st' < run_weight n c st"
  using assms(3)
proof cases
  case (reader_fills src s ss content got is_last src')
  obtain k w where w: "owes src k w" "c = length w div CHUNK_SIZE + 1" using assms(4) reader_fills(2) by auto
  have "s < RING_SLOTS"
  proof -
    have "s \<in> set (slots_of st)" using reader_fills(3) by (simp add: slots_of_def)
    moreover have "set (slots_of st) = {0..<RING_SLOTS}" using assms(1) unfolding pipeline_inv_def slots_inv_def by (metis set_mset_mset set_upt)
    ultimately show ?thesis by simp
  qed
  then have "length (memory st s) = SLOT_SIZE" using assms(2) by (simp add: file_inv_def)
  note fill = fill_slot_result [OF w(1) this reader_fills(4)]
  have got: "got = length (take CHUNK_SIZE w)" using fill(1) unfolding holds_data_def by blast
  have to_do: "to_do n st' = to_do n st + (turn_weight n + 1)" using reader_fills by (simp add: to_do_def)
  show ?thesis
  proof (cases is_last)
    case True
    then have "chunks_left owes (reader st') 0" using reader_fills(1) by simp
    moreover have "run_weight n 0 st' < run_weight n c st" using w(2) to_do by (simp add: run_weight_def)
    ultimately show ?thesis by blast
  next
    case False
    then have "CHUNK_SIZE \<le> length w" using fill(2) got by simp
    then have "length (drop CHUNK_SIZE w) div CHUNK_SIZE + 1 = length w div CHUNK_SIZE" by (simp add: le_div_geq CHUNK_SIZE_def)
    then have "\<exists>k' w'. owes src' k' w' \<and> length w div CHUNK_SIZE = length w' div CHUNK_SIZE + 1" using fill(3) by metis
    then have "chunks_left owes (reader st') (length w div CHUNK_SIZE)" using reader_fills(1) False by simp
    moreover have "run_weight n (length w div CHUNK_SIZE) st' < run_weight n c st" using w(2) to_do by (simp add: run_weight_def)
    ultimately show ?thesis by blast
  qed
next
  case (reader_sends s got is_last src)
  then have "chunks_left owes (reader st') c" using assms(4) by (auto split: if_splits)
  moreover have "to_do n st' < to_do n st" using reader_sends by (simp add: to_do_def)
  ultimately show ?thesis by (auto simp: run_weight_def)
next
  case (main_turns s got is_last fs vars content acts stop)
  with turn_sends_weight [OF main_turns(5)] have "to_do n st' < to_do n st" by (simp add: to_do_def)
  with assms(4) main_turns(1) show ?thesis by (auto simp: run_weight_def)
next
  case (main_panics s got is_last fs e)
  then have "to_do n st' < to_do n st" by (simp add: to_do_def turn_weight_def)
  with assms(4) main_panics(1) show ?thesis by (auto simp: run_weight_def)
next
  case (collector_turns msg msgs fs c' effects)
  obtain gs b where col: "collector st = (gs, b)" by (cases "collector st")
  have "to_do n st' < to_do n st" using collector_turns collector_weight [of gs b msg fs c' effects] col by (simp add: to_do_def)
  with assms(4) collector_turns(1) show ?thesis by (auto simp: run_weight_def)
qed (use assms(4) in \<open>auto simp: run_weight_def to_do_def\<close>)

end

context complete_source
begin

text \<open>A run from the start: the invariants, and what it has done of what was to do.\<close>

lemma run_invariants:
  assumes "(pipeline_step rd budget n m ^^ t) (pipeline_start n header src) st" "owes src k body" "well_formed m (header @ body) 32 its"
    "spaced_by gap its" "length header = 4" "8 \<le> n" "n * (gap + 200) \<le> 8 * CHUNK_SIZE"
  shows "pipeline_inv st" "file_inv owes m gap (items_data its) st" "length (worker_threads st) = n"
    "\<exists>c. chunks_left owes (reader st) c \<and> t + run_weight n c st \<le> (length body div CHUNK_SIZE + 1) * (turn_weight n + 2)"
proof -
  have "pipeline_inv st \<and> file_inv owes m gap (items_data its) st \<and> length (worker_threads st) = n \<and>
    (\<exists>c. chunks_left owes (reader st) c \<and> t + run_weight n c st \<le> (length body div CHUNK_SIZE + 1) * (turn_weight n + 2))"
    using assms(1)
  proof (induction t arbitrary: st)
    case 0
    have "sum_list (map worker_weight (replicate n Idle)) = 0" by (induction n) simp_all
    then have "run_weight n c (pipeline_start n header src) = c * (turn_weight n + 2)" for c
      by (simp add: run_weight_def to_do_def pipeline_start_def)
    moreover have "chunks_left owes (reader (pipeline_start n header src)) (length body div CHUNK_SIZE + 1)"
      using assms(2) by (auto simp: pipeline_start_def)
    ultimately have "\<exists>c. chunks_left owes (reader (pipeline_start n header src)) c \<and>
        0 + run_weight n c (pipeline_start n header src) \<le> (length body div CHUNK_SIZE + 1) * (turn_weight n + 2)"
      by (intro exI [of _ "length body div CHUNK_SIZE + 1"]) simp
    moreover have "length (worker_threads (pipeline_start n header src)) = n" by (simp add: pipeline_start_def)
    moreover have "st = pipeline_start n header src" using 0 by simp
    ultimately show ?case using pipeline_inv_start [of n header src] file_inv_start [where owes = owes, OF assms(2-5), of n] by blast
  next
    case (Suc t)
    then obtain st1 where st1: "(pipeline_step rd budget n m ^^ t) (pipeline_start n header src) st1" "pipeline_step rd budget n m st1 st" by auto
    from Suc.IH [OF st1(1)] obtain c where inv: "pipeline_inv st1" "file_inv owes m gap (items_data its) st1" "length (worker_threads st1) = n"
      "chunks_left owes (reader st1) c" "t + run_weight n c st1 \<le> (length body div CHUNK_SIZE + 1) * (turn_weight n + 2)" by blast
    have "length (worker_threads st) = n" using st1(2) inv(3) by cases auto
    moreover obtain c' where "chunks_left owes (reader st) c'" "run_weight n c' st < run_weight n c st1"
      using step_weight [OF inv(1,2) st1(2) inv(4)] by blast
    moreover from this(2) inv(5) have "Suc t + run_weight n c' st \<le> (length body div CHUNK_SIZE + 1) * (turn_weight n + 2)" by linarith
    ultimately show ?case using pipeline_inv_step [OF inv(1) st1(2)] file_inv_step [OF inv(1,2) st1(2) assms(6,7)] by blast
  qed
  then show "pipeline_inv st" "file_inv owes m gap (items_data its) st" "length (worker_threads st) = n"
    "\<exists>c. chunks_left owes (reader st) c \<and> t + run_weight n c st \<le> (length body div CHUNK_SIZE + 1) * (turn_weight n + 2)" by blast+
qed

lemma run_step:
  assumes "(pipeline_step rd budget n m ^^ t) (pipeline_start n header src) st" "owes src k body" "well_formed m (header @ body) 32 its"
    "spaced_by gap its" "length header = 4" "8 \<le> n" "n * (gap + 200) \<le> 8 * CHUNK_SIZE"
  shows "t \<le> (length body div CHUNK_SIZE + 1) * (7 * n + 7)" "finished st \<or> (\<exists>st'. pipeline_step rd budget n m st st')"
proof -
  note inv = run_invariants [OF assms]
  have "turn_weight n + 2 = 7 * n + 7" using assms(6) by (simp add: turn_weight_def)
  with inv(4) show "t \<le> (length body div CHUNK_SIZE + 1) * (7 * n + 7)" by (metis add_leD1)
  have "worker_threads st \<noteq> []" using inv(3) assms(6) by auto
  with progress [OF inv(1,2) _ assms(6,7)] show "finished st \<or> (\<exists>st'. pipeline_step rd budget n m st st')" by blast
qed

lemma run_finishes:
  assumes "(pipeline_step rd budget n m ^^ t) (pipeline_start n header src) st" "owes src k body" "well_formed m (header @ body) 32 its"
    "spaced_by gap its" "length header = 4" "8 \<le> n" "n * (gap + 200) \<le> 8 * CHUNK_SIZE"
  shows "\<exists>st'. (pipeline_step rd budget n m)\<^sup>*\<^sup>* st st' \<and> finished st'"
  using assms(1)
proof (induction "(length body div CHUNK_SIZE + 1) * (7 * n + 7) - t" arbitrary: t st rule: less_induct)
  case less
  show ?case
  proof (cases "finished st")
    case False
    then obtain st1 where st1: "pipeline_step rd budget n m st st1" using run_step(2) [OF less.prems assms(2-7)] by blast
    then have run: "(pipeline_step rd budget n m ^^ Suc t) (pipeline_start n header src) st1" using less.prems by auto
    have "(length body div CHUNK_SIZE + 1) * (7 * n + 7) - Suc t < (length body div CHUNK_SIZE + 1) * (7 * n + 7) - t"
      using run_step(1) [OF run assms(2-7)] by linarith
    from less.hyps [OF this run] st1 show ?thesis by (meson converse_rtranclp_into_rtranclp)
  qed blast
qed

text \<open>The output file holds the beginning of the data, and all of it when everything has ended.\<close>

lemma run_output:
  assumes "pipeline_inv st" "file_inv owes m gap data st"
  shows "\<exists>later. out_file st @ later = data" "finished st \<Longrightarrow> out_file st = data"
proof -
  obtain rest where left: "file_left owes m gap st rest" "concat (map chunk_output (jobs st)) @ rest = data"
    using assms(2) by (auto simp: file_inv_def)
  have out: "out_file st @ concat (write_queue st) @ concat (map effect_data (to_perform st)) = concat (map chunk_output (take (snd (collector st)) (jobs st)))"
    using assms(1) by (simp add: pipeline_inv_def output_inv_def)
  have "concat (map chunk_output (jobs st)) =
      concat (map chunk_output (take (snd (collector st)) (jobs st))) @ concat (map chunk_output (drop (snd (collector st)) (jobs st)))"
    by (metis append_take_drop_id concat_append map_append)
  then show "\<exists>later. out_file st @ later = data" using left(2) out by (metis append.assoc)
  assume f: "finished st"
  then have "snd (collector st) = length (jobs st)" by (intro all_written [OF assms(1)]) (simp_all add: finished_def)
  moreover have "rest = []" using left(1) f by (simp add: file_left_def finished_def)
  ultimately show "out_file st = data" using f left(2) out by (simp add: finished_def)
qed

lemma run_decompresses:
  assumes "owes src k body" "well_formed m (header @ body) 32 its" "spaced_by gap its" "length header = 4"
    and "8 \<le> n" "n * (gap + 200) \<le> 8 * CHUNK_SIZE" "(pipeline_step rd budget n m)\<^sup>*\<^sup>* (pipeline_start n header src) st"
  shows "(\<forall>s. main st \<noteq> Panicked s) \<and> (\<forall>t\<in>set (worker_threads st). \<forall>w. t \<noteq> Died w) \<and>
    (\<exists>later. out_file st @ later = items_data its) \<and> (finished st \<longrightarrow> out_file st = items_data its)"
proof -
  obtain t where t: "(pipeline_step rd budget n m ^^ t) (pipeline_start n header src) st" using assms(7) by (auto dest: rtranclp_imp_relpowp)
  note inv = run_invariants [OF t assms(1-6)]
  from inv(2) have "(\<forall>s. main st \<noteq> Panicked s) \<and> (\<forall>t\<in>set (worker_threads st). \<forall>w. t \<noteq> Died w)"
    by (auto simp: file_inv_def file_left_def split: main_thread.splits)
  with run_output [OF inv(1,2)] show ?thesis by blast
qed

end

end
