(* ===== verification/Lbunzip2_Exit.thy ===== *)
theory Lbunzip2_Exit
  imports Lbunzip2_Runs
begin

text \<open>
  The program of \<open>bin/lbunzip2.rs\<close> to its end: how the channels close, how the threads leave their loops, how \<open>main\<close> joins them, and
  what happens when the output file cannot be created or written. A state adds to that of the threads how far \<open>main\<close> and each thread
  have come with this; a step of the threads is taken only where the channels it sends to and receives from are still there.
\<close>

subsection \<open>Closing and joining\<close>

text \<open>
  A sender is dropped with the thread that owns it: \<open>work_tx\<close> by \<open>main\<close> after its loop, the senders to the collector by \<open>main\<close> and by
  the workers, \<open>write_tx\<close> by the collector. A thread that has ended by a panic is not joined but makes \<open>main\<close> panic.
\<close>

datatype collector_thread = Serving | Draining | CollectorEnded | CollectorPanicked

datatype writer_thread = Creating | Writing | WriterEnded | WriterPanicked

datatype main_phase = InLoop | JoiningWorkers nat | JoiningCollector | JoiningReader | JoiningWriter | Exited nat | Aborted

text \<open>
  \<open>stopped\<close> are the workers that have left their loops, \<open>freed\<close> the slots a panic of the collector has dropped.
\<close>

record 's program =
  threads :: "'s pipeline"
  phase :: main_phase
  stopped :: "nat set"
  collector_at :: collector_thread
  writer_at :: writer_thread
  freed :: "nat list"

definition program_start :: "nat \<Rightarrow> u8 list \<Rightarrow> 's \<Rightarrow> 's program" where
  "program_start n header src =
     \<lparr>threads = pipeline_start n header src, phase = InLoop, stopped = {}, collector_at = Serving, writer_at = Creating, freed = []\<rparr>"

definition running :: "'s program \<Rightarrow> bool" where
  "running p \<longleftrightarrow> (case phase p of Exited total_out \<Rightarrow> False | Aborted \<Rightarrow> False | _ \<Rightarrow> True)"

definition collector_gone :: "'s program \<Rightarrow> bool" where
  "collector_gone p \<longleftrightarrow> collector_at p = CollectorEnded \<or> collector_at p = CollectorPanicked"

definition died :: "worker_thread \<Rightarrow> bool" where
  "died t \<longleftrightarrow> (case t of Died w \<Rightarrow> True | _ \<Rightarrow> False)"

definition workers_gone :: "'s program \<Rightarrow> bool" where
  "workers_gone p \<longleftrightarrow> (\<forall>i<length (worker_threads (threads p)). i \<in> stopped p \<or> died (worker_threads (threads p) ! i))"

text \<open>The channels that a step of the threads to \<open>st'\<close> uses still have both ends.\<close>

definition connected :: "'s program \<Rightarrow> 's pipeline \<Rightarrow> bool" where
  "connected p st' \<longleftrightarrow>
     (length (filled (threads p)) < length (filled st') \<longrightarrow> phase p = InLoop) \<and>
     (length (work (threads p)) < length (work st') \<longrightarrow> \<not> workers_gone p) \<and>
     (inbox (threads p) \<noteq> inbox st' \<or> to_perform (threads p) \<noteq> to_perform st' \<longrightarrow> \<not> collector_gone p) \<and>
     (length (write_queue (threads p)) < length (write_queue st') \<longrightarrow> writer_at p = Creating \<or> writer_at p = Writing) \<and>
     (length (write_queue st') < length (write_queue (threads p)) \<longrightarrow> writer_at p = Writing)"

text \<open>The slots of the entries and messages a panic of the collector drops.\<close>

definition dropped_slots :: "'s pipeline \<Rightarrow> nat list" where
  "dropped_slots st = concat (map effect_slots (to_perform st)) @ concat (map message_slots (inbox st)) @ map flight_slot (fst (collector st))"

text \<open>
  One step of the program; \<open>ok\<close> says that the output file can be created and written. The first rule is a step of the threads in
  their loops, the others are their ends, in the order of the code: \<open>main\<close>, the workers, the collector, the reader, the writer.
\<close>

inductive program_step :: "bool \<Rightarrow> 's read_fn \<Rightarrow> nat \<Rightarrow> nat \<Rightarrow> nat \<Rightarrow> 's program \<Rightarrow> 's program \<Rightarrow> bool" for ok rd budget n m where
  threads_run: "running p \<Longrightarrow> pipeline_step rd budget n m (threads p) st' \<Longrightarrow> connected p st' \<Longrightarrow>
    program_step ok rd budget n m p (p\<lparr>threads := st'\<rparr>)"
| main_aborts: "running p \<Longrightarrow> main (threads p) = Panicked s \<Longrightarrow>
    program_step ok rd budget n m p (p\<lparr>phase := Aborted\<rparr>)"
| register_fails: "phase p = InLoop \<Longrightarrow> to_send (threads p) = Register f # acts \<Longrightarrow> collector_gone p \<Longrightarrow>
    program_step ok rd budget n m p (p\<lparr>phase := Aborted\<rparr>)"
| post_fails: "phase p = InLoop \<Longrightarrow> to_send (threads p) = Post w # acts \<Longrightarrow> workers_gone p \<Longrightarrow>
    program_step ok rd budget n m p (p\<lparr>phase := Aborted\<rparr>)"
| main_leaves: "phase p = InLoop \<Longrightarrow> to_send (threads p) = [] \<Longrightarrow>
    main (threads p) = MainDone \<or> main (threads p) = Receiving \<and> filled (threads p) = [] \<and> reader (threads p) = ReaderDone \<Longrightarrow>
    program_step ok rd budget n m p (p\<lparr>phase := JoiningWorkers 0\<rparr>)"
| joins_worker: "phase p = JoiningWorkers i \<Longrightarrow> i \<in> stopped p \<Longrightarrow>
    program_step ok rd budget n m p (p\<lparr>phase := JoiningWorkers (Suc i)\<rparr>)"
| worker_join_fails: "phase p = JoiningWorkers i \<Longrightarrow> i < length (worker_threads (threads p)) \<Longrightarrow> died (worker_threads (threads p) ! i) \<Longrightarrow>
    program_step ok rd budget n m p (p\<lparr>phase := Aborted\<rparr>)"
| workers_joined: "phase p = JoiningWorkers (length (worker_threads (threads p))) \<Longrightarrow>
    program_step ok rd budget n m p (p\<lparr>phase := JoiningCollector\<rparr>)"
| joins_collector: "phase p = JoiningCollector \<Longrightarrow> collector_at p = CollectorEnded \<Longrightarrow>
    program_step ok rd budget n m p (p\<lparr>phase := JoiningReader\<rparr>)"
| collector_join_fails: "phase p = JoiningCollector \<Longrightarrow> collector_at p = CollectorPanicked \<Longrightarrow>
    program_step ok rd budget n m p (p\<lparr>phase := Aborted\<rparr>)"
| joins_reader: "phase p = JoiningReader \<Longrightarrow> reader (threads p) = ReaderDone \<Longrightarrow>
    program_step ok rd budget n m p (p\<lparr>phase := JoiningWriter\<rparr>)"
| joins_writer: "phase p = JoiningWriter \<Longrightarrow> writer_at p = WriterEnded \<Longrightarrow>
    program_step ok rd budget n m p (p\<lparr>phase := Exited (length (out_file (threads p)))\<rparr>)"
| writer_join_fails: "phase p = JoiningWriter \<Longrightarrow> writer_at p = WriterPanicked \<Longrightarrow>
    program_step ok rd budget n m p (p\<lparr>phase := Aborted\<rparr>)"
| worker_stops: "running p \<Longrightarrow> phase p \<noteq> InLoop \<Longrightarrow> work (threads p) = [] \<Longrightarrow> i < length (worker_threads (threads p)) \<Longrightarrow>
    worker_threads (threads p) ! i = Idle \<Longrightarrow> i \<notin> stopped p \<Longrightarrow>
    program_step ok rd budget n m p (p\<lparr>stopped := insert i (stopped p)\<rparr>)"
| report_lost: "running p \<Longrightarrow> worker_threads (threads p) = us @ Decoded r # vs \<Longrightarrow> collector_gone p \<Longrightarrow>
    program_step ok rd budget n m p (p\<lparr>threads := (threads p)\<lparr>worker_threads := us @ Idle # vs\<rparr>\<rparr>)"
| collector_closes: "running p \<Longrightarrow> collector_at p = Serving \<Longrightarrow> to_perform (threads p) = [] \<Longrightarrow> inbox (threads p) = [] \<Longrightarrow>
    phase p \<noteq> InLoop \<Longrightarrow> workers_gone p \<Longrightarrow>
    flush_completed (fst (collector (threads p))) (snd (collector (threads p))) = (fs, c, effects) \<Longrightarrow>
    program_step ok rd budget n m p (p\<lparr>collector_at := Draining, threads := (threads p)\<lparr>collector := (fs, c), to_perform := effects\<rparr>\<rparr>)"
| collector_ends: "running p \<Longrightarrow> collector_at p = Draining \<Longrightarrow> to_perform (threads p) = [] \<Longrightarrow>
    program_step ok rd budget n m p (p\<lparr>collector_at := CollectorEnded\<rparr>)"
| collector_panics: "running p \<Longrightarrow> \<not> collector_gone p \<Longrightarrow> to_perform (threads p) = Write data # es \<Longrightarrow> writer_at p = WriterPanicked \<Longrightarrow>
    program_step ok rd budget n m p (p\<lparr>collector_at := CollectorPanicked, freed := dropped_slots (threads p)\<rparr>)"
| reader_disconnected: "running p \<Longrightarrow> reader (threads p) = Reading src \<Longrightarrow> returned (threads p) = [] \<Longrightarrow> phase p \<noteq> InLoop \<Longrightarrow> collector_gone p \<Longrightarrow>
    program_step ok rd budget n m p (p\<lparr>threads := (threads p)\<lparr>reader := ReaderDone\<rparr>\<rparr>)"
| reader_unheard: "running p \<Longrightarrow> reader (threads p) = Filled s got is_last src \<Longrightarrow> phase p \<noteq> InLoop \<Longrightarrow>
    program_step ok rd budget n m p (p\<lparr>threads := (threads p)\<lparr>reader := ReaderDone\<rparr>\<rparr>)"
| writer_creates: "running p \<Longrightarrow> writer_at p = Creating \<Longrightarrow>
    program_step ok rd budget n m p (p\<lparr>writer_at := Writing\<rparr>)"
| creation_fails: "running p \<Longrightarrow> \<not> ok \<Longrightarrow> writer_at p = Creating \<Longrightarrow>
    program_step ok rd budget n m p (p\<lparr>writer_at := WriterPanicked\<rparr>)"
| write_fails: "running p \<Longrightarrow> \<not> ok \<Longrightarrow> writer_at p = Writing \<Longrightarrow> write_queue (threads p) = data # ds \<Longrightarrow>
    program_step ok rd budget n m p (p\<lparr>writer_at := WriterPanicked\<rparr>)"
| writer_ends: "running p \<Longrightarrow> writer_at p = Writing \<Longrightarrow> write_queue (threads p) = [] \<Longrightarrow> collector_gone p \<Longrightarrow>
    program_step ok rd budget n m p (p\<lparr>writer_at := WriterEnded\<rparr>)"
| flush_fails: "running p \<Longrightarrow> \<not> ok \<Longrightarrow> writer_at p = Writing \<Longrightarrow> write_queue (threads p) = [] \<Longrightarrow> collector_gone p \<Longrightarrow>
    program_step ok rd budget n m p (p\<lparr>writer_at := WriterPanicked\<rparr>)"

subsection \<open>The reader ends with the last chunk, and so does the loop of \<open>main\<close>\<close>

fun in_order :: "(nat \<times> nat \<times> bool) list \<Rightarrow> 's reader_thread \<Rightarrow> bool" where
  "in_order [] (Reading src) \<longleftrightarrow> True"
| "in_order [] (Filled s got is_last src) \<longleftrightarrow> is_last = (got < CHUNK_SIZE)"
| "in_order [] ReaderDone \<longleftrightarrow> False"
| "in_order ((s, got, is_last) # fs) r \<longleftrightarrow> is_last = (got < CHUNK_SIZE) \<and> (if is_last then fs = [] \<and> r = ReaderDone else in_order fs r)"

definition reader_inv :: "'s pipeline \<Rightarrow> bool" where
  "reader_inv st \<longleftrightarrow>
     (case main st of
        Receiving \<Rightarrow> in_order (filled st) (reader st)
      | MainDone \<Rightarrow> filled st = [] \<and> reader st = ReaderDone
      | Panicked s \<Rightarrow> True)"

lemma in_order_fill: "in_order fs (Reading src) \<Longrightarrow> is_last = (got < CHUNK_SIZE) \<Longrightarrow> in_order fs (Filled s got is_last src')"
  by (induction fs) (auto split: if_splits)

lemma in_order_send: "in_order fs (Filled s got is_last src) \<Longrightarrow> in_order (fs @ [(s, got, is_last)]) (if is_last then ReaderDone else Reading src)"
  by (induction fs) (auto split: if_splits)

lemma main_body_stop:
  assumes "main_body budget n m st s (content, len, is_last) = Inr (st', content', acts, stop)" "is_last = (len < CHUNK_SIZE)"
  shows "stop = is_last"
  using assms by (auto simp: main_body_def CHUNK_SIZE_def bindE_Inr_iff Let_def split: if_splits option.splits prod.splits)

lemma reader_inv_step:
  assumes "reader_inv st" "pipeline_step rd budget n m st st'"
  shows "reader_inv st'"
  using assms(2)
proof cases
  case (reader_fills src s ss content got is_last src')
  have "is_last = (got < CHUNK_SIZE)"
    using reader_fills(4) by (cases "read_chunk rd (length (memory st s) - CARRY_HEADROOM) [] src") (auto simp: fill_slot_def bindO_def split: sum.splits)
  with assms(1) reader_fills show ?thesis by (auto simp: reader_inv_def intro: in_order_fill split: main_thread.splits)
next
  case (reader_sends s got is_last src)
  with assms(1) show ?thesis
    using in_order_send [of "filled st" s got is_last src] by (auto simp: reader_inv_def split: main_thread.splits)
next
  case (main_turns s got is_last fs vars content acts stop)
  then have "is_last = (got < CHUNK_SIZE)" "if is_last then fs = [] \<and> reader st = ReaderDone else in_order fs (reader st)"
    using assms(1) by (simp_all add: reader_inv_def)
  with main_body_stop [OF main_turns(5)] show ?thesis using main_turns(1) by (auto simp: reader_inv_def)
qed (use assms(1) in \<open>auto simp: reader_inv_def split: main_thread.splits\<close>)

lemma reader_inv_start: "reader_inv (pipeline_start n header src)"
  by (simp add: reader_inv_def pipeline_start_def)

subsection \<open>How far each thread has come\<close>

text \<open>What the state of the joins says of the threads; after the loop \<open>main\<close> sends nothing, and the collector has no message to come.\<close>

definition all_stopped :: "'s program \<Rightarrow> bool" where
  "all_stopped p \<longleftrightarrow> {..<length (worker_threads (threads p))} \<subseteq> stopped p"

fun joined :: "main_phase \<Rightarrow> 's program \<Rightarrow> bool" where
  "joined InLoop p \<longleftrightarrow> stopped p = {} \<and> (collector_at p = Serving \<or> collector_at p = CollectorPanicked)"
| "joined (JoiningWorkers i) p \<longleftrightarrow> {..<i} \<subseteq> stopped p"
| "joined JoiningCollector p \<longleftrightarrow> all_stopped p"
| "joined JoiningReader p \<longleftrightarrow> all_stopped p \<and> collector_at p = CollectorEnded"
| "joined JoiningWriter p \<longleftrightarrow> all_stopped p \<and> collector_at p = CollectorEnded"
| "joined (Exited total_out) p \<longleftrightarrow> all_stopped p \<and> collector_at p = CollectorEnded \<and> writer_at p = WriterEnded \<and> total_out = length (out_file (threads p))"
| "joined Aborted p \<longleftrightarrow> True"

definition past_loop :: "'s program \<Rightarrow> bool" where
  "past_loop p \<longleftrightarrow> main (threads p) = MainDone \<and> to_send (threads p) = []"

definition closed :: "'s program \<Rightarrow> bool" where
  "closed p \<longleftrightarrow> collector_at p = Draining \<or> collector_at p = CollectorEnded"

definition control_inv :: "'s program \<Rightarrow> bool" where
  "control_inv p \<longleftrightarrow> joined (phase p) p \<and>
     (phase p \<noteq> InLoop \<and> phase p \<noteq> Aborted \<or> stopped p \<noteq> {} \<or> closed p \<longrightarrow> past_loop p) \<and>
     (\<forall>i\<in>stopped p. i < length (worker_threads (threads p)) \<and> worker_threads (threads p) ! i = Idle) \<and>
     (stopped p \<noteq> {} \<longrightarrow> work (threads p) = []) \<and>
     (closed p \<longrightarrow> inbox (threads p) = [] \<and> workers_gone p) \<and>
     (collector_at p = CollectorEnded \<longrightarrow> to_perform (threads p) = []) \<and>
     (collector_at p = CollectorPanicked \<longrightarrow> writer_at p = WriterPanicked) \<and>
     (writer_at p = WriterEnded \<longrightarrow> write_queue (threads p) = [] \<and> collector_at p = CollectorEnded)"

lemma control_inv_start: "control_inv (program_start n header src)"
  by (simp add: control_inv_def program_start_def closed_def)

lemma worker_update:
  assumes "\<forall>i\<in>S. i < length ts \<and> ts ! i = Idle" "ts = us @ t # vs" "t \<noteq> Idle"
  shows "\<forall>i\<in>S. i < length (us @ t' # vs) \<and> (us @ t' # vs) ! i = Idle" "length us \<notin> S"
proof -
  show "length us \<notin> S" using assms by auto
  then show "\<forall>i\<in>S. i < length (us @ t' # vs) \<and> (us @ t' # vs) ! i = Idle"
    using assms(1,2) by (auto simp: nth_append nth_Cons split: nat.splits if_splits)
qed

lemma closed_workers:
  assumes "control_inv p" "closed p" "worker_threads (threads p) = us @ t # vs"
  shows "t = Idle \<and> work (threads p) = [] \<or> died t"
proof -
  have "length us \<in> stopped p \<or> died t" using assms by (auto simp: control_inv_def workers_gone_def dest: spec [of _ "length us"])
  then show ?thesis using assms by (auto simp: control_inv_def)
qed

lemma joined_same:
  assumes "joined (phase p) p" "running p" "phase p' = phase p" "stopped p' = stopped p"
    "length (worker_threads (threads p')) = length (worker_threads (threads p))"
    "collector_at p' = collector_at p \<or> collector_at p \<noteq> CollectorEnded \<and> (phase p = InLoop \<longrightarrow> collector_at p' = CollectorPanicked)"
  shows "joined (phase p') p'"
  using assms by (cases "phase p") (auto simp: all_stopped_def running_def)

lemma closed_threads [simp]: "closed (p\<lparr>threads := st\<rparr>) = closed p"
  by (simp add: closed_def)

lemma control_inv_threads:
  assumes "control_inv p" "running p" "pipeline_step rd budget n m (threads p) st'" "connected p st'"
  shows "control_inv (p\<lparr>threads := st'\<rparr>)"
proof -
  have len: "length (worker_threads st') = length (worker_threads (threads p))" using assms(3) by cases auto
  have joins: "joined (phase (p\<lparr>threads := st'\<rparr>)) (p\<lparr>threads := st'\<rparr>)"
    by (rule joined_same [where p = p]) (use assms(1,2) len in \<open>auto simp: control_inv_def\<close>)
  have past: "past_loop (p\<lparr>threads := st'\<rparr>)" if "past_loop p"
    using assms(3) that by cases (auto simp: past_loop_def)
  have stop: "\<forall>i\<in>stopped p. i < length (worker_threads (threads p)) \<and> worker_threads (threads p) ! i = Idle"
    "stopped p \<noteq> {} \<Longrightarrow> work (threads p) = [] \<and> to_send (threads p) = []"
    using assms(1) by (auto simp: control_inv_def past_loop_def)
  have idle: "\<forall>i\<in>stopped p. i < length (worker_threads st') \<and> worker_threads st' ! i = Idle"
    using assms(3)
  proof cases
    case (worker_takes us vs w ws)
    with stop(2) have "stopped p = {}" by auto
    then show ?thesis by simp
  next
    case (worker_decodes us w vs r)
    with worker_update(1) [OF stop(1), of us _ vs "Decoded r"] show ?thesis by simp
  next
    case (worker_dies us w vs e)
    with worker_update(1) [OF stop(1), of us _ vs "Died w"] show ?thesis by simp
  next
    case (worker_reports us r vs)
    with worker_update(1) [OF stop(1), of us _ vs Idle] show ?thesis by simp
  qed (use stop(1) in simp_all)
  have no_work: "stopped p \<noteq> {} \<longrightarrow> work st' = []" using assms(3) by cases (use stop(2) in auto)
  have closed: "inbox st' = [] \<and> worker_threads st' = worker_threads (threads p)" if "closed p"
  proof -
    have ended: "inbox (threads p) = []" "to_send (threads p) = []" using assms(1) that by (auto simp: control_inv_def past_loop_def)
    note workers = closed_workers [OF assms(1) that]
    have decoding: False if "worker_threads (threads p) = us @ Decoding w # vs" for us w vs
      using workers [OF that] by (simp add: died_def)
    have decoded: False if "worker_threads (threads p) = us @ Decoded r # vs" for us r vs
      using workers [OF that] by (simp add: died_def)
    have idle: "work (threads p) = []" if "worker_threads (threads p) = us @ Idle # vs" for us vs
      using workers [OF that] by (simp add: died_def)
    from assms(3) show ?thesis by cases (use ended in \<open>auto dest: decoding decoded idle\<close>)
  qed
  then have closed: "closed p \<longrightarrow> inbox st' = [] \<and> workers_gone (p\<lparr>threads := st'\<rparr>)"
    using assms(1) by (auto simp: control_inv_def workers_gone_def)
  have ended: "collector_at p = CollectorEnded \<longrightarrow> to_perform (threads p) = []" "writer_at p = WriterEnded \<longrightarrow> write_queue (threads p) = []"
    using assms(1) unfolding control_inv_def by blast+
  moreover have "collector_gone p \<longrightarrow> to_perform st' = to_perform (threads p)"
    "writer_at p = WriterEnded \<longrightarrow> length (write_queue st') \<le> length (write_queue (threads p))"
    using assms(4) unfolding connected_def by fastforce+
  ultimately have queues: "collector_at p = CollectorEnded \<longrightarrow> to_perform st' = []" "writer_at p = WriterEnded \<longrightarrow> write_queue st' = []"
    by (auto simp: collector_gone_def)
  have "phase p \<noteq> InLoop \<and> phase p \<noteq> Aborted \<or> stopped p \<noteq> {} \<or> closed p \<longrightarrow> past_loop (p\<lparr>threads := st'\<rparr>)"
    "collector_at p = CollectorPanicked \<longrightarrow> writer_at p = WriterPanicked" "writer_at p = WriterEnded \<longrightarrow> collector_at p = CollectorEnded"
    using assms(1) past unfolding control_inv_def by blast+
  with joins idle no_work closed queues show ?thesis by (simp add: control_inv_def)
qed

text \<open>Steps of the collector, the reader and the writer that leave \<open>main\<close> and the workers as they are.\<close>

lemma control_inv_kept:
  assumes "control_inv p" "running p" "phase p' = phase p" "stopped p' = stopped p"
    "main (threads p') = main (threads p)" "to_send (threads p') = to_send (threads p)"
    "worker_threads (threads p') = worker_threads (threads p)" "work (threads p') = work (threads p)" "inbox (threads p') = inbox (threads p)"
    "collector_at p' = collector_at p \<or> collector_at p \<noteq> CollectorEnded \<and> (phase p = InLoop \<longrightarrow> collector_at p' = CollectorPanicked)"
    "closed p' \<longrightarrow> closed p" "collector_at p' = CollectorEnded \<longrightarrow> to_perform (threads p') = []"
    "collector_at p' = CollectorPanicked \<longrightarrow> writer_at p' = WriterPanicked"
    "writer_at p' = WriterEnded \<longrightarrow> write_queue (threads p') = [] \<and> collector_at p' = CollectorEnded"
  shows "control_inv p'"
proof -
  have "joined (phase p') p'"
    by (rule joined_same [where p = p]) (use assms in \<open>simp_all add: control_inv_def\<close>)
  moreover have "phase p' \<noteq> InLoop \<and> phase p' \<noteq> Aborted \<or> stopped p' \<noteq> {} \<or> closed p' \<longrightarrow> past_loop p'"
    using assms by (auto simp: control_inv_def past_loop_def)
  ultimately show ?thesis using assms by (simp add: control_inv_def workers_gone_def)
qed

lemma control_inv_step:
  assumes "control_inv p" "reader_inv (threads p)" "program_step ok rd budget n m p p'"
  shows "control_inv p'"
  using assms(3)
proof cases
  case (threads_run st')
  with control_inv_threads [OF assms(1), of rd budget n m st'] show ?thesis by simp
next
  case main_leaves
  with assms(1,2) show ?thesis by (auto simp: control_inv_def past_loop_def closed_def reader_inv_def)
next
  case (joins_worker i)
  with assms(1) show ?thesis by (auto simp: control_inv_def closed_def past_loop_def workers_gone_def less_Suc_eq)
next
  case workers_joined
  with assms(1) show ?thesis by (auto simp: control_inv_def closed_def past_loop_def workers_gone_def all_stopped_def)
next
  case (worker_stops i)
  have "joined (phase p) (p\<lparr>stopped := insert i (stopped p)\<rparr>)"
    using assms(1) worker_stops(3) by (cases "phase p") (auto simp: control_inv_def all_stopped_def)
  with assms(1) worker_stops show ?thesis
    by (auto simp: control_inv_def closed_def past_loop_def workers_gone_def running_def)
next
  case (report_lost us r vs)
  have "\<not> closed p" using closed_workers [OF assms(1) _ report_lost(3)] by (auto simp: died_def)
  moreover have "joined (phase p') p'" unfolding report_lost(1)
    by (rule joined_same [where p = p]) (use assms(1) report_lost in \<open>auto simp: control_inv_def\<close>)
  moreover have "\<forall>i\<in>stopped p. i < length (us @ Idle # vs) \<and> (us @ Idle # vs) ! i = Idle"
    by (rule worker_update(1) [OF _ report_lost(3)]) (use assms(1) in \<open>auto simp: control_inv_def\<close>)
  ultimately show ?thesis using assms(1) report_lost(1) by (auto simp: control_inv_def past_loop_def)
next
  case (collector_closes fs c effects)
  then have "joined (phase p) p'" using assms(1) by (cases "phase p") (auto simp: control_inv_def running_def all_stopped_def)
  with assms(1) collector_closes show ?thesis
    by (auto simp: control_inv_def closed_def past_loop_def workers_gone_def running_def)
next
  case main_aborts
  with assms(1) show ?thesis by (auto simp: control_inv_def past_loop_def closed_def workers_gone_def all_stopped_def)
next
  case register_fails
  with assms(1) show ?thesis by (auto simp: control_inv_def past_loop_def closed_def workers_gone_def all_stopped_def)
next
  case post_fails
  with assms(1) show ?thesis by (auto simp: control_inv_def past_loop_def closed_def workers_gone_def all_stopped_def)
next
  case worker_join_fails
  with assms(1) show ?thesis by (auto simp: control_inv_def past_loop_def closed_def workers_gone_def all_stopped_def)
next
  case joins_collector
  with assms(1) show ?thesis by (auto simp: control_inv_def past_loop_def closed_def workers_gone_def all_stopped_def)
next
  case collector_join_fails
  with assms(1) show ?thesis by (auto simp: control_inv_def past_loop_def closed_def workers_gone_def all_stopped_def)
next
  case joins_reader
  with assms(1) show ?thesis by (auto simp: control_inv_def past_loop_def closed_def workers_gone_def all_stopped_def)
next
  case joins_writer
  with assms(1) show ?thesis by (auto simp: control_inv_def past_loop_def closed_def workers_gone_def all_stopped_def)
next
  case writer_join_fails
  with assms(1) show ?thesis by (auto simp: control_inv_def past_loop_def closed_def workers_gone_def all_stopped_def)
qed (rule control_inv_kept [OF assms(1)]; use assms(1) in \<open>auto simp: control_inv_def closed_def collector_gone_def\<close>)+

subsection \<open>What the threads hold, and that nothing has failed where a result is\<close>

text \<open>Every segment whose result has come was decoded without a fault.\<close>

definition decoded_ok :: "job list \<Rightarrow> nat \<times> nat \<Rightarrow> bool" where
  "decoded_ok js = (\<lambda>(c, i). \<exists>r. run_item (job_content (js ! c)) (job_items (js ! c) ! i) = Inr r)"

definition decoded_inv :: "'s pipeline \<Rightarrow> bool" where
  "decoded_inv st \<longleftrightarrow>
     (\<forall>c<length (jobs st). \<forall>i<length (job_items (jobs st ! c)).
        (c, i) \<notin> outstanding (plan_of (jobs st)) (collector st) \<longrightarrow> decoded_ok (jobs st) (c, i)) \<and>
     (\<forall>r\<in>set (held_results st @ concat (map message_results (inbox st))). decoded_ok (jobs st) (result_chunk r, result_segment r))"

lemma decoded_inv_start: "decoded_inv (pipeline_start n header src)"
proof -
  have "concat (map worker_results (replicate n Idle)) = []" by (induction n) simp_all
  then show ?thesis by (simp add: decoded_inv_def pipeline_start_def held_results_def)
qed

lemma decoded_inv_step:
  assumes "pipeline_inv st" "decoded_inv st" "pipeline_step rd budget n m st st'"
  shows "decoded_inv st'"
  using assms(3)
proof cases
  case (main_turns s got is_last fs vars content acts stop)
  from assms(1) main_turns(5) show ?thesis
  proof (cases rule: turn_posts)
    case 1
    with assms(2) main_turns(1) show ?thesis by (simp add: decoded_inv_def held_results_def)
  next
    case (2 ws l)
    let ?j = "\<lparr>job_slot = s, job_content = content, job_items = ws\<rparr>"
    have "collector_inv (plan_of (jobs st)) (collector st)" using assms(1) by (simp add: pipeline_inv_def collector_ok_def)
    note out = outstanding_append [OF this, of "(s, map (item_output ?j) ws)"]
    have plan: "plan_of (jobs st @ [?j]) = plan_of (jobs st) @ [(s, map (item_output ?j) ws)]" by (simp add: plan_of_def)
    have old: "decoded_ok (jobs st @ [?j]) (c, i) = decoded_ok (jobs st) (c, i)" if "c < length (jobs st)" for c i
      using that by (simp add: decoded_ok_def nth_append)
    have results: "\<forall>r\<in>set (held_results st @ concat (map message_results (inbox st))). result_chunk r < length (jobs st)"
      using assms(1) by (auto simp: pipeline_inv_def items_inv_def valid_result_def)
    have "(c, i) \<notin> outstanding (plan_of (jobs st @ [?j])) (collector st) \<longrightarrow> decoded_ok (jobs st @ [?j]) (c, i)"
      if "c < length (jobs st @ [?j])" "i < length (job_items ((jobs st @ [?j]) ! c))" for c i
    proof (cases "c = length (jobs st)")
      case True
      with that(2) show ?thesis by (simp add: plan out)
    next
      case False
      with that assms(2) old show ?thesis by (auto simp: plan out decoded_inv_def nth_append)
    qed
    with assms(2) results old 2(2) main_turns(1) show ?thesis by (simp add: decoded_inv_def held_results_def)
  qed
next
  case (worker_decodes us w vs r)
  have w: "w \<in> set (sent_items st)" using worker_decodes(2) by (simp add: sent_items_def)
  have "decoded_ok (jobs st) (result_chunk r, result_segment r)"
    using worker_decodes(3) item_memory [OF assms(1) w] run_item_task [OF worker_decodes(3)] by (auto simp: decoded_ok_def)
  with assms(2) worker_decodes(1,2) show ?thesis by (auto simp: decoded_inv_def held_results_def)
next
  case (collector_turns msg msgs fs c effects)
  obtain T R ss turn where turn: "collector_step (collector st) msg = Inr turn" "turn_ok (plan_of (jobs st)) (collector st) T R ss turn"
    "\<And>f. msg = NewSlot f \<Longrightarrow> T = outstanding (plan_of (jobs st)) (collector st)"
    "\<And>r. msg = Result r \<Longrightarrow> T = outstanding (plan_of (jobs st)) (collector st) - {(result_chunk r, result_segment r)}"
    by (rule collector_turn [OF assms(1) collector_turns(3)]) blast
  then have T: "outstanding (plan_of (jobs st)) (fs, c) = T"
    using collector_turns(4) by (cases "collector st") (simp add: turn_ok_def)
  show ?thesis
  proof (cases msg)
    case (NewSlot f)
    with assms(2) collector_turns(1,3) turn(3) T show ?thesis by (simp add: decoded_inv_def held_results_def)
  next
    case (Result r)
    with assms(2) collector_turns(1,3) turn(4) T show ?thesis by (auto simp: decoded_inv_def held_results_def)
  qed
qed (use assms(2) in \<open>auto simp: decoded_inv_def held_results_def\<close>)

subsection \<open>The invariant of the program\<close>

definition program_inv :: "'s program \<Rightarrow> bool" where
  "program_inv p \<longleftrightarrow> control_inv p \<and> reader_inv (threads p) \<and>
     (collector_at p \<noteq> CollectorPanicked \<longrightarrow> pipeline_inv (threads p) \<and> decoded_inv (threads p))"

lemma program_inv_start: "program_inv (program_start n header src)"
proof -
  have "threads (program_start n header src) = pipeline_start n header src" by (simp add: program_start_def)
  then show ?thesis by (simp add: program_inv_def control_inv_start reader_inv_start pipeline_inv_start decoded_inv_start)
qed

text \<open>The flush of the collector after its channel is closed does nothing: what is complete has been flushed before.\<close>

lemma flushed_again:
  assumes "flushed (fs, c)"
  shows "flush_completed fs c = (fs, c, [])"
proof (cases "find_chunk fs c")
  case (Some i)
  then have "done_count (fs ! i) < flight_segments (fs ! i)"
    using assms find_chunk_Some [OF Some] nth_mem [OF find_chunk_less [OF Some]] by (simp add: flushed_def)
  with Some show ?thesis by (simp add: flush_completed.simps [of fs c])
qed (simp add: flush_completed.simps [of fs c])

lemma reader_done:
  assumes "program_inv p" "running p" "phase p \<noteq> InLoop"
  shows "reader (threads p) = ReaderDone" "main (threads p) = MainDone" "to_send (threads p) = []"
  using assms by (auto simp: program_inv_def control_inv_def past_loop_def running_def reader_inv_def)

lemma closing_flush:
  assumes "program_inv p" "collector_at p = Serving" "to_perform (threads p) = []"
    and "flush_completed (fst (collector (threads p))) (snd (collector (threads p))) = (fs, c, effects)"
  shows "(threads p)\<lparr>collector := (fs, c), to_perform := effects\<rparr> = threads p"
proof -
  have "flushed (collector (threads p))" using assms(1,2) by (simp add: program_inv_def pipeline_inv_def collector_ok_def)
  then have "fs = fst (collector (threads p))" "c = snd (collector (threads p))" "effects = []"
    using flushed_again [of "fst (collector (threads p))" "snd (collector (threads p))"] assms(4) by simp_all
  with assms(3) show ?thesis by simp
qed

lemma lost_report:
  assumes "program_inv p" "worker_threads (threads p) = us @ Decoded r # vs" "collector_gone p"
  shows "collector_at p = CollectorPanicked"
proof -
  have "control_inv p" using assms(1) by (simp add: program_inv_def)
  then have "\<not> closed p" using closed_workers [OF _ _ assms(2)] by (auto simp: died_def)
  with assms(3) show ?thesis by (auto simp: collector_gone_def closed_def)
qed

lemma program_inv_step:
  assumes "program_inv p" "program_step ok rd budget n m p p'"
  shows "program_inv p'"
proof -
  have control: "control_inv p'"
    by (rule control_inv_step [OF _ _ assms(2)]) (use assms(1) in \<open>simp_all add: program_inv_def\<close>)
  have inv: "control_inv p" "reader_inv (threads p)" "collector_at p \<noteq> CollectorPanicked \<longrightarrow> pipeline_inv (threads p) \<and> decoded_inv (threads p)"
    using assms(1) by (simp_all add: program_inv_def)
  from assms(2) have "reader_inv (threads p') \<and> (collector_at p' \<noteq> CollectorPanicked \<longrightarrow> pipeline_inv (threads p') \<and> decoded_inv (threads p'))"
  proof cases
    case (threads_run st')
    with inv reader_inv_step pipeline_inv_step decoded_inv_step show ?thesis by (auto simp: program_inv_def)
  next
    case (report_lost us r vs)
    from lost_report [OF assms(1) report_lost(3,4)] have "collector_at p = CollectorPanicked" .
    with inv(2) report_lost(1) show ?thesis by (simp add: reader_inv_def split: main_thread.splits)
  next
    case (collector_closes fs c effects)
    then have "threads p' = threads p" using closing_flush [OF assms(1) collector_closes(3,4,8)] by simp
    with inv collector_closes show ?thesis by simp
  next
    case (reader_disconnected src)
    with reader_done(1) [OF assms(1)] show ?thesis by simp
  next
    case (reader_unheard s got is_last src)
    with reader_done(1) [OF assms(1)] show ?thesis by simp
  qed (use inv in \<open>auto simp: collector_gone_def\<close>)
  with control show ?thesis by (simp add: program_inv_def)
qed

lemma program_inv_run:
  assumes "(program_step ok rd budget n m)\<^sup>*\<^sup>* (program_start n header src) p"
  shows "program_inv p"
  using assms by (induction rule: rtranclp_induct) (simp_all add: program_inv_start program_inv_step)

text \<open>When the program has exited, everything is written and every thread has ended.\<close>

lemma exited:
  assumes "program_inv p" "phase p = Exited total_out" "worker_threads (threads p) \<noteq> []"
  shows "finished (threads p)" "pipeline_inv (threads p)" "decoded_inv (threads p)" "total_out = length (out_file (threads p))"
    "writer_at p = WriterEnded"
proof -
  have control: "all_stopped p" "collector_at p = CollectorEnded" "past_loop p" "inbox (threads p) = []" "to_perform (threads p) = []"
    "\<forall>i\<in>stopped p. worker_threads (threads p) ! i = Idle" "stopped p \<noteq> {} \<longrightarrow> work (threads p) = []"
    using assms by (auto simp: program_inv_def control_inv_def closed_def)
  show "writer_at p = WriterEnded" "total_out = length (out_file (threads p))" using assms by (auto simp: program_inv_def control_inv_def)
  then have queue: "write_queue (threads p) = []" using assms by (auto simp: program_inv_def control_inv_def)
  show "pipeline_inv (threads p)" "decoded_inv (threads p)" using assms(1) control(2) by (simp_all add: program_inv_def)
  have idle: "\<forall>t\<in>set (worker_threads (threads p)). t = Idle"
    using control(1,6) by (metis all_stopped_def in_set_conv_nth lessThan_iff subsetD)
  have "0 \<in> stopped p" using control(1) assms(3) by (auto simp: all_stopped_def)
  then have "work (threads p) = []" using control(7) by blast
  with control idle queue show "finished (threads p)" by (simp add: finished_def past_loop_def)
qed

lemma workers_kept:
  assumes "(program_step ok rd budget n m)\<^sup>*\<^sup>* (program_start n header src) p"
  shows "length (worker_threads (threads p)) = n"
  using assms
proof (induction rule: rtranclp_induct)
  case (step p p')
  from step(2) show ?case
  proof cases
    case (threads_run st')
    from threads_run(3) step(3) threads_run(1) show ?thesis by cases auto
  qed (use step(3) in auto)
qed (simp add: program_start_def pipeline_start_def)

subsection \<open>Every run on a well-formed file exits\<close>

text \<open>The steps of the ends that are still to come; \<open>n\<close> is the number of workers.\<close>

fun phase_weight :: "nat \<Rightarrow> main_phase \<Rightarrow> nat" where
  "phase_weight n InLoop = n + 5"
| "phase_weight n (JoiningWorkers i) = n - i + 4"
| "phase_weight n JoiningCollector = 3"
| "phase_weight n JoiningReader = 2"
| "phase_weight n JoiningWriter = 1"
| "phase_weight n (Exited total_out) = 0"
| "phase_weight n Aborted = 0"

definition exit_weight :: "nat \<Rightarrow> 's program \<Rightarrow> nat" where
  "exit_weight n p = phase_weight n (phase p) + (n - card (stopped p)) +
     (case collector_at p of Serving \<Rightarrow> 2 | Draining \<Rightarrow> 1 | _ \<Rightarrow> 0) + (case writer_at p of Creating \<Rightarrow> 2 | Writing \<Rightarrow> 1 | _ \<Rightarrow> 0)"

text \<open>A run without failures: the run of its threads, and the steps of the ends it has made.\<close>

definition on_course :: "'s read_fn \<Rightarrow> nat \<Rightarrow> nat \<Rightarrow> nat \<Rightarrow> 's pipeline \<Rightarrow> nat \<Rightarrow> 's program \<Rightarrow> bool" where
  "on_course rd budget n m start t p \<longleftrightarrow> program_inv p \<and> phase p \<noteq> Aborted \<and> collector_at p \<noteq> CollectorPanicked \<and> writer_at p \<noteq> WriterPanicked \<and>
     (\<exists>t'. (pipeline_step rd budget n m ^^ t') start (threads p) \<and> t + exit_weight n p \<le> t' + 2 * n + 9)"

lemma on_course_start: "on_course rd budget n m (pipeline_start n header src) 0 (program_start n header src)"
proof -
  have "(pipeline_step rd budget n m ^^ 0) (pipeline_start n header src) (threads (program_start n header src))" by (simp add: program_start_def)
  moreover have "exit_weight n (program_start n header src) = 2 * n + 9" by (simp add: program_start_def exit_weight_def)
  ultimately have "\<exists>t'. (pipeline_step rd budget n m ^^ t') (pipeline_start n header src) (threads (program_start n header src)) \<and>
      0 + exit_weight n (program_start n header src) \<le> t' + 2 * n + 9"
    by (intro exI [of _ 0]) simp
  with program_inv_start [of n header src] show ?thesis unfolding on_course_def by (simp add: program_start_def)
qed

lemma on_course_exit:
  assumes "on_course rd budget n m start t p" "threads p' = threads p" "program_inv p'" "phase p' \<noteq> Aborted" "collector_at p' \<noteq> CollectorPanicked"
    "writer_at p' \<noteq> WriterPanicked" "exit_weight n p' < exit_weight n p"
  shows "on_course rd budget n m start (Suc t) p'"
  using assms unfolding on_course_def by force

lemma on_course_step:
  assumes "on_course rd budget n m start t p" "program_step True rd budget n m p p'"
    and "length (worker_threads (threads p)) = n" "0 < n" "\<forall>t\<in>set (worker_threads (threads p)). \<not> died t" "\<forall>s. main (threads p) \<noteq> Panicked s"
  shows "on_course rd budget n m start (Suc t) p'"
proof -
  have inv: "program_inv p" "control_inv p" "reader_inv (threads p)" using assms(1) by (simp_all add: on_course_def program_inv_def)
  have inv': "program_inv p'" by (rule program_inv_step [OF inv(1) assms(2)])
  have course: "phase p \<noteq> Aborted" "collector_at p \<noteq> CollectorPanicked" "writer_at p \<noteq> WriterPanicked"
    using assms(1) by (simp_all add: on_course_def)
  have loop: "phase p = InLoop \<Longrightarrow> \<not> collector_gone p" using inv(2) course(2) by (auto simp: control_inv_def collector_gone_def)
  have "workers_gone p \<Longrightarrow> stopped p \<noteq> {}" using assms(3-5) by (auto simp: workers_gone_def)
  then have posts: "workers_gone p \<Longrightarrow> to_send (threads p) = []" using inv(2) by (auto simp: control_inv_def past_loop_def)
  have sound: "i < length (worker_threads (threads p)) \<Longrightarrow> \<not> died (worker_threads (threads p) ! i)" for i using assms(5) by simp
  note kept = on_course_exit [OF assms(1) _ inv']
  have stopped: "finite (stopped p)" "stopped p \<subseteq> {..<n}"
    using inv(2) assms(3) by (auto simp: control_inv_def intro: finite_subset [of _ "{..<n}"])
  from assms(2) show ?thesis
  proof cases
    case (threads_run st')
    obtain t' where t': "(pipeline_step rd budget n m ^^ t') start (threads p)" "t + exit_weight n p \<le> t' + 2 * n + 9"
      using assms(1) by (auto simp: on_course_def)
    have "(pipeline_step rd budget n m ^^ Suc t') start st'" using t'(1) threads_run(3) by auto
    moreover have "Suc t + exit_weight n p' \<le> Suc t' + 2 * n + 9" using t'(2) threads_run(1) by (simp add: exit_weight_def)
    ultimately have "\<exists>t'. (pipeline_step rd budget n m ^^ t') start st' \<and> Suc t + exit_weight n p' \<le> t' + 2 * n + 9" by blast
    with inv' assms(1) show ?thesis unfolding on_course_def threads_run(1) by simp
  next
    case (worker_stops i)
    have "card (insert i (stopped p)) \<le> card {..<n}" using stopped worker_stops(5) assms(3) by (intro card_mono) auto
    with worker_stops stopped(1) have "exit_weight n p' < exit_weight n p" by (simp add: exit_weight_def)
    with kept worker_stops(1) assms(1) show ?thesis by (simp add: on_course_def)
  next
    case (collector_closes fs c effects)
    have "threads p' = threads p" using closing_flush [OF inv(1) collector_closes(3,4,8)] collector_closes(1) by simp
    moreover have "exit_weight n p' < exit_weight n p" "phase p' = phase p" "collector_at p' = Draining" "writer_at p' = writer_at p"
      using collector_closes(1,3) by (simp_all add: exit_weight_def)
    ultimately show ?thesis using kept assms(1) by (simp add: on_course_def)
  next
    case (report_lost us r vs)
    with lost_report [OF inv(1) report_lost(3,4)] assms(1) show ?thesis by (simp add: on_course_def)
  next
    case (reader_disconnected src)
    with reader_done(1) [OF inv(1)] show ?thesis by simp
  next
    case (reader_unheard s got is_last src)
    with reader_done(1) [OF inv(1)] show ?thesis by simp
  next
    case (joins_worker i)
    have "i < n" using stopped(2) joins_worker(3) by auto
    then have "exit_weight n p' < exit_weight n p" using joins_worker by (simp add: exit_weight_def)
    with kept joins_worker(1) assms(1) show ?thesis by (simp add: on_course_def)
  qed (rule kept; use course loop posts sound assms(6) in \<open>auto simp: exit_weight_def\<close>)+
qed

text \<open>Before the exit there is always a step: one of the threads, or one of the ends.\<close>

lemma connected_step:
  assumes "program_inv p" "writer_at p = Writing \<or> writer_at p = WriterEnded" "collector_at p \<noteq> CollectorPanicked" "running p"
    and "worker_threads (threads p) \<noteq> []" "\<forall>t\<in>set (worker_threads (threads p)). \<not> died t"
    and "pipeline_step rd budget n m (threads p) st'"
  shows "connected p st'"
proof -
  have inv: "control_inv p" using assms(1) by (simp add: program_inv_def)
  have gone: "inbox (threads p) = [] \<and> to_perform (threads p) = [] \<and> to_send (threads p) = []" "closed p" if "collector_gone p"
    using that assms(3) inv by (auto simp: collector_gone_def control_inv_def closed_def past_loop_def)
  have busy: "worker_threads (threads p) \<noteq> us @ Decoded r # vs" if "collector_gone p" for us r vs
    using lost_report [OF assms(1) _ that] assms(3) by blast
  have "workers_gone p \<Longrightarrow> stopped p \<noteq> {}" using assms(5,6) by (auto simp: workers_gone_def)
  then have posts: "workers_gone p \<Longrightarrow> to_send (threads p) = []" using inv by (auto simp: control_inv_def past_loop_def)
  have done_reading: "phase p \<noteq> InLoop \<Longrightarrow> reader (threads p) = ReaderDone" using reader_done(1) [OF assms(1,4)] .
  have written: "writer_at p = WriterEnded \<Longrightarrow> write_queue (threads p) = [] \<and> to_perform (threads p) = []"
    using inv by (auto simp: control_inv_def)
  from assms(7) show ?thesis
  proof cases
    case (worker_reports us r vs)
    with busy have "\<not> collector_gone p" by blast
    with worker_reports(1) show ?thesis by (simp add: connected_def)
  qed (use gone posts done_reading written assms(2) in \<open>auto simp: connected_def\<close>)
qed

lemma end_step:
  assumes "program_inv p" "collector_at p \<noteq> CollectorPanicked" "writer_at p \<noteq> WriterPanicked" "running p" "finished (threads p)"
  shows "\<exists>p'. program_step ok rd budget n m p p'"
proof -
  have inv: "control_inv p" using assms(1) by (simp add: program_inv_def)
  have fin: "main (threads p) = MainDone" "to_send (threads p) = []" "work (threads p) = []" "\<forall>t\<in>set (worker_threads (threads p)). t = Idle"
    "inbox (threads p) = []" "to_perform (threads p) = []" "write_queue (threads p) = []"
    using assms(5) by (simp_all add: finished_def)
  show ?thesis
  proof (cases "phase p")
    case InLoop
    with fin show ?thesis by (blast intro: main_leaves)
  next
    case (JoiningWorkers i)
    show ?thesis
    proof (cases "i < length (worker_threads (threads p))")
      case True
      then have idle: "worker_threads (threads p) ! i = Idle" using fin(4) nth_mem by blast
      have joining: "phase p \<noteq> InLoop" using JoiningWorkers by simp
      show ?thesis
        using joins_worker [OF JoiningWorkers] worker_stops [OF assms(4) joining fin(3) True idle] by blast
    next
      case False
      have "joined (phase p) p" "\<forall>j\<in>stopped p. j < length (worker_threads (threads p))" using inv unfolding control_inv_def by blast+
      then have "\<forall>j<i. j < length (worker_threads (threads p))" using JoiningWorkers by auto
      then have "\<not> length (worker_threads (threads p)) < i" by blast
      with False have "i = length (worker_threads (threads p))" by simp
      with JoiningWorkers show ?thesis by (blast intro: workers_joined)
    qed
  next
    case JoiningCollector
    then have "workers_gone p" using inv by (auto simp: control_inv_def all_stopped_def workers_gone_def)
    moreover have "phase p \<noteq> InLoop" using JoiningCollector by simp
    moreover obtain fs c effects where "flush_completed (fst (collector (threads p))) (snd (collector (threads p))) = (fs, c, effects)"
      by (rule prod_cases3)
    ultimately have "collector_at p = Serving \<Longrightarrow> ?thesis" using collector_closes [OF assms(4) _ fin(6,5)] by blast
    moreover have "collector_at p = Draining \<Longrightarrow> ?thesis" using collector_ends [OF assms(4) _ fin(6)] by blast
    moreover have "collector_at p = CollectorEnded \<Longrightarrow> ?thesis" using joins_collector [OF JoiningCollector] by blast
    ultimately show ?thesis using assms(2) by (cases "collector_at p") simp_all
  next
    case JoiningReader
    with reader_done(1) [OF assms(1,4)] show ?thesis by (auto intro: joins_reader)
  next
    case JoiningWriter
    then have "collector_gone p" using inv by (auto simp: control_inv_def collector_gone_def)
    with JoiningWriter assms(3,4) fin(7) show ?thesis
      by (cases "writer_at p") (auto intro: writer_creates writer_ends joins_writer)
  qed (use assms(4) in \<open>auto simp: running_def\<close>)
qed

context complete_source
begin

lemma on_course_threads:
  assumes "on_course rd budget n m (pipeline_start n header src) t p" "owes src k body" "well_formed m (header @ body) 32 its"
    "spaced_by gap its" "length header = 4" "8 \<le> n" "n * (gap + 200) \<le> 8 * CHUNK_SIZE"
  shows "(pipeline_step rd budget n m)\<^sup>*\<^sup>* (pipeline_start n header src) (threads p)" "length (worker_threads (threads p)) = n"
    "\<forall>t\<in>set (worker_threads (threads p)). \<not> died t" "\<forall>s. main (threads p) \<noteq> Panicked s"
    "t + exit_weight n p \<le> (length body div CHUNK_SIZE + 1) * (7 * n + 7) + 2 * n + 9"
    "finished (threads p) \<or> (\<exists>st'. pipeline_step rd budget n m (threads p) st')"
proof -
  obtain t' where t': "(pipeline_step rd budget n m ^^ t') (pipeline_start n header src) (threads p)" "t + exit_weight n p \<le> t' + 2 * n + 9"
    using assms(1) by (auto simp: on_course_def)
  note inv = run_invariants [OF t'(1) assms(2-7)] and next_step = run_step [OF t'(1) assms(2-7)]
  show "(pipeline_step rd budget n m)\<^sup>*\<^sup>* (pipeline_start n header src) (threads p)" using t'(1) by (auto simp: rtranclp_power)
  from inv(3) show "length (worker_threads (threads p)) = n" .
  from inv(2) show "\<forall>t\<in>set (worker_threads (threads p)). \<not> died t" "\<forall>s. main (threads p) \<noteq> Panicked s"
    by (auto simp: file_inv_def file_left_def died_def split: main_thread.splits worker_thread.splits)
  from next_step(1) t'(2) show "t + exit_weight n p \<le> (length body div CHUNK_SIZE + 1) * (7 * n + 7) + 2 * n + 9" by simp
  from next_step(2) show "finished (threads p) \<or> (\<exists>st'. pipeline_step rd budget n m (threads p) st')" .
qed

lemma program_run:
  assumes "(program_step True rd budget n m ^^ t) (program_start n header src) p" "owes src k body" "well_formed m (header @ body) 32 its"
    "spaced_by gap its" "length header = 4" "8 \<le> n" "n * (gap + 200) \<le> 8 * CHUNK_SIZE"
  shows "on_course rd budget n m (pipeline_start n header src) t p"
  using assms(1)
proof (induction t arbitrary: p)
  case 0
  then have "p = program_start n header src" by simp
  with on_course_start show ?case by simp
next
  case (Suc t)
  then obtain p1 where p1: "(program_step True rd budget n m ^^ t) (program_start n header src) p1" "program_step True rd budget n m p1 p" by auto
  have course: "on_course rd budget n m (pipeline_start n header src) t p1" by (rule Suc.IH [OF p1(1)])
  note threads = on_course_threads [OF course assms(2-7)]
  have "0 < n" using assms(6) by simp
  from on_course_step [OF course p1(2) threads(2) this threads(3,4)] show ?case .
qed

text \<open>No state before the exit is blocked.\<close>

lemma program_progress:
  assumes "on_course rd budget n m (pipeline_start n header src) t p" "running p" "owes src k body" "well_formed m (header @ body) 32 its"
    "spaced_by gap its" "length header = 4" "8 \<le> n" "n * (gap + 200) \<le> 8 * CHUNK_SIZE"
  shows "\<exists>p'. program_step True rd budget n m p p'"
proof -
  have inv: "program_inv p" "collector_at p \<noteq> CollectorPanicked" "writer_at p \<noteq> WriterPanicked" using assms(1) by (simp_all add: on_course_def)
  note threads = on_course_threads [OF assms(1,3-8)]
  have workers: "worker_threads (threads p) \<noteq> []" using threads(2) assms(7) by auto
  show ?thesis
  proof (cases "finished (threads p)")
    case True
    from end_step [OF inv assms(2) this] show ?thesis .
  next
    case False
    then obtain st' where st': "pipeline_step rd budget n m (threads p) st'" using threads(6) by blast
    show ?thesis
    proof (cases "writer_at p = Creating")
      case True
      from writer_creates [OF assms(2) this] show ?thesis by blast
    next
      case False
      then have "writer_at p = Writing \<or> writer_at p = WriterEnded" using inv(3) by (cases "writer_at p") simp_all
      from connected_step [OF inv(1) this inv(2) assms(2) workers threads(3) st'] threads_run [OF assms(2) st'] show ?thesis by blast
    qed
  qed
qed

lemma program_exits:
  assumes "(program_step True rd budget n m ^^ t) (program_start n header src) p" "owes src k body" "well_formed m (header @ body) 32 its"
    "spaced_by gap its" "length header = 4" "8 \<le> n" "n * (gap + 200) \<le> 8 * CHUNK_SIZE"
  shows "\<exists>p' total_out. (program_step True rd budget n m)\<^sup>*\<^sup>* p p' \<and> phase p' = Exited total_out"
  using assms(1)
proof (induction "(length body div CHUNK_SIZE + 1) * (7 * n + 7) + 2 * n + 9 - t" arbitrary: t p rule: less_induct)
  case less
  have course: "on_course rd budget n m (pipeline_start n header src) t p" by (rule program_run [OF less.prems assms(2-7)])
  show ?case
  proof (cases "running p")
    case False
    with course obtain total_out where "phase p = Exited total_out" by (auto simp: running_def on_course_def split: main_phase.splits)
    then show ?thesis by blast
  next
    case True
    then obtain p1 where p1: "program_step True rd budget n m p p1" using program_progress [OF course _ assms(2-7)] by blast
    then have run: "(program_step True rd budget n m ^^ Suc t) (program_start n header src) p1" using less.prems by auto
    have "(length body div CHUNK_SIZE + 1) * (7 * n + 7) + 2 * n + 9 - Suc t < (length body div CHUNK_SIZE + 1) * (7 * n + 7) + 2 * n + 9 - t"
      using on_course_threads(5) [OF program_run [OF run assms(2-7)] assms(2-7)] by linarith
    from less.hyps [OF this run] p1 show ?thesis by (meson converse_rtranclp_into_rtranclp)
  qed
qed

text \<open>What such a run writes.\<close>

lemma program_output:
  assumes "(program_step True rd budget n m)\<^sup>*\<^sup>* (program_start n header src) p" "owes src k body" "well_formed m (header @ body) 32 its"
    "spaced_by gap its" "length header = 4" "8 \<le> n" "n * (gap + 200) \<le> 8 * CHUNK_SIZE"
  shows "phase p \<noteq> Aborted \<and> (\<forall>t\<in>set (worker_threads (threads p)). \<not> died t) \<and> collector_at p \<noteq> CollectorPanicked \<and>
    (\<exists>later. out_file (threads p) @ later = items_data its) \<and>
    (\<forall>total_out. phase p = Exited total_out \<longrightarrow> out_file (threads p) = items_data its \<and> total_out = length (items_data its))"
proof -
  obtain t where "(program_step True rd budget n m ^^ t) (program_start n header src) p" using assms(1) by (auto dest: rtranclp_imp_relpowp)
  from program_run [OF this assms(2-7)] have course: "on_course rd budget n m (pipeline_start n header src) t p" .
  note threads = on_course_threads [OF course assms(2-7)]
  have out: "\<exists>later. out_file (threads p) @ later = items_data its" "finished (threads p) \<longrightarrow> out_file (threads p) = items_data its"
    using run_decompresses [OF assms(2-7) threads(1)] by blast+
  have "worker_threads (threads p) \<noteq> []" using threads(2) assms(6) by auto
  then have "out_file (threads p) = items_data its \<and> total_out = length (items_data its)" if "phase p = Exited total_out" for total_out
    using exited(1,4) [OF _ that] course out(2) by (simp add: on_course_def)
  with out(1) threads(3) course show ?thesis by (simp add: on_course_def)
qed

end

end
