(* ===== verification/Lbunzip2_Program.thy ===== *)
theory Lbunzip2_Program
  imports Lbunzip2_Exit Core_Count
begin

text \<open>
  The program from the opened file to its exit: \<open>main_start\<close> reads the header and starts the threads, and the properties of all that
  follows.
\<close>

subsection \<open>From the opened file to the threads\<close>

text \<open>
  What \<open>main\<close> does before it starts the threads: it reads the header, checks it, and takes the number of workers from the environment
  or the machine. The inner \<open>None\<close> is the exit with status 1; otherwise the result holds the number of workers, the block size and the
  first state of the program.
\<close>

definition main_start :: "'s read_fn \<Rightarrow> string option \<Rightarrow> cpu_entry option list option \<Rightarrow> nat option \<Rightarrow> 's \<Rightarrow>
    (nat \<times> nat \<times> 's program) option result option" where
  "main_start rd env dir avail src =
     bindO (read_exact rd 4 [] src) (\<lambda>(v, src').
       case v of
         Inl e \<Rightarrow> Some (Inl (Panic ''read bz2 header''))
       | Inr header \<Rightarrow>
           (case main_header header of
              None \<Rightarrow> Some (Inr None)
            | Some max_blocksize \<Rightarrow>
                let n_workers = main_workers env dir avail
                in Some (Inr (Some (n_workers, max_blocksize, program_start n_workers header src')))))"

lemma length_header_bytes: "length (header_bytes level) = 4"
  by (simp add: header_bytes_def)

context complete_source
begin

lemma main_start_reads:
  assumes "owes src k (header @ body)" "length header = 4"
  obtains k' src' where "main_start rd env dir avail src =
      (case main_header header of
         None \<Rightarrow> Some (Inr None)
       | Some m \<Rightarrow> Some (Inr (Some (main_workers env dir avail, m, program_start (main_workers env dir avail) header src'))))"
    "owes src' k' body"
proof -
  obtain k' src' where "read_exact rd 4 [] src = Some (Inr (Inr ([] @ take (4 - length ([] :: u8 list)) (header @ body)), src'))"
      "owes src' k' (drop (4 - length ([] :: u8 list)) (header @ body))"
    by (rule exact_enough [OF assms(1), of 4 "[]"]) (simp_all add: assms(2))
  with assms(2) show thesis by (intro that [of src' k']) (auto simp: main_start_def Let_def split: option.splits)
qed

lemma main_start_opens:
  assumes "owes src k (header_bytes level @ body)" "1 \<le> level" "level \<le> 9"
  obtains k' src' where "main_start rd env dir avail src =
      Some (Inr (Some (main_workers env dir avail, 100000 * level, program_start (main_workers env dir avail) (header_bytes level) src')))"
    "owes src' k' body"
proof (rule main_start_reads [OF assms(1) length_header_bytes])
  fix k' src'
  assume "main_start rd env dir avail src =
      (case main_header (header_bytes level) of
         None \<Rightarrow> Some (Inr None)
       | Some m \<Rightarrow> Some (Inr (Some (main_workers env dir avail, m, program_start (main_workers env dir avail) (header_bytes level) src'))))"
    "owes src' k' body"
  with main_header_bytes [OF assms(2,3)] show thesis by (intro that) simp_all
qed

text \<open>A file shorter than a header panics; a longer one whose first bytes are not a header ends the program with the message.\<close>

lemma main_start_short:
  assumes "owes src k w" "length w < 4"
  shows "main_start rd env dir avail src = Some (Inl (Panic ''read bz2 header''))"
  by (rule exact_short [OF assms(1), of "[]" 4]) (use assms(2) in \<open>simp_all add: main_start_def\<close>)

lemma main_start_rejects:
  assumes "owes src k (header @ body)" "length header = 4" "\<And>level. 1 \<le> level \<Longrightarrow> level \<le> 9 \<Longrightarrow> header \<noteq> header_bytes level"
  shows "main_start rd env dir avail src = Some (Inr None)"
proof -
  have "main_header header = None" using main_header_accepts [OF assms(2)] assms(3) by (metis option.exhaust)
  then show ?thesis using main_start_reads [OF assms(1,2)] by (metis option.simps(4))
qed

end

subsection \<open>Properties\<close>

text \<open>
  C1. The program decompresses the file. Let the source keep the contract of \<open>Read\<close>, the file be well formed (its only block magics are
  those of its blocks), its block starts at most \<open>gap\<close> bits apart, the number \<open>n\<close> of workers from the environment or the machine be at
  least 8 with \<open>n * (gap + 200)\<close> bits within a chunk, and the output file be one that can be written. Then
  the header is read and accepted and the threads start, and in any interleaving
  of the reader, the main thread, the workers, the collector and the writer no thread panics, the output file always holds a prefix of the
  data of the blocks of all streams, and when \<open>main\<close> returns it holds all of it and the size reported is that of the data.
\<close>

theorem pipeline_decompresses:
  assumes "complete_source rd owes" "owes src k (header_bytes level @ body)" "1 \<le> level" "level \<le> 9"
    and "well_formed (100000 * level) (header_bytes level @ body) 32 its" "spaced_by gap its"
    and "8 \<le> main_workers env dir avail" "main_workers env dir avail * (gap + 200) \<le> 8 * CHUNK_SIZE"
  shows "\<exists>start. main_start rd env dir avail src = Some (Inr (Some (main_workers env dir avail, 100000 * level, start))) \<and>
    (\<forall>p. (program_step True rd budget (main_workers env dir avail) (100000 * level))\<^sup>*\<^sup>* start p \<longrightarrow>
      phase p \<noteq> Aborted \<and> (\<forall>t\<in>set (worker_threads (threads p)). \<not> died t) \<and> collector_at p \<noteq> CollectorPanicked \<and>
      (\<exists>later. out_file (threads p) @ later = items_data its) \<and>
      (\<forall>total_out. phase p = Exited total_out \<longrightarrow> out_file (threads p) = items_data its \<and> total_out = length (items_data its)))"
proof -
  let ?n = "main_workers env dir avail"
  obtain k' src' where start: "main_start rd env dir avail src =
      Some (Inr (Some (?n, 100000 * level, program_start ?n (header_bytes level) src')))" "owes src' k' body"
    by (rule complete_source.main_start_opens [OF assms(1-4)])
  have "phase p \<noteq> Aborted \<and> (\<forall>t\<in>set (worker_threads (threads p)). \<not> died t) \<and> collector_at p \<noteq> CollectorPanicked \<and>
      (\<exists>later. out_file (threads p) @ later = items_data its) \<and>
      (\<forall>total_out. phase p = Exited total_out \<longrightarrow> out_file (threads p) = items_data its \<and> total_out = length (items_data its))"
    if "(program_step True rd budget ?n (100000 * level))\<^sup>*\<^sup>* (program_start ?n (header_bytes level) src') p" for p
    by (rule complete_source.program_output [OF assms(1) that start(2) assms(5,6) length_header_bytes assms(7,8)])
  with start(1) show ?thesis by blast
qed

text \<open>
  C2. The program ends on the runs of the property before, under the same conditions: a source that keeps the contract of \<open>Read\<close>, a
  well-formed file with block starts at most \<open>gap\<close> bits apart, at least 8 workers, as many as
  fit \<open>gap + 200\<close> bits each into a chunk, and an output file that can be written. Then every run has at most a number of steps given by the chunks of the file and
  the workers, and in no state before \<open>main\<close> returns are all threads blocked: with the bounded channels, their closing and the joins as they
  are there is no deadlock on such a file. So every such run that goes on as long as it can ends with the return of \<open>main\<close>. Without these
  conditions the program need not end: a panic of a worker can hang it (\<open>program_hangs\<close>).
\<close>

theorem pipeline_ends:
  assumes "complete_source rd owes" "owes src k (header_bytes level @ body)" "1 \<le> level" "level \<le> 9"
    and "well_formed (100000 * level) (header_bytes level @ body) 32 its" "spaced_by gap its"
    and "8 \<le> main_workers env dir avail" "main_workers env dir avail * (gap + 200) \<le> 8 * CHUNK_SIZE"
  shows "\<exists>start. main_start rd env dir avail src = Some (Inr (Some (main_workers env dir avail, 100000 * level, start))) \<and>
    (\<forall>t p. (program_step True rd budget (main_workers env dir avail) (100000 * level) ^^ t) start p \<longrightarrow>
      t \<le> (length body div CHUNK_SIZE + 1) * (7 * main_workers env dir avail + 7) + 2 * main_workers env dir avail + 9 \<and>
      (running p \<longrightarrow> (\<exists>p'. program_step True rd budget (main_workers env dir avail) (100000 * level) p p')) \<and>
      (\<exists>p' total_out. (program_step True rd budget (main_workers env dir avail) (100000 * level))\<^sup>*\<^sup>* p p' \<and> phase p' = Exited total_out))"
proof -
  let ?n = "main_workers env dir avail"
  obtain k' src' where start: "main_start rd env dir avail src =
      Some (Inr (Some (?n, 100000 * level, program_start ?n (header_bytes level) src')))" "owes src' k' body"
    by (rule complete_source.main_start_opens [OF assms(1-4)])
  have "t \<le> (length body div CHUNK_SIZE + 1) * (7 * ?n + 7) + 2 * ?n + 9 \<and>
      (running p \<longrightarrow> (\<exists>p'. program_step True rd budget ?n (100000 * level) p p')) \<and>
      (\<exists>p' total_out. (program_step True rd budget ?n (100000 * level))\<^sup>*\<^sup>* p p' \<and> phase p' = Exited total_out)"
    if run: "(program_step True rd budget ?n (100000 * level) ^^ t) (program_start ?n (header_bytes level) src') p" for t p
  proof -
    note course = complete_source.program_run [OF assms(1) run start(2) assms(5,6) length_header_bytes assms(7,8)]
    show ?thesis
      using complete_source.on_course_threads(5) [OF assms(1) course start(2) assms(5,6) length_header_bytes assms(7,8)] complete_source.program_progress [OF assms(1) course _ start(2) assms(5,6) length_header_bytes assms(7,8)]
        complete_source.program_exits [OF assms(1) run start(2) assms(5,6) length_header_bytes assms(7,8)] by (blast dest: add_leD1)
  qed
  with start(1) show ?thesis by blast
qed

text \<open>
  C3. Success means a complete output. For any file, any number of workers, any interleaving and any failure of the output file: when
  \<open>main\<close> returns without a panic, no worker has panicked, every segment posted was decoded without a fault, and the output file holds
  the bytes of all segments in the order of the chunks and segments; the number of bytes reported is its length.
\<close>

theorem exit_means_complete:
  assumes "(program_step ok rd budget n m)\<^sup>*\<^sup>* (program_start n header src) p" "0 < n" "phase p = Exited total_out"
  shows "(\<forall>t\<in>set (worker_threads (threads p)). t = Idle) \<and>
    (\<forall>j\<in>set (jobs (threads p)). \<forall>w\<in>set (job_items j). \<exists>r. run_item (job_content j) w = Inr r) \<and>
    out_file (threads p) = concat (map chunk_output (jobs (threads p))) \<and> total_out = length (out_file (threads p))"
proof -
  have "worker_threads (threads p) \<noteq> []" using workers_kept [OF assms(1)] assms(2) by auto
  note final = exited [OF program_inv_run [OF assms(1)] assms(3) this]
  have fin: "main (threads p) = MainDone" "to_send (threads p) = []" "work (threads p) = []" "\<forall>t\<in>set (worker_threads (threads p)). t = Idle"
    "inbox (threads p) = []" "to_perform (threads p) = []" "write_queue (threads p) = []"
    using final(1) by (simp_all add: finished_def)
  have all: "snd (collector (threads p)) = length (jobs (threads p))" by (rule all_written(1) [OF final(2) fin(2-5)])
  have out: "out_file (threads p) = concat (map chunk_output (jobs (threads p)))"
    using final(2) fin(6,7) all by (simp add: pipeline_inv_def output_inv_def)
  have "decoded_ok (jobs (threads p)) (c, i)" if "c < length (jobs (threads p))" "i < length (job_items (jobs (threads p) ! c))" for c i
    using final(3) that all by (cases "collector (threads p)") (auto simp: decoded_inv_def outstanding_def)
  then have "\<exists>r. run_item (job_content j) w = Inr r" if "j \<in> set (jobs (threads p))" "w \<in> set (job_items j)" for j w
    using that by (auto simp: in_set_conv_nth decoded_ok_def)
  with fin(4) out final(4) show ?thesis by blast
qed

text \<open>
  C4. The slots are shared safely. In every state the program can reach, with any file, any number of workers and any interleaving,
  after a panic of the main thread, of a worker or of the writer too, as long as the collector has not panicked: each of the 6 slots is
  in exactly one place; and the slot of every item that is queued or being decoded is owned by the collector's side, out of reach of the
  reader, and still holds the bytes it held when the item was posted, so the raw pointer of a worker is valid and the data under it does
  not change.
\<close>

theorem slots_shared_safely:
  assumes "(program_step ok rd budget n m)\<^sup>*\<^sup>* (program_start n header src) p" "collector_at p \<noteq> CollectorPanicked"
  shows "mset (slots_of (threads p)) = mset [0..<RING_SLOTS] \<and>
    (\<forall>w\<in>set (sent_items (threads p)). item_slot w \<in> set (owned_slots (threads p)) \<and>
       memory (threads p) (item_slot w) = job_content (jobs (threads p) ! item_chunk w) \<and>
       w = job_items (jobs (threads p) ! item_chunk w) ! item_segment w)"
proof -
  have "pipeline_inv (threads p)" using program_inv_run [OF assms(1)] assms(2) by (simp add: program_inv_def)
  from slots_shared [OF this] show ?thesis by blast
qed

subsection \<open>Examples: a file of 740 MB and 16 workers\<close>

lemma example_file:
  "well_formed (100000 * 9) (header_bytes 9 @ drop 4 (long_file 20000000)) 32 (long_items 20000000)"
  "main_workers (Some ''16'') dir avail = 16" "(1 :: nat) \<le> 9" "(9 :: nat) \<le> 9"
  "8 \<le> main_workers (Some ''16'') dir avail" "main_workers (Some ''16'') dir avail * (300 + 200) \<le> 8 * CHUNK_SIZE"
proof -
  show workers: "main_workers (Some ''16'') dir avail = 16" for dir avail
    by (simp add: main_workers_def parse_usize_def)
  show "8 \<le> main_workers (Some ''16'') dir avail" "main_workers (Some ''16'') dir avail * (300 + 200) \<le> 8 * CHUNK_SIZE"
    by (simp_all add: workers CHUNK_SIZE_def)
qed (simp_all add: long_file_split long_well_formed)

lemma example_start:
  "main_start slice_read (Some ''16'') None None (header_bytes 9 @ drop 4 (long_file 20000000)) =
     Some (Inr (Some (16, 900000, program_start 16 (header_bytes 9) (drop 4 (long_file 20000000)))))"
  by (rule slice.main_start_opens [OF refl example_file(3,4), where body = "drop 4 (long_file 20000000)" and env = "Some ''16''" and dir = None and avail = None])
    (simp_all add: example_file(2))

lemma example_exit:
  "\<exists>p total_out. (program_step True slice_read 4 16 900000)\<^sup>*\<^sup>* (program_start 16 (header_bytes 9) (drop 4 (long_file 20000000))) p \<and> phase p = Exited total_out"
proof -
  let ?p = "program_start 16 (header_bytes 9) (drop 4 (long_file 20000000))"
  have "(program_step True slice_read 4 16 900000 ^^ 0) ?p ?p" by simp
  moreover have "well_formed 900000 (header_bytes 9 @ drop 4 (long_file 20000000)) 32 (long_items 20000000)" using example_file(1) by simp
  ultimately show ?thesis by (rule slice.program_exits [OF _ refl _ long_spaced length_header_bytes]) (simp_all add: CHUNK_SIZE_def)
qed

theorem pipeline_decompresses_witness:
  "\<exists>start p. main_start slice_read (Some ''16'') None None (header_bytes 9 @ drop 4 (long_file 20000000)) = Some (Inr (Some (16, 900000, start))) \<and>
     (program_step True slice_read 4 16 900000)\<^sup>*\<^sup>* start p \<and> phase p = Exited 40000002 \<and> out_file (threads p) = concat (replicate 20000001 [98, 97])"
proof -
  have size: "length (concat (replicate k [98, 97 :: u8])) = 2 * k" for k by (induction k) simp_all
  obtain p total_out where p: "(program_step True slice_read 4 16 900000)\<^sup>*\<^sup>* (program_start 16 (header_bytes 9) (drop 4 (long_file 20000000))) p"
      "phase p = Exited total_out"
    using example_exit by blast
  from pipeline_decompresses [OF slice.complete_source_axioms refl example_file(3,4,1) long_spaced example_file(5,6), of None None 4] example_start p
  have "out_file (threads p) = concat (replicate 20000001 [98, 97])" "total_out = length (concat (replicate 20000001 [98, 97 :: u8]))"
    by (auto simp: example_file(2) long_data)
  with example_start p show ?thesis unfolding size by auto
qed

theorem pipeline_ends_witness:
  "\<exists>start. main_start slice_read (Some ''16'') None None (header_bytes 9 @ drop 4 (long_file 20000000)) = Some (Inr (Some (16, 900000, start))) \<and>
     (\<exists>p total_out. (program_step True slice_read 4 16 900000)\<^sup>*\<^sup>* start p \<and> phase p = Exited total_out)"
proof -
  from pipeline_ends [OF slice.complete_source_axioms refl example_file(3,4,1) long_spaced example_file(5,6), of None None 4]
  obtain start where start: "main_start slice_read (Some ''16'') None None (header_bytes 9 @ drop 4 (long_file 20000000)) = Some (Inr (Some (16, 900000, start)))"
    "\<And>t p. (program_step True slice_read 4 16 900000 ^^ t) start p \<Longrightarrow> \<exists>p' total_out. (program_step True slice_read 4 16 900000)\<^sup>*\<^sup>* p p' \<and> phase p' = Exited total_out"
    by (auto simp: example_file(2))
  from start(2) [of 0 start] start(1) show ?thesis by auto
qed

theorem exit_means_complete_witness:
  "\<exists>p total_out. (program_step True slice_read 4 16 900000)\<^sup>*\<^sup>* (program_start 16 (header_bytes 9) (drop 4 (long_file 20000000))) p \<and>
     phase p = Exited total_out \<and> out_file (threads p) = concat (map chunk_output (jobs (threads p)))"
proof -
  obtain p total_out where p: "(program_step True slice_read 4 16 900000)\<^sup>*\<^sup>* (program_start 16 (header_bytes 9) (drop 4 (long_file 20000000))) p"
      "phase p = Exited total_out"
    using example_exit by blast
  with exit_means_complete [OF p(1) _ p(2)] show ?thesis by auto
qed

theorem slots_shared_safely_witness:
  "\<exists>p total_out. (program_step True slice_read 4 16 900000)\<^sup>*\<^sup>* (program_start 16 (header_bytes 9) (drop 4 (long_file 20000000))) p \<and>
     phase p = Exited total_out \<and> mset (slots_of (threads p)) = mset [0..<RING_SLOTS]"
proof -
  obtain p total_out where p: "(program_step True slice_read 4 16 900000)\<^sup>*\<^sup>* (program_start 16 (header_bytes 9) (drop 4 (long_file 20000000))) p"
      "phase p = Exited total_out"
    using example_exit by blast
  then have "collector_at p \<noteq> CollectorPanicked" using program_inv_run [OF p(1)] by (auto simp: program_inv_def control_inv_def)
  from slots_shared_safely [OF p(1) this] p show ?thesis by blast
qed

end
