(* ===== verification/Lbunzip2_Failure.thy ===== *)
theory Lbunzip2_Failure
  imports Lbunzip2_Program
begin

text \<open>
  What a failure of the output file leads to. The collector panics on its next message to the writer, and drops the slots it holds,
  while workers go on reading them through their raw pointers. The example is a run on a file of several chunks whose output file
  could not be created.
\<close>

subsection \<open>The slots of all items are dropped\<close>

lemma item_dropped:
  assumes "pipeline_inv st" "w \<in> set (sent_items st)"
  shows "item_slot w \<in> set (dropped_slots st)"
proof -
  let ?J = "plan_of (jobs st)" and ?c = "item_chunk w"
  have v: "?c < length (jobs st)" "item_slot w = job_slot (jobs st ! ?c)"
    using assms by (auto simp: pipeline_inv_def items_inv_def valid_item_def)
  obtain k where k: "registered (collector st) = {..<k}" "inbox_ok ?J k (inbox st)" "?c < k + announced (inbox st)"
    using assms by (auto simp: pipeline_inv_def order_inv_def announced_to_def)
  have "snd (collector st) \<le> ?c" using item_outstanding(2) [of st w] assms by (simp add: pipeline_inv_def)
  have slot: "flight_slot f = item_slot w" if "tracks ?J f" "flight_chunk f = ?c" for f
    using that v by (simp add: tracks_def)
  show ?thesis
  proof (cases "?c < k")
    case True
    then have "?c \<in> registered (collector st)" using k(1) by simp
    then obtain f where "f \<in> set (fst (collector st))" "flight_chunk f = ?c"
      using \<open>snd (collector st) \<le> ?c\<close> by (auto simp: registered_def split: prod.splits)
    moreover from this have "tracks ?J f" using assms(1) by (auto simp: pipeline_inv_def collector_ok_def collector_inv_def split: prod.splits)
    ultimately show ?thesis using slot by (force simp: dropped_slots_def)
  next
    case False
    then obtain f where "NewSlot f \<in> set (inbox st)" "flight_chunk f = ?c" "tracks ?J f"
      using inbox_announces [OF k(2) _ k(3)] by auto
    with slot show ?thesis by (force simp: dropped_slots_def)
  qed
qed

text \<open>
  C5. When the output file cannot be created or written, the collector panics on the next piece of output, and with its list of
  entries it drops the slots that workers are reading: every item being decoded at that time is left with a pointer to freed memory.
\<close>

theorem failed_writer_frees_slots:
  assumes "(program_step ok rd budget n m)\<^sup>*\<^sup>* (program_start n header src) p" "running p" "\<not> collector_gone p"
    and "writer_at p = WriterPanicked" "to_perform (threads p) = Write data # es"
  shows "\<exists>p'. program_step ok rd budget n m p p' \<and> running p' \<and> collector_at p' = CollectorPanicked \<and>
    worker_threads (threads p') = worker_threads (threads p) \<and>
    (\<forall>w. Decoding w \<in> set (worker_threads (threads p')) \<longrightarrow> item_slot w \<in> set (freed p'))"
proof -
  have "pipeline_inv (threads p)" using program_inv_run [OF assms(1)] assms(3) by (simp add: program_inv_def collector_gone_def)
  moreover have "w \<in> set (sent_items (threads p))" if "Decoding w \<in> set (worker_threads (threads p))" for w
    using that by (force simp: sent_items_def)
  ultimately have "item_slot w \<in> set (dropped_slots (threads p))" if "Decoding w \<in> set (worker_threads (threads p))" for w
    using item_dropped that by blast
  moreover have "running (p\<lparr>collector_at := CollectorPanicked, freed := dropped_slots (threads p)\<rparr>)"
    using assms(2) by (simp add: running_def)
  ultimately show ?thesis using collector_panics [OF assms(2,3,5,4)]
    by (intro exI [of _ "p\<lparr>collector_at := CollectorPanicked, freed := dropped_slots (threads p)\<rparr>"]) simp
qed

subsection \<open>A run in which it happens\<close>

text \<open>Steps of the threads that leave the channel to the writer empty are steps of the program after the writer has panicked.\<close>

definition quiet :: "'s read_fn \<Rightarrow> nat \<Rightarrow> nat \<Rightarrow> nat \<Rightarrow> 's pipeline \<Rightarrow> 's pipeline \<Rightarrow> bool" where
  "quiet rd budget n m st st' \<longleftrightarrow> pipeline_step rd budget n m st st' \<and> write_queue st' = write_queue st \<and> (\<exists>t\<in>set (worker_threads st). \<not> died t)"

definition failed :: "'s pipeline \<Rightarrow> 's program" where
  "failed st = \<lparr>threads = st, phase = InLoop, stopped = {}, collector_at = Serving, writer_at = WriterPanicked, freed = []\<rparr>"

lemma quiet_program:
  assumes "(quiet rd budget n m)\<^sup>*\<^sup>* st st'"
  shows "(program_step False rd budget n m)\<^sup>*\<^sup>* (failed st) (failed st')"
  using assms
proof (induction rule: rtranclp_induct)
  case (step y z)
  have "\<not> workers_gone (failed y)" using step(2) by (auto simp: quiet_def workers_gone_def failed_def in_set_conv_nth)
  then have "connected (failed y) z" using step(2) by (simp add: quiet_def connected_def failed_def collector_gone_def)
  moreover have "running (failed y)" "threads (failed y) = y" by (simp_all add: failed_def running_def)
  ultimately have "program_step False rd budget n m (failed y) ((failed y)\<lparr>threads := z\<rparr>)"
    using step(2) by (intro threads_run) (simp_all add: quiet_def)
  moreover have "(failed y)\<lparr>threads := z\<rparr> = failed z" by (simp add: failed_def)
  ultimately show ?case using step(3) by simp
qed simp

lemma failed_start: "program_step False rd budget n m (program_start n header src) (failed (pipeline_start n header src))"
proof -
  have "program_step False rd budget n m (program_start n header src) ((program_start n header src)\<lparr>writer_at := WriterPanicked\<rparr>)"
    by (rule creation_fails) (simp_all add: program_start_def running_def)
  then show ?thesis by (simp add: program_start_def failed_def)
qed

text \<open>A state of a run on a well-formed file.\<close>

definition good :: "('s \<Rightarrow> nat \<Rightarrow> u8 list \<Rightarrow> bool) \<Rightarrow> nat \<Rightarrow> nat \<Rightarrow> u8 list \<Rightarrow> nat \<Rightarrow> 's pipeline \<Rightarrow> bool" where
  "good owes n m data gap st \<longleftrightarrow> pipeline_inv st \<and> file_inv owes m gap data st \<and> length (worker_threads st) = n \<and>
     8 \<le> n \<and> n * (gap + 200) \<le> 8 * CHUNK_SIZE"

context complete_source
begin

lemma good_quiet: "good owes n m data gap st \<Longrightarrow> pipeline_step rd budget n m st st' \<Longrightarrow> write_queue st' = write_queue st \<Longrightarrow> quiet rd budget n m st st'"
  by (cases "worker_threads st") (auto simp: good_def file_inv_def quiet_def died_def split: worker_thread.splits)

lemma good_step:
  assumes "good owes n m data gap st" "pipeline_step rd budget n m st st'"
  shows "good owes n m data gap st'"
proof -
  have "length (worker_threads st') = length (worker_threads st)" using assms(2) by cases auto
  with assms show ?thesis using pipeline_inv_step file_inv_step unfolding good_def by metis
qed

lemma good_run: "(quiet rd budget n m)\<^sup>*\<^sup>* st st' \<Longrightarrow> good owes n m data gap st \<Longrightarrow> good owes n m data gap st'"
  by (induction rule: rtranclp_induct) (auto simp: quiet_def intro: good_step)

text \<open>The reader fills a slot.\<close>

lemma reader_round:
  assumes "good owes n m data gap st" "reader st = Reading src" "returned st = s # ss" "length (filled st) < RING_SLOTS"
    and "owes src k w" "CHUNK_SIZE \<le> length w"
  obtains content src' k' where "(quiet rd budget n m)\<^sup>*\<^sup>* st
      (st\<lparr>returned := ss, memory := (memory st)(s := content), filled := filled st @ [(s, CHUNK_SIZE, False)], reader := Reading src'\<rparr>)"
    "owes src' k' (drop CHUNK_SIZE w)" "holds_data content (take CHUNK_SIZE w) CHUNK_SIZE"
proof -
  have "s \<in> set (slots_of st)" using assms(3) by (simp add: slots_of_def)
  moreover have "mset (slots_of st) = mset [0..<RING_SLOTS]" using assms(1) by (simp add: good_def pipeline_inv_def slots_inv_def)
  then have "set (slots_of st) = {0..<RING_SLOTS}" by (metis set_mset_mset set_upt)
  ultimately have slot: "length (memory st s) = SLOT_SIZE" using assms(1) by (auto simp: good_def file_inv_def)
  obtain content k' src' where fill: "fill_slot rd (memory st s) src = Some (Inr ((content, CHUNK_SIZE, False), src'))" "owes src' k' (drop CHUNK_SIZE w)"
    "holds_data content (take CHUNK_SIZE w) CHUNK_SIZE"
  proof (rule fill_slot_next [OF assms(5) slot])
    have len: "length (take CHUNK_SIZE w) = CHUNK_SIZE" using assms(6) by simp
    fix content src' and k' :: nat
    assume "fill_slot rd (memory st s) src = Some (Inr ((content, length (take CHUNK_SIZE w), length (take CHUNK_SIZE w) < CHUNK_SIZE), src'))"
      "owes src' k' (drop CHUNK_SIZE w)" "holds_data content (take CHUNK_SIZE w) (length (take CHUNK_SIZE w))"
    with len show thesis by (intro that) simp_all
  qed
  let ?st1 = "st\<lparr>returned := ss, memory := (memory st)(s := content), reader := Filled s CHUNK_SIZE False src'\<rparr>"
  have one: "pipeline_step rd budget n m st ?st1" by (rule reader_fills [OF assms(2,3) fill(1)])
  have two: "pipeline_step rd budget n m ?st1 (?st1\<lparr>filled := filled ?st1 @ [(s, CHUNK_SIZE, False)], reader := if False then ReaderDone else Reading src'\<rparr>)"
    by (rule reader_sends) (simp_all add: assms(4))
  have "quiet rd budget n m st ?st1" by (rule good_quiet [OF assms(1) one]) simp
  moreover have "quiet rd budget n m ?st1 (?st1\<lparr>filled := filled ?st1 @ [(s, CHUNK_SIZE, False)], reader := if False then ReaderDone else Reading src'\<rparr>)"
    by (rule good_quiet [OF good_step [OF assms(1) one] two]) simp
  ultimately show thesis using fill(2,3) by (intro that [of _ content]) (simp_all add: rtranclp.intros converse_rtranclp_into_rtranclp)
qed

text \<open>The main thread sends the slot and its items.\<close>

lemma sends_posts:
  assumes "good owes n m data gap st" "to_send st = map Post ws" "length (work st) + length ws \<le> 2 * n"
  shows "(quiet rd budget n m)\<^sup>*\<^sup>* st (st\<lparr>to_send := [], work := work st @ ws\<rparr>)"
  using assms
proof (induction ws arbitrary: st)
  case Nil
  then have "st\<lparr>to_send := [], work := work st @ []\<rparr> = st" by (cases st) simp
  then show ?case by simp
next
  case (Cons w ws)
  have step: "pipeline_step rd budget n m st (st\<lparr>to_send := map Post ws, work := work st @ [w]\<rparr>)"
    using Cons.prems by (intro main_posts) simp_all
  have "quiet rd budget n m st (st\<lparr>to_send := map Post ws, work := work st @ [w]\<rparr>)" by (rule good_quiet [OF Cons.prems(1) step]) simp
  moreover have "(quiet rd budget n m)\<^sup>*\<^sup>* (st\<lparr>to_send := map Post ws, work := work st @ [w]\<rparr>)
      ((st\<lparr>to_send := map Post ws, work := work st @ [w]\<rparr>)\<lparr>to_send := [], work := work (st\<lparr>to_send := map Post ws, work := work st @ [w]\<rparr>) @ ws\<rparr>)"
    by (rule Cons.IH [OF good_step [OF Cons.prems(1) step]]) (use Cons.prems(3) in simp_all)
  ultimately show ?case by (simp add: converse_rtranclp_into_rtranclp)
qed

lemma sends_turn:
  assumes "good owes n m data gap st" "to_send st = Register f # map Post ws" "length (work st) + length ws \<le> 2 * n" "length (inbox st) < 4 * n"
  shows "(quiet rd budget n m)\<^sup>*\<^sup>* st (st\<lparr>inbox := inbox st @ [NewSlot f], to_send := [], work := work st @ ws\<rparr>)"
proof -
  let ?st1 = "st\<lparr>to_send := map Post ws, inbox := inbox st @ [NewSlot f]\<rparr>"
  have step: "pipeline_step rd budget n m st ?st1" by (rule main_registers [OF assms(2,4)])
  have "quiet rd budget n m st ?st1" by (rule good_quiet [OF assms(1) step]) simp
  moreover have "(quiet rd budget n m)\<^sup>*\<^sup>* ?st1 (?st1\<lparr>to_send := [], work := work ?st1 @ ws\<rparr>)"
    by (rule sends_posts [OF good_step [OF assms(1) step]]) (use assms(3) in simp_all)
  ultimately show ?thesis by (simp add: converse_rtranclp_into_rtranclp)
qed

text \<open>One worker decodes everything that is queued.\<close>

lemma worker_round:
  assumes "good owes n m data gap st" "worker_threads st = Idle # vs" "work st = ws" "length (inbox st) + length ws \<le> 4 * n"
  shows "\<exists>rs. length rs = length ws \<and> (quiet rd budget n m)\<^sup>*\<^sup>* st (st\<lparr>work := [], inbox := inbox st @ map Result rs\<rparr>)"
  using assms
proof (induction ws arbitrary: st)
  case Nil
  then have "st\<lparr>work := [], inbox := inbox st @ map Result []\<rparr> = st" by (cases st) simp
  then show ?case by (intro exI [of _ "[]"]) simp
next
  case (Cons w ws)
  let ?st1 = "st\<lparr>worker_threads := [] @ Decoding w # vs, work := ws\<rparr>"
  have one: "pipeline_step rd budget n m st ?st1" by (rule worker_takes) (use Cons.prems in simp_all)
  have good1: "good owes n m data gap ?st1" by (rule good_step [OF Cons.prems(1) one])
  have w: "w \<in> set (sent_items ?st1)" by (simp add: sent_items_def)
  have inv: "pipeline_inv ?st1" "\<forall>j\<in>set (jobs ?st1). decodes j" using good1 by (simp_all add: good_def file_inv_def)
  have "valid_item (jobs ?st1) w" using inv(1) w unfolding pipeline_inv_def items_inv_def by auto
  then have "\<exists>r. run_item (job_content (jobs ?st1 ! item_chunk w)) w = Inr r" using inv(2) by (metis decodes_def nth_mem valid_item_def)
  then obtain r where r: "run_item (memory ?st1 (item_slot w)) w = Inr r" using item_memory(1) [OF inv(1) w] by auto
  let ?st2 = "?st1\<lparr>worker_threads := [] @ Decoded r # vs\<rparr>"
  have two: "pipeline_step rd budget n m ?st1 ?st2" by (rule worker_decodes [OF _ r]) simp
  let ?st3 = "?st2\<lparr>worker_threads := [] @ Idle # vs, inbox := inbox ?st2 @ [Result r]\<rparr>"
  have three: "pipeline_step rd budget n m ?st2 ?st3" by (rule worker_reports) (use Cons.prems(4) in simp_all)
  have good2: "good owes n m data gap ?st2" by (rule good_step [OF good1 two])
  have good3: "good owes n m data gap ?st3" by (rule good_step [OF good2 three])
  have q: "quiet rd budget n m st ?st1" "quiet rd budget n m ?st1 ?st2" "quiet rd budget n m ?st2 ?st3"
    by (rule good_quiet [OF Cons.prems(1) one], simp, rule good_quiet [OF good1 two], simp, rule good_quiet [OF good2 three], simp)
  obtain rs where rs: "length rs = length ws" "(quiet rd budget n m)\<^sup>*\<^sup>* ?st3 (?st3\<lparr>work := [], inbox := inbox ?st3 @ map Result rs\<rparr>)"
    using Cons.IH [OF good3] Cons.prems(4) by auto
  have "?st3\<lparr>work := [], inbox := inbox ?st3 @ map Result rs\<rparr> = st\<lparr>work := [], inbox := inbox st @ map Result (r # rs)\<rparr>"
    using Cons.prems(2) by simp
  moreover have "(quiet rd budget n m)\<^sup>*\<^sup>* st (?st3\<lparr>work := [], inbox := inbox ?st3 @ map Result rs\<rparr>)"
    by (rule converse_rtranclp_into_rtranclp [OF q(1) converse_rtranclp_into_rtranclp [OF q(2) converse_rtranclp_into_rtranclp [OF q(3) rs(2)]]])
  ultimately show ?case using rs(1) by (intro exI [of _ "r # rs"]) simp
qed

text \<open>
  The collector works until it has something to send. When all results of the next chunk are there or on their way to it, that is at the
  latest with the last message, and the first thing is output if the chunk has any.
\<close>

lemma chunk_complete:
  assumes "pipeline_inv st" "to_send st = []" "inbox st = []" "jobs st \<noteq> []" "snd (collector st) = 0" "\<forall>w\<in>set (sent_items st). item_chunk w \<noteq> 0"
    and "\<forall>r\<in>set (held_results st). result_chunk r \<noteq> 0"
  shows False
proof -
  let ?J = "plan_of (jobs st)"
  obtain fs where col: "collector st = (fs, 0)" using assms(5) by (cases "collector st") simp
  have inv: "collector_inv ?J (fs, 0)" "flushed (fs, 0)" using assms(1) col by (simp_all add: pipeline_inv_def collector_ok_def)
  have "registered (fs, 0) = {..<length (jobs st)}" using assms(1-3) col by (auto simp: pipeline_inv_def order_inv_def announced_to_def)
  then have "0 \<in> registered (fs, 0)" using assms(4) by simp
  then obtain f where f: "f \<in> set fs" "flight_chunk f = 0" by (auto simp: registered_def)
  then have t: "tracks ?J f" using inv(1) by (auto simp: collector_inv_def)
  have "flight_results f ! i \<noteq> None" if i: "i < length (flight_results f)" for i
  proof -
    have "(0, i) \<notin> set (tasks_of st)" using assms(2,3,6,7) by (auto simp: tasks_of_def)
    moreover have "set (tasks_of st) = outstanding ?J (fs, 0)"
      using assms(1) col unfolding pipeline_inv_def tasks_inv_def by (metis finite_outstanding finite_set_mset_mset_set set_mset_mset)
    ultimately have "(0, i) \<notin> outstanding ?J (fs, 0)" by blast
    then obtain g where "g \<in> set fs" "flight_chunk g = 0" "flight_results g ! i \<noteq> None"
      using i t f(2) by (auto simp: outstanding_def tracks_def)
    moreover have "inj_on flight_chunk (set fs)" using inv(1) by (simp add: collector_inv_def distinct_map)
    ultimately show ?thesis using f by (metis inj_onD)
  qed
  then have "results_in (flight_results f) = length (flight_results f)" by (intro none_missing) (auto simp: in_set_conv_nth)
  with inv(2) f t show False by (auto simp: flushed_def tracks_def)
qed

lemma first_effect_writes:
  assumes "turn_ok J (fs, 0) T R ss (fs', c', effects)" "effects \<noteq> []" "concat (snd (J ! 0)) \<noteq> []"
  shows "\<exists>data es. effects = Write data # es"
proof -
  have "effects = concat (map (chunk_effects J) [0..<c'])" using assms(1) by (simp add: turn_ok_def)
  moreover from this have "c' \<noteq> 0" using assms(2) by auto
  ultimately have "effects = segment_writes (map Some (snd (J ! 0))) @ Recycle (fst (J ! 0)) # concat (map (chunk_effects J) [1..<c'])"
    by (simp add: upt_conv_Cons chunk_effects_def)
  moreover have "\<exists>data es. segment_writes (map Some ds) = Write data # es" if "concat ds \<noteq> []" for ds
    using that by (induction ds) (auto simp: segment_writes_def)
  ultimately show ?thesis using assms(3) by fastforce
qed

lemma collector_round:
  assumes "good owes n m data gap st" "to_perform st = []" "snd (collector st) = 0" "to_send st = []" "jobs st \<noteq> []"
    and "\<forall>w\<in>set (sent_items st). item_chunk w \<noteq> 0" "\<forall>r\<in>set (held_results st). result_chunk r \<noteq> 0" "chunk_output (jobs st ! 0) \<noteq> []"
  shows "\<exists>st' d es. (quiet rd budget n m)\<^sup>*\<^sup>* st st' \<and> worker_threads st' = worker_threads st \<and> to_perform st' = Write d # es"
  using assms
proof (induction "inbox st" arbitrary: st)
  case Nil
  then have "pipeline_inv st" "inbox st = []" by (simp_all add: good_def)
  from chunk_complete [OF this(1) Nil.prems(4) this(2) Nil.prems(5,3,6,7)] show ?case ..
next
  case (Cons msg msgs)
  have inv: "pipeline_inv st" using Cons.prems(1) by (simp add: good_def)
  obtain gs where col: "collector st = (gs, 0)" using Cons.prems(3) by (cases "collector st") simp
  obtain T R ss fs c effects where turn: "collector_step (collector st) msg = Inr (fs, c, effects)"
      "turn_ok (plan_of (jobs st)) (collector st) T R ss (fs, c, effects)"
    by (rule collector_turn [OF inv Cons.hyps(2) [symmetric]])
  let ?st = "st\<lparr>inbox := msgs, collector := (fs, c), to_perform := effects\<rparr>"
  have step: "pipeline_step rd budget n m st ?st" by (rule collector_turns [OF Cons.prems(2) Cons.hyps(2) [symmetric] turn(1)])
  have q: "quiet rd budget n m st ?st" by (rule good_quiet [OF Cons.prems(1) step]) simp
  show ?case
  proof (cases "effects = []")
    case True
    have "effects = concat (map (chunk_effects (plan_of (jobs st))) [0..<c])" using turn(2) col by (simp add: turn_ok_def)
    with True have "c = 0" by (cases c) (auto simp: chunk_effects_def upt_conv_Cons simp del: upt_Suc)
    with Cons.hyps(1) [of ?st] good_step [OF Cons.prems(1) step] Cons.prems True obtain st' d es where
      "(quiet rd budget n m)\<^sup>*\<^sup>* ?st st'" "worker_threads st' = worker_threads st" "to_perform st' = Write d # es"
      by (auto simp: sent_items_def held_results_def)
    with q show ?thesis by (meson converse_rtranclp_into_rtranclp)
  next
    case False
    have "concat (snd (plan_of (jobs st) ! 0)) \<noteq> []" using Cons.prems(5,8) by (simp add: chunk_output_def)
    from first_effect_writes [OF turn(2) [unfolded col] False this] q show ?thesis by (intro exI [of _ ?st]) auto
  qed
qed

text \<open>A turn of the main thread that posts items, and the sending of what it posts.\<close>

lemma turn_round:
  assumes "good owes n m data gap st" "main st = Receiving" "to_send st = []" "filled st = (s, got, is_last) # fs"
    and "main_body budget n m (main_vars st) s (memory st s, got, is_last) = Inr (vars, content, acts, False)"
    and "posted acts \<noteq> []" "work st = []" "length (inbox st) < 4 * n"
  obtains st' f j where "(quiet rd budget n m)\<^sup>*\<^sup>* st st'" "filled st' = fs" "main st' = Receiving" "main_vars st' = vars" "to_send st' = []"
    "work st' = posted acts" "inbox st' = inbox st @ [NewSlot f]" "collector st' = collector st" "to_perform st' = to_perform st"
    "jobs st' = jobs st @ [j]" "job_content j = content" "job_items j = posted acts" "worker_threads st' = worker_threads st"
    "\<forall>t. t \<noteq> s \<longrightarrow> memory st' t = memory st t" "length (posted acts) \<le> n" "\<forall>w\<in>set (posted acts). item_chunk w = length (jobs st)"
proof -
  have inv: "pipeline_inv st" and n: "8 \<le> n" using assms(1) by (simp_all add: good_def)
  then have "chunk_id (main_vars st) = length (jobs st)" by (simp add: pipeline_inv_def main_inv_def)
  then obtain f ws where acts: "acts = Register f # map Post ws" "length ws \<le> max 1 n" "\<forall>i<length ws. item_chunk (ws ! i) = length (jobs st)"
    using main_body_sends [OF assms(5)] assms(6) by auto
  let ?j = "\<lparr>job_slot = s, job_content = content, job_items = ws\<rparr>"
  let ?st = "st\<lparr>filled := fs, memory := (memory st)(s := content), main_vars := vars, to_send := acts, main := Receiving, jobs := jobs st @ [?j]\<rparr>"
  have step: "pipeline_step rd budget n m st ?st"
    using main_turns [OF assms(2-5)] acts(1) by (simp add: new_jobs_def)
  have q: "quiet rd budget n m st ?st" by (rule good_quiet [OF assms(1) step]) simp
  have "(quiet rd budget n m)\<^sup>*\<^sup>* ?st (?st\<lparr>inbox := inbox ?st @ [NewSlot f], to_send := [], work := work ?st @ ws\<rparr>)"
    by (rule sends_turn [OF good_step [OF assms(1) step]]) (use acts(1,2) assms(7,8) n in simp_all)
  from converse_rtranclp_into_rtranclp [OF q this] show thesis
    by (rule that) (use acts n assms(7) in \<open>auto simp: in_set_conv_nth\<close>)
qed

end

subsection \<open>The example\<close>

text \<open>The file of 740 MB, after its header, and 16 workers.\<close>

definition example_body :: "u8 list" where "example_body = drop 4 (long_file 20000000)"

definition example_begin :: "u8 list pipeline" where "example_begin = pipeline_start 16 (header_bytes 9) example_body"

abbreviation steady :: "u8 list pipeline \<Rightarrow> bool" where
  "steady \<equiv> good (\<lambda>s k w. s = w) 16 900000 (items_data (long_items 20000000)) 300"

abbreviation calm :: "u8 list pipeline \<Rightarrow> u8 list pipeline \<Rightarrow> bool" where
  "calm \<equiv> (quiet slice_read 4 16 900000)\<^sup>*\<^sup>*"

lemma example_body:
  "well_formed 900000 (header_bytes 9 @ example_body) 32 (long_items 20000000)" "2 * CHUNK_SIZE \<le> length example_body"
  by (simp_all add: example_body_def long_file_split long_well_formed length_long_file CHUNK_SIZE_def)

lemma example_steady: "steady example_begin"
proof -
  have "file_inv (\<lambda>s k w. s = w) 900000 300 (items_data (long_items 20000000)) example_begin"
    unfolding example_begin_def
    by (rule file_inv_start [OF _ example_body(1) long_spaced length_header_bytes]) (rule refl)
  moreover have "length (worker_threads example_begin) = 16" by (simp add: example_begin_def pipeline_start_def)
  ultimately show ?thesis using pipeline_inv_start by (simp add: good_def example_begin_def CHUNK_SIZE_def)
qed

lemma example_read:
  obtains st where "calm example_begin st" "filled st = [(0, CHUNK_SIZE, False), (1, CHUNK_SIZE, False)]" "main st = Receiving"
    "main_vars st = \<lparr>carry = header_bytes 9, chunk_id = 0\<rparr>" "to_send st = []" "work st = []" "inbox st = []" "collector st = ([], 0)"
    "to_perform st = []" "jobs st = []" "worker_threads st = Idle # replicate 15 Idle" "holds_data (memory st 0) (take CHUNK_SIZE example_body) CHUNK_SIZE"
proof -
  have slots: "returned example_begin = 0 # 1 # [2..<6]" by (simp add: example_begin_def pipeline_start_def RING_SLOTS_def upt_conv_Cons)
  have begin1: "reader example_begin = Reading example_body" "length (filled example_begin) < RING_SLOTS"
    by (simp_all add: example_begin_def pipeline_start_def RING_SLOTS_def)
  have full: "CHUNK_SIZE \<le> length example_body" using example_body(2) by simp
  obtain content src' k' where one: "calm example_begin
      (example_begin\<lparr>returned := 1 # [2..<6], memory := (memory example_begin)(0 := content), filled := filled example_begin @ [(0, CHUNK_SIZE, False)], reader := Reading src'\<rparr>)"
    "src' = drop CHUNK_SIZE example_body" "holds_data content (take CHUNK_SIZE example_body) CHUNK_SIZE"
    by (rule slice.reader_round [OF example_steady begin1(1) slots begin1(2) refl full])
  let ?st = "example_begin\<lparr>returned := 1 # [2..<6], memory := (memory example_begin)(0 := content), filled := filled example_begin @ [(0, CHUNK_SIZE, False)], reader := Reading src'\<rparr>"
  have good1: "steady ?st" by (rule slice.good_run [OF one(1) example_steady])
  have begin2: "reader ?st = Reading src'" "returned ?st = 1 # [2..<6]" "length (filled ?st) < RING_SLOTS" "CHUNK_SIZE \<le> length src'"
    using one(2) example_body(2) by (simp_all add: example_begin_def pipeline_start_def RING_SLOTS_def)
  obtain content' src'' k'' where two: "calm ?st
      (?st\<lparr>returned := [2..<6], memory := (memory ?st)(1 := content'), filled := filled ?st @ [(1, CHUNK_SIZE, False)], reader := Reading src''\<rparr>)"
    by (rule slice.reader_round [OF good1 begin2(1-3) refl begin2(4)])
  have workers: "worker_threads example_begin = Idle # replicate 15 Idle"
    by (simp add: example_begin_def pipeline_start_def numeral_eq_Suc)
  from rtranclp_trans [OF one(1) two] show thesis
    by (rule that) (use one(3) workers in \<open>simp_all add: example_begin_def pipeline_start_def\<close>)
qed

lemma well_formed_length:
  assumes "well_formed m data p its"
  shows "p + length (items_bits p its) \<le> 8 * length data" "8 * length data < p + length (items_bits p its) + 112"
proof -
  obtain w where w: "p \<le> 8 * length data" "drop p (stream_bits data) = items_bits p its @ magic_bits FINAL_MAGIC @ w" "length w < 64"
    using assms by (auto simp: well_formed_def file_end_def)
  from arg_cong [OF w(2), of length] have "8 * length data - p = length (items_bits p its) + 48 + length w" by (simp add: magic_bits_def)
  with w(1,3) show "p + length (items_bits p its) \<le> 8 * length data" "8 * length data < p + length (items_bits p its) + 112" by linarith+
qed

text \<open>The first chunk has output: what is carried over is shorter than the file, so items were posted.\<close>

lemma example_first_output:
  assumes "long_items 20000000 = A @ its'" "length carry' \<le> (4 + CHUNK_SIZE) div 16 + 1"
    and "well_formed 900000 (carry' @ drop CHUNK_SIZE example_body) ((32 + length (items_bits 32 A)) mod 8) its'"
  shows "items_data A \<noteq> []"
proof -
  have "A \<noteq> []"
  proof
    assume "A = []"
    with assms(1,3) have wf: "well_formed 900000 (carry' @ drop CHUNK_SIZE example_body) 0 (long_items 20000000)" by simp
    have "items_bits 0 (long_items 20000000) = items_bits 32 (long_items 20000000)" using items_bits_shift [of 4 0 "long_items 20000000"] by simp
    with well_formed_length(1) [OF wf] well_formed_length(2) [OF example_body(1)]
    have "8 * (4 + length example_body) < 8 * (length carry' + (length example_body - CHUNK_SIZE)) + 144" by (simp add: header_bytes_def)
    with assms(2) example_body(2) show False by (simp add: CHUNK_SIZE_def)
  qed
  moreover obtain its where "long_items 20000000 = Coded sample_block # its" using long_items_start by blast
  ultimately obtain A' where "A = Coded sample_block # A'" using assms(1) by (cases A) auto
  then show ?thesis by (simp add: sample_block_def block_data_def)
qed

lemma example_first_turn:
  obtains st where "calm example_begin st" "steady st" "filled st = [(1, CHUNK_SIZE, False)]" "main st = Receiving" "to_send st = []" "work st = []"
    "length (inbox st) \<le> 17" "collector st = ([], 0)" "to_perform st = []" "length (jobs st) = 1" "chunk_output (jobs st ! 0) \<noteq> []"
    "worker_threads st = Idle # replicate 15 Idle"
proof -
  obtain st where st: "calm example_begin st" "filled st = [(0, CHUNK_SIZE, False), (1, CHUNK_SIZE, False)]" "main st = Receiving"
    "main_vars st = \<lparr>carry = header_bytes 9, chunk_id = 0\<rparr>" "to_send st = []" "work st = []" "inbox st = []" "collector st = ([], 0)"
    "to_perform st = []" "jobs st = []" "worker_threads st = Idle # replicate 15 Idle" "holds_data (memory st 0) (take CHUNK_SIZE example_body) CHUNK_SIZE"
    by (rule example_read)
  let ?vars = "\<lparr>carry = header_bytes 9, chunk_id = 0\<rparr>"
  have wf: "well_formed 900000 (carry ?vars @ example_body) 32 (long_items 20000000)" using example_body(1) by simp
  have room: "length (carry ?vars) \<le> CARRY_HEADROOM" "(2 :: nat) \<le> 16" "(16 :: nat) * (300 + 200) \<le> 8 * CHUNK_SIZE"
    by (simp_all add: header_bytes_def CARRY_HEADROOM_def CHUNK_SIZE_def)
  obtain vars content acts A its' p' where turn: "main_body 4 16 900000 ?vars 0 (memory st 0, CHUNK_SIZE, False) = Inr (vars, content, acts, False)"
    "slot_output (content, acts) = Inr (items_data A)" "long_items 20000000 = A @ its'" "length (carry vars) \<le> (length (carry ?vars) + CHUNK_SIZE) div 16 + 1"
    "well_formed 900000 (carry vars @ drop CHUNK_SIZE example_body) p' its'" "p' = (32 + length (items_bits 32 A)) mod 8" "posted acts \<noteq> []"
    by (rule full_turn [OF st(12) wf long_spaced order_refl room])
  have data: "items_data A \<noteq> []"
    by (rule example_first_output [OF turn(3)]) (use turn(4-6) length_header_bytes [of 9] in simp_all)
  have good: "steady st" by (rule slice.good_run [OF st(1) example_steady])
  have body: "main_body 4 16 900000 (main_vars st) 0 (memory st 0, CHUNK_SIZE, False) = Inr (vars, content, acts, False)" using turn(1) st(4) by simp
  obtain st1 f j where st1: "calm st st1" "filled st1 = [(1, CHUNK_SIZE, False)]" "main st1 = Receiving" "to_send st1 = []" "work st1 = posted acts"
    "inbox st1 = inbox st @ [NewSlot f]" "collector st1 = collector st" "to_perform st1 = to_perform st" "jobs st1 = jobs st @ [j]"
    "job_content j = content" "job_items j = posted acts" "worker_threads st1 = worker_threads st" "length (posted acts) \<le> 16"
    by (rule slice.turn_round [OF good st(3,5,2) body turn(7) st(6)]) (simp_all add: st(7))
  have good1: "steady st1" by (rule slice.good_run [OF st1(1) good])
  have workers: "worker_threads st1 = Idle # replicate 15 Idle" using st1(12) st(11) by simp
  have "length (inbox st1) + length (posted acts) \<le> 4 * 16" using st1(6,13) st(7) by simp
  from slice.worker_round [OF good1 workers st1(5) this] obtain rs where
    rs: "length rs = length (posted acts)" "calm st1 (st1\<lparr>work := [], inbox := inbox st1 @ map Result rs\<rparr>)" by blast
  have "chunk_output j = items_data A" using slot_output_job(2) [OF turn(2) st1(10,11)] .
  show thesis
  proof (rule that)
    show "calm example_begin (st1\<lparr>work := [], inbox := inbox st1 @ map Result rs\<rparr>)"
      using rtranclp_trans [OF rtranclp_trans [OF st(1) st1(1)] rs(2)] .
    show "steady (st1\<lparr>work := [], inbox := inbox st1 @ map Result rs\<rparr>)" by (rule slice.good_run [OF rs(2) good1])
  qed (use st1 st rs(1) data \<open>chunk_output j = items_data A\<close> in simp_all)
qed

lemma example_worker_busy:
  obtains st w d es where "calm example_begin st" "Decoding w \<in> set (worker_threads st)" "to_perform st = Write d # es"
proof -
  obtain st where st: "calm example_begin st" "steady st" "filled st = [(1, CHUNK_SIZE, False)]" "main st = Receiving" "to_send st = []" "work st = []"
    "length (inbox st) \<le> 17" "collector st = ([], 0)" "to_perform st = []" "length (jobs st) = 1" "chunk_output (jobs st ! 0) \<noteq> []"
    "worker_threads st = Idle # replicate 15 Idle"
    by (rule example_first_turn)
  have n: "(8 :: nat) \<le> 16" "(2 :: nat) \<le> 16" "(16 :: nat) * (300 + 200) \<le> 8 * CHUNK_SIZE" by (simp_all add: CHUNK_SIZE_def)
  obtain rest where left: "file_left (\<lambda>s k w. s = w) 900000 300 st rest" using st(2) by (auto simp: good_def file_inv_def)
  then obtain body p its where f: "upcoming (\<lambda>s k w. s = w) (memory st) body (filled st) (reader st)" "well_formed 900000 (carry (main_vars st) @ body) p its"
    "spaced_by 300 its" "p \<le> 32" "length (carry (main_vars st)) \<le> CARRY_HEADROOM"
    using st(4) by (auto simp: file_left_def)
  then have holds: "holds_data (memory st 1) (take CHUNK_SIZE body) CHUNK_SIZE" using st(3) by simp
  obtain vars content acts where turn: "main_body 4 16 900000 (main_vars st) 1 (memory st 1, CHUNK_SIZE, False) = Inr (vars, content, acts, False)" "posted acts \<noteq> []"
    by (rule full_turn [OF holds f(2-5) n(2,3)])
  obtain st1 f j where st1: "calm st st1" "to_send st1 = []" "work st1 = posted acts" "collector st1 = collector st" "to_perform st1 = to_perform st"
    "jobs st1 = jobs st @ [j]" "worker_threads st1 = worker_threads st" "\<forall>w\<in>set (posted acts). item_chunk w = length (jobs st)"
    by (rule slice.turn_round [OF st(2,4,5,3) turn st(6)]) (use st(7) in simp_all)
  have good1: "steady st1" by (rule slice.good_run [OF st1(1) st(2)])
  obtain w ws where ws: "posted acts = w # ws" using turn(2) by (cases "posted acts") simp_all
  let ?st = "st1\<lparr>worker_threads := [] @ Decoding w # replicate 15 Idle, work := ws\<rparr>"
  have step: "pipeline_step slice_read 4 16 900000 st1 ?st" by (rule worker_takes) (use st1(3,7) st(12) ws in simp_all)
  have q: "quiet slice_read 4 16 900000 st1 ?st" by (rule slice.good_quiet [OF good1 step]) simp
  have good2: "steady ?st" by (rule slice.good_step [OF good1 step])
  have idle: "concat (map worker_items (replicate 15 Idle)) = []" "concat (map worker_results (replicate 15 Idle)) = []" by (simp_all add: numeral_eq_Suc)
  have "\<forall>w\<in>set (sent_items ?st). item_chunk w \<noteq> 0" "held_results ?st = []"
    using st1(8) st(10) ws idle by (auto simp: sent_items_def held_results_def)
  moreover have "chunk_output (jobs ?st ! 0) \<noteq> []" "jobs ?st \<noteq> []" using st1(6) st(10,11) by (simp_all add: nth_append)
  ultimately obtain st' d es where "calm ?st st'" "worker_threads st' = worker_threads ?st" "to_perform st' = Write d # es"
    using slice.collector_round [OF good2, of 4] st1(2,4,5) st(8,9) by auto
  moreover have "calm example_begin ?st" using rtranclp_trans [OF st(1) st1(1)] q by (rule rtranclp.rtrancl_into_rtrancl)
  ultimately show thesis by (intro that [of st' w d es]) (auto intro: rtranclp_trans)
qed

theorem failed_writer_frees_slots_witness:
  "\<exists>p w. (program_step False slice_read 4 16 900000)\<^sup>*\<^sup>* (program_start 16 (header_bytes 9) (drop 4 (long_file 20000000))) p \<and> running p \<and>
     Decoding w \<in> set (worker_threads (threads p)) \<and> item_slot w \<in> set (freed p)"
proof -
  obtain st w d es where st: "calm example_begin st" "Decoding w \<in> set (worker_threads st)" "to_perform st = Write d # es"
    by (rule example_worker_busy)
  have run: "(program_step False slice_read 4 16 900000)\<^sup>*\<^sup>* (program_start 16 (header_bytes 9) (drop 4 (long_file 20000000))) (failed st)"
    using converse_rtranclp_into_rtranclp [OF failed_start quiet_program [OF st(1) [unfolded example_begin_def example_body_def]]] .
  have "running (failed st)" "\<not> collector_gone (failed st)" "writer_at (failed st) = WriterPanicked" "to_perform (threads (failed st)) = Write d # es"
    using st(3) by (simp_all add: failed_def running_def collector_gone_def)
  from failed_writer_frees_slots [OF run this] obtain p where p: "program_step False slice_read 4 16 900000 (failed st) p" "running p"
    "worker_threads (threads p) = worker_threads (threads (failed st))"
    "\<forall>w. Decoding w \<in> set (worker_threads (threads p)) \<longrightarrow> item_slot w \<in> set (freed p)"
    by blast
  have "Decoding w \<in> set (worker_threads (threads p))"
    using st(2) p(3) by (simp add: failed_def)
  with p rtranclp.rtrancl_into_rtrancl [OF run p(1)] show ?thesis
    by blast
qed

end
