(* ===== verification/Lbunzip2_Panic.thy ===== *)
theory Lbunzip2_Panic
  imports Lbunzip2_Program
begin

text \<open>
  What a panic of a worker leads to. The chunk of its item is never complete, so the collector writes and recycles nothing from this
  chunk on: the output stops, at most \<open>RING_SLOTS\<close> further chunks can be posted, and \<open>main\<close> does not return. When all slots wait
  behind the chunk, \<open>main\<close> never leaves its loop. The example is a file with one block whose first table is over-subscribed.
\<close>

subsection \<open>Every chunk that is not written holds a slot\<close>

lemma announced_slots: "announced msgs = length (concat (map message_slots msgs))"
  by (induction msgs rule: announced.induct) simp_all

lemma announce_slots: "to_announce acts \<le> length (concat (map action_slots acts))"
  by (induction acts rule: to_announce.induct) simp_all

lemma live_chunks:
  assumes "pipeline_inv st"
  shows "length (jobs st) \<le> snd (collector st) + length (owned_slots st)"
proof -
  obtain fs c where col: "collector st = (fs, c)" by (cases "collector st")
  obtain k where k: "registered (fs, c) = {..<k}" "k + announced (inbox st) + to_announce (to_send st) = length (jobs st)"
    using assms col by (auto simp: pipeline_inv_def order_inv_def announced_to_def)
  have "{..<k} \<subseteq> {..<c} \<union> flight_chunk ` set fs" using k(1) by (simp add: registered_def)
  then have "card {..<k} \<le> card ({..<c} \<union> flight_chunk ` set fs)" by (intro card_mono) simp_all
  also have "\<dots> \<le> c + card (flight_chunk ` set fs)" using card_Un_le [of "{..<c}" "flight_chunk ` set fs"] by simp
  also have "card (flight_chunk ` set fs) \<le> length fs" using card_image_le [of "set fs" flight_chunk] card_length [of fs] by simp
  finally have "k \<le> c + length fs" by simp
  with k(2) col announce_slots [of "to_send st"] show ?thesis by (simp add: owned_slots_def announced_slots)
qed

lemma slots_count: "pipeline_inv st \<Longrightarrow> length (slots_of st) = RING_SLOTS"
  unfolding pipeline_inv_def slots_inv_def by (metis diff_zero length_upt size_mset)

subsection \<open>The chunk of a dead worker\<close>

lemma dead_chunk:
  assumes "pipeline_inv st" "Died w \<in> set (worker_threads st)"
  shows "snd (collector st) \<le> item_chunk w" "item_chunk w < length (jobs st)" "length (jobs st) \<le> item_chunk w + length (owned_slots st)"
    "\<exists>rest. concat (map chunk_output (take (item_chunk w) (jobs st))) = out_file st @ rest"
proof -
  have w: "w \<in> set (sent_items st)" using assms(2) by (force simp: sent_items_def)
  then show first: "snd (collector st) \<le> item_chunk w" using item_outstanding(2) [of st w] assms(1) by (simp add: pipeline_inv_def)
  show "item_chunk w < length (jobs st)" using w assms(1) by (auto simp: pipeline_inv_def items_inv_def valid_item_def)
  show "length (jobs st) \<le> item_chunk w + length (owned_slots st)" using live_chunks [OF assms(1)] first by simp
  have "take (item_chunk w) (jobs st) = take (snd (collector st)) (jobs st) @ take (item_chunk w - snd (collector st)) (drop (snd (collector st)) (jobs st))"
    using take_add [of "snd (collector st)" "item_chunk w - snd (collector st)" "jobs st"] first by simp
  moreover have "concat (map chunk_output (take (snd (collector st)) (jobs st))) = out_file st @ concat (write_queue st) @ concat (map effect_data (to_perform st))"
    using assms(1) by (simp add: pipeline_inv_def output_inv_def)
  ultimately show "\<exists>rest. concat (map chunk_output (take (item_chunk w) (jobs st))) = out_file st @ rest" by simp
qed

lemma dead_stays:
  assumes "program_step ok rd budget n m p p'" "Died w \<in> set (worker_threads (threads p))"
  shows "Died w \<in> set (worker_threads (threads p'))"
  using assms(1)
proof cases
  case (threads_run st')
  from threads_run(3) show ?thesis by cases (use assms(2) threads_run(1) in auto)
qed (use assms(2) in auto)

lemma dead_stays_run:
  "(program_step ok rd budget n m)\<^sup>*\<^sup>* p p' \<Longrightarrow> Died w \<in> set (worker_threads (threads p)) \<Longrightarrow> Died w \<in> set (worker_threads (threads p'))"
  by (induction rule: rtranclp_induct) (auto intro: dead_stays)

text \<open>
  C6. A panic of a worker stops the output. Once a worker has panicked on an item of a chunk, then in every later state of any run
  \<open>main\<close> has not returned, and as long as the collector has not panicked, nothing of the chunk or of a later one is written, and
  fewer than \<open>RING_SLOTS\<close> chunks have been posted after it.
\<close>

theorem dead_worker_stalls:
  assumes "(program_step ok rd budget n m)\<^sup>*\<^sup>* (program_start n header src) p" "Died w \<in> set (worker_threads (threads p))"
    and "(program_step ok rd budget n m)\<^sup>*\<^sup>* p p'" "collector_at p' \<noteq> CollectorPanicked"
  shows "(\<forall>total_out. phase p' \<noteq> Exited total_out) \<and> item_chunk w < length (jobs (threads p')) \<and>
    length (jobs (threads p')) \<le> item_chunk w + RING_SLOTS \<and>
    (\<exists>rest. concat (map chunk_output (take (item_chunk w) (jobs (threads p')))) = out_file (threads p') @ rest)"
proof -
  have run: "(program_step ok rd budget n m)\<^sup>*\<^sup>* (program_start n header src) p'" using assms(1,3) by (rule rtranclp_trans)
  have dead: "Died w \<in> set (worker_threads (threads p'))" by (rule dead_stays_run [OF assms(3,2)])
  have inv: "pipeline_inv (threads p')" using program_inv_run [OF run] assms(4) by (simp add: program_inv_def)
  have "length (owned_slots (threads p')) \<le> RING_SLOTS" using slots_count [OF inv] by (simp add: slots_of_def)
  moreover have "phase p' \<noteq> Exited total_out" for total_out
  proof
    assume "phase p' = Exited total_out"
    moreover have "worker_threads (threads p') \<noteq> []" using dead by auto
    ultimately have "finished (threads p')" by (rule exited(1) [OF program_inv_run [OF run]])
    with dead show False by (auto simp: finished_def)
  qed
  ultimately show ?thesis using dead_chunk [OF inv dead] by auto
qed

subsection \<open>When no slot is left\<close>

text \<open>With all slots behind the chunk of a dead worker, the reader waits for a slot, and the loop of \<open>main\<close> for the reader.\<close>

definition starved :: "work_item \<Rightarrow> 's program \<Rightarrow> bool" where
  "starved w p \<longleftrightarrow> program_inv p \<and> phase p = InLoop \<and> Died w \<in> set (worker_threads (threads p)) \<and>
     length (jobs (threads p)) = item_chunk w + RING_SLOTS \<and> main (threads p) = Receiving \<and> to_send (threads p) = [] \<and>
     returned (threads p) = [] \<and> filled (threads p) = [] \<and> (\<exists>src. reader (threads p) = Reading src) \<and>
     concat (map effect_slots (to_perform (threads p))) = []"

lemma all_owned:
  assumes "pipeline_inv st" "Died w \<in> set (worker_threads st)" "length (jobs st) = item_chunk w + RING_SLOTS"
  shows "returned st = []" "filled st = []" "reader_slots (reader st) = []" "concat (map effect_slots (to_perform st)) = []"
proof -
  have "RING_SLOTS \<le> length (owned_slots st)" using dead_chunk(3) [OF assms(1,2)] assms(3) by simp
  then have "length (slots_of st) \<le> length (owned_slots st)" using slots_count [OF assms(1)] by simp
  then show "returned st = []" "filled st = []" "reader_slots (reader st) = []" "concat (map effect_slots (to_perform st)) = []"
    by (simp_all add: slots_of_def del: concat_eq_Nil_conv)
qed

lemma starved_start:
  assumes "program_inv p" "phase p = InLoop" "collector_at p \<noteq> CollectorPanicked" "Died w \<in> set (worker_threads (threads p))"
    "length (jobs (threads p)) = item_chunk w + RING_SLOTS" "main (threads p) = Receiving" "to_send (threads p) = []"
  shows "starved w p"
proof -
  have "pipeline_inv (threads p)" using assms(1,3) by (simp add: program_inv_def)
  note own = all_owned [OF this assms(4,5)]
  have "in_order [] (reader (threads p))" using assms(1,6) own(2) by (simp add: program_inv_def reader_inv_def)
  then have "\<exists>src. reader (threads p) = Reading src" using own(3) by (cases "reader (threads p)") simp_all
  with assms own show ?thesis unfolding starved_def by blast
qed

lemma starved_step:
  assumes "starved w p" "program_step ok rd budget n m p p'"
  shows "starved w p'"
proof -
  have inv: "program_inv p'" using assms by (auto simp: starved_def intro: program_inv_step)
  have dead: "Died w \<in> set (worker_threads (threads p'))" using assms dead_stays by (auto simp: starved_def)
  from assms(2) show ?thesis
  proof cases
    case (threads_run st')
    have kept: "main st' = Receiving \<and> to_send st' = [] \<and> jobs st' = jobs (threads p)"
      using threads_run(3) by cases (use assms(1) in \<open>auto simp: starved_def\<close>)
    show ?thesis
    proof (cases "collector_gone p")
      case False
      have "phase p' = InLoop" "collector_at p' \<noteq> CollectorPanicked" using False threads_run(1) assms(1) by (auto simp: starved_def collector_gone_def)
      then show ?thesis by (rule starved_start [OF inv _ _ dead]) (use kept threads_run(1) assms(1) in \<open>auto simp: starved_def\<close>)
    next
      case True
      then have "to_perform st' = to_perform (threads p)" using threads_run(4) by (auto simp: connected_def)
      moreover from threads_run(3) have "returned st' = [] \<and> filled st' = [] \<and> (\<exists>src. reader st' = Reading src)"
        by cases (use assms(1) calculation in \<open>auto simp: starved_def\<close>)
      ultimately show ?thesis using inv dead kept threads_run(1) assms(1) by (simp add: starved_def)
    qed
  qed (use inv dead assms(1) in \<open>auto simp: starved_def\<close>)
qed

text \<open>The program hangs: in every later state \<open>main\<close> is still in its loop.\<close>

lemma program_hangs:
  assumes "(program_step ok rd budget n m)\<^sup>*\<^sup>* (program_start n header src) p" "phase p = InLoop" "collector_at p \<noteq> CollectorPanicked"
    and "Died w \<in> set (worker_threads (threads p))" "length (jobs (threads p)) = item_chunk w + RING_SLOTS"
    and "main (threads p) = Receiving" "to_send (threads p) = []" "(program_step ok rd budget n m)\<^sup>*\<^sup>* p p'"
  shows "phase p' = InLoop"
proof -
  have "starved w p" by (rule starved_start [OF program_inv_run [OF assms(1)] assms(2-7)])
  with assms(8) have "starved w p'" by (induction rule: rtranclp_induct) (auto intro: starved_step)
  then show ?thesis by (simp add: starved_def)
qed

subsection \<open>The example: a file with an over-subscribed table\<close>

text \<open>One block with two used bytes, two tables and one selector; the four symbols of the first table have length 1.\<close>

definition bad_block :: "u8 list" where
  "bad_block = [49, 65, 89, 38, 83, 89, 0, 0, 0, 0, 0, 0, 0, 1, 0, 48, 0, 32, 0, 32, 128, 64]"

text \<open>What the block decoder reads before the first table is made of the lengths.\<close>

definition read_first_lengths :: "(nat \<times> u8 list) reading" where
  "read_first_lengths =
     bindR read_header (\<lambda>p. bindR read_used_bytes (\<lambda>used. bindR read_n_groups (\<lambda>g. bindR read_n_selectors (\<lambda>n.
     bindR (read_selectors n g mtf_new) (\<lambda>ss. bindR (require ''huffman start length truncated'' (read_u8 5)) (\<lambda>start.
     bindR (read_lengths (length used + 2) (uint start)) (\<lambda>lengths. returnR (g, lengths))))))))"

lemma bad_lengths:
  "case from_bit_offset (header_bytes 9 @ bad_block) 80 of Inl e \<Rightarrow> False
   | Inr r \<Rightarrow> (case read_first_lengths r of Inl e \<Rightarrow> False | Inr ((g, lengths), r') \<Rightarrow> g = 2 \<and> lengths = replicate 4 1)"
  by code_simp

lemma tables_fail:
  assumes "read_first_lengths r = Inr ((Suc g, lengths), r')" "from_lengths lengths = Inl (Panic msg)"
  shows "decode_block_common slot m r = Inl (Panic msg)"
proof -
  obtain p used n ss start r1 r2 r3 r4 r5 r6 where rs: "read_header r = Inr (p, r1)" "read_used_bytes r1 = Inr (used, r2)"
    "read_n_groups r2 = Inr (Suc g, r3)" "read_n_selectors r3 = Inr (n, r4)" "read_selectors n (Suc g) mtf_new r4 = Inr (ss, r5)"
    "require ''huffman start length truncated'' (read_u8 5) r5 = Inr (start, r6)" "read_lengths (length used + 2) (uint start) r6 = Inr (lengths, r')"
    using assms(1) unfolding read_first_lengths_def bindR_Inr_iff by (auto simp: reading_simps)
  have "read_tree k r5 = Inl (Panic msg)" if "read_lengths k (uint start) r6 = Inr (lengths, r')" for k
    using that by (simp add: read_tree_def bindR_def rs(6) reading_simps assms(2) map_block_error_def)
  from this [OF rs(7)] have "repeatR (Suc g) (read_tree (length used + 2)) r5 = Inl (Panic msg)"
    by (simp add: repeatR.simps bindR_def)
  then have "read_tables r1 = Inl (Panic msg)"
    by (simp add: read_tables_def bindR_def rs(2-5))
  with rs(1) show ?thesis by (simp add: decode_block_common_def bindR_def)
qed

lemma bad_segment: "\<exists>e. decode_segment (header_bytes 9 @ bad_block) 32 stop m = Inl e"
proof -
  obtain r r' where r: "from_bit_offset (header_bytes 9 @ bad_block) 80 = Inr r" "read_first_lengths r = Inr ((Suc 1, replicate 4 1), r')"
    using bad_lengths by (auto split: sum.splits simp: numeral_2_eq_2)
  have "from_lengths (replicate 4 1) = Inl (Panic ''index out of bounds'')" by (rule ones_overflow) simp_all
  from tables_fail [OF r(2) this] r(1) show ?thesis
    by (simp add: decode_segment_def decode_block_into_vec_def decode_block_into_def decode_block_into_slot_def bindR_def)
qed

lemma bad_split:
  "split_chunk 4 (header_bytes 9 @ bad_block) 1 900000 True =
     Inr (Some \<lparr>segment_starts = [\<lparr>bit_offset = 32\<rparr>], decode_segments = 1, consumed = length (header_bytes 9 @ bad_block)\<rparr>)"
proof -
  have "map_option bit_offset (find_next_block (header_bytes 9 @ bad_block) 0) = Some 32" by code_simp
  then have "find_next_block (header_bytes 9 @ bad_block) 0 = Some \<lparr>bit_offset = 32\<rparr>" by auto
  then show ?thesis by (simp add: split_chunk_def split_boundaries_parallel_def)
qed

lemma bad_turn:
  assumes "holds_data content bad_block (length bad_block)"
  obtains f w content1 e where
    "main_body 4 1 900000 \<lparr>carry = header_bytes 9, chunk_id = 0\<rparr> 0 (content, length bad_block, True) =
       Inr (\<lparr>carry = [], chunk_id = 1\<rparr>, content1, [Register f, Post w], True)"
    "run_item content1 w = Inl e" "item_slot w = 0" "item_chunk w = 0"
proof -
  let ?data = "header_bytes 9 @ bad_block" and ?vars = "\<lparr>carry = header_bytes 9, chunk_id = 0\<rparr>"
  let ?cs = "\<lparr>segment_starts = [\<lparr>bit_offset = 32\<rparr>], decode_segments = 1, consumed = length ?data\<rparr>"
  let ?w = "\<lparr>item_chunk = 0, item_segment = 0, item_slot = 0, item_start = CARRY_HEADROOM - length (header_bytes 9), item_len = length ?data,
    start_bit = 32, end_bit = segment_end ?data ?cs 0, item_blocksize = 900000\<rparr>"
  have head: "length (carry ?vars) \<le> CARRY_HEADROOM" "\<not> (length bad_block = 0 \<and> length (carry ?vars) \<le> 4)"
    by (simp_all add: bad_block_def length_header_bytes CARRY_HEADROOM_def)
  have split: "split_chunk 4 (carry ?vars @ bad_block) 1 900000 True = Inr (Some ?cs)" "consumed ?cs \<le> length (carry ?vars @ bad_block)"
    by (simp_all only: bad_split main_state.simps chunk_split.simps order_refl)
  obtain f content1 where one: "main_body 4 1 900000 ?vars 0 (content, length bad_block, True) =
      Inr (\<lparr>carry = [], chunk_id = 1\<rparr>, content1, [Register f, Post ?w], True)"
    "take (length ?data) (drop (CARRY_HEADROOM - length (header_bytes 9)) content1) = ?data"
    by (rule main_body_split [OF assms head split, of 0]) (simp add: work_items_def)
  obtain e where "decode_segment ?data 32 (segment_end ?data ?cs 0) 900000 = Inl e" using bad_segment by blast
  then have run: "run_item content1 ?w = Inl e" using one(2) by (simp add: run_item_def)
  show thesis by (rule that [OF one(1) run]) (simp_all only: work_item.simps)
qed

text \<open>Steps of the threads while the program is as it was started.\<close>

lemma early_step:
  assumes "pipeline_step rd budget n m st st'" "write_queue st' = write_queue st" "\<exists>t\<in>set (worker_threads st). \<not> died t"
  shows "program_step ok rd budget n m ((program_start k header src)\<lparr>threads := st\<rparr>) ((program_start k header src)\<lparr>threads := st'\<rparr>)"
proof -
  let ?p = "(program_start k header src)\<lparr>threads := st\<rparr>"
  have "running ?p" "connected ?p st'"
    using assms(2,3) by (auto simp: running_def connected_def workers_gone_def collector_gone_def program_start_def in_set_conv_nth)
  with threads_run [of ?p rd budget n m st' ok] assms(1) show ?thesis by (simp add: program_start_def)
qed

lemma example_dies:
  "\<exists>p w. (program_step True slice_read 4 1 900000)\<^sup>*\<^sup>* (program_start 1 (header_bytes 9) bad_block) p \<and> Died w \<in> set (worker_threads (threads p)) \<and>
     item_chunk w = 0 \<and> collector_at p = Serving"
proof -
  let ?p = "program_start 1 (header_bytes 9) bad_block" and ?st = "pipeline_start 1 (header_bytes 9) bad_block"
  let ?go = "program_step True slice_read 4 1 900000"
  have body: "take CHUNK_SIZE bad_block = bad_block" "length bad_block < CHUNK_SIZE" "bad_block \<noteq> []" by (simp_all add: bad_block_def CHUNK_SIZE_def)
  have slot: "length (memory ?st 0) = SLOT_SIZE" by (simp add: pipeline_start_def)
  obtain content src' where fill: "fill_slot slice_read (memory ?st 0) bad_block = Some (Inr ((content, length bad_block, True), src'))"
    "holds_data content bad_block (length bad_block)"
    by (rule slice.fill_slot_next [OF refl slot, where body = bad_block]) (use body in auto)
  let ?vars = "\<lparr>carry = header_bytes 9, chunk_id = 0\<rparr>"
  obtain f w content1 e where turn: "main_body 4 1 900000 ?vars 0 (content, length bad_block, True) = Inr (\<lparr>carry = [], chunk_id = 1\<rparr>, content1, [Register f, Post w], True)"
    "run_item content1 w = Inl e" "item_slot w = 0" "item_chunk w = 0"
    by (rule bad_turn [OF fill(2)])
  let ?st1 = "?st\<lparr>returned := [1..<RING_SLOTS], memory := (memory ?st)(0 := content), reader := Filled 0 (length bad_block) True src'\<rparr>"
  let ?st2 = "?st1\<lparr>filled := [(0, length bad_block, True)], reader := ReaderDone\<rparr>"
  let ?st3 = "?st2\<lparr>filled := [], memory := (memory ?st2)(0 := content1), main_vars := \<lparr>carry = [], chunk_id = 1\<rparr>, to_send := [Register f, Post w],
    main := MainDone, jobs := [\<lparr>job_slot = 0, job_content = content1, job_items = [w]\<rparr>]\<rparr>"
  let ?st4 = "?st3\<lparr>to_send := [Post w], inbox := [NewSlot f]\<rparr>"
  let ?st5 = "?st4\<lparr>to_send := [], work := [w]\<rparr>"
  let ?st6 = "?st5\<lparr>worker_threads := [Decoding w], work := []\<rparr>"
  let ?st7 = "?st6\<lparr>worker_threads := [Died w]\<rparr>"
  let ?at = "\<lambda>st. (program_start 1 (header_bytes 9) bad_block)\<lparr>threads := st\<rparr>"
  have s1: "pipeline_step slice_read 4 1 900000 ?st ?st1"
    using reader_fills [of ?st bad_block 0 "[1..<RING_SLOTS]" slice_read content "length bad_block" True src'] fill(1)
    by (simp add: pipeline_start_def RING_SLOTS_def upt_conv_Cons)
  have s2: "pipeline_step slice_read 4 1 900000 ?st1 ?st2"
    using reader_sends [of ?st1 0 "length bad_block" True src'] by (simp add: pipeline_start_def RING_SLOTS_def)
  have s3: "pipeline_step slice_read 4 1 900000 ?st2 ?st3"
    using main_turns [of ?st2 0 "length bad_block" True "[]" 4 1 900000 "\<lparr>carry = [], chunk_id = 1\<rparr>" content1 "[Register f, Post w]" True slice_read] turn(1)
    by (simp add: pipeline_start_def new_jobs_def)
  have s4: "pipeline_step slice_read 4 1 900000 ?st3 ?st4"
    using main_registers [of ?st3 f "[Post w]" 1] by (simp add: pipeline_start_def)
  have s5: "pipeline_step slice_read 4 1 900000 ?st4 ?st5"
    using main_posts [of ?st4 w "[]" 1] by (simp add: pipeline_start_def)
  have s6: "pipeline_step slice_read 4 1 900000 ?st5 ?st6"
    using worker_takes [of ?st5 "[]" "[]" w "[]"] by (simp add: pipeline_start_def)
  have s7: "pipeline_step slice_read 4 1 900000 ?st6 ?st7"
    using worker_dies [of ?st6 "[]" w "[]" e] turn(2,3) by (simp add: pipeline_start_def)
  have p: "?p = ?at ?st" by (simp add: program_start_def)
  have go: "?go (?at ?st) (?at ?st1)" "?go (?at ?st1) (?at ?st2)" "?go (?at ?st2) (?at ?st3)" "?go (?at ?st3) (?at ?st4)"
    "?go (?at ?st4) (?at ?st5)" "?go (?at ?st5) (?at ?st6)" "?go (?at ?st6) (?at ?st7)"
    by (rule early_step [OF s1] early_step [OF s2] early_step [OF s3] early_step [OF s4] early_step [OF s5] early_step [OF s6] early_step [OF s7];
        simp add: pipeline_start_def died_def)+
  note join = converse_rtranclp_into_rtranclp [where r = ?go]
  have "?go\<^sup>*\<^sup>* (?at ?st) (?at ?st7)"
    by (rule join [OF go(1)], rule join [OF go(2)], rule join [OF go(3)], rule join [OF go(4)], rule join [OF go(5)], rule join [OF go(6)],
        rule r_into_rtranclp [where r = ?go, OF go(7)])
  then have "?go\<^sup>*\<^sup>* ?p (?at ?st7)" by (simp only: p [symmetric])
  then show ?thesis using turn(4) by (intro exI [of _ "?at ?st7"] exI [of _ w]) (simp add: program_start_def)
qed

theorem dead_worker_stalls_witness:
  "\<exists>p w. (program_step True slice_read 4 1 900000)\<^sup>*\<^sup>* (program_start 1 (header_bytes 9) bad_block) p \<and> Died w \<in> set (worker_threads (threads p)) \<and>
     (\<forall>total_out. phase p \<noteq> Exited total_out) \<and> length (jobs (threads p)) \<le> RING_SLOTS \<and> out_file (threads p) = []"
proof -
  obtain p w where p: "(program_step True slice_read 4 1 900000)\<^sup>*\<^sup>* (program_start 1 (header_bytes 9) bad_block) p"
    "Died w \<in> set (worker_threads (threads p))" "item_chunk w = 0" "collector_at p = Serving"
    using example_dies by blast
  from dead_worker_stalls [OF p(1,2) rtranclp.rtrancl_refl] p show ?thesis by (intro exI [of _ p] exI [of _ w]) simp
qed

end
