(* ===== verification/Spec2Isabelle.thy ===== *)
theory Spec2Isabelle
  imports Parallel_Decode Segment_Safety Bz2_Readers Core_Count Lbunzip2_Failure Lbunzip2_Panic
begin

text \<open>
  A verification of lbzip2-rs, a parallel bzip2 decompressor in Rust.

  The program. A bzip2 file is a header, then blocks that each start with a 48-bit magic at any bit position, then a final
  magic and a checksum; files made by parallel compressors hold several such streams. A block is read by a bit reader
  (\<open>bitreader.rs\<close>), its symbols are decoded with Huffman tables (\<open>huffman.rs\<close>) and a move-to-front list (\<open>mtf.rs\<close>), the
  Burrows-Wheeler transform is inverted (\<open>bwt.rs\<close>), and runs are expanded (\<open>block.rs\<close>). Around the block decoder there are four
  ways to decode a file: sequentially (\<open>stream.rs\<close>); in memory with one task per block (\<open>parallel.rs\<close>), over the block
  scanner (\<open>block_scan.rs\<close>) and the parallel map (\<open>par.rs\<close>); as a \<open>Read\<close> implementation, over a slice or any source
  (\<open>reader.rs\<close>); and in chunks of segments (\<open>chunk.rs\<close>), by the command line program (\<open>bin/lbunzip2.rs\<close>).

  The theories, each of which opens with what it holds, in the order of the program:
  \<^item> \<open>Bz_Prelude\<close>: machine integers, results with their three kinds of fault (error value, panic, access outside an
    allocation), checked array operations, shared lemmas.
  \<^item> \<open>Bit_Reader\<close>: the 64-bit buffer and all reads; its contract is the locale \<open>bit_source\<close>, over which
    \<open>Reader_Programs\<close> gives the rules for programs that read bits: what they consume (\<open>reads\<close>) and that they are
    safe on any bits and depend on the bits alone (\<open>runs\<close>).
  \<^item> \<open>Huffman_Tree\<close>, \<open>Canonical_Codes\<close>, \<open>Huffman_Trie\<close>, \<open>Huffman_Decode\<close>, \<open>Huffman_Total\<close>: the tables, the mathematics of
    canonical codes, the node array as a trie, the two decoding paths, and behaviour on any table.
  \<^item> \<open>Mtf_Decoder\<close>, \<open>Inverse_Bwt\<close>, \<open>Rle2_Decoder\<close>: the three inverse transforms and their round trips.
  \<^item> \<open>Block_Decoder\<close>, \<open>Block_Safety\<close>, \<open>Block_Outcomes\<close>, \<open>Block_Roundtrip\<close>: the block decoder; its behaviour on any bits; the
    same by the bit position of the block in a slice (\<open>at_bit\<close>); and its correctness against an encoder of the format.
  \<^item> \<open>Stream_Decoder\<close>: the sequential decoder of a stream, its result on any bytes by the places of the blocks (\<open>blocks_at\<close>). \<open>Par_Map\<close>: the parallel map, as a function (locale \<open>index_map\<close>) and as a
    pool of threads in any interleaving that refines it. \<open>Block_Scan\<close>: the search for block magics, serial and parallel, and
    the split points. \<open>Samples\<close>: a concrete stream for the examples. \<open>Parallel_Decode\<close>: the decoder of \<open>parallel.rs\<close>.
  \<^item> \<open>Chunk_Decode\<close>: chunks and segments. \<open>Segment_Safety\<close>: a segment on any bits, by the places of the blocks and stream boundaries
    it passes (\<open>segment_at\<close>). \<open>Byte_Source\<close>: the \<open>Read\<close> interface and its contracts (locales \<open>byte_source\<close> and
    \<open>complete_source\<close>). \<open>File_Items\<close>: where the blocks of a file and the split points of its chunks are. \<open>Bz2_Readers\<close>: the two
    readers, which assume the contract of their source and keep it themselves.
  \<^item> The command line program. \<open>Core_Count\<close>: arguments and number of workers. \<open>Long_File\<close>: files of any length for the examples.
    \<open>Lbunzip2_Main\<close>: reader thread, main loop and worker, each on its own. \<open>Lbunzip2_Collector\<close>: the reorder buffer.
    \<open>Lbunzip2_Pipeline\<close>: all threads and their bounded channels as a step relation (\<open>pipeline_step\<close>), with the invariants that
    hold for any file: where every slot, item and result is, in which order slots are announced, and that the slot of an unwritten
    chunk still holds what was posted. \<open>Lbunzip2_Runs\<close>: well-formed files through the threads: output, absence of panics and
    deadlocks, end of every run.
  \<^item> \<open>Lbunzip2_Exit\<close>: the whole program as a step relation (\<open>program_step\<close>) over that of the threads: the channels close, the threads
    leave their loops, \<open>main\<close> joins them, and the output file may fail; with invariants for any file and, on the
    runs of a well-formed file, a measure and the absence of deadlocks. \<open>Lbunzip2_Program\<close>: \<open>main\<close> from the opened file to the threads
    (header, number of workers, errors of both) and the properties of all runs. \<open>Lbunzip2_Failure\<close>: what a failure of the output
    file leads to. \<open>Lbunzip2_Panic\<close>: what a panic of a worker leads to, up to the hang of the program.

  How the model follows the code. A Rust function is a function of the same name that returns a \<open>result\<close>; a
  \<open>&mut\<close> argument is passed in and returned; loops are recursive functions with a termination proof, or, where a loop
  depends on a source that may not return, \<open>partial_function (option)\<close> with \<open>None\<close> for not returning. Words have their
  width and wrap where the code wraps; a checked operation that overflows is a panic. Byte and bit counts that cannot overflow for a
  slice that fits in memory (\<open>8 * length\<close>) are natural numbers. So is the product of the bit count and the index of a split point, which
  the code computes in 64 bits and which wraps only for more splits than the address space leaves room for, and the index of a Huffman symbol, which
  the code casts to 16 bits and which is at most 257 for the tables of a block. The number of threads is an argument wherever the code takes it from
  the environment or the machine.

  The threads of \<open>bin/lbunzip2.rs\<close>. A state of \<open>pipeline\<close> has the contents of the 6 slots, the state of each thread and the
  contents of each channel; a step is one receive, send or computation of one thread, so every interleaving is a run. A slot is a
  number, handed from channel to channel as the code moves the \<open>Vec\<close>, while items keep pointing to it as the code keeps a raw pointer.
  A state of \<open>program\<close> adds where \<open>main\<close> is in its joins, which workers have left their loops, and how the collector and the writer
  have ended; its steps are those of the threads where the channels used still have both ends, and the ends themselves.
  The field \<open>jobs\<close> is not in the program: it records what was posted, so that the statements can speak of it. The bound of
  \<open>pipeline_ends\<close> counts, for each chunk, the steps of its slot and of at most one item for each worker, and then the ends and joins.

  What is shown. Correctness is stated against an encoder written from the format (\<open>encode_block\<close>, \<open>encode_stream\<close>,
  \<open>items_bits\<close>): for any data, code tables and checksums the decoders return the data. The safety theorems hold for arbitrary
  bits: they give the result of a decoder by where the blocks are and what the block decoder makes of each on its own, so that no
  output can be lost, repeated or reordered, and tie every panic to the code tables of the block it happens in. The parallel decoders are compared with the sequential one, with the places where they differ (truncated
  files, magics in the last bytes) stated as theorems of their own. The command line program decompresses with 8 workers or more
  (\<open>pipeline_decompresses\<close>) and ends (\<open>pipeline_ends\<close>); that it does not with fewer on files of more than one chunk is stated as
  well (\<open>one_worker_drops_chunk\<close>, \<open>few_workers_panic\<close>). Whatever the file, a return without a panic means that all segments were
  decoded and written (\<open>exit_means_complete\<close>), and the raw pointers of the workers are valid (\<open>slots_shared_safely\<close>) unless the
  collector panics, which it does when the output file fails (\<open>failed_writer_frees_slots\<close>); a panic of a worker stops the output at
  its chunk (\<open>dead_worker_stalls\<close>) and, once it holds up all slots, \<open>main\<close> for ever (\<open>program_hangs\<close>). The well-formed files of the chunk and reader theorems are those
  whose only block magics are the ones of their blocks: the 48-bit pattern can occur in compressed data by chance, and the
  program, like every parallel bzip2 decoder, then takes it for a block.

  Not modelled: checksums, which the program reads and ignores; the \<open>Display\<close> and \<open>Error\<close> impls of \<open>BlockError\<close>;
  the benchmarks; of \<open>bin/lbunzip2.rs\<close> the opening of the input file, the messages and the timing output, which are input and output
  only; and the start with no worker, which panics on the first send of work and whose channels of no capacity would need a rendezvous; every
  state of the threads has the workers it started with, and the theorems ask for at least one where it matters.
\<close>

end
